(* ===== verification/Prelude.thy ===== *)
theory Prelude
  imports Main "HOL-Library.Word"
begin

text \<open>
  What the components of the development share: the widths of the C integer types, the error
  values, the part of the C library the sources call (strings that end in NUL, string literals
  compared with \<^verbatim>\<open>strncmp\<close>, \<^verbatim>\<open>strtoull\<close>, \<^verbatim>\<open>snprintf\<close> with the conversions the sources use),
  and the lemmas on these that carry the round-trip proofs of the components.

  Conventions. The target is LP64: \<^verbatim>\<open>int\<close> and \<^verbatim>\<open>unsigned int\<close> have 32 bits, \<^verbatim>\<open>size_t\<close>,
  \<^verbatim>\<open>long\<close>, \<^verbatim>\<open>off_t\<close> and \<^verbatim>\<open>unsigned long long\<close> have 64. A C string is the list of its bytes
  before the terminating NUL; reading at the end of the list yields the NUL. An allocation
  can fail: an operation that allocates takes \<open>mem\<close>, and \<open>mem i\<close> says whether its \<open>i\<close>-th
  allocation succeeds.
\<close>

named_theorems cstr_simps "evaluation of the C string primitives"
named_theorems out_simps "evaluation of the buffer writer"

section \<open>Machine types and errors\<close>

type_synonym u8 = "8 word"
type_synonym u32 = "32 word"
type_synonym u64 = "64 word"

text \<open>\<open>mem i\<close>: the \<open>i\<close>-th allocation of the call succeeds.\<close>

type_synonym mem = "nat \<Rightarrow> bool"

abbreviation all_mem :: mem where
  "all_mem \<equiv> \<lambda>_. True"

text \<open>
  The ways a call can fail: the \<^verbatim>\<open>errno\<close> values the sources set, \<open>EFail\<close> for a failure return
  that leaves \<^verbatim>\<open>errno\<close> alone, and \<open>UB\<close> where the C program has no defined behaviour (a NULL
  dereference, an out-of-bounds access, an overflow of a signed integer).
\<close>

datatype c_error = EINVAL | ERANGE | ENOMEM | EFAULT | EFBIG | EFail | UB

definition UINT_MAX :: u64 where
  "UINT_MAX = 4294967295"

definition INT_MAX :: int where
  "INT_MAX = 2147483647"

definition SIZE_MAX :: u64 where
  "SIZE_MAX = 18446744073709551615"

definition SSIZE_MAX :: u64 where
  "SSIZE_MAX = 9223372036854775807"

text \<open>Sequencing of fallible calls, and the guard of an early return.\<close>

definition bindE :: "c_error + 'a \<Rightarrow> ('a \<Rightarrow> c_error + 'b) \<Rightarrow> c_error + 'b" where
  "bindE r f = (case r of Inl e \<Rightarrow> Inl e | Inr x \<Rightarrow> f x)"

lemma bindE_simps [simp]:
  "bindE (Inl e) f = Inl e"
  "bindE (Inr x) f = f x"
  by (simp_all add: bindE_def)

lemma bindE_eq_Inr:
  "bindE r f = Inr y \<longleftrightarrow> (\<exists>x. r = Inr x \<and> f x = Inr y)"
  by (cases r) auto

section \<open>C strings\<close>

definition NUL :: char where
  "NUL = CHR 0x00"

text \<open>\<^verbatim>\<open>*parse\<close>: the byte at the head of the string, NUL at its end.\<close>

definition peek :: "string \<Rightarrow> char" where
  "peek s = (case s of [] \<Rightarrow> NUL | c # _ \<Rightarrow> c)"

lemma peek_simps [simp]: "peek [] = NUL" "peek (c # s) = c"
  by (simp_all add: peek_def)

text \<open>A list of bytes that is a C string holds no NUL.\<close>

definition cstr :: "string \<Rightarrow> bool" where
  "cstr s \<longleftrightarrow> NUL \<notin> set s"

lemma cstr_Nil [simp]: "cstr []"
  and cstr_Cons [simp]: "cstr (c # s) \<longleftrightarrow> c \<noteq> NUL \<and> cstr s"
  and cstr_append [simp]: "cstr (s @ t) \<longleftrightarrow> cstr s \<and> cstr t"
  by (auto simp: cstr_def)

text \<open>
  \<^verbatim>\<open>strncmp(parse, LIT, strlen(LIT)) == 0\<close> followed by \<^verbatim>\<open>parse += strlen(LIT)\<close>: the rest of the
  string behind the literal, or \<open>None\<close> when the comparison fails.
\<close>

fun after_lit :: "string \<Rightarrow> string \<Rightarrow> string option" where
  "after_lit [] s = Some s"
| "after_lit (c # lit) [] = None"
| "after_lit (c # lit) (d # s) = (if c = d then after_lit lit s else None)"

lemma after_lit_append [simp]: "after_lit lit (lit @ s) = Some s"
  by (induction lit) auto

lemma after_lit_Some: "after_lit lit s = Some t \<longleftrightarrow> s = lit @ t"
  by (induction lit s rule: after_lit.induct) auto

lemma after_lit_length: "after_lit lit s = Some t \<Longrightarrow> length t = length s - length lit"
  by (auto simp: after_lit_Some)

lemma tl_shorter: "length t \<le> length s \<Longrightarrow> s \<noteq> [] \<Longrightarrow> length t - Suc 0 < length s"
  by (cases s) auto

text \<open>Two strings that a separator ends agree in front of it and behind it.\<close>

lemma split_at_sep:
  assumes "x \<notin> set a" "x \<notin> set c"
  shows "a @ x # b = c @ x # d \<longleftrightarrow> a = c \<and> b = d"
proof
  assume eq: "a @ x # b = c @ x # d"
  have "takeWhile (\<lambda>y. y \<noteq> x) (a @ x # b) = a" "takeWhile (\<lambda>y. y \<noteq> x) (c @ x # d) = c"
    using assms by (auto simp: takeWhile_append)
  with eq show "a = c \<and> b = d" by auto
qed simp

section \<open>Decimal and octal numbers\<close>

definition digit_char :: "nat \<Rightarrow> char" where
  "digit_char d = char_of (48 + d)"

fun show_base :: "nat \<Rightarrow> nat \<Rightarrow> string" where
  "show_base b n =
     (if b < 2 \<or> n < b then [digit_char n]
      else show_base b (n div b) @ [digit_char (n mod b)])"

declare show_base.simps [simp del]

text \<open>The conversions \<^verbatim>\<open>%u\<close>, \<^verbatim>\<open>%zu\<close>, \<^verbatim>\<open>%lu\<close>; \<^verbatim>\<open>%.{p}u\<close>; \<^verbatim>\<open>%o\<close>; \<^verbatim>\<open>%d\<close>.\<close>

definition show_nat :: "nat \<Rightarrow> string" where
  "show_nat n = show_base 10 n"

definition show_prec :: "nat \<Rightarrow> nat \<Rightarrow> string" where
  "show_prec p n = replicate (p - length (show_nat n)) CHR ''0'' @ show_nat n"

definition show_oct :: "nat \<Rightarrow> string" where
  "show_oct n = show_base 8 n"

definition show_int :: "int \<Rightarrow> string" where
  "show_int i = (if i < 0 then CHR ''-'' # show_nat (nat (- i)) else show_nat (nat i))"

definition is_digit :: "nat \<Rightarrow> char \<Rightarrow> bool" where
  "is_digit b c \<longleftrightarrow> 48 \<le> (of_char c :: nat) \<and> (of_char c :: nat) < 48 + b"

definition digits_val :: "nat \<Rightarrow> string \<Rightarrow> nat" where
  "digits_val b ds = foldl (\<lambda>a c. a * b + (of_char c - 48)) 0 ds"

text \<open>\<^verbatim>\<open>isspace\<close> in the C locale.\<close>

definition c_isspace :: "char \<Rightarrow> bool" where
  "c_isspace c \<longleftrightarrow> c \<in> {CHR '' '', CHR 0x09, CHR 0x0A, CHR 0x0B, CHR 0x0C, CHR 0x0D}"

text \<open>
  \<^verbatim>\<open>strtoull(s, &endptr, base)\<close> for the bases 8 and 10 the sources use: white space, an
  optional sign, digits. The result is the value and the string at \<^verbatim>\<open>endptr\<close>. With no digit,
  the value is 0 and \<^verbatim>\<open>endptr\<close> is the start of the string; an overflow yields \<^verbatim>\<open>ULLONG_MAX\<close>; a
  minus sign negates the value in the unsigned type.
\<close>

definition strtoull :: "nat \<Rightarrow> string \<Rightarrow> u64 \<times> string" where
  "strtoull b s =
     (let s1 = dropWhile c_isspace s;
          neg = (peek s1 = CHR ''-'');
          s2 = (if peek s1 = CHR ''-'' \<or> peek s1 = CHR ''+'' then tl s1 else s1);
          ds = takeWhile (is_digit b) s2;
          v = digits_val b ds
      in if ds = [] then (0, s)
         else ((if 2 ^ 64 \<le> v then SIZE_MAX else if neg then - of_nat v else of_nat v),
               dropWhile (is_digit b) s2))"

lemma length_strtoull: "length (snd (strtoull b s)) \<le> length s"
proof -
  have 1: "length (dropWhile (is_digit b) t) \<le> length t" for t
    by (rule length_dropWhile_le)
  have 2: "length (dropWhile c_isspace s) \<le> length s"
    by (rule length_dropWhile_le)
  have 3: "length (tl t) \<le> length t" for t :: string
    by simp
  have "length (dropWhile (is_digit b) (tl (dropWhile c_isspace s))) \<le> length s"
    using 1 2 3 le_trans by meson
  moreover have "length (dropWhile (is_digit b) (dropWhile c_isspace s)) \<le> length s"
    using 1 2 le_trans by meson
  ultimately show ?thesis
    by (simp add: strtoull_def Let_def)
qed

lemma length_strtoull_eq: "strtoull b s = (v, t) \<Longrightarrow> length t \<le> length s"
  using length_strtoull [of b s] by simp

subsection \<open>Reading back a printed number\<close>

lemma of_char_digit_char [simp]: "d < 10 \<Longrightarrow> (of_char (digit_char d) :: nat) = 48 + d"
  by (simp add: digit_char_def)

lemma is_digit_digit_char [simp]: "d < b \<Longrightarrow> b \<le> 10 \<Longrightarrow> is_digit b (digit_char d)"
  by (simp add: is_digit_def)

lemma show_base_digits: "2 \<le> b \<Longrightarrow> b \<le> 10 \<Longrightarrow> \<forall>c \<in> set (show_base b n). is_digit b c"
proof (induction b n rule: show_base.induct)
  case (1 b n)
  show ?case
  proof (cases "n < b")
    case True
    with "1.prems" show ?thesis by (simp add: show_base.simps [of b n])
  next
    case False
    with "1.prems" "1.IH" have "\<forall>c \<in> set (show_base b (n div b)). is_digit b c" by simp
    with False "1.prems" show ?thesis by (auto simp: show_base.simps [of b n])
  qed
qed

lemma show_base_nonempty [simp]: "show_base b n \<noteq> []"
  by (subst show_base.simps) simp

lemma digits_val_snoc: "digits_val b (ds @ [c]) = digits_val b ds * b + (of_char c - 48)"
  by (simp add: digits_val_def)

lemma digits_val_show_base: "2 \<le> b \<Longrightarrow> b \<le> 10 \<Longrightarrow> digits_val b (show_base b n) = n"
proof (induction b n rule: show_base.induct)
  case (1 b n)
  show ?case
  proof (cases "n < b")
    case True
    with "1.prems" show ?thesis by (simp add: show_base.simps [of b n] digits_val_def)
  next
    case False
    with "1.prems" "1.IH" have "digits_val b (show_base b (n div b)) = n div b" by simp
    moreover have "n mod b < 10"
      using "1.prems" mod_less_divisor [of b n] by linarith
    ultimately show ?thesis
      using False "1.prems" by (simp add: show_base.simps [of b n] digits_val_snoc)
  qed
qed

lemma digits_val_zeros:
  "digits_val b (replicate k CHR ''0'' @ ds) = digits_val b ds"
  by (induction k) (simp_all add: digits_val_def)

text \<open>The string behind a number must not continue the number.\<close>

definition no_digit :: "nat \<Rightarrow> string \<Rightarrow> bool" where
  "no_digit b s \<longleftrightarrow> \<not> is_digit b (peek s)"

lemma is_digit_not_space: "b \<le> 10 \<Longrightarrow> is_digit b c \<Longrightarrow> \<not> c_isspace c"
  by (auto simp: is_digit_def c_isspace_def)

lemma is_digit_not_sign: "b \<le> 10 \<Longrightarrow> is_digit b c \<Longrightarrow> c \<noteq> CHR ''-'' \<and> c \<noteq> CHR ''+''"
  by (auto simp: is_digit_def)

lemma not_digit_NUL: "b \<le> 10 \<Longrightarrow> \<not> is_digit b NUL"
  by (simp add: is_digit_def NUL_def)

lemma takeWhile_digits:
  assumes "\<forall>c \<in> set ds. is_digit b c" and "no_digit b t"
  shows "takeWhile (is_digit b) (ds @ t) = ds \<and> dropWhile (is_digit b) (ds @ t) = t"
  using assms by (induction ds) (auto simp: no_digit_def peek_def split: list.splits)

text \<open>\<^verbatim>\<open>strtoull\<close> on a run of digits, with and without a minus sign.\<close>

lemma strtoull_digits:
  assumes ds: "\<forall>c \<in> set ds. is_digit b c" "ds \<noteq> []" and b: "b \<le> 10"
    and t: "no_digit b t" and v: "digits_val b ds < 2 ^ 64"
  shows "strtoull b (ds @ t) = (of_nat (digits_val b ds), t)"
    and "strtoull b (CHR ''-'' # ds @ t) = (- of_nat (digits_val b ds), t)"
proof -
  obtain c cs where c: "ds = c # cs" and dc: "is_digit b c"
    using ds by (cases ds) auto
  have sp: "\<not> c_isspace c" and sg: "c \<noteq> CHR ''-''" "c \<noteq> CHR ''+''"
    using is_digit_not_space is_digit_not_sign b dc by blast+
  have drop: "dropWhile c_isspace (ds @ t) = ds @ t"
    using sp c by simp
  have pk: "peek (ds @ t) = c"
    using c by simp
  note tw = takeWhile_digits [OF ds(1) t]
  show "strtoull b (ds @ t) = (of_nat (digits_val b ds), t)"
    using drop pk sg tw ds(2) v by (simp add: strtoull_def Let_def)
  have "\<not> c_isspace CHR ''-''"
    by (simp add: c_isspace_def)
  then show "strtoull b (CHR ''-'' # ds @ t) = (- of_nat (digits_val b ds), t)"
    using tw ds(2) v by (simp add: strtoull_def Let_def)
qed

lemma show_nat_digits: "\<forall>c \<in> set (show_nat n). is_digit 10 c"
  by (simp add: show_nat_def show_base_digits)

lemma show_nat_nonempty [simp]: "show_nat n \<noteq> []"
  by (simp add: show_nat_def)

lemma show_nat_01: "show_nat 0 = ''0''" "show_nat (Suc 0) = ''1''"
  by code_simp+

lemma show_nat_inj: "show_nat m = show_nat n \<longleftrightarrow> m = n"
proof
  assume "show_nat m = show_nat n"
  then have "digits_val 10 (show_base 10 m) = digits_val 10 (show_base 10 n)"
    by (simp only: show_nat_def)
  then show "m = n" by (simp add: digits_val_show_base)
qed simp

lemma strtoull_show_nat [cstr_simps]:
  assumes "n < 2 ^ 64" and "no_digit 10 t"
  shows "strtoull 10 (show_nat n @ t) = (of_nat n, t)"
  using strtoull_digits(1) [of "show_nat n" 10 t] assms
  by (simp add: show_nat_digits show_nat_def digits_val_show_base show_base_digits)

lemma strtoull_show_prec [cstr_simps]:
  assumes "n < 2 ^ 64" and "no_digit 10 t"
  shows "strtoull 10 (show_prec p n @ t) = (of_nat n, t)"
proof -
  have "\<forall>c \<in> set (show_prec p n). is_digit 10 c"
    using show_nat_digits by (auto simp: show_prec_def is_digit_def)
  moreover have "digits_val 10 (show_prec p n) = n"
    by (simp add: show_prec_def digits_val_zeros show_nat_def digits_val_show_base)
  ultimately show ?thesis
    using strtoull_digits(1) [of "show_prec p n" 10 t] assms by (simp add: show_prec_def)
qed

lemma strtoull_show_oct [cstr_simps]:
  assumes "n < 2 ^ 64" and "no_digit 8 t"
  shows "strtoull 8 (CHR ''0'' # show_oct n @ t) = (of_nat n, t)"
proof -
  have d: "\<forall>c \<in> set (CHR ''0'' # show_oct n). is_digit 8 c"
    using show_base_digits [of 8 n] by (auto simp: show_oct_def is_digit_def)
  have "digits_val 8 (CHR ''0'' # show_oct n) = n"
    using digits_val_zeros [of 8 1 "show_oct n"]
    by (simp add: show_oct_def digits_val_show_base)
  then show ?thesis
    using strtoull_digits(1) [of "CHR ''0'' # show_oct n" 8 t] d assms by simp
qed

text \<open>
  A negative number printed with \<^verbatim>\<open>%d\<close> is read back by \<^verbatim>\<open>strtoull\<close> as its residue modulo
  \<open>2 ^ 64\<close>.
\<close>

lemma strtoull_show_int [cstr_simps]:
  assumes "- (2 ^ 63) \<le> i" "i < 2 ^ 63" and "no_digit 10 t"
  shows "strtoull 10 (show_int i @ t) = (word_of_int i, t)"
proof (cases "i < 0")
  case True
  then have "nat (- i) < 2 ^ 64" using assms by simp
  then have "strtoull 10 (CHR ''-'' # show_nat (nat (- i)) @ t) = (- of_nat (nat (- i)), t)"
    using strtoull_digits(2) [of "show_nat (nat (- i))" 10 t] assms show_nat_digits
    by (simp add: show_nat_def digits_val_show_base)
  moreover have "- (of_nat (nat (- i)) :: u64) = word_of_int i"
    using True by simp
  ultimately show ?thesis using True by (simp add: show_int_def)
next
  case False
  then have "nat i < 2 ^ 64" using assms by simp
  moreover have "(of_nat (nat i) :: u64) = word_of_int i"
    using False by simp
  ultimately show ?thesis
    using False assms by (simp add: show_int_def strtoull_show_nat)
qed

lemma no_digit_Cons [cstr_simps]: "no_digit b (c # t) \<longleftrightarrow> \<not> is_digit b c"
  by (simp add: no_digit_def)

lemma no_digit_Nil [cstr_simps]: "b \<le> 10 \<Longrightarrow> no_digit b []"
  by (simp add: no_digit_def not_digit_NUL)

lemma cstr_show_nat [simp]: "cstr (show_nat n)"
  using show_nat_digits not_digit_NUL [of 10] by (auto simp: cstr_def)

lemma cstr_show_prec [simp]: "cstr (show_prec p n)"
  by (auto simp: show_prec_def cstr_def [of "replicate _ _"] NUL_def)

lemma cstr_show_int [simp]: "cstr (show_int i)"
  by (simp add: show_int_def NUL_def)

subsection \<open>The length of a printed number\<close>

lemma length_show_base_le:
  "2 \<le> b \<Longrightarrow> 0 < k \<Longrightarrow> n < b ^ k \<Longrightarrow> length (show_base b n) \<le> k"
proof (induction b n arbitrary: k rule: show_base.induct)
  case (1 b n)
  show ?case
  proof (cases "n < b")
    case True
    with "1.prems" show ?thesis by (simp add: show_base.simps [of b n])
  next
    case False
    obtain j where j: "k = Suc j"
      using "1.prems" by (cases k) auto
    moreover have "j \<noteq> 0"
      using False "1.prems" j by (intro notI) simp
    ultimately have k: "k = Suc j" "0 < j" by simp_all
    have "n div b < b ^ j"
      using "1.prems" k by (simp add: less_mult_imp_div_less mult.commute)
    with "1.IH" [OF _ "1.prems"(1) k(2)] False "1.prems" have "length (show_base b (n div b)) \<le> j"
      by simp
    with False k "1.prems" show ?thesis by (simp add: show_base.simps [of b n])
  qed
qed

lemma length_show_base_ge: "2 \<le> b \<Longrightarrow> b ^ k \<le> n \<Longrightarrow> k < length (show_base b n)"
proof (induction b n arbitrary: k rule: show_base.induct)
  case (1 b n)
  show ?case
  proof (cases "n < b")
    case True
    have "k = 0"
    proof (rule ccontr)
      assume "k \<noteq> 0"
      then have "b \<le> b ^ k" using "1.prems" by (simp add: self_le_power)
      with True "1.prems" show False by simp
    qed
    with True show ?thesis by (simp add: show_base.simps [of b n])
  next
    case False
    show ?thesis
    proof (cases k)
      case 0
      then show ?thesis by simp
    next
      case (Suc j)
      have "b ^ j \<le> n div b"
        using "1.prems" Suc by (simp add: less_eq_div_iff_mult_less_eq mult.commute)
      with "1.IH" False "1.prems" have "j < length (show_base b (n div b))" by simp
      with Suc False "1.prems" show ?thesis by (simp add: show_base.simps [of b n])
    qed
  qed
qed

lemma length_show_nat_eq: "10 ^ k \<le> n \<Longrightarrow> n < 10 ^ Suc k \<Longrightarrow> length (show_nat n) = Suc k"
  using length_show_base_le [of 10 "Suc k" n] length_show_base_ge [of 10 k n]
  by (simp add: show_nat_def)

lemma length_show_nat_le: "0 < k \<Longrightarrow> n < 10 ^ k \<Longrightarrow> length (show_nat n) \<le> k"
  by (simp add: show_nat_def length_show_base_le)

lemma length_show_int_le: "0 < k \<Longrightarrow> nat \<bar>i\<bar> < 10 ^ k \<Longrightarrow> length (show_int i) \<le> Suc k"
  using length_show_nat_le [of k "nat \<bar>i\<bar>"] by (auto simp: show_int_def)

lemma length_show_prec: "length (show_prec p n) = max p (length (show_nat n))"
  by (simp add: show_prec_def)

subsection \<open>Machine words in text\<close>

lemma length_show_u64: "length (show_nat (unat (w :: u64))) \<le> 20"
  using length_show_nat_le [of 20 "unat w"] unsigned_less [of w, where ?'a = nat] by simp

lemma length_show_u32: "length (show_nat (unat (w :: u32))) \<le> 10"
  using length_show_nat_le [of 10 "unat w"] unsigned_less [of w, where ?'a = nat] by simp

lemma length_show_i32: "length (show_int (sint (w :: u32))) \<le> 11"
  using length_show_int_le [of 10 "sint w"] sint_ge [of w] sint_lt [of w] by simp

lemma length_show_i8: "length (show_int (sint (w :: u8))) \<le> 4"
  using length_show_int_le [of 3 "sint w"] sint_ge [of w] sint_lt [of w] by simp

lemma is_digit_literals [simp]:
  "\<not> is_digit 10 CHR ''-''" "\<not> is_digit 10 CHR '')''" "\<not> is_digit 10 CHR ''.''"
  "\<not> is_digit 10 CHR ''|''" "\<not> is_digit 10 CHR '':''" "\<not> is_digit 8 CHR ''|''"
  "\<not> is_digit 10 CHR ''r''" "\<not> is_digit 10 CHR ''R''"
  by (simp_all add: is_digit_def)

lemma unat_u64_bound [simp]: "unat (w :: u64) < 18446744073709551616"
  using unsigned_less [of w, where ?'a = nat] by simp

lemma unat_u32_bound [simp]: "unat (w :: u32) < 18446744073709551616"
  using unsigned_less [of w, where ?'a = nat] by simp

lemma strtoull_u64 [cstr_simps]:
  "no_digit 10 t \<Longrightarrow> strtoull 10 (show_nat (unat (w :: u64)) @ t) = (w, t)"
  by (simp add: strtoull_show_nat)

lemma not_SIZE_MAX_less [simp]: "\<not> SIZE_MAX < v"
  by (simp add: SIZE_MAX_def not_less word_le_nat_alt less_Suc_eq_le [symmetric])

lemma scast_back [simp]: "(ucast (scast (w :: u32) :: u64) :: u32) = w"
  by transfer (simp add: take_bit_signed_take_bit)

text \<open>A C \<^verbatim>\<open>int\<close> printed with \<^verbatim>\<open>%d\<close> is read back sign-extended to 64 bits.\<close>

lemma strtoull_i32 [cstr_simps]:
  assumes "no_digit 10 t"
  shows "strtoull 10 (show_int (sint (w :: u32)) @ t) = (scast w, t)"
proof -
  have "- (2 ^ 31) \<le> sint w" "sint w < 2 ^ 31"
    using sint_ge [of w] sint_lt [of w] by simp_all
  then have "- (2 ^ 63) \<le> sint w" "sint w < 2 ^ 63"
    by simp_all
  from strtoull_show_int [OF this assms] show ?thesis
    by (simp only: scast_eq)
qed

section \<open>Writing into a bounded buffer\<close>

text \<open>
  The value \<^verbatim>\<open>snprintf\<close> returns for an output of the given characters: its length, or a negative
  number when an \<^verbatim>\<open>int\<close> cannot hold it.
\<close>

definition snprintf_ret :: "string \<Rightarrow> int" where
  "snprintf_ret out = (if int (length out) \<le> INT_MAX then int (length out) else - 1)"

text \<open>What \<^verbatim>\<open>snprintf(tgt, len, ...)\<close> leaves in the buffer in front of the NUL.\<close>

definition snprintf_buf :: "nat \<Rightarrow> string \<Rightarrow> string" where
  "snprintf_buf len out = take (len - 1) out"

text \<open>
  The printing functions write one piece after another into the caller's buffer: \<open>ob_text\<close> is
  what the buffer holds in front of its NUL, \<open>ob_len\<close> the space that is left, \<open>ob_tot\<close> the total
  length, which grows even when nothing more fits.
\<close>

record outbuf =
  ob_text :: string
  ob_len :: nat
  ob_tot :: nat

definition outbuf_init :: "nat \<Rightarrow> outbuf" where
  "outbuf_init len = \<lparr>ob_text = [], ob_len = len, ob_tot = 0\<rparr>"

text \<open>
  One piece: \<^verbatim>\<open>prres = snprintf(tgtstr, len, ...); if (prres < 1) return 0; if (len > prres)
  { len -= prres; tgtstr += prres; } else { len = 0; } totsz += prres\<close>. \<open>None\<close> is the early
  return.
\<close>

definition emit :: "string \<Rightarrow> outbuf \<Rightarrow> outbuf option" where
  "emit out b =
     (let prres = snprintf_ret out in
      if prres < 1 then None
      else Some \<lparr>ob_text = ob_text b @ snprintf_buf (ob_len b) out,
                 ob_len = (if int (ob_len b) > prres then ob_len b - nat prres else 0),
                 ob_tot = ob_tot b + nat prres\<rparr>)"

fun emit_all :: "string list \<Rightarrow> outbuf \<Rightarrow> outbuf option" where
  "emit_all [] b = Some b"
| "emit_all (p # ps) b = (case emit p b of None \<Rightarrow> None | Some b' \<Rightarrow> emit_all ps b')"

text \<open>A piece that is neither empty nor longer than an \<^verbatim>\<open>int\<close> is always accepted.\<close>

definition printable :: "string \<Rightarrow> bool" where
  "printable p \<longleftrightarrow> p \<noteq> [] \<and> int (length p) \<le> INT_MAX"

definition printed :: "nat \<Rightarrow> string \<Rightarrow> outbuf" where
  "printed len out0 =
     \<lparr>ob_text = take (len - 1) out0, ob_len = len - length out0, ob_tot = length out0\<rparr>"

lemma emit_printed [out_simps]:
  assumes "printable p"
  shows "emit p (printed len out0) = Some (printed len (out0 @ p))"
proof -
  have ret: "snprintf_ret p = int (length p)" "\<not> int (length p) < 1"
    using assms by (auto simp: printable_def snprintf_ret_def Suc_leI)
  have "take (len - 1) out0 @ take (len - length out0 - 1) p = take (len - 1) (out0 @ p)"
    by (simp add: diff_commute)
  then show ?thesis
    using ret by (auto simp: emit_def printed_def snprintf_buf_def)
qed

lemma outbuf_init_printed: "outbuf_init len = printed len []"
  by (simp add: outbuf_init_def printed_def)

lemma emit_all_printed:
  "\<forall>p \<in> set ps. printable p \<Longrightarrow> emit_all ps (printed len out0) = Some (printed len (out0 @ concat ps))"
  by (induction ps arbitrary: out0) (simp_all add: emit_printed)

lemma emit_None: "emit p b = None \<longleftrightarrow> \<not> printable p"
  by (auto simp: emit_def printable_def snprintf_ret_def Let_def INT_MAX_def)

section \<open>Small numbers as words\<close>

lemma unat_of_nat_lt: "j < 2 ^ 64 \<Longrightarrow> unat (of_nat j :: u64) = j"
  by (simp add: unat_of_nat)

lemma sint_nonneg:
  assumes "unat (x :: u64) < 2 ^ 63"
  shows "sint x = int (unat x)"
proof -
  have "sint x = signed_take_bit 63 (uint x)" by (simp add: sint_uint)
  moreover have "int (unat x) < int (2 ^ 63)" using assms by (simp only: of_nat_less_iff)
  then have "uint x < 2 ^ 63" by simp
  then have "signed_take_bit 63 (uint x) = uint x" by (intro signed_take_bit_int_eq_self) (use uint_ge_0 [of x] in linarith, simp)
  ultimately show ?thesis by simp
qed

end
