(* ===== verification/Codec.thy ===== *)
theory Codec
  imports Prelude
begin

text \<open>
  The contract of a printer and a parser that belong together. MarFS stores its metadata as
  text: every tag and every recovery message has a \<^verbatim>\<open>..._tostr\<close> function that writes into a
  bounded buffer and returns the full length, and a \<^verbatim>\<open>..._initstr\<close> function that reads the text
  back. The callers print twice: once with length 0 to learn the size, then into an allocated
  buffer. The locale states what the printer and the parser owe each other; each tag theory
  interprets it on its own functions.
\<close>

locale tag_codec =
  fixes tostr :: "'a \<Rightarrow> nat \<Rightarrow> outbuf option"
    and initstr :: "string \<Rightarrow> c_error + 'a"
    and enc :: "'a \<Rightarrow> string"
    and valid :: "'a \<Rightarrow> bool"
  assumes tostr_enc: "valid x \<Longrightarrow> tostr x len = Some (printed len (enc x))"
    and initstr_enc: "valid x \<Longrightarrow> initstr (enc x) = Inr x"
begin

lemma enc_inj: "valid x \<Longrightarrow> valid y \<Longrightarrow> enc x = enc y \<Longrightarrow> x = y"
  by (metis initstr_enc sum.inject(2))

lemma sized_roundtrip:
  assumes "valid x"
  shows "\<exists>b b'. tostr x 0 = Some b \<and> tostr x (Suc (ob_tot b)) = Some b' \<and>
                initstr (ob_text b') = Inr x"
  using assms by (simp add: tostr_enc initstr_enc printed_def)

lemma fits_roundtrip:
  assumes "valid x" and "tostr x len = Some b" and "ob_tot b < len"
  shows "initstr (ob_text b) = Inr x"
  using assms by (auto simp: tostr_enc initstr_enc printed_def)

lemma never_overruns:
  assumes "valid x" and "tostr x len = Some b"
  shows "length (ob_text b) \<le> len - 1 \<and> ob_tot b = length (enc x)"
  using assms by (auto simp: tostr_enc printed_def)

lemma truncation_reported:
  assumes "valid x" and "tostr x len = Some b" and "0 < len"
  shows "ob_text b = enc x \<longleftrightarrow> ob_tot b < len"
proof -
  have b: "b = printed len (enc x)"
    using assms by (simp add: tostr_enc)
  show ?thesis
  proof (cases "length (enc x) < len")
    case True
    then show ?thesis using b by (simp add: printed_def)
  next
    case False
    then have "length (take (len - 1) (enc x)) \<noteq> length (enc x)"
      using assms(3) by simp
    then have "take (len - 1) (enc x) \<noteq> enc x" by metis
    then show ?thesis using b False by (simp add: printed_def)
  qed
qed

end

end
