(* ===== verification/General.thy ===== *)
theory General
  imports Prelude
begin

text \<open>
  The helpers that other sources include inline (\<^verbatim>\<open>src/general_include\<close>): the number of decimal
  digits of a value, by which the recovery strings are padded, and the check for characters
  that names may not hold.
\<close>

section \<open>Number of digits\<close>

text \<open>\<^verbatim>\<open>numdigits_unsigned\<close> on a 64-bit target, the comparisons in the order of the source.\<close>

definition numdigits_unsigned :: "u64 \<Rightarrow> int" where
  "numdigits_unsigned val =
     (if val < 10 then 1
      else if val < 100 then 2
      else if val < 1000 then 3
      else if val < 10000 then 4
      else if val < 100000 then 5
      else if val < 1000000 then 6
      else if val < 10000000 then 7
      else if val < 100000000 then 8
      else if val < 1000000000 then 9
      else if val < 10000000000 then 10
      else if val < 100000000000 then 11
      else if val < 1000000000000 then 12
      else if val < 10000000000000 then 13
      else if val < 100000000000000 then 14
      else if val < 1000000000000000 then 15
      else if val < 10000000000000000 then 16
      else if val < 100000000000000000 then 17
      else if val < 1000000000000000000 then 18
      else if val < 10000000000000000000 then 19
      else if val \<le> 18446744073709551615 then 20
      else - 1)"

definition SIZE_DIGITS :: nat where
  "SIZE_DIGITS = nat (numdigits_unsigned SIZE_MAX)"

definition UINT_DIGITS :: nat where
  "UINT_DIGITS = nat (numdigits_unsigned UINT_MAX)"

lemma SIZE_DIGITS_eq [simp]: "SIZE_DIGITS = 20"
  by (simp add: SIZE_DIGITS_def numdigits_unsigned_def SIZE_MAX_def)

lemma UINT_DIGITS_eq [simp]: "UINT_DIGITS = 10"
  by (simp add: UINT_DIGITS_def numdigits_unsigned_def UINT_MAX_def)

section \<open>Restricted characters\<close>

definition RESTRICTEDCHARS_STRING :: string where
  "RESTRICTEDCHARS_STRING = ''/()|#^*''"

text \<open>The inner loop over the restricted characters, then the loop over the string.\<close>

fun restricted_cmp :: "char \<Rightarrow> string \<Rightarrow> bool" where
  "restricted_cmp c [] = False"
| "restricted_cmp c (d # ds) = (if c = d then True else restricted_cmp c ds)"

fun restrictedchars_check :: "string \<Rightarrow> int" where
  "restrictedchars_check [] = 0"
| "restrictedchars_check (c # s) =
     (if restricted_cmp c RESTRICTEDCHARS_STRING then - 1 else restrictedchars_check s)"

lemma restricted_cmp_iff: "restricted_cmp c ds \<longleftrightarrow> c \<in> set ds"
  by (induction ds) auto

lemma restrictedchars_check_iff:
  "restrictedchars_check s = 0 \<longleftrightarrow> set s \<inter> set RESTRICTEDCHARS_STRING = {}"
  by (induction s) (auto simp: restricted_cmp_iff)

lemma restrictedchars_check_chars:
  assumes "restrictedchars_check s = 0"
  shows "CHR ''|'' \<notin> set s" "CHR ''#'' \<notin> set s" "CHR ''('' \<notin> set s" "CHR '')'' \<notin> set s"
  using assms by (auto simp: restrictedchars_check_iff RESTRICTEDCHARS_STRING_def)

section \<open>Correctness\<close>

fun digit_chain :: "nat \<Rightarrow> nat \<Rightarrow> nat \<Rightarrow> int" where
  "digit_chain 0 k n = int (Suc k)"
| "digit_chain (Suc j) k n = (if n < 10 ^ Suc k then int (Suc k) else digit_chain j (Suc k) n)"

lemma digit_chain_length:
  "n < 10 ^ Suc (k + j) \<Longrightarrow> k = 0 \<or> 10 ^ k \<le> n \<Longrightarrow>
   digit_chain j k n = int (length (show_nat n))"
proof (induction j arbitrary: k)
  case 0
  then show ?case
    using length_show_nat_eq [of k n] by (auto simp: show_nat_def show_base.simps [of 10 n])
next
  case (Suc j)
  show ?case
  proof (cases "n < 10 ^ Suc k")
    case True
    with Suc.prems show ?thesis
      using length_show_nat_eq [of k n] by (auto simp: show_nat_def show_base.simps [of 10 n])
  next
    case False
    with Suc show ?thesis by simp
  qed
qed

lemma digit_chain_numeral:
  "digit_chain (numeral w) k n =
     (if n < 10 ^ Suc k then int (Suc k) else digit_chain (pred_numeral w) (Suc k) n)"
  by (simp add: numeral_eq_Suc)

text \<open>
  The digit count is exact: for every 64-bit value, \<^verbatim>\<open>numdigits_unsigned\<close> returns the
  number of characters that the value takes when it is printed in decimal. In particular the
  error value is never returned.
\<close>

theorem numdigits_exact: "numdigits_unsigned val = int (length (show_nat (unat val)))"
proof -
  have top: "unat val < 10 ^ Suc (0 + 19)"
    by (rule less_trans [OF unat_u64_bound]) simp
  have "unat val \<le> 18446744073709551615"
    using unat_u64_bound [of val] by linarith
  then have "numdigits_unsigned val = digit_chain 19 0 (unat val)"
    by (simp add: numdigits_unsigned_def word_less_nat_alt word_le_nat_alt digit_chain_numeral
        cong: if_weak_cong)
  then show ?thesis
    using digit_chain_length [OF top] by simp
qed

end
