(* ===== verification/Ftag.thy ===== *)
theory Ftag
  imports Codec General
begin

text \<open>
  The MarFS file tag (\<^verbatim>\<open>src/tagging/tagging.c\<close>, \<^verbatim>\<open>tagging.h\<close>): the extended attribute that every
  MarFS file carries and that says where its data lives. The theory holds the \<^verbatim>\<open>FTAG\<close> struct, the
  parser \<^verbatim>\<open>ftag_initstr\<close> stage by stage, the printer \<^verbatim>\<open>ftag_tostr\<close>, the comparison \<^verbatim>\<open>ftag_cmp\<close> and
  the names of metadata references, rebuild and repack markers and data objects that are
  derived from a tag.

  A C \<^verbatim>\<open>int\<close> field is a 32-bit word read with \<^const>\<open>sint\<close>. The parser takes the struct it fills, as
  the C function does: a field that the string does not set keeps its old value.
\<close>

unbundle bit_operations_syntax

section \<open>Data\<close>

record ne_erasure =
  er_N :: u32
  er_E :: u32
  er_O :: u32
  er_partsz :: u64

definition FTAG_CURRENT_MAJORVERSION :: u32 where "FTAG_CURRENT_MAJORVERSION = 0"
definition FTAG_CURRENT_MINORVERSION :: u32 where "FTAG_CURRENT_MINORVERSION = 1"

definition FTAG_INIT :: u32 where "FTAG_INIT = 0"
definition FTAG_CACHED :: u32 where "FTAG_CACHED = 1"
definition FTAG_SIZED :: u32 where "FTAG_SIZED = 2"
definition FTAG_FIN :: u32 where "FTAG_FIN = 3"
definition FTAG_COMP :: u32 where "FTAG_COMP = 4"
definition FTAG_DATASTATE :: u32 where "FTAG_DATASTATE = 7"
definition FTAG_WRITEABLE :: u32 where "FTAG_WRITEABLE = 8"
definition FTAG_READABLE :: u32 where "FTAG_READABLE = 16"

lemmas ftag_state_defs = FTAG_INIT_def FTAG_CACHED_def FTAG_SIZED_def FTAG_FIN_def FTAG_COMP_def
  FTAG_DATASTATE_def FTAG_WRITEABLE_def FTAG_READABLE_def

lemmas ftag_version_defs = FTAG_CURRENT_MAJORVERSION_def FTAG_CURRENT_MINORVERSION_def

record ftag =
  ft_majorversion :: u32
  ft_minorversion :: u32
  ft_ctag :: string
  ft_streamid :: string
  ft_objfiles :: u64
  ft_objsize :: u64
  ft_refbreadth :: u32
  ft_refdepth :: u32
  ft_refdigits :: u32
  ft_fileno :: u64
  ft_objno :: u64
  ft_offset :: u64
  ft_endofstream :: u8
  ft_protection :: ne_erasure
  ft_bytes :: u64
  ft_availbytes :: u64
  ft_recoverybytes :: u64
  ft_state :: u32

section \<open>Parsing\<close>

subsection \<open>Version stanza\<close>

definition ftag_parse_version :: "ftag \<Rightarrow> string \<Rightarrow> c_error + ftag \<times> string" where
  "ftag_parse_version f s =
     (case after_lit ''VER('' s of
        None \<Rightarrow> Inl EFail
      | Some p \<Rightarrow>
          (case strtoull 10 p of (maj, e) \<Rightarrow>
             if peek e \<noteq> CHR ''.'' then Inl EFail
             else if UINT_MAX < maj then Inl EFail
             else
               (case strtoull 10 (tl e) of (minv, e2) \<Rightarrow>
                  if peek e2 \<noteq> CHR '')'' then Inl EFail
                  else if UINT_MAX < minv then Inl EFail
                  else
                    (let f2 = f\<lparr>ft_majorversion := ucast maj, ft_minorversion := ucast minv\<rparr> in
                     if ft_majorversion f2 \<noteq> FTAG_CURRENT_MAJORVERSION \<or>
                        ft_minorversion f2 \<noteq> FTAG_CURRENT_MINORVERSION
                     then Inl EFail
                     else Inr (f2, tl e2)))))"

subsection \<open>The strings of the stream stanza\<close>

text \<open>
  The loop that reads a string up to the next bar runs over the text twice. The first pass
  (\<open>fld = None\<close>) counts; at the bar it allocates \<open>outputlen\<close> bytes and goes back to the start.
  The second pass copies; at the bar it stops. \<open>fld\<close> holds the copied text and the allocated
  size, and a write beyond that size is \<open>UB\<close>.
\<close>

function bar_loop ::
  "bool \<Rightarrow> string \<Rightarrow> string \<Rightarrow> (string \<times> nat) option \<Rightarrow> nat
     \<Rightarrow> c_error + (string \<times> nat) option \<times> string" where
  "bar_loop m start s fld outputlen =
     (case s of
        [] \<Rightarrow> Inr (fld, [])
      | c # r \<Rightarrow>
          (case fld of
             None \<Rightarrow>
               if c = CHR ''|''
               then (if m then bar_loop m start start (Some ([], outputlen)) 1 else Inl ENOMEM)
               else bar_loop m start r None (Suc outputlen)
           | Some (w, sz) \<Rightarrow>
               if c = CHR ''|'' then Inr (fld, s)
               else if length w < sz
               then bar_loop m start r (Some (w @ [c], sz)) (Suc outputlen)
               else Inl UB))"
  by pat_completeness auto
termination
  by (relation "measures [\<lambda>(m, start, s, fld, n). case fld of None \<Rightarrow> 1 | Some _ \<Rightarrow> 0,
                          \<lambda>(m, start, s, fld, n). length s]") auto

declare bar_loop.simps [simp del]

text \<open>The trailing NUL is written behind the copied text.\<close>

definition put_nul :: "string \<times> nat \<Rightarrow> c_error + string" where
  "put_nul x = (if length (fst x) < snd x then Inr (fst x) else Inl UB)"

definition ftag_parse_ctag :: "bool \<Rightarrow> ftag \<Rightarrow> string \<Rightarrow> c_error + ftag \<times> string" where
  "ftag_parse_ctag m f p =
     bindE (bar_loop m p p None 1) (\<lambda>(fld, e).
       case fld of
         None \<Rightarrow> Inl EFail
       | Some x \<Rightarrow> bindE (put_nul x) (\<lambda>w. Inr (f\<lparr>ft_ctag := w\<rparr>, tl e)))"

text \<open>
  For the stream identifier the NUL is written before the pointer is checked, so a missing bar
  is a write through a NULL pointer.
\<close>

definition ftag_parse_streamid :: "bool \<Rightarrow> ftag \<Rightarrow> string \<Rightarrow> c_error + ftag \<times> string" where
  "ftag_parse_streamid m f p =
     bindE (bar_loop m p p None 1) (\<lambda>(fld, e).
       case fld of
         None \<Rightarrow> Inl UB
       | Some x \<Rightarrow> bindE (put_nul x) (\<lambda>w. Inr (f\<lparr>ft_streamid := w\<rparr>, tl e)))"

subsection \<open>Numeric values\<close>

text \<open>The values of the stream stanza. \<open>n\<close> is the C \<^verbatim>\<open>char\<close> that counts them.\<close>

function ftag_stm_vals :: "ftag \<Rightarrow> u8 \<Rightarrow> string \<Rightarrow> c_error + ftag \<times> u8 \<times> string" where
  "ftag_stm_vals f n s =
     (case s of
        [] \<Rightarrow> Inr (f, n, [])
      | c # r \<Rightarrow>
          if c \<noteq> CHR ''F'' \<and> c \<noteq> CHR ''D'' then Inl EFail
          else
            (case strtoull 10 r of (v, e) \<Rightarrow>
               if SIZE_MAX < v then Inl EFail
               else
                 (let f2 = (if c = CHR ''F'' then f\<lparr>ft_objfiles := v\<rparr> else f\<lparr>ft_objsize := v\<rparr>) in
                  if peek e \<noteq> CHR ''-'' \<and> peek e \<noteq> CHR '')'' then Inl EFail
                  else if peek e = CHR '')'' then Inr (f2, n + 1, tl e)
                  else ftag_stm_vals f2 (n + 1) (tl e))))"
  by pat_completeness auto
termination
  by (relation "measure (\<lambda>(f, n, s). length s)")
     (auto dest: length_strtoull_eq [OF sym])

function ftag_ref_vals :: "ftag \<Rightarrow> u8 \<Rightarrow> string \<Rightarrow> c_error + ftag \<times> u8 \<times> string" where
  "ftag_ref_vals f n s =
     (case s of
        [] \<Rightarrow> Inr (f, n, [])
      | c # r \<Rightarrow>
          if c \<noteq> CHR ''B'' \<and> c \<noteq> CHR ''D'' \<and> c \<noteq> CHR ''d'' then Inl EFail
          else
            (case strtoull 10 r of (v, e) \<Rightarrow>
               if INT_MAX < uint v then Inl EFail
               else
                 (let f2 = (if c = CHR ''B'' then f\<lparr>ft_refbreadth := ucast v\<rparr>
                            else if c = CHR ''D'' then f\<lparr>ft_refdepth := ucast v\<rparr>
                            else f\<lparr>ft_refdigits := ucast v\<rparr>) in
                  if peek e \<noteq> CHR ''-'' \<and> peek e \<noteq> CHR '')'' then Inl EFail
                  else if peek e = CHR '')'' then Inr (f2, n + 1, tl e)
                  else ftag_ref_vals f2 (n + 1) (tl e))))"
  by pat_completeness auto
termination
  by (relation "measure (\<lambda>(f, n, s). length s)")
     (auto dest: length_strtoull_eq [OF sym])

text \<open>One position value: the tag character, then the number that was read behind it.\<close>

definition ftag_pos_item :: "char \<Rightarrow> u64 \<Rightarrow> ftag \<Rightarrow> c_error + ftag" where
  "ftag_pos_item c v f =
     (if c = CHR ''f'' then Inr (f\<lparr>ft_fileno := v\<rparr>)
      else if c = CHR ''o'' then Inr (f\<lparr>ft_objno := v\<rparr>)
      else if c = CHR ''@'' then Inr (f\<lparr>ft_offset := v\<rparr>)
      else if c = CHR ''e'' then
        (if v = 1 then Inr (f\<lparr>ft_endofstream := 1\<rparr>)
         else if v = 0 then Inr (f\<lparr>ft_endofstream := 0\<rparr>)
         else Inl EFail)
      else Inl EFail)"

function ftag_pos_vals :: "ftag \<Rightarrow> u8 \<Rightarrow> string \<Rightarrow> c_error + ftag \<times> u8 \<times> string" where
  "ftag_pos_vals f n s =
     (case s of
        [] \<Rightarrow> Inr (f, n, [])
      | c # r \<Rightarrow>
          (case strtoull 10 r of (v, e) \<Rightarrow>
             if SIZE_MAX < v then Inl EFail
             else if peek e \<noteq> CHR ''-'' \<and> peek e \<noteq> CHR '')'' then Inl EFail
             else
               (case ftag_pos_item c v f of
                  Inl x \<Rightarrow> Inl x
                | Inr f2 \<Rightarrow>
                    if peek e = CHR '')'' then Inr (f2, n + 1, tl e)
                    else ftag_pos_vals f2 (n + 1) (tl e))))"
  by pat_completeness auto
termination
  by (relation "measure (\<lambda>(f, n, s). length s)")
     (auto dest: length_strtoull_eq [OF sym])

declare ftag_stm_vals.simps [simp del] ftag_ref_vals.simps [simp del] ftag_pos_vals.simps [simp del]

subsection \<open>Data stanza\<close>

text \<open>The data state words, in the order in which they are compared.\<close>

definition dat_state_word :: "string \<Rightarrow> (u32 \<times> string) option" where
  "dat_state_word s =
     (case after_lit ''INIT'' s of Some e \<Rightarrow> Some (FTAG_INIT, e) | None \<Rightarrow>
     (case after_lit ''SIZED'' s of Some e \<Rightarrow> Some (FTAG_SIZED, e) | None \<Rightarrow>
     (case after_lit ''FIN'' s of Some e \<Rightarrow> Some (FTAG_FIN, e) | None \<Rightarrow>
     (case after_lit ''COMP'' s of Some e \<Rightarrow> Some (FTAG_COMP, e) | None \<Rightarrow>
     (case after_lit ''CACHED'' s of Some e \<Rightarrow> Some (FTAG_CACHED, e) | None \<Rightarrow> None)))))"

text \<open>The permission words, with what they do to the state.\<close>

definition dat_perm_word :: "u32 \<Rightarrow> string \<Rightarrow> (u32 \<times> string) option" where
  "dat_perm_word st s =
     (case after_lit ''RO'' s of Some e \<Rightarrow> Some (st OR FTAG_READABLE, e) | None \<Rightarrow>
     (case after_lit ''WO'' s of Some e \<Rightarrow> Some (st OR FTAG_WRITEABLE, e) | None \<Rightarrow>
     (case after_lit ''RW'' s of Some e \<Rightarrow> Some (st OR (FTAG_WRITEABLE OR FTAG_READABLE), e) | None \<Rightarrow>
     (case after_lit ''NO'' s of
        Some e \<Rightarrow> Some (st AND NOT (FTAG_WRITEABLE OR FTAG_READABLE), e) | None \<Rightarrow> None))))"

definition dat_num_item :: "char \<Rightarrow> u64 \<Rightarrow> ftag \<Rightarrow> c_error + ftag" where
  "dat_num_item c v f =
     (if c = CHR ''n'' then Inr (f\<lparr>ft_protection := (ft_protection f)\<lparr>er_N := ucast v\<rparr>\<rparr>)
      else if c = CHR ''e'' then Inr (f\<lparr>ft_protection := (ft_protection f)\<lparr>er_E := ucast v\<rparr>\<rparr>)
      else if c = CHR ''o'' then Inr (f\<lparr>ft_protection := (ft_protection f)\<lparr>er_O := ucast v\<rparr>\<rparr>)
      else if c = CHR ''p'' then Inr (f\<lparr>ft_protection := (ft_protection f)\<lparr>er_partsz := v\<rparr>\<rparr>)
      else if c = CHR ''b'' then Inr (f\<lparr>ft_bytes := v\<rparr>)
      else if c = CHR ''a'' then Inr (f\<lparr>ft_availbytes := v\<rparr>)
      else if c = CHR ''r'' then Inr (f\<lparr>ft_recoverybytes := v\<rparr>)
      else Inl EFail)"

text \<open>
  One element of the data stanza: a state word, a permission word or a number. The flags say
  whether a state and a permission word were seen before.
\<close>

definition dat_item ::
  "ftag \<Rightarrow> u8 \<Rightarrow> bool \<Rightarrow> bool \<Rightarrow> string \<Rightarrow> c_error + ftag \<times> u8 \<times> bool \<times> bool \<times> string" where
  "dat_item f n fds fdp s =
     (case dat_state_word s of
        Some (d, e) \<Rightarrow>
          if fds then Inl EFail
          else Inr (f\<lparr>ft_state := d OR (ft_state f AND NOT FTAG_DATASTATE)\<rparr>, n, True, fdp, e)
      | None \<Rightarrow>
          (case dat_perm_word (ft_state f) s of
             Some (st, e) \<Rightarrow>
               if fdp then Inl EFail else Inr (f\<lparr>ft_state := st\<rparr>, n, fds, True, e)
           | None \<Rightarrow>
               (case strtoull 10 (tl s) of (v, e) \<Rightarrow>
                  if SIZE_MAX < v then Inl EFail
                  else
                    (case dat_num_item (peek s) v f of
                       Inl x \<Rightarrow> Inl x
                     | Inr f2 \<Rightarrow> Inr (f2, n + 1, fds, fdp, e)))))"

lemma after_lit_shorter:
  "after_lit lit s = Some e \<Longrightarrow> length e \<le> length s"
  by (auto simp: after_lit_Some)

lemma dat_state_word_length: "dat_state_word s = Some (d, e) \<Longrightarrow> length e \<le> length s"
  by (auto simp: dat_state_word_def dest: after_lit_shorter split: option.splits)

lemma dat_perm_word_length: "dat_perm_word st s = Some (st', e) \<Longrightarrow> length e \<le> length s"
  by (auto simp: dat_perm_word_def dest: after_lit_shorter split: option.splits)

lemma dat_item_length:
  "dat_item f n fds fdp s = Inr (f', n', fds', fdp', e) \<Longrightarrow> length e \<le> length s"
  using length_strtoull [of 10 "tl s"]
  by (auto simp: dat_item_def dest: dat_state_word_length dat_perm_word_length
      split: option.splits prod.splits if_splits sum.splits)

function ftag_dat_vals ::
  "ftag \<Rightarrow> u8 \<Rightarrow> bool \<Rightarrow> bool \<Rightarrow> string \<Rightarrow> c_error + ftag \<times> u8 \<times> bool \<times> bool \<times> string" where
  "ftag_dat_vals f n fds fdp s =
     (if s = [] then Inr (f, n, fds, fdp, [])
      else
        (case dat_item f n fds fdp s of
           Inl x \<Rightarrow> Inl x
         | Inr (f2, n2, fds2, fdp2, e) \<Rightarrow>
             if peek e = CHR '')'' then Inr (f2, n2, fds2, fdp2, tl e)
             else if peek e \<noteq> CHR ''-'' then Inl EFail
             else ftag_dat_vals f2 n2 fds2 fdp2 (tl e)))"
  by pat_completeness auto
termination
  by (relation "measure (\<lambda>(f, n, fds, fdp, s). length s)")
     (auto dest!: dat_item_length simp: tl_shorter)

declare ftag_dat_vals.simps [simp del]

subsection \<open>The whole parser\<close>

definition ftag_parse_stream :: "mem \<Rightarrow> ftag \<Rightarrow> string \<Rightarrow> c_error + ftag \<times> string" where
  "ftag_parse_stream m f s =
     (case after_lit ''STM('' s of
        None \<Rightarrow> Inl EFail
      | Some p \<Rightarrow>
          bindE (ftag_parse_ctag (m 0) f p) (\<lambda>(f1, p1).
          bindE (ftag_parse_streamid (m 1) f1 p1) (\<lambda>(f2, p2).
          bindE (ftag_stm_vals f2 0 p2) (\<lambda>(f3, n, p3).
            if n \<noteq> 2 then Inl EFail else Inr (f3, p3)))))"

definition ftag_parse_reftree :: "ftag \<Rightarrow> string \<Rightarrow> c_error + ftag \<times> string" where
  "ftag_parse_reftree f s =
     (case after_lit ''REF('' s of
        None \<Rightarrow> Inl EFail
      | Some p \<Rightarrow>
          bindE (ftag_ref_vals f 0 p) (\<lambda>(f2, n, p2).
            if n \<noteq> 3 then Inl EFail else Inr (f2, p2)))"

definition ftag_parse_position :: "ftag \<Rightarrow> string \<Rightarrow> c_error + ftag \<times> string" where
  "ftag_parse_position f s =
     (case after_lit ''POS('' s of
        None \<Rightarrow> Inl EFail
      | Some p \<Rightarrow>
          bindE (ftag_pos_vals f 0 p) (\<lambda>(f2, n, p2).
            if n \<noteq> 4 then Inl EFail else Inr (f2, p2)))"

definition ftag_parse_content :: "ftag \<Rightarrow> string \<Rightarrow> c_error + ftag \<times> string" where
  "ftag_parse_content f s =
     (case after_lit ''DAT('' s of
        None \<Rightarrow> Inl EFail
      | Some p \<Rightarrow>
          bindE (ftag_dat_vals (f\<lparr>ft_state := 0\<rparr>) 0 False False p) (\<lambda>(f2, n, fds, fdp, p2).
            if n \<noteq> 7 \<or> \<not> fds \<or> \<not> fdp then Inl EFail else Inr (f2, p2)))"

text \<open>
  \<^verbatim>\<open>ftag_initstr\<close>: the arguments are pointers, \<open>None\<close> is NULL. The struct after a failed call is
  not part of the result; the callers discard it.
\<close>

definition ftag_initstr :: "mem \<Rightarrow> ftag option \<Rightarrow> string option \<Rightarrow> c_error + ftag" where
  "ftag_initstr m fo so =
     (case fo of None \<Rightarrow> Inl EFail | Some f \<Rightarrow>
     (case so of None \<Rightarrow> Inl EFail | Some s \<Rightarrow>
        bindE (ftag_parse_version f s) (\<lambda>(f1, p1).
        bindE (ftag_parse_stream m f1 p1) (\<lambda>(f2, p2).
        bindE (ftag_parse_reftree f2 p2) (\<lambda>(f3, p3).
        bindE (ftag_parse_position f3 p3) (\<lambda>(f4, p4).
        bindE (ftag_parse_content f4 p4) (\<lambda>(f5, p5).
          if peek p5 \<noteq> NUL then Inl EFail else Inr f5)))))))"

section \<open>Printing\<close>

definition ftag_ver_piece :: "ftag \<Rightarrow> string" where
  "ftag_ver_piece f =
     ''VER('' @ show_nat (unat (ft_majorversion f)) @ ''.'' @
     show_prec 3 (unat (ft_minorversion f)) @ '')''"

definition ftag_stm_piece :: "ftag \<Rightarrow> string" where
  "ftag_stm_piece f =
     ''STM('' @ ft_ctag f @ ''|'' @ ft_streamid f @ ''|F'' @ show_nat (unat (ft_objfiles f)) @
     ''-D'' @ show_nat (unat (ft_objsize f)) @ '')''"

definition ftag_ref_piece :: "ftag \<Rightarrow> string" where
  "ftag_ref_piece f =
     ''REF(B'' @ show_int (sint (ft_refbreadth f)) @ ''-D'' @ show_int (sint (ft_refdepth f)) @
     ''-d'' @ show_int (sint (ft_refdigits f)) @ '')''"

definition ftag_pos_piece :: "ftag \<Rightarrow> string" where
  "ftag_pos_piece f =
     ''POS(f'' @ show_nat (unat (ft_fileno f)) @ ''-o'' @ show_nat (unat (ft_objno f)) @
     ''-@'' @ show_nat (unat (ft_offset f)) @ ''-e'' @ show_int (sint (ft_endofstream f)) @ '')''"

definition ftag_dstatestr :: "u32 \<Rightarrow> string" where
  "ftag_dstatestr st =
     (let dstate = st AND FTAG_DATASTATE in
      if dstate = FTAG_SIZED then ''SIZED''
      else if dstate = FTAG_FIN then ''FIN''
      else if dstate = FTAG_COMP then ''COMP''
      else if dstate = FTAG_CACHED then ''CACHED''
      else ''INIT'')"

definition ftag_daccstr :: "u32 \<Rightarrow> string" where
  "ftag_daccstr st =
     (if st AND FTAG_WRITEABLE \<noteq> 0
      then (if st AND FTAG_READABLE \<noteq> 0 then ''RW'' else ''WO'')
      else if st AND FTAG_READABLE \<noteq> 0 then ''RO'' else ''NO'')"

definition ftag_dat_piece :: "ftag \<Rightarrow> string" where
  "ftag_dat_piece f =
     ''DAT(n'' @ show_int (sint (er_N (ft_protection f))) @
     ''-e'' @ show_int (sint (er_E (ft_protection f))) @
     ''-o'' @ show_int (sint (er_O (ft_protection f))) @
     ''-p'' @ show_nat (unat (er_partsz (ft_protection f))) @
     ''-b'' @ show_nat (unat (ft_bytes f)) @
     ''-a'' @ show_nat (unat (ft_availbytes f)) @
     ''-r'' @ show_nat (unat (ft_recoverybytes f)) @
     ''-'' @ ftag_dstatestr (ft_state f) @ ''-'' @ ftag_daccstr (ft_state f) @ '')''"

definition ftag_pieces :: "ftag \<Rightarrow> string list" where
  "ftag_pieces f =
     [ftag_ver_piece f, ftag_stm_piece f, ftag_ref_piece f, ftag_pos_piece f, ftag_dat_piece f]"

text \<open>
  \<^verbatim>\<open>ftag_tostr\<close>: \<open>None\<close> is a return of zero; otherwise the result is the buffer and the length
  returned (\<^const>\<open>ob_tot\<close>).
\<close>

definition ftag_tostr :: "ftag option \<Rightarrow> nat \<Rightarrow> outbuf option" where
  "ftag_tostr fo len =
     (case fo of
        None \<Rightarrow> None
      | Some f \<Rightarrow>
          if ft_majorversion f \<noteq> FTAG_CURRENT_MAJORVERSION \<or>
             ft_minorversion f \<noteq> FTAG_CURRENT_MINORVERSION
          then None
          else emit_all (ftag_pieces f) (outbuf_init len))"

section \<open>Comparison and derived names\<close>

definition ftag_cmp :: "ftag option \<Rightarrow> ftag option \<Rightarrow> int" where
  "ftag_cmp f1 f2 =
     (case (f1, f2) of
        (Some a, Some b) \<Rightarrow>
          if ft_majorversion a \<noteq> ft_majorversion b \<or> ft_minorversion a \<noteq> ft_minorversion b \<or>
             ft_objfiles a \<noteq> ft_objfiles b \<or> ft_objsize a \<noteq> ft_objsize b \<or>
             ft_refbreadth a \<noteq> ft_refbreadth b \<or> ft_refdepth a \<noteq> ft_refdepth b \<or>
             ft_refdigits a \<noteq> ft_refdigits b \<or> ft_fileno a \<noteq> ft_fileno b \<or>
             ft_objno a \<noteq> ft_objno b \<or> ft_offset a \<noteq> ft_offset b \<or>
             ft_endofstream a \<noteq> ft_endofstream b \<or>
             er_N (ft_protection a) \<noteq> er_N (ft_protection b) \<or>
             er_E (ft_protection a) \<noteq> er_E (ft_protection b) \<or>
             er_O (ft_protection a) \<noteq> er_O (ft_protection b) \<or>
             er_partsz (ft_protection a) \<noteq> er_partsz (ft_protection b) \<or>
             ft_bytes a \<noteq> ft_bytes b \<or> ft_availbytes a \<noteq> ft_availbytes b \<or>
             ft_recoverybytes a \<noteq> ft_recoverybytes b \<or> ft_state a \<noteq> ft_state b
          then 1
          else if ft_ctag a \<noteq> ft_ctag b \<or> ft_streamid a \<noteq> ft_streamid b then 1
          else 0
      | _ \<Rightarrow> - 1)"

text \<open>The loop that turns every bar of the stream identifier into a hash sign.\<close>

fun sanitize :: "string \<Rightarrow> string" where
  "sanitize [] = []"
| "sanitize (c # s) = (if c = CHR ''|'' then CHR ''#'' else c) # sanitize s"

text \<open>
  A call of \<^verbatim>\<open>snprintf\<close> that is the function's result: the returned \<^verbatim>\<open>size_t\<close> and what the buffer
  holds.
\<close>

definition snprintf_out :: "nat \<Rightarrow> string \<Rightarrow> u64 \<times> string" where
  "snprintf_out len out = (word_of_int (snprintf_ret out), snprintf_buf len out)"

text \<open>
  The checks shared by the naming functions: a NULL tag, a NULL target with a non-zero length
  (\<open>tgt\<close> says that the target is not NULL), a failed \<^verbatim>\<open>strdup\<close>. Each of them returns zero and
  writes nothing.
\<close>

definition ftag_metatgt :: "bool \<Rightarrow> ftag option \<Rightarrow> bool \<Rightarrow> nat \<Rightarrow> u64 \<times> string" where
  "ftag_metatgt m fo tgt len =
     (case fo of
        None \<Rightarrow> (0, [])
      | Some f \<Rightarrow>
          if len \<noteq> 0 \<and> \<not> tgt then (0, [])
          else if \<not> m then (0, [])
          else snprintf_out len
                 (ft_ctag f @ ''|'' @ sanitize (ft_streamid f) @ ''|'' @
                  show_nat (unat (ft_fileno f))))"

definition ftag_rebuildmarker :: "bool \<Rightarrow> ftag option \<Rightarrow> bool \<Rightarrow> nat \<Rightarrow> u64 \<times> string" where
  "ftag_rebuildmarker m fo tgt len =
     (case fo of
        None \<Rightarrow> (0, [])
      | Some f \<Rightarrow>
          if len \<noteq> 0 \<and> \<not> tgt then (0, [])
          else if \<not> m then (0, [])
          else snprintf_out len
                 (ft_ctag f @ ''|'' @ sanitize (ft_streamid f) @ ''|'' @
                  show_nat (unat (ft_objno f)) @ ''rebuild''))"

definition ftag_repackmarker :: "bool \<Rightarrow> ftag option \<Rightarrow> bool \<Rightarrow> nat \<Rightarrow> u64 \<times> string" where
  "ftag_repackmarker m fo tgt len =
     (case fo of
        None \<Rightarrow> (0, [])
      | Some f \<Rightarrow>
          if len \<noteq> 0 \<and> \<not> tgt then (0, [])
          else if \<not> m then (0, [])
          else snprintf_out len
                 (ft_ctag f @ ''|'' @ sanitize (ft_streamid f) @ ''|'' @
                  show_nat (unat (ft_fileno f)) @ ''REPACK''))"

definition ftag_datatgt :: "ftag option \<Rightarrow> bool \<Rightarrow> nat \<Rightarrow> u64 \<times> string" where
  "ftag_datatgt fo tgt len =
     (case fo of
        None \<Rightarrow> (0, [])
      | Some f \<Rightarrow>
          if len \<noteq> 0 \<and> \<not> tgt then (0, [])
          else snprintf_out len
                 (ft_ctag f @ ''|'' @ ft_streamid f @ ''|'' @ show_nat (unat (ft_objno f))))"

text \<open>The loop that remembers the final bar of a path: the string that starts at it.\<close>

fun final_bar :: "string \<Rightarrow> string option \<Rightarrow> string option" where
  "final_bar [] fin = fin"
| "final_bar (c # s) fin = final_bar s (if c = CHR ''|'' then Some (c # s) else fin)"

datatype entrytype = Metafile | Rebuild_marker | Repack_marker

definition ftag_metainfo :: "string option \<Rightarrow> bool \<Rightarrow> c_error + u64 \<times> entrytype" where
  "ftag_metainfo path etp =
     (case path of
        None \<Rightarrow> Inl EINVAL
      | Some s \<Rightarrow>
          if \<not> etp then Inl EINVAL
          else
            (case final_bar s None of
               None \<Rightarrow> Inl EINVAL
             | Some fin \<Rightarrow>
                 if tl fin = [] then Inl EINVAL
                 else
                   (case strtoull 10 (tl fin) of (v, e) \<Rightarrow>
                      (let (et, e2) =
                         (case after_lit ''rebuild'' e of
                            Some r \<Rightarrow> (Rebuild_marker, r)
                          | None \<Rightarrow>
                              (case after_lit ''REPACK'' e of
                                 Some r \<Rightarrow> (Repack_marker, r)
                               | None \<Rightarrow> (Metafile, e)))
                       in if peek e2 \<noteq> NUL then Inl EINVAL
                          else if SSIZE_MAX < v then Inl ERANGE
                          else Inr (v, et)))))"

section \<open>Lemmas\<close>

subsection \<open>Reading a string up to a bar\<close>

lemma bar_loop_count:
  "CHR ''|'' \<notin> set u \<Longrightarrow> bar_loop m start (u @ t) None n = bar_loop m start t None (n + length u)"
  by (induction u arbitrary: n) (auto simp: bar_loop.simps [of m start "_ # _"])

lemma bar_loop_copy:
  "CHR ''|'' \<notin> set u \<Longrightarrow> length w + length u \<le> sz \<Longrightarrow>
   bar_loop m start (u @ CHR ''|'' # t) (Some (w, sz)) n = Inr (Some (w @ u, sz), CHR ''|'' # t)"
  by (induction u arbitrary: w n) (auto simp: bar_loop.simps [of m start "_ # _"])

lemma bar_loop_bar:
  assumes "CHR ''|'' \<notin> set u"
  shows "bar_loop m (u @ CHR ''|'' # t) (u @ CHR ''|'' # t) None (Suc 0) =
    (if m then Inr (Some (u, Suc (length u)), CHR ''|'' # t) else Inl ENOMEM)"
  using assms bar_loop_copy [of u "[]" "Suc (length u)"]
  by (simp add: bar_loop_count bar_loop.simps [of m _ "CHR ''|'' # t" None])

lemma bar_loop_no_bar:
  "CHR ''|'' \<notin> set s \<Longrightarrow> bar_loop m s s None (Suc 0) = Inr (None, [])"
  using bar_loop_count [of s m s "[]" 1] by (simp add: bar_loop.simps [of m s "[]"])

lemma put_nul_fits [simp]: "put_nul (w, Suc (length w)) = Inr w"
  by (simp add: put_nul_def)

lemma ftag_parse_ctag_bar [cstr_simps]:
  "CHR ''|'' \<notin> set u \<Longrightarrow> ftag_parse_ctag True f (u @ CHR ''|'' # t) = Inr (f\<lparr>ft_ctag := u\<rparr>, t)"
  by (simp add: ftag_parse_ctag_def bar_loop_bar)

lemma ftag_parse_streamid_bar [cstr_simps]:
  "CHR ''|'' \<notin> set u \<Longrightarrow>
   ftag_parse_streamid True f (u @ CHR ''|'' # t) = Inr (f\<lparr>ft_streamid := u\<rparr>, t)"
  by (simp add: ftag_parse_streamid_def bar_loop_bar)

subsection \<open>Reading back the stanzas\<close>

lemma ftag_parse_version_piece:
  assumes "ft_majorversion f = FTAG_CURRENT_MAJORVERSION"
    and "ft_minorversion f = FTAG_CURRENT_MINORVERSION"
  shows "ftag_parse_version g (ftag_ver_piece f @ t) =
    Inr (g\<lparr>ft_majorversion := ft_majorversion f, ft_minorversion := ft_minorversion f\<rparr>, t)"
  using assms
  by (simp add: ftag_parse_version_def ftag_ver_piece_def cstr_simps ftag_version_defs UINT_MAX_def)

lemma ftag_stm_vals_piece:
  "ftag_stm_vals g 0 (CHR ''F'' # show_nat (unat a) @ CHR ''-'' # CHR ''D'' # show_nat (unat b) @ CHR '')'' # t) =
     Inr (g\<lparr>ft_objfiles := a, ft_objsize := b\<rparr>, 2, t)"
  by (simp add: ftag_stm_vals.simps [of _ _ "_ # _"] cstr_simps)

lemma ftag_parse_stream_piece:
  assumes "CHR ''|'' \<notin> set (ft_ctag f)" "CHR ''|'' \<notin> set (ft_streamid f)" and "m 0" "m 1"
  shows "ftag_parse_stream m g (ftag_stm_piece f @ t) =
    Inr (g\<lparr>ft_ctag := ft_ctag f, ft_streamid := ft_streamid f,
           ft_objfiles := ft_objfiles f, ft_objsize := ft_objsize f\<rparr>, t)"
  using assms
  by (simp add: ftag_parse_stream_def ftag_stm_piece_def ftag_parse_ctag_bar
      ftag_parse_streamid_bar ftag_stm_vals_piece)

lemma scast_nonneg:
  assumes "0 \<le> sint (w :: u32)"
  shows "uint (scast w :: u64) \<le> INT_MAX"
proof -
  have lt: "sint w < 2 ^ 31"
    using sint_lt [of w] by simp
  have "uint (scast w :: u64) = take_bit 64 (sint w)"
    by (simp only: scast_eq uint_word_of_int take_bit_eq_mod len_num0) simp
  also have "\<dots> = sint w"
    by (rule take_bit_int_eq_self) (use assms lt in simp_all)
  finally show ?thesis
    using lt by (simp add: INT_MAX_def)
qed

lemma ftag_ref_vals_piece:
  assumes "0 \<le> sint a" "0 \<le> sint b" "0 \<le> sint c"
  shows "ftag_ref_vals g 0
     (CHR ''B'' # show_int (sint a) @ CHR ''-'' # CHR ''D'' # show_int (sint b) @
      CHR ''-'' # CHR ''d'' # show_int (sint c) @ CHR '')'' # t) =
     Inr (g\<lparr>ft_refbreadth := a, ft_refdepth := b, ft_refdigits := c\<rparr>, 3, t)"
  using assms scast_nonneg
  by (simp add: ftag_ref_vals.simps [of _ _ "_ # _"] cstr_simps not_less [symmetric])

lemma ftag_parse_reftree_piece:
  assumes "0 \<le> sint (ft_refbreadth f)" "0 \<le> sint (ft_refdepth f)" "0 \<le> sint (ft_refdigits f)"
  shows "ftag_parse_reftree g (ftag_ref_piece f @ t) =
    Inr (g\<lparr>ft_refbreadth := ft_refbreadth f, ft_refdepth := ft_refdepth f,
           ft_refdigits := ft_refdigits f\<rparr>, t)"
  using ftag_ref_vals_piece [OF assms]
  by (simp add: ftag_parse_reftree_def ftag_ref_piece_def)

lemma strtoull_bool8 [cstr_simps]:
  assumes "w = (0 :: u8) \<or> w = 1" "no_digit 10 t"
  shows "strtoull 10 (show_int (sint w) @ t) = (ucast w, t)"
  using strtoull_show_int [of "sint w" t] assms by auto

lemma ftag_pos_vals_piece:
  assumes "w = (0 :: u8) \<or> w = 1"
  shows "ftag_pos_vals g 0
     (CHR ''f'' # show_nat (unat a) @ CHR ''-'' # CHR ''o'' # show_nat (unat b) @
      CHR ''-'' # CHR ''@'' # show_nat (unat c) @ CHR ''-'' # CHR ''e'' # show_int (sint w) @ CHR '')'' # t) =
     Inr (g\<lparr>ft_fileno := a, ft_objno := b, ft_offset := c, ft_endofstream := w\<rparr>, 4, t)"
proof -
  note defs = ftag_pos_vals.simps [of _ _ "_ # _"] ftag_pos_item_def strtoull_u64
    strtoull_show_int no_digit_Cons
  from assms show ?thesis
    by (elim disjE) (simp_all add: defs)
qed

lemma ftag_parse_position_piece:
  assumes "ft_endofstream f = 0 \<or> ft_endofstream f = 1"
  shows "ftag_parse_position g (ftag_pos_piece f @ t) =
    Inr (g\<lparr>ft_fileno := ft_fileno f, ft_objno := ft_objno f, ft_offset := ft_offset f,
           ft_endofstream := ft_endofstream f\<rparr>, t)"
  using ftag_pos_vals_piece [OF assms]
  by (simp add: ftag_parse_position_def ftag_pos_piece_def)

text \<open>The states a tag can be in: one of the five data states, with or without the two flags.\<close>

definition ftag_state_ok :: "u32 \<Rightarrow> bool" where
  "ftag_state_ok st \<longleftrightarrow> st < 32 \<and> st AND FTAG_DATASTATE \<le> FTAG_COMP"

lemma ftag_state_ok_cases:
  assumes "ftag_state_ok st"
  shows "st \<in> {0, 1, 2, 3, 4, 8, 9, 10, 11, 12, 16, 17, 18, 19, 20, 24, 25, 26, 27, 28}"
proof -
  have "unat st < 32" using assms by (simp add: ftag_state_ok_def word_less_nat_alt)
  then have "unat st \<in> set [0..<32]" by simp
  then have "st \<in> of_nat ` set [0..<32]" by (metis image_eqI of_nat_unat ucast_id)
  then show ?thesis
    using assms by (auto simp: ftag_state_ok_def ftag_state_defs upt_rec)
qed

lemma ftag_state_split:
  assumes "ftag_state_ok st"
  shows "st AND FTAG_DATASTATE \<in> {FTAG_INIT, FTAG_CACHED, FTAG_SIZED, FTAG_FIN, FTAG_COMP}"
    and "(st AND FTAG_DATASTATE) OR (st AND FTAG_WRITEABLE) OR (st AND FTAG_READABLE) = st"
    and "st AND FTAG_WRITEABLE \<in> {0, FTAG_WRITEABLE}"
    and "st AND FTAG_READABLE \<in> {0, FTAG_READABLE}"
  using ftag_state_ok_cases [OF assms] by (auto simp: ftag_state_defs)

lemma dat_item_state:
  assumes "ftag_state_ok st" and "ft_state g = 0"
  shows "dat_item g n False b (ftag_dstatestr st @ t) =
         Inr (g\<lparr>ft_state := st AND FTAG_DATASTATE\<rparr>, n, True, b, t)"
  using ftag_state_split(1) [OF assms(1)] assms(2)
  by (auto simp: dat_item_def dat_state_word_def ftag_dstatestr_def Let_def ftag_state_defs)

lemma dat_item_perm:
  assumes "ftag_state_ok st" and "ft_state g = st AND FTAG_DATASTATE"
  shows "dat_item g n a False (ftag_daccstr st @ t) = Inr (g\<lparr>ft_state := st\<rparr>, n, a, True, t)"
proof -
  have d: "(st AND FTAG_DATASTATE) AND NOT (FTAG_WRITEABLE OR FTAG_READABLE) = st AND FTAG_DATASTATE"
    using ftag_state_split(1) [OF assms(1)] by (auto simp: ftag_state_defs)
  note sp = ftag_state_split(2-4) [OF assms(1)]
  show ?thesis
    using sp assms(2) d
    by (auto simp: dat_item_def dat_state_word_def dat_perm_word_def ftag_daccstr_def or.assoc
        split: if_splits)
qed

lemma ftag_dat_words:
  assumes "ftag_state_ok st" and "ft_state g = 0"
  shows "ftag_dat_vals g n False False
           (ftag_dstatestr st @ CHR ''-'' # ftag_daccstr st @ CHR '')'' # t) =
         Inr (g\<lparr>ft_state := st\<rparr>, n, True, True, t)"
proof -
  have ne: "ftag_dstatestr st \<noteq> []" "ftag_daccstr st \<noteq> []"
    by (simp_all add: ftag_dstatestr_def ftag_daccstr_def Let_def)
  show ?thesis
    using ne by (simp add: ftag_dat_vals.simps [of g] ftag_dat_vals.simps [of "g\<lparr>ft_state := _\<rparr>"]
        dat_item_state [OF assms] dat_item_perm [OF assms(1)])
qed

lemma dat_item_num [cstr_simps]:
  assumes "c \<in> {CHR ''n'', CHR ''e'', CHR ''o'', CHR ''p'', CHR ''b'', CHR ''a'', CHR ''r''}"
    and "strtoull 10 r = (v, e)" and "dat_num_item c v f = Inr f2"
    and "peek e = CHR ''-''"
  shows "ftag_dat_vals f n a b (c # r) = ftag_dat_vals f2 (n + 1) a b (tl e)"
  using assms
  by (auto simp: ftag_dat_vals.simps [of _ _ _ _ "_ # _"] dat_item_def dat_state_word_def
      dat_perm_word_def)

lemma ftag_parse_content_piece:
  assumes "ftag_state_ok (ft_state f)"
  shows "ftag_parse_content g (ftag_dat_piece f @ t) =
    Inr (g\<lparr>ft_protection := ft_protection f, ft_bytes := ft_bytes f,
           ft_availbytes := ft_availbytes f, ft_recoverybytes := ft_recoverybytes f,
           ft_state := ft_state f\<rparr>, t)"
  by (simp add: ftag_parse_content_def ftag_dat_piece_def dat_item_num strtoull_i32
      strtoull_u64 no_digit_Cons dat_num_item_def ftag_dat_words [OF assms])

section \<open>Correctness\<close>

definition ftag_encode :: "ftag \<Rightarrow> string" where
  "ftag_encode f = concat (ftag_pieces f)"

text \<open>
  The tags that survive being printed: the current version, names without a bar, reference
  tree values that are not negative, a Boolean end-of-stream flag, a legal state, and a name
  length that \<^verbatim>\<open>snprintf\<close> can report.
\<close>

definition ftag_valid :: "ftag \<Rightarrow> bool" where
  "ftag_valid f \<longleftrightarrow>
     ft_majorversion f = FTAG_CURRENT_MAJORVERSION \<and>
     ft_minorversion f = FTAG_CURRENT_MINORVERSION \<and>
     CHR ''|'' \<notin> set (ft_ctag f) \<and> CHR ''|'' \<notin> set (ft_streamid f) \<and>
     0 \<le> sint (ft_refbreadth f) \<and> 0 \<le> sint (ft_refdepth f) \<and> 0 \<le> sint (ft_refdigits f) \<and>
     (ft_endofstream f = 0 \<or> ft_endofstream f = 1) \<and>
     ftag_state_ok (ft_state f) \<and>
     length (ft_ctag f) + length (ft_streamid f) \<le> 2147483000"

lemma ftag_pieces_printable:
  assumes "ftag_valid f"
  shows "\<forall>p \<in> set (ftag_pieces f). printable p"
proof -
  have "length (ftag_dstatestr st) \<le> 6" "length (ftag_daccstr st) \<le> 2" for st
    by (simp_all add: ftag_dstatestr_def ftag_daccstr_def Let_def)
  note len = length_show_u64 length_show_u32 length_show_i32 length_show_i8 this
  show ?thesis
    using len(1) [of "ft_objfiles f"] len(1) [of "ft_objsize f"] len(1) [of "ft_fileno f"]
      len(1) [of "ft_objno f"] len(1) [of "ft_offset f"] len(1) [of "er_partsz (ft_protection f)"]
      len(1) [of "ft_bytes f"] len(1) [of "ft_availbytes f"] len(1) [of "ft_recoverybytes f"]
      len(2) [of "ft_majorversion f"] len(2) [of "ft_minorversion f"]
      len(3) [of "ft_refbreadth f"] len(3) [of "ft_refdepth f"] len(3) [of "ft_refdigits f"]
      len(3) [of "er_N (ft_protection f)"] len(3) [of "er_E (ft_protection f)"]
      len(3) [of "er_O (ft_protection f)"] len(4) [of "ft_endofstream f"]
      len(5) [of "ft_state f"] len(6) [of "ft_state f"] assms
    by (simp add: ftag_pieces_def printable_def ftag_ver_piece_def ftag_stm_piece_def
        ftag_ref_piece_def ftag_pos_piece_def ftag_dat_piece_def length_show_prec INT_MAX_def
        ftag_valid_def)
qed

lemma ftag_tostr_encode:
  "ftag_valid f \<Longrightarrow> ftag_tostr (Some f) len = Some (printed len (ftag_encode f))"
  using ftag_pieces_printable [of f]
  by (simp add: ftag_tostr_def ftag_valid_def outbuf_init_printed emit_all_printed ftag_encode_def)

lemma ftag_initstr_encode:
  assumes "ftag_valid f" and "m 0" "m 1"
  shows "ftag_initstr m (Some g) (Some (ftag_encode f)) = Inr f"
  using assms
  by (simp add: ftag_initstr_def ftag_encode_def ftag_pieces_def ftag_valid_def
      ftag_parse_version_piece ftag_parse_stream_piece ftag_parse_reftree_piece
      ftag_parse_position_piece ftag_parse_content_piece [of f _ "[]", simplified])

interpretation ftag: tag_codec "\<lambda>f. ftag_tostr (Some f)"
  "\<lambda>s. ftag_initstr all_mem (Some g) (Some s)" ftag_encode ftag_valid for g
  by unfold_locales (simp_all add: ftag_tostr_encode ftag_initstr_encode)

subsection \<open>Names derived from a tag\<close>

lemma final_bar_tail:
  "CHR ''|'' \<notin> set t \<Longrightarrow> final_bar (s @ CHR ''|'' # t) fin = Some (CHR ''|'' # t)"
proof -
  assume t: "CHR ''|'' \<notin> set t"
  have "CHR ''|'' \<notin> set u \<Longrightarrow> final_bar u g = g" for u g
    by (induction u) auto
  with t show ?thesis
    by (induction s arbitrary: fin) auto
qed

lemma no_bar_show_nat: "CHR ''|'' \<notin> set (show_nat n)"
  using show_nat_digits [of n] is_digit_literals(4) by auto

lemma no_bar_sanitize: "CHR ''|'' \<notin> set (sanitize s)"
  by (induction s) auto

lemma sanitize_id: "CHR ''|'' \<notin> set s \<Longrightarrow> sanitize s = s"
  by (induction s) auto

text \<open>
  The number and the suffix behind the final bar: every name the naming functions print is
  classified by \<^verbatim>\<open>ftag_metainfo\<close>.
\<close>

lemma ftag_metainfo_tail:
  assumes "CHR ''|'' \<notin> set suf" "no_digit 10 suf"
  shows "ftag_metainfo (Some (pre @ CHR ''|'' # show_nat (unat (v :: u64)) @ suf)) True =
    (let (et, e2) =
       (case after_lit ''rebuild'' suf of
          Some r \<Rightarrow> (Rebuild_marker, r)
        | None \<Rightarrow>
            (case after_lit ''REPACK'' suf of
               Some r \<Rightarrow> (Repack_marker, r)
             | None \<Rightarrow> (Metafile, suf)))
     in if peek e2 \<noteq> NUL then Inl EINVAL else if SSIZE_MAX < v then Inl ERANGE else Inr (v, et))"
proof -
  have "final_bar (pre @ CHR ''|'' # show_nat (unat v) @ suf) None =
        Some (CHR ''|'' # show_nat (unat v) @ suf)"
    using assms no_bar_show_nat by (intro final_bar_tail) auto
  then show ?thesis
    using strtoull_u64 [OF assms(2), of v] by (simp add: ftag_metainfo_def)
qed

subsection \<open>What a successful parse guarantees\<close>

lemma ftag_state_ok_0: "ftag_state_ok 0"
  by (simp add: ftag_state_ok_def FTAG_COMP_def)

lemma ftag_state_ok_upd:
  assumes "ftag_state_ok st"
  shows "d \<le> FTAG_COMP \<Longrightarrow> ftag_state_ok (d OR (st AND NOT FTAG_DATASTATE))"
    and "ftag_state_ok (st OR FTAG_READABLE)" "ftag_state_ok (st OR FTAG_WRITEABLE)"
    and "ftag_state_ok (st OR (FTAG_WRITEABLE OR FTAG_READABLE))"
    and "ftag_state_ok (st AND NOT (FTAG_WRITEABLE OR FTAG_READABLE))"
proof -
  have d: "ftag_state_ok d" if "d \<le> FTAG_COMP"
  proof -
    have "d AND FTAG_DATASTATE \<le> d" by (rule word_and_le2)
    moreover have "d < 32" using that by (simp add: FTAG_COMP_def word_le_nat_alt word_less_nat_alt)
    ultimately show ?thesis using that by (simp add: ftag_state_ok_def)
  qed
  show "ftag_state_ok (d OR (st AND NOT FTAG_DATASTATE))" if "d \<le> FTAG_COMP"
  proof -
    have "d \<in> {0, 1, 2, 3, 4}"
      using ftag_state_ok_cases [OF d [OF that]] that by (auto simp: FTAG_COMP_def)
    then show ?thesis
      using ftag_state_ok_cases [OF assms] by (auto simp: ftag_state_ok_def ftag_state_defs)
  qed
qed (use ftag_state_ok_cases [OF assms] in \<open>auto simp: ftag_state_ok_def ftag_state_defs\<close>)

lemma dat_state_word_ok:
  "dat_state_word s = Some (d, e) \<Longrightarrow> ftag_state_ok st \<Longrightarrow>
   ftag_state_ok (d OR (st AND NOT FTAG_DATASTATE))"
  by (rule ftag_state_ok_upd(1))
     (auto simp: dat_state_word_def ftag_state_defs split: option.splits)

lemma dat_perm_word_ok:
  "dat_perm_word st s = Some (st', e) \<Longrightarrow> ftag_state_ok st \<Longrightarrow> ftag_state_ok st'"
  using ftag_state_ok_upd [of st] by (auto simp: dat_perm_word_def split: option.splits)

text \<open>
  The numeric part of \<open>ftag_valid\<close>, and the part of the struct that the value loops leave alone.
\<close>

definition ftag_nums_ok :: "ftag \<Rightarrow> bool" where
  "ftag_nums_ok f \<longleftrightarrow>
     0 \<le> sint (ft_refbreadth f) \<and> 0 \<le> sint (ft_refdepth f) \<and> 0 \<le> sint (ft_refdigits f) \<and>
     (ft_endofstream f = 0 \<or> ft_endofstream f = 1)"

definition ftag_head :: "ftag \<Rightarrow> u32 \<times> u32 \<times> string \<times> string" where
  "ftag_head f = (ft_majorversion f, ft_minorversion f, ft_ctag f, ft_streamid f)"

lemma dat_num_item_inv:
  "dat_num_item c v f = Inr f2 \<Longrightarrow>
   ft_state f2 = ft_state f \<and> ftag_head f2 = ftag_head f \<and> (ftag_nums_ok f2 \<longleftrightarrow> ftag_nums_ok f)"
  by (auto simp: dat_num_item_def ftag_head_def ftag_nums_ok_def split: if_splits)

lemma ftag_state_upd_inv [simp]:
  "ftag_head (f\<lparr>ft_state := st\<rparr>) = ftag_head f"
  "ftag_nums_ok (f\<lparr>ft_state := st\<rparr>) \<longleftrightarrow> ftag_nums_ok f"
  by (simp_all add: ftag_head_def ftag_nums_ok_def)

lemma dat_item_inv:
  assumes "dat_item f n a b s = Inr (f2, n2, a2, b2, e)"
  shows "ftag_state_ok (ft_state f) \<Longrightarrow> ftag_state_ok (ft_state f2)"
    and "ftag_head f2 = ftag_head f \<and> (ftag_nums_ok f2 \<longleftrightarrow> ftag_nums_ok f)"
  using assms unfolding dat_item_def
  by (auto split: option.splits prod.splits if_splits sum.splits
      dest: dat_num_item_inv intro: dat_state_word_ok dat_perm_word_ok)

lemma ftag_dat_vals_inv:
  "ftag_dat_vals f n a b s = Inr (f2, n2, a2, b2, t) \<Longrightarrow> ftag_state_ok (ft_state f) \<Longrightarrow>
   ftag_state_ok (ft_state f2) \<and> ftag_head f2 = ftag_head f \<and>
   (ftag_nums_ok f2 \<longleftrightarrow> ftag_nums_ok f)"
proof (induction "length s" arbitrary: f n a b s rule: less_induct)
  case less
  show ?case
  proof (cases "dat_item f n a b s")
    case (Inl x)
    with less.prems show ?thesis
      by (auto simp: ftag_dat_vals.simps [of f n a b s] split: if_splits)
  next
    case (Inr y)
    obtain f3 n3 a3 b3 e where y: "y = (f3, n3, a3, b3, e)" by (cases y) auto
    note step = dat_item_inv [OF Inr [unfolded y]]
    have "length (tl e) < length s" if "s \<noteq> []"
      using dat_item_length [of f n a b s] Inr y that by (simp add: tl_shorter)
    then show ?thesis
      using less.prems less.hyps [of "tl e" f3 n3 a3 b3] step Inr y
      by (auto simp: ftag_dat_vals.simps [of f n a b s] split: if_splits)
  qed
qed

lemma ftag_stm_vals_inv:
  "ftag_stm_vals f n s = Inr (f2, n2, t) \<Longrightarrow>
   ftag_head f2 = ftag_head f \<and> (ftag_nums_ok f2 \<longleftrightarrow> ftag_nums_ok f)"
proof (induction f n s rule: ftag_stm_vals.induct)
  case (1 f n s)
  then show ?case
    by (subst (asm) (2) ftag_stm_vals.simps)
       (auto simp: ftag_head_def ftag_nums_ok_def Let_def split: if_splits list.splits prod.splits)
qed

lemma sint_ucast_nonneg:
  assumes "uint (v :: u64) \<le> INT_MAX"
  shows "0 \<le> sint (ucast v :: u32)"
proof -
  have "uint (ucast v :: u32) = uint v"
    using assms by (simp add: INT_MAX_def unsigned_ucast_eq take_bit_int_eq_self)
  moreover have "signed_take_bit 31 (uint v) = uint v"
    by (rule signed_take_bit_int_eq_self) (use assms in \<open>simp_all add: INT_MAX_def order.trans [OF _ uint_ge_0]\<close>)
  ultimately show ?thesis
    by (simp add: sint_uint del: signed_take_bit_nonnegative_iff)
qed

lemma ftag_ref_vals_inv:
  "ftag_ref_vals f n s = Inr (f2, n2, t) \<Longrightarrow>
   ftag_head f2 = ftag_head f \<and> (ftag_nums_ok f \<longrightarrow> ftag_nums_ok f2)"
proof (induction f n s rule: ftag_ref_vals.induct)
  case (1 f n s)
  then show ?case
    by (subst (asm) (2) ftag_ref_vals.simps)
       (auto simp: ftag_head_def ftag_nums_ok_def Let_def not_less sint_ucast_nonneg
         split: if_splits list.splits prod.splits)
qed

lemma ftag_pos_item_inv:
  "ftag_pos_item c v f = Inr f2 \<Longrightarrow>
   ftag_head f2 = ftag_head f \<and> (ftag_nums_ok f \<longrightarrow> ftag_nums_ok f2)"
  by (auto simp: ftag_pos_item_def ftag_head_def ftag_nums_ok_def split: if_splits)

lemma ftag_pos_vals_inv:
  "ftag_pos_vals f n s = Inr (f2, n2, t) \<Longrightarrow>
   ftag_head f2 = ftag_head f \<and> (ftag_nums_ok f \<longrightarrow> ftag_nums_ok f2)"
proof (induction f n s rule: ftag_pos_vals.induct)
  case (1 f n s)
  then show ?case
    by (subst (asm) (2) ftag_pos_vals.simps)
       (auto split: if_splits list.splits prod.splits sum.splits dest: ftag_pos_item_inv)
qed


text \<open>The two-pass copy in closed form: everything in front of the first bar.\<close>

lemma bar_split: "CHR ''|'' \<in> set p \<Longrightarrow>
  p = takeWhile (\<lambda>c. c \<noteq> CHR ''|'') p @ CHR ''|'' # tl (dropWhile (\<lambda>c. c \<noteq> CHR ''|'') p)"
  by (induction p) auto

lemma bar_takeWhile: "CHR ''|'' \<notin> set (takeWhile (\<lambda>c. c \<noteq> CHR ''|'') p)"
  by (auto dest: set_takeWhileD)

lemma bar_loop_eq:
  "bar_loop m p p None (Suc 0) =
     (if CHR ''|'' \<in> set p
      then (if m then Inr (Some (takeWhile (\<lambda>c. c \<noteq> CHR ''|'') p,
                                 Suc (length (takeWhile (\<lambda>c. c \<noteq> CHR ''|'') p))),
                           CHR ''|'' # tl (dropWhile (\<lambda>c. c \<noteq> CHR ''|'') p))
            else Inl ENOMEM)
      else Inr (None, []))"
proof (cases "CHR ''|'' \<in> set p")
  case True
  show ?thesis
    using bar_loop_bar [OF bar_takeWhile, of m p "tl (dropWhile (\<lambda>c. c \<noteq> CHR ''|'') p)"]
    unfolding bar_split [OF True, symmetric] using True by simp
qed (simp add: bar_loop_no_bar)

lemma ftag_parse_ctag_eq:
  "ftag_parse_ctag m f p =
     (if CHR ''|'' \<in> set p
      then (if m then Inr (f\<lparr>ft_ctag := takeWhile (\<lambda>c. c \<noteq> CHR ''|'') p\<rparr>,
                           tl (dropWhile (\<lambda>c. c \<noteq> CHR ''|'') p))
            else Inl ENOMEM)
      else Inl EFail)"
  by (simp add: ftag_parse_ctag_def bar_loop_eq)

lemma ftag_parse_streamid_eq:
  "ftag_parse_streamid m f p =
     (if CHR ''|'' \<in> set p
      then (if m then Inr (f\<lparr>ft_streamid := takeWhile (\<lambda>c. c \<noteq> CHR ''|'') p\<rparr>,
                           tl (dropWhile (\<lambda>c. c \<noteq> CHR ''|'') p))
            else Inl ENOMEM)
      else Inl UB)"
  by (simp add: ftag_parse_streamid_def bar_loop_eq)

text \<open>What holds of the struct behind each stanza, given that it held before.\<close>

lemma ftag_parse_version_inv:
  assumes "ftag_parse_version f s = Inr (f2, p)"
  shows "fst (ftag_head f2) = FTAG_CURRENT_MAJORVERSION"
    and "fst (snd (ftag_head f2)) = FTAG_CURRENT_MINORVERSION"
    and "ftag_nums_ok f2 \<longleftrightarrow> ftag_nums_ok f"
  using assms
  by (auto simp: ftag_parse_version_def ftag_head_def ftag_nums_ok_def Let_def
      split: option.splits prod.splits if_splits)

lemma ftag_parse_stream_inv:
  assumes "ftag_parse_stream m f s = Inr (f2, p)"
  shows "\<exists>c i. ftag_head f2 = (ft_majorversion f, ft_minorversion f, c, i) \<and>
           CHR ''|'' \<notin> set c \<and> CHR ''|'' \<notin> set i"
    and "ftag_nums_ok f2 \<longleftrightarrow> ftag_nums_ok f"
  using assms
  by (auto simp: ftag_parse_stream_def ftag_parse_ctag_eq ftag_parse_streamid_eq bindE_eq_Inr
      bar_takeWhile ftag_head_def ftag_nums_ok_def
      split: option.splits if_splits dest!: ftag_stm_vals_inv)

lemma ftag_parse_reftree_inv:
  "ftag_parse_reftree f s = Inr (f2, p) \<Longrightarrow>
   ftag_head f2 = ftag_head f \<and> (ftag_nums_ok f \<longrightarrow> ftag_nums_ok f2)"
  by (auto simp: ftag_parse_reftree_def bindE_eq_Inr split: option.splits if_splits
      dest!: ftag_ref_vals_inv)

lemma ftag_parse_position_inv:
  "ftag_parse_position f s = Inr (f2, p) \<Longrightarrow>
   ftag_head f2 = ftag_head f \<and> (ftag_nums_ok f \<longrightarrow> ftag_nums_ok f2)"
  by (auto simp: ftag_parse_position_def bindE_eq_Inr split: option.splits if_splits
      dest!: ftag_pos_vals_inv)

lemma ftag_parse_content_inv:
  "ftag_parse_content f s = Inr (f2, p) \<Longrightarrow>
   ftag_state_ok (ft_state f2) \<and> ftag_head f2 = ftag_head f \<and>
   (ftag_nums_ok f2 \<longleftrightarrow> ftag_nums_ok f)"
  by (auto simp: ftag_parse_content_def bindE_eq_Inr ftag_state_ok_0
      split: option.splits if_splits dest!: ftag_dat_vals_inv)

lemma ftag_initstr_inv:
  assumes "ftag_initstr m (Some g) (Some s) = Inr f"
  shows "ft_majorversion f = FTAG_CURRENT_MAJORVERSION \<and>
         ft_minorversion f = FTAG_CURRENT_MINORVERSION \<and>
         CHR ''|'' \<notin> set (ft_ctag f) \<and> CHR ''|'' \<notin> set (ft_streamid f) \<and>
         ftag_state_ok (ft_state f) \<and> (ftag_nums_ok g \<longrightarrow> ftag_nums_ok f)"
proof -
  from assms obtain f1 p1 f2 p2 f3 p3 f4 p4 p5
    where r: "ftag_parse_version g s = Inr (f1, p1)" "ftag_parse_stream m f1 p1 = Inr (f2, p2)"
      "ftag_parse_reftree f2 p2 = Inr (f3, p3)" "ftag_parse_position f3 p3 = Inr (f4, p4)"
      "ftag_parse_content f4 p4 = Inr (f, p5)"
    by (auto simp: ftag_initstr_def bindE_eq_Inr split: if_splits)
  show ?thesis
    using ftag_parse_version_inv [OF r(1)] ftag_parse_stream_inv [OF r(2)]
      ftag_parse_reftree_inv [OF r(3)] ftag_parse_position_inv [OF r(4)]
      ftag_parse_content_inv [OF r(5)]
    by (auto simp: ftag_head_def)
qed

lemma length_sanitize: "length (sanitize s) = length s"
  by (induction s) auto

section \<open>Properties\<close>

text \<open>The tag of the witnesses: the second file of a stream, packed behind the first one.\<close>

definition ftag_sample :: ftag where
  "ftag_sample = \<lparr>ft_majorversion = 0, ft_minorversion = 1, ft_ctag = ''Client'',
     ft_streamid = ''repo#ns#1#2'', ft_objfiles = 4, ft_objsize = 1024, ft_refbreadth = 10,
     ft_refdepth = 3, ft_refdigits = 1, ft_fileno = 1, ft_objno = 0, ft_offset = 200,
     ft_endofstream = 1, ft_protection = \<lparr>er_N = 10, er_E = 2, er_O = 1, er_partsz = 512\<rparr>,
     ft_bytes = 30, ft_availbytes = 30, ft_recoverybytes = 40, ft_state = 28\<rparr>"

lemma ftag_sample_valid: "ftag_valid ftag_sample"
  by (simp add: ftag_valid_def ftag_sample_def ftag_version_defs ftag_state_ok_def ftag_state_defs)

text \<open>
  C1. Printing a valid file tag and parsing the text gives the tag back. \<^verbatim>\<open>ftag_tostr\<close> with length 0
  reports the size; printed into a buffer of one byte more, the text is read by
  \<^verbatim>\<open>ftag_initstr\<close> as the same tag, field by field, whatever the struct held before.
\<close>

theorem ftag_roundtrip:
  assumes "ftag_valid f"
  shows "\<exists>b b'. ftag_tostr (Some f) 0 = Some b \<and> ftag_tostr (Some f) (Suc (ob_tot b)) = Some b' \<and>
                ftag_initstr all_mem (Some g) (Some (ob_text b')) = Inr f"
  using ftag.sized_roundtrip [OF assms] .

theorem ftag_roundtrip_witness:
  "\<exists>b b'. ftag_tostr (Some ftag_sample) 0 = Some b \<and>
          ftag_tostr (Some ftag_sample) (Suc (ob_tot b)) = Some b' \<and>
          ftag_initstr all_mem (Some ftag_sample) (Some (ob_text b')) = Inr ftag_sample"
  using ftag_roundtrip [OF ftag_sample_valid] .

text \<open>
  C5. Whatever text \<^verbatim>\<open>ftag_initstr\<close> accepts, the tag it yields has the current version, names
  without a bar and one of the five data states. If moreover the struct held non-negative
  reference values and a Boolean end-of-stream flag before the call, and client tag and stream
  identifier together stay below 2147483000 bytes, the tag prints to a text that parses to the
  same tag again. (Without the condition on the struct it need not: a text with a doubled field
  leaves an old value in another one.)
\<close>

theorem ftag_reparse:
  assumes "ftag_initstr m (Some g) (Some s) = Inr f"
  shows "ft_majorversion f = FTAG_CURRENT_MAJORVERSION \<and>
         ft_minorversion f = FTAG_CURRENT_MINORVERSION \<and>
         CHR ''|'' \<notin> set (ft_ctag f) \<and> CHR ''|'' \<notin> set (ft_streamid f) \<and>
         ftag_state_ok (ft_state f) \<and>
         (ftag_nums_ok g \<and> length (ft_ctag f) + length (ft_streamid f) \<le> 2147483000 \<longrightarrow>
          (\<exists>b. ftag_tostr (Some f) (Suc (length (ftag_encode f))) = Some b \<and>
               ftag_initstr all_mem (Some g) (Some (ob_text b)) = Inr f))"
proof -
  note inv = ftag_initstr_inv [OF assms]
  have "ftag_valid f" if "ftag_nums_ok g"
    "length (ft_ctag f) + length (ft_streamid f) \<le> 2147483000"
    using inv that by (auto simp: ftag_valid_def ftag_nums_ok_def)
  then have "\<exists>b. ftag_tostr (Some f) (Suc (length (ftag_encode f))) = Some b \<and>
      ftag_initstr all_mem (Some g) (Some (ob_text b)) = Inr f"
    if "ftag_nums_ok g" "length (ft_ctag f) + length (ft_streamid f) \<le> 2147483000"
    using that by (simp add: ftag_tostr_encode printed_def ftag_initstr_encode)
  with inv show ?thesis by blast
qed

theorem ftag_reparse_witness:
  "ftag_state_ok (ft_state ftag_sample) \<and>
   (\<exists>b. ftag_tostr (Some ftag_sample) (Suc (length (ftag_encode ftag_sample))) = Some b \<and>
        ftag_initstr all_mem (Some ftag_sample) (Some (ob_text b)) = Inr ftag_sample)"
proof -
  have ok: "ftag_nums_ok ftag_sample"
    "length (ft_ctag ftag_sample) + length (ft_streamid ftag_sample) \<le> 2147483000"
    by (simp_all add: ftag_nums_ok_def ftag_sample_def)
  show ?thesis
    using ftag_reparse [OF ftag_initstr_encode [OF ftag_sample_valid, of all_mem ftag_sample]] ok
    by simp
qed

text \<open>
  C8. \<^verbatim>\<open>ftag_tostr\<close> never writes beyond the buffer: for every valid tag and every buffer length,
  the buffer holds the longest prefix of the full text that leaves room for the NUL, and the
  value returned is the length of the full text, so that a caller sees a truncation exactly
  when the value is not smaller than the length it passed.
\<close>

theorem ftag_tostr_bounded:
  assumes "ftag_valid f" and "0 < len"
  shows "\<exists>b. ftag_tostr (Some f) len = Some b \<and> length (ob_text b) < len \<and>
             ob_text b = take (len - 1) (ftag_encode f) \<and> ob_tot b = length (ftag_encode f) \<and>
             (ob_text b = ftag_encode f \<longleftrightarrow> ob_tot b < len)"
proof -
  have b: "ftag_tostr (Some f) len = Some (printed len (ftag_encode f))"
    using assms(1) by (rule ftag_tostr_encode)
  have "ob_text (printed len (ftag_encode f)) = ftag_encode f \<longleftrightarrow>
        ob_tot (printed len (ftag_encode f)) < len"
    using ftag.truncation_reported [OF assms(1) b assms(2)] .
  with b assms(2) show ?thesis by (simp add: printed_def)
qed

theorem ftag_tostr_bounded_witness:
  "\<exists>b. ftag_tostr (Some ftag_sample) 12 = Some b \<and> ob_text b = ''VER(0.001)S'' \<and> 11 < ob_tot b"
proof -
  have *: "take 11 (ftag_encode ftag_sample) = ''VER(0.001)S''"
    "11 < length (ftag_encode ftag_sample)"
    by (simp_all add: ftag_encode_def ftag_pieces_def ftag_ver_piece_def ftag_stm_piece_def
        ftag_sample_def show_prec_def show_nat_01 numeral_2_eq_2)
  obtain b where "ftag_tostr (Some ftag_sample) 12 = Some b"
    "ob_text b = take (12 - 1) (ftag_encode ftag_sample)"
    "ob_tot b = length (ftag_encode ftag_sample)"
    using ftag_tostr_bounded [OF ftag_sample_valid, of 12] by auto
  with * show ?thesis by simp
qed

text \<open>
  \<^verbatim>\<open>ftag_cmp\<close> decides equality: it returns 0 for two tags exactly when every field agrees,
  1 for two tags that differ, and -1 when either pointer is NULL.
\<close>

theorem ftag_cmp_spec:
  "ftag_cmp f1 f2 = (if f1 = None \<or> f2 = None then - 1 else if f1 = f2 then 0 else 1)"
proof (cases f1; cases f2)
  fix a b assume "f1 = Some a" "f2 = Some b"
  moreover have "ftag_cmp (Some a) (Some b) = (if a = b then 0 else 1)"
    by (cases a; cases b) (auto simp: ftag_cmp_def)
  ultimately show ?thesis by simp
qed (simp_all add: ftag_cmp_def)

text \<open>
  C9. Every name that is derived from a tag is recognised: a metadata reference, a rebuild
  marker and a repack marker, printed into a buffer that is large enough, are classified by
  \<^verbatim>\<open>ftag_metainfo\<close> as what they are, with the file or object number they were made from.
\<close>

theorem ftag_names_classified:
  assumes "length (ft_ctag f) + length (ft_streamid f) \<le> 2147483000"
    and "ft_fileno f \<le> SSIZE_MAX" "ft_objno f \<le> SSIZE_MAX"
    and "length (ft_ctag f) + length (ft_streamid f) + 40 \<le> len"
  shows "ftag_metainfo (Some (snd (ftag_metatgt True (Some f) True len))) True =
           Inr (ft_fileno f, Metafile) \<and>
         ftag_metainfo (Some (snd (ftag_rebuildmarker True (Some f) True len))) True =
           Inr (ft_objno f, Rebuild_marker) \<and>
         ftag_metainfo (Some (snd (ftag_repackmarker True (Some f) True len))) True =
           Inr (ft_fileno f, Repack_marker)"
proof (intro conjI)
  note len = length_show_u64 [of "ft_fileno f"] length_show_u64 [of "ft_objno f"]
  let ?pre = "ft_ctag f @ ''|'' @ sanitize (ft_streamid f)"
  note simps = snprintf_out_def snprintf_buf_def length_sanitize not_less
    no_digit_def is_digit_def NUL_def
  show "ftag_metainfo (Some (snd (ftag_metatgt True (Some f) True len))) True =
           Inr (ft_fileno f, Metafile)"
    using ftag_metainfo_tail [of "[]" ?pre "ft_fileno f"] assms len
    by (simp add: ftag_metatgt_def simps)
  show "ftag_metainfo (Some (snd (ftag_rebuildmarker True (Some f) True len))) True =
           Inr (ft_objno f, Rebuild_marker)"
    using ftag_metainfo_tail [of "''rebuild''" ?pre "ft_objno f"] assms len
    by (simp add: ftag_rebuildmarker_def simps)
  show "ftag_metainfo (Some (snd (ftag_repackmarker True (Some f) True len))) True =
           Inr (ft_fileno f, Repack_marker)"
    using ftag_metainfo_tail [of "''REPACK''" ?pre "ft_fileno f"] assms len
    by (simp add: ftag_repackmarker_def simps)
qed

theorem ftag_names_classified_witness:
  "ftag_metainfo (Some (snd (ftag_rebuildmarker True (Some ftag_sample) True 64))) True =
     Inr (0, Rebuild_marker)"
proof -
  have "length (ft_ctag ftag_sample) + length (ft_streamid ftag_sample) \<le> 2147483000"
    "ft_fileno ftag_sample \<le> SSIZE_MAX" "ft_objno ftag_sample \<le> SSIZE_MAX"
    "length (ft_ctag ftag_sample) + length (ft_streamid ftag_sample) + 40 \<le> 64"
    "ft_objno ftag_sample = 0"
    by (simp_all add: ftag_sample_def SSIZE_MAX_def)
  with ftag_names_classified [of ftag_sample 64] show ?thesis by simp
qed

text \<open>
  C10. Distinct objects get distinct names. For tags whose client tag and stream identifier pass
  \<^verbatim>\<open>restrictedchars_check\<close> up to the separator \<^verbatim>\<open>#\<close> of generated identifiers (no bar), two
  equal object names come from the same client tag, stream and object number, and two equal
  metadata reference names from the same client tag, stream and file number.
\<close>

theorem ftag_names_injective:
  assumes "CHR ''|'' \<notin> set (ft_ctag f)" "CHR ''|'' \<notin> set (ft_ctag g)"
    and "CHR ''|'' \<notin> set (ft_streamid f)" "CHR ''|'' \<notin> set (ft_streamid g)"
    and "length (ft_ctag f) + length (ft_streamid f) + 40 \<le> len"
    and "length (ft_ctag g) + length (ft_streamid g) + 40 \<le> len"
  shows "(snd (ftag_datatgt (Some f) True len) = snd (ftag_datatgt (Some g) True len) \<longleftrightarrow>
            ft_ctag f = ft_ctag g \<and> ft_streamid f = ft_streamid g \<and> ft_objno f = ft_objno g) \<and>
         (snd (ftag_metatgt True (Some f) True len) = snd (ftag_metatgt True (Some g) True len) \<longleftrightarrow>
            ft_ctag f = ft_ctag g \<and> ft_streamid f = ft_streamid g \<and> ft_fileno f = ft_fileno g)"
  using assms length_show_u64 [of "ft_objno f"] length_show_u64 [of "ft_objno g"]
    length_show_u64 [of "ft_fileno f"] length_show_u64 [of "ft_fileno g"]
  by (auto simp: ftag_datatgt_def ftag_metatgt_def snprintf_out_def snprintf_buf_def
      sanitize_id split_at_sep show_nat_inj word_unat_eq_iff)

theorem ftag_names_injective_witness:
  "snd (ftag_datatgt (Some ftag_sample) True 64) \<noteq>
   snd (ftag_datatgt (Some (ftag_sample\<lparr>ft_objno := 1\<rparr>)) True 64)"
  using ftag_names_injective [of ftag_sample "ftag_sample\<lparr>ft_objno := 1\<rparr>" 64]
  by (simp add: ftag_sample_def)

text \<open>
  The two passes that copy a string up to its bar are safe and exact: the allocation of the
  first pass always holds what the second pass writes, the result is the text in front of the
  first bar, and the rest of the string follows the bar. A missing bar is an error of the
  client tag; for the stream identifier it is a write through a NULL pointer.
\<close>

theorem ftag_names_copied:
  "ftag_parse_ctag m f p =
     (if CHR ''|'' \<in> set p
      then (if m then Inr (f\<lparr>ft_ctag := takeWhile (\<lambda>c. c \<noteq> CHR ''|'') p\<rparr>,
                           tl (dropWhile (\<lambda>c. c \<noteq> CHR ''|'') p))
            else Inl ENOMEM)
      else Inl EFail) \<and>
   ftag_parse_streamid m f p =
     (if CHR ''|'' \<in> set p
      then (if m then Inr (f\<lparr>ft_streamid := takeWhile (\<lambda>c. c \<noteq> CHR ''|'') p\<rparr>,
                           tl (dropWhile (\<lambda>c. c \<noteq> CHR ''|'') p))
            else Inl ENOMEM)
      else Inl UB)"
  using ftag_parse_ctag_eq ftag_parse_streamid_eq by blast

text \<open>
  C13. A tag string that ends before the second bar is not rejected but crashes the parser: the
  text has the right version and client tag, the stream identifier has no bar, and
  \<^verbatim>\<open>ftag_initstr\<close> writes the trailing NUL through the NULL pointer of the field.
\<close>

theorem ftag_initstr_null_write:
  assumes "CHR ''|'' \<notin> set c" "CHR ''|'' \<notin> set s"
  shows "ftag_initstr all_mem (Some f) (Some (''VER(0.001)STM('' @ c @ ''|'' @ s)) = Inl UB"
proof -
  let ?v = "f\<lparr>ft_majorversion := 0, ft_minorversion := 1\<rparr>"
  have v: "ftag_ver_piece ?v = ''VER(0.001)''"
    by (simp add: ftag_ver_piece_def show_prec_def show_nat_01 numeral_2_eq_2)
  have "ftag_parse_version f (''VER(0.001)'' @ ''STM('' @ c @ ''|'' @ s) =
        Inr (?v, ''STM('' @ c @ ''|'' @ s)"
    using ftag_parse_version_piece [of ?v f] unfolding v by (simp add: ftag_version_defs)
  then show ?thesis
    using assms by (simp add: ftag_initstr_def ftag_parse_stream_def ftag_parse_ctag_bar
        ftag_parse_streamid_eq)
qed

theorem ftag_initstr_null_write_witness:
  "ftag_initstr all_mem (Some ftag_sample) (Some ''VER(0.001)STM(Client|stream-F4'') = Inl UB"
  using ftag_initstr_null_write [of "''Client''" "''stream-F4''" ftag_sample] by simp

text \<open>
  The parser counts values instead of fields: a stream stanza that gives the file count
  twice is accepted, and the object size keeps what the struct held before the call.
\<close>

theorem ftag_stm_duplicate:
  "ftag_parse_stream all_mem f
     (''STM(c|s|F'' @ show_nat (unat (a :: u64)) @ ''-F'' @ show_nat (unat (b :: u64)) @ '')'' @ t) =
   Inr (f\<lparr>ft_ctag := ''c'', ft_streamid := ''s'', ft_objfiles := b\<rparr>, t)"
  by (simp add: ftag_parse_stream_def ftag_parse_ctag_eq ftag_parse_streamid_eq
      ftag_stm_vals.simps [of _ _ "_ # _"] cstr_simps)

end
