(* ===== verification/Hash.thy ===== *)
theory Hash
  imports Prelude
begin

text \<open>
  The consistent hash table (\<^verbatim>\<open>src/hash/hash.c\<close>), which MarFS uses to spread metadata references and
  objects over locations and to look names up in the configuration. The theory holds the
  MurmurHash3 function on 64-bit words, the construction of the ring of virtual nodes, the
  lookup with its binary search and its scan of colliding identifiers, and the iterator.

  Array positions are natural numbers; reading outside an array, a signed overflow and a
  missing name are \<open>UB\<close>.
\<close>

unbundle bit_operations_syntax

section \<open>MurmurHash3\<close>

definition KEY_SEED :: u32 where "KEY_SEED = 17"

definition rotl64 :: "u64 \<Rightarrow> nat \<Rightarrow> u64" where
  "rotl64 x r = push_bit r x OR drop_bit (64 - r) x"

definition fmix64 :: "u64 \<Rightarrow> u64" where
  "fmix64 k =
     (let k = k XOR drop_bit 33 k;
          k = k * 0xff51afd7ed558ccd;
          k = k XOR drop_bit 33 k;
          k = k * 0xc4ceb9fe1a85ec53
      in k XOR drop_bit 33 k)"

definition murmur_c1 :: u64 where "murmur_c1 = 0x87c37b91114253d5"
definition murmur_c2 :: u64 where "murmur_c2 = 0x4cf5ad432745937f"

text \<open>\<open>le64 bs\<close>: the little-endian word of up to eight bytes (\<^verbatim>\<open>getblock64\<close>, and the tail switch).\<close>

fun le64 :: "u8 list \<Rightarrow> u64" where
  "le64 [] = 0"
| "le64 (b # bs) = ucast b XOR push_bit 8 (le64 bs)"

definition mix_k1 :: "u64 \<Rightarrow> u64" where
  "mix_k1 k = rotl64 (k * murmur_c1) 31 * murmur_c2"

definition mix_k2 :: "u64 \<Rightarrow> u64" where
  "mix_k2 k = rotl64 (k * murmur_c2) 33 * murmur_c1"

text \<open>The body: one block of sixteen bytes after the other; the result is the state and the tail.\<close>

function murmur_body :: "u8 list \<Rightarrow> u64 \<Rightarrow> u64 \<Rightarrow> u64 \<times> u64 \<times> u8 list" where
  "murmur_body bs h1 h2 =
     (if length bs < 16 then (h1, h2, bs)
      else
        (let k1 = le64 (take 8 bs); k2 = le64 (take 8 (drop 8 bs));
             h1 = h1 XOR mix_k1 k1;
             h1 = rotl64 h1 27; h1 = h1 + h2; h1 = h1 * 5 + 0x52dce729;
             h2 = h2 XOR mix_k2 k2;
             h2 = rotl64 h2 31; h2 = h2 + h1; h2 = h2 * 5 + 0x38495ab5
         in murmur_body (drop 16 bs) h1 h2))"
  by pat_completeness auto
termination
  by (relation "measure (\<lambda>(bs, h1, h2). length bs)") auto

declare murmur_body.simps [simp del]

text \<open>
  The tail switch falls through: with more than eight bytes the second word is mixed in, with
  any byte the first one.
\<close>

definition murmur_tail :: "u8 list \<Rightarrow> u64 \<Rightarrow> u64 \<Rightarrow> u64 \<times> u64" where
  "murmur_tail tl0 h1 h2 =
     ((if 0 < length tl0 then h1 XOR mix_k1 (le64 (take 8 tl0)) else h1),
      (if 8 < length tl0 then h2 XOR mix_k2 (le64 (drop 8 tl0)) else h2))"

definition MurmurHash3_x64_128 :: "u8 list \<Rightarrow> u32 \<Rightarrow> u64 \<times> u64" where
  "MurmurHash3_x64_128 bs seed =
     (case murmur_body bs (ucast seed) (ucast seed) of (h1, h2, tl0) \<Rightarrow>
     (case murmur_tail tl0 h1 h2 of (h1, h2) \<Rightarrow>
       (let len = of_nat (length bs);
            h1 = h1 XOR len; h2 = h2 XOR len;
            h1 = h1 + h2; h2 = h2 + h1;
            h1 = fmix64 h1; h2 = fmix64 h2;
            h1 = h1 + h2; h2 = h2 + h1
        in (h1, h2))))"

type_synonym hid = "u64 \<times> u64"

definition key_identifier :: "string \<Rightarrow> hid" where
  "key_identifier key = MurmurHash3_x64_128 (map of_char key) KEY_SEED"

text \<open>The two hash functions that are kept for reference. \<^verbatim>\<open>char\<close> is signed on the target.\<close>

fun polyhash_loop :: "u64 \<Rightarrow> string \<Rightarrow> u64" where
  "polyhash_loop h [] = h"
| "polyhash_loop h (c # s) = polyhash_loop (33 * h + scast (of_char c :: u8)) s"

definition polyhash :: "string \<Rightarrow> c_error + u64" where
  "polyhash s =
     (case s of [] \<Rightarrow> Inl UB | c # r \<Rightarrow> Inr (polyhash_loop (scast (of_char c :: u8)) r))"

definition h_a :: "u64 \<Rightarrow> u64 \<Rightarrow> u64" where
  "h_a key a = drop_bit 32 (a * key)"

text \<open>
  \<^verbatim>\<open>hash_rangevalue\<close>: the \<^verbatim>\<open>int\<close> bound is converted to the unsigned 64-bit type of the
  identifiers; a zero bound divides by zero.
\<close>

definition hash_rangevalue :: "string \<Rightarrow> u32 \<Rightarrow> c_error + u32" where
  "hash_rangevalue s maxval =
     (case key_identifier s of (i0, i1) \<Rightarrow>
       (let mx = (scast maxval :: u64) in
        if mx = 0 then Inl UB
        else Inr (ucast (((i1 mod mx) + (i0 mod mx)) mod mx))))"

section \<open>Virtual nodes\<close>

definition compareID :: "hid \<Rightarrow> hid \<Rightarrow> int" where
  "compareID a b =
     (if fst b < fst a then 1
      else if fst a < fst b then - 1
      else if snd b < snd a then 1
      else if snd a < snd b then - 1
      else 0)"

datatype virtual_node = VNode (vn_id: hid) (vn_nodenum: nat)

definition compare_nodes :: "virtual_node \<Rightarrow> virtual_node \<Rightarrow> int" where
  "compare_nodes a b =
     (let c = compareID (vn_id a) (vn_id b) in
      if c \<noteq> 0 then c
      else if vn_nodenum a < vn_nodenum b then - 1
      else if vn_nodenum b = vn_nodenum a then 0
      else 1)"

text \<open>
  Identifiers in the order of \<^verbatim>\<open>compareID\<close> are numbers of 128 bits.
\<close>

definition id_num :: "hid \<Rightarrow> nat" where
  "id_num i = unat (fst i) * 2 ^ 64 + unat (snd i)"

lemma id_num_less:
  "id_num a < id_num b \<longleftrightarrow> fst a < fst b \<or> fst a = fst b \<and> snd a < snd b"
proof -
  have s: "unat (snd a) < 2 ^ 64" "unat (snd b) < 2 ^ 64"
    by simp_all
  consider "unat (fst a) < unat (fst b)" | "unat (fst a) = unat (fst b)"
    | "unat (fst b) < unat (fst a)"
    by linarith
  then show ?thesis
  proof cases
    case 1
    then have "unat (fst a) * 2 ^ 64 + 2 ^ 64 \<le> unat (fst b) * 2 ^ 64"
      using mult_le_mono1 [of "Suc (unat (fst a))" "unat (fst b)" "2 ^ 64"] by simp
    with s have "id_num a < id_num b" unfolding id_num_def by linarith
    with 1 show ?thesis by (simp add: word_less_nat_alt)
  next
    case 2
    then show ?thesis by (simp add: id_num_def word_less_nat_alt word_unat_eq_iff)
  next
    case 3
    then have "unat (fst b) * 2 ^ 64 + 2 ^ 64 \<le> unat (fst a) * 2 ^ 64"
      using mult_le_mono1 [of "Suc (unat (fst b))" "unat (fst a)" "2 ^ 64"] by simp
    with s have "id_num b < id_num a" unfolding id_num_def by linarith
    with 3 show ?thesis by (auto simp: word_less_nat_alt word_unat_eq_iff)
  qed
qed

lemma id_num_eq: "id_num a = id_num b \<longleftrightarrow> a = b"
  using id_num_less [of a b] id_num_less [of b a]
  by (cases a; cases b) (auto simp: not_less_iff_gr_or_eq)

lemma compareID_num:
  "compareID a b < 0 \<longleftrightarrow> id_num a < id_num b"
  "0 < compareID a b \<longleftrightarrow> id_num b < id_num a"
  "compareID a b = 0 \<longleftrightarrow> a = b"
  by (auto simp: compareID_def id_num_less prod_eq_iff not_less_iff_gr_or_eq)

text \<open>\<^verbatim>\<open>compare_nodes\<close> is a linear order, so \<^verbatim>\<open>qsort\<close> has exactly one result.\<close>

lemma compare_nodes_num:
  "compare_nodes a b \<le> 0 \<longleftrightarrow>
     id_num (vn_id a) < id_num (vn_id b) \<or> vn_id a = vn_id b \<and> vn_nodenum a \<le> vn_nodenum b"
  "compare_nodes a b < 0 \<longleftrightarrow>
     id_num (vn_id a) < id_num (vn_id b) \<or> vn_id a = vn_id b \<and> vn_nodenum a < vn_nodenum b"
  using compareID_num [of "vn_id a" "vn_id b"] id_num_eq [of "vn_id a" "vn_id b"]
  by (auto simp: compare_nodes_def Let_def)

instantiation virtual_node :: linorder
begin

definition less_eq_virtual_node :: "virtual_node \<Rightarrow> virtual_node \<Rightarrow> bool" where
  "less_eq_virtual_node a b \<longleftrightarrow> compare_nodes a b \<le> 0"

definition less_virtual_node :: "virtual_node \<Rightarrow> virtual_node \<Rightarrow> bool" where
  "less_virtual_node a b \<longleftrightarrow> compare_nodes a b < 0"

instance
  by standard
     (auto simp: less_eq_virtual_node_def less_virtual_node_def compare_nodes_num id_num_eq
       virtual_node.expand)

end

section \<open>The table\<close>

record hash_node =
  hn_name :: "string option"
  hn_weight :: int
  hn_content :: nat

record hash_table =
  ht_nodes :: "hash_node list"
  ht_vnodes :: "virtual_node list"
  ht_curnode :: nat
  ht_iterated :: nat

definition TARGET_NODE_COUNT :: int where "TARGET_NODE_COUNT = 50000"

text \<open>An \<^verbatim>\<open>int\<close> result that is too large is a signed overflow.\<close>

definition chk_int :: "int \<Rightarrow> c_error + int" where
  "chk_int i = (if i \<le> INT_MAX then Inr i else Inl UB)"

text \<open>The first loop: total weight, number of zero weights, longest name.\<close>

fun hash_gather :: "hash_node list \<Rightarrow> int \<Rightarrow> int \<Rightarrow> int \<Rightarrow> c_error + int \<times> int \<times> int" where
  "hash_gather [] tw zc mxn = Inr (tw, zc, mxn)"
| "hash_gather (n # ns) tw zc mxn =
     (if hn_weight n < 0 then Inl EINVAL
      else
        bindE (if hn_weight n = 0 then bindE (chk_int (zc + 1)) (\<lambda>z. Inr (tw, z))
               else bindE (chk_int (tw + hn_weight n)) (\<lambda>t. Inr (t, zc))) (\<lambda>(tw2, zc2).
          case hn_name n of
            None \<Rightarrow> Inl EINVAL
          | Some s \<Rightarrow>
              if mxn < int (length s)
              then bindE (chk_int (int (length s))) (\<lambda>l. hash_gather ns tw2 zc2 l)
              else hash_gather ns tw2 zc2 mxn))"

definition hash_weightratio :: "int \<Rightarrow> int" where
  "hash_weightratio tw =
     (if tw \<noteq> 0
      then TARGET_NODE_COUNT div tw + (if TARGET_NODE_COUNT mod tw \<noteq> 0 then 1 else 0)
      else 1)"

text \<open>\<^verbatim>\<open>while ( tmpratio = tmpratio / 10 ) maxdigits++\<close>\<close>

fun hash_maxdigits :: "nat \<Rightarrow> int \<Rightarrow> int" where
  "hash_maxdigits t d = (if t div 10 = 0 then d else hash_maxdigits (t div 10) (d + 1))"

declare hash_maxdigits.simps [simp del]

text \<open>
  The virtual nodes of one weighted node. \<open>vs\<close> holds the entries written so far, \<open>vc\<close> the size of
  the array, \<open>blen\<close> the size of the name buffer; \<open>k\<close> counts up to the node's share.
\<close>

function hash_mkweighted ::
  "nat \<Rightarrow> int \<Rightarrow> nat \<Rightarrow> string \<Rightarrow> nat \<Rightarrow> nat \<Rightarrow> virtual_node list \<Rightarrow> c_error + virtual_node list" where
  "hash_mkweighted vc blen nodenum name cnt k vs =
     (if \<not> k < cnt then Inr vs
      else if \<not> length vs < vc then Inl UB
      else
        (let out = name @ ''-'' @ show_nat k; pval = snprintf_ret out in
         if pval < 0 \<or> blen \<le> pval then Inl EFail
         else hash_mkweighted vc blen nodenum name cnt (Suc k)
                (vs @ [VNode (key_identifier (snprintf_buf (nat blen) out)) nodenum])))"
  by pat_completeness auto
termination
  by (relation "measure (\<lambda>(vc, blen, nodenum, name, cnt, k, vs). cnt - k)") auto

declare hash_mkweighted.simps [simp del]

fun hash_mkvnodes ::
  "nat \<Rightarrow> int \<Rightarrow> bool \<Rightarrow> int \<Rightarrow> nat \<Rightarrow> hash_node list \<Rightarrow> virtual_node list
     \<Rightarrow> c_error + virtual_node list" where
  "hash_mkvnodes vc blen direct ratio cur [] vs = Inr vs"
| "hash_mkvnodes vc blen direct ratio cur (n # ns) vs =
     bindE (if hn_weight n \<noteq> 0
            then hash_mkweighted vc blen cur (the (hn_name n)) (nat (hn_weight n * ratio)) 0 vs
            else if direct
            then (if length vs < vc then Inr (vs @ [VNode (key_identifier (the (hn_name n))) cur])
                  else Inl UB)
            else Inr vs)
       (\<lambda>vs2. hash_mkvnodes vc blen direct ratio (Suc cur) ns vs2)"

text \<open>
  \<^verbatim>\<open>hash_init\<close>. The allocations are the table, the array of virtual nodes and the name buffer. The
  array is sorted as a whole, so it must have been filled as a whole.
\<close>

definition hash_init :: "mem \<Rightarrow> hash_node list \<Rightarrow> bool \<Rightarrow> c_error + hash_table" where
  "hash_init m nodes direct =
     (if \<not> m 0 then Inl ENOMEM
      else
        bindE (hash_gather nodes 0 0 0) (\<lambda>(tw, zc, mxn).
          if tw = 0 \<and> \<not> direct then Inl EINVAL
          else
            (let ratio = hash_weightratio tw in
             bindE (chk_int (ratio * tw)) (\<lambda>wn.
               (let vc = nat (wn + (if direct then zc else 0)) in
                if \<not> m 1 then Inl ENOMEM
                else
                  (let maxdigits = hash_maxdigits (nat wn) 1 in
                   bindE (chk_int (mxn + 2 + maxdigits)) (\<lambda>blen.
                     if \<not> m 2 then Inl ENOMEM
                     else
                       bindE (hash_mkvnodes vc blen direct ratio 0 nodes []) (\<lambda>vs.
                         if length vs \<noteq> vc then Inl UB
                         else Inr \<lparr>ht_nodes = nodes, ht_vnodes = sort vs,
                                   ht_curnode = 0, ht_iterated = 0\<rparr>))))))))"

text \<open>\<^verbatim>\<open>hash_term\<close> hands the node list back.\<close>

definition hash_term :: "hash_table option \<Rightarrow> c_error + hash_node list \<times> nat" where
  "hash_term t =
     (case t of None \<Rightarrow> Inl EINVAL | Some ht \<Rightarrow> Inr (ht_nodes ht, length (ht_nodes ht)))"

section \<open>Lookup\<close>

definition vnode_at :: "hash_table \<Rightarrow> nat \<Rightarrow> c_error + virtual_node" where
  "vnode_at t i = (if i < length (ht_vnodes t) then Inr (ht_vnodes t ! i) else Inl UB)"

text \<open>\<^verbatim>\<open>strncmp( table->nodes[nodenum].name, target, strlen(target) + 1 ) == 0\<close>: the strings agree.\<close>

definition name_matches :: "hash_table \<Rightarrow> nat \<Rightarrow> string \<Rightarrow> c_error + bool" where
  "name_matches t k target =
     (if k < length (ht_nodes t)
      then (case hn_name (ht_nodes t ! k) of None \<Rightarrow> Inl UB | Some s \<Rightarrow> Inr (s = target))
      else Inl UB)"

text \<open>
  The binary search: the position, the bounds when the loop ended, and the return value. At the
  loop head the position is always the middle of the bounds. \<open>min\<close> never exceeds \<open>max\<close>; the model
  marks the case as undefined.
\<close>

function hash_search ::
  "hash_table \<Rightarrow> hid \<Rightarrow> string \<Rightarrow> nat \<Rightarrow> nat \<Rightarrow> c_error + nat \<times> nat \<times> nat \<times> int" where
  "hash_search t tid target mn mx =
     (if mn = mx then Inr (mn + (mx - mn) div 2, mn, mx, 1)
      else if mx < mn then Inl UB
      else
        (let cur = mn + (mx - mn) div 2 in
         case vnode_at t cur of
           Inl e \<Rightarrow> Inl e
         | Inr v \<Rightarrow>
             (let comparison = compareID (vn_id v) tid in
              if comparison > 0 then hash_search t tid target mn cur
              else if comparison < 0 then hash_search t tid target (cur + 1) mx
              else
                (case name_matches t (vn_nodenum v) target of
                   Inl e \<Rightarrow> Inl e
                 | Inr eq \<Rightarrow> if \<not> eq then Inr (cur, mn, mx, 1) else Inr (cur, mn, cur, 0)))))"
  by pat_completeness auto
termination
  by (relation "measure (\<lambda>(t, tid, target, mn, mx). mx - mn)") auto

declare hash_search.simps [simp del]

text \<open>
  The scan of the neighbours of a colliding node, upwards first (\<open>up\<close>), then downwards. The
  result is the position and the return value.
\<close>

function hash_scan ::
  "hash_table \<Rightarrow> hid \<Rightarrow> string \<Rightarrow> nat \<Rightarrow> nat \<Rightarrow> nat \<Rightarrow> bool \<Rightarrow> nat \<Rightarrow> c_error + nat \<times> int" where
  "hash_scan t tid target cur mn mx up tmp =
     (let turn = (if up then (if cur = 0 then Inr (cur, 1)
                              else hash_scan t tid target cur mn mx False (cur - 1))
                  else Inr (cur, 1)) in
      if tmp = mx then turn
      else
        (case vnode_at t tmp of
           Inl e \<Rightarrow> Inl e
         | Inr v \<Rightarrow>
             if compareID (vn_id v) tid \<noteq> 0 then turn
             else
               (case name_matches t (vn_nodenum v) target of
                  Inl e \<Rightarrow> Inl e
                | Inr eq \<Rightarrow>
                    if eq then Inr (tmp, 0)
                    else if tmp = mn then Inr (cur, 1)
                    else if up then hash_scan t tid target cur mn mx True (tmp + 1)
                    else if tmp = 0 then Inl UB
                    else hash_scan t tid target cur mn mx False (tmp - 1))))"
  by pat_completeness auto
termination
  by (relation "measures [\<lambda>(t, tid, target, cur, mn, mx, up, tmp). if up then 1 else 0,
        \<lambda>(t, tid, target, cur, mn, mx, up, tmp). if up then length (ht_vnodes t) - tmp else tmp]")
     (auto simp: vnode_at_def split: if_splits)

declare hash_scan.simps [simp del]

text \<open>\<^verbatim>\<open>hash_lookup\<close>: the return value and the position of the node.\<close>

definition hash_lookup :: "hash_table option \<Rightarrow> string option \<Rightarrow> c_error + int \<times> nat" where
  "hash_lookup to so =
     (case to of None \<Rightarrow> Inl EINVAL | Some t \<Rightarrow>
     (case so of None \<Rightarrow> Inl EINVAL | Some target \<Rightarrow>
       (let tid = key_identifier target in
        bindE (hash_search t tid target 0 (length (ht_vnodes t))) (\<lambda>(cur, mn, mx, rv).
        bindE (if cur \<noteq> mx then hash_scan t tid target cur mn mx True (cur + 1)
               else Inr (cur, rv)) (\<lambda>(cur2, rv2).
        bindE (vnode_at t (if cur2 = length (ht_vnodes t) then 0 else cur2)) (\<lambda>v.
          Inr (rv2, vn_nodenum v)))))))"

section \<open>Iteration\<close>

text \<open>\<^verbatim>\<open>hash_iterate\<close>: the return value, the position of the node handed out, and the table.\<close>

definition hash_iterate :: "hash_table option \<Rightarrow> c_error + int \<times> nat option \<times> hash_table" where
  "hash_iterate to =
     (case to of None \<Rightarrow> Inl EINVAL | Some t \<Rightarrow>
        if length (ht_nodes t) \<le> ht_iterated t then Inr (0, None, t)
        else
          (let cur = ht_curnode t in
           Inr (1, Some cur,
                t\<lparr>ht_iterated := ht_iterated t + 1,
                  ht_curnode := (if length (ht_nodes t) \<le> cur + 1 then 0 else cur + 1)\<rparr>)))"

definition hash_reset :: "hash_table option \<Rightarrow> c_error + hash_table" where
  "hash_reset to =
     (case to of None \<Rightarrow> Inl EINVAL | Some t \<Rightarrow> Inr (t\<lparr>ht_curnode := 0, ht_iterated := 0\<rparr>))"

section \<open>Lemmas\<close>

subsection \<open>Searching the ring\<close>

text \<open>A table as \<^verbatim>\<open>hash_init\<close> leaves it: sorted, with references to existing nodes that have names.\<close>

definition ht_ok :: "hash_table \<Rightarrow> bool" where
  "ht_ok t \<longleftrightarrow>
     sorted (ht_vnodes t) \<and>
     (\<forall>v \<in> set (ht_vnodes t). vn_nodenum v < length (ht_nodes t)) \<and>
     (\<forall>n \<in> set (ht_nodes t). hn_name n \<noteq> None)"

definition vnum :: "hash_table \<Rightarrow> nat \<Rightarrow> nat" where
  "vnum t i = id_num (vn_id (ht_vnodes t ! i))"

text \<open>The virtual node at a position stands for a node of the given name.\<close>

definition vmatch :: "hash_table \<Rightarrow> string \<Rightarrow> nat \<Rightarrow> bool" where
  "vmatch t target i \<longleftrightarrow> hn_name (ht_nodes t ! vn_nodenum (ht_vnodes t ! i)) = Some target"

lemma vnum_mono: "ht_ok t \<Longrightarrow> i \<le> j \<Longrightarrow> j < length (ht_vnodes t) \<Longrightarrow> vnum t i \<le> vnum t j"
  using sorted_nth_mono [of "ht_vnodes t" i j]
  by (auto simp: ht_ok_def vnum_def less_eq_virtual_node_def compare_nodes_num id_num_eq)

lemma name_matches_ok:
  assumes "ht_ok t" "i < length (ht_vnodes t)"
  shows "name_matches t (vn_nodenum (ht_vnodes t ! i)) target = Inr (vmatch t target i)"
proof -
  have k: "vn_nodenum (ht_vnodes t ! i) < length (ht_nodes t)"
    using assms by (simp add: ht_ok_def)
  then have "hn_name (ht_nodes t ! vn_nodenum (ht_vnodes t ! i)) \<noteq> None"
    using assms by (simp add: ht_ok_def)
  with k show ?thesis by (auto simp: name_matches_def vmatch_def)
qed

text \<open>The bounds of the search: everything below is too small, everything above too large.\<close>

definition search_inv :: "hash_table \<Rightarrow> nat \<Rightarrow> nat \<Rightarrow> nat \<Rightarrow> bool" where
  "search_inv t tn mn mx \<longleftrightarrow>
     mn \<le> mx \<and> mx \<le> length (ht_vnodes t) \<and> (\<forall>i < mn. vnum t i < tn) \<and>
     (\<forall>i. mx \<le> i \<longrightarrow> i < length (ht_vnodes t) \<longrightarrow> tn < vnum t i)"

lemma search_inv_lower:
  assumes "ht_ok t" "search_inv t tn mn mx" "cur < mx" "tn < vnum t cur" "mn \<le> cur"
  shows "search_inv t tn mn cur"
  using assms vnum_mono [OF assms(1), of cur] by (fastforce simp: search_inv_def)

lemma search_inv_upper:
  assumes "ht_ok t" "search_inv t tn mn mx" "cur < mx" "vnum t cur < tn"
  shows "search_inv t tn (cur + 1) mx"
  using assms vnum_mono [OF assms(1), of _ cur] by (fastforce simp: search_inv_def less_Suc_eq_le)

lemma hash_search_spec:
  assumes "ht_ok t" "search_inv t (id_num tid) mn mx"
  shows "\<exists>cur mn' mx' rv. hash_search t tid target mn mx = Inr (cur, mn', mx', rv) \<and>
    (rv = 0 \<and> cur = mx' \<and> cur < length (ht_vnodes t) \<and> vnum t cur = id_num tid \<and>
       vmatch t target cur \<or>
     rv = 1 \<and> search_inv t (id_num tid) mn' mx' \<and>
       (cur = mx' \<and> mn' = mx' \<or>
        mn' \<le> cur \<and> cur < mx' \<and> vnum t cur = id_num tid \<and> \<not> vmatch t target cur))"
  using assms(2)
proof (induction "mx - mn" arbitrary: mn mx rule: less_induct)
  case less
  show ?case
  proof (cases "mn = mx")
    case True
    with less.prems show ?thesis by (auto simp: hash_search.simps [of t tid target mx mx])
  next
    case False
    define cur where "cur = mn + (mx - mn) div 2"
    have lt: "mn \<le> cur" "cur < mx" "cur < length (ht_vnodes t)" "\<not> mx < mn"
      using False less.prems by (auto simp: cur_def search_inv_def)
    have v: "vnode_at t cur = Inr (ht_vnodes t ! cur)"
      using lt by (simp add: vnode_at_def)
    let ?c = "compareID (vn_id (ht_vnodes t ! cur)) tid"
    note num = compareID_num [of "vn_id (ht_vnodes t ! cur)" tid, folded vnum_def]
    have step: "hash_search t tid target mn mx =
        (if ?c > 0 then hash_search t tid target mn cur
         else if ?c < 0 then hash_search t tid target (cur + 1) mx
         else if \<not> vmatch t target cur then Inr (cur, mn, mx, 1) else Inr (cur, mn, cur, 0))"
      using False lt v name_matches_ok [OF assms(1) lt(3)]
      by (subst hash_search.simps) (simp add: Let_def cur_def [symmetric])
    consider (gt) "?c > 0" | (lt) "?c < 0" | (eq) "?c = 0" by linarith
    then show ?thesis
    proof cases
      case gt
      then have "search_inv t (id_num tid) mn cur"
        using search_inv_lower [OF assms(1) less.prems lt(2) _ lt(1)] num(2) by simp
      from less.hyps [OF _ this] gt lt step show ?thesis by simp
    next
      case lt2: lt
      then have "search_inv t (id_num tid) (cur + 1) mx"
        using search_inv_upper [OF assms(1) less.prems lt(2)] num(1) by simp
      from less.hyps [OF _ this] lt2 lt step show ?thesis by simp
    next
      case eq
      then have "vnum t cur = id_num tid" using num(3) by (simp add: vnum_def)
      with eq lt step less.prems show ?thesis by auto
    qed
  qed
qed

text \<open>
  The scan starts at a colliding node. It finds a match if there is one among the nodes with
  the identifier, and otherwise keeps its position.
\<close>

definition collision :: "hash_table \<Rightarrow> hid \<Rightarrow> nat \<Rightarrow> nat \<Rightarrow> nat \<Rightarrow> bool" where
  "collision t tid mn mx cur \<longleftrightarrow>
     ht_ok t \<and> search_inv t (id_num tid) mn mx \<and> mn \<le> cur \<and> cur < mx \<and> vnum t cur = id_num tid"

text \<open>Among the nodes with the identifier, there is no match at the positions \<open>P\<close>.\<close>

definition no_match :: "hash_table \<Rightarrow> hid \<Rightarrow> string \<Rightarrow> (nat \<Rightarrow> bool) \<Rightarrow> bool" where
  "no_match t tid target P \<longleftrightarrow>
     (\<forall>i < length (ht_vnodes t). P i \<longrightarrow> vnum t i = id_num tid \<longrightarrow> \<not> vmatch t target i)"

lemma no_match_outside:
  assumes "collision t tid mn mx cur"
  shows "no_match t tid target (\<lambda>i. i < mn)" "no_match t tid target (\<lambda>i. mx \<le> i)"
  using assms by (auto simp: collision_def search_inv_def no_match_def)

lemma no_match_below:
  assumes "collision t tid mn mx cur" "k \<le> cur" "vn_id (ht_vnodes t ! k) \<noteq> tid"
  shows "no_match t tid target (\<lambda>i. i \<le> k)"
proof -
  have "vnum t k \<noteq> id_num tid" "vnum t k \<le> vnum t cur"
    using assms vnum_mono [of t k cur]
    by (auto simp: collision_def search_inv_def vnum_def id_num_eq)
  then have "vnum t k < id_num tid" using assms(1) by (simp add: collision_def)
  moreover have "vnum t i \<le> vnum t k" if "i \<le> k" for i
    using assms that vnum_mono [of t i k] by (auto simp: collision_def search_inv_def)
  ultimately show ?thesis unfolding no_match_def by fastforce
qed

lemma no_match_above:
  assumes "collision t tid mn mx cur" "cur \<le> k" "k < length (ht_vnodes t)"
    "vn_id (ht_vnodes t ! k) \<noteq> tid"
  shows "no_match t tid target (\<lambda>i. k \<le> i)"
proof -
  have "vnum t k \<noteq> id_num tid" "vnum t cur \<le> vnum t k"
    using assms vnum_mono [of t cur k] by (auto simp: collision_def vnum_def id_num_eq)
  then have "id_num tid < vnum t k" using assms(1) by (simp add: collision_def)
  moreover have "vnum t k \<le> vnum t i" if "k \<le> i" "i < length (ht_vnodes t)" for i
    using assms that vnum_mono [of t k i] by (auto simp: collision_def)
  ultimately show ?thesis unfolding no_match_def by fastforce
qed

text \<open>One round of the scan at a position inside the array.\<close>

lemma hash_scan_step:
  assumes "ht_ok t" "tmp < length (ht_vnodes t)" "tmp \<noteq> mx"
  shows "hash_scan t tid target cur mn mx up tmp =
    (if vn_id (ht_vnodes t ! tmp) \<noteq> tid
     then (if up then (if cur = 0 then Inr (cur, 1)
                       else hash_scan t tid target cur mn mx False (cur - 1))
           else Inr (cur, 1))
     else if vmatch t target tmp then Inr (tmp, 0)
     else if tmp = mn then Inr (cur, 1)
     else if up then hash_scan t tid target cur mn mx True (tmp + 1)
     else if tmp = 0 then Inl UB
     else hash_scan t tid target cur mn mx False (tmp - 1))"
  using assms name_matches_ok [OF assms(1,2)] compareID_num(3) [of "vn_id (ht_vnodes t ! tmp)" tid]
  by (subst hash_scan.simps) (simp add: Let_def vnode_at_def)

text \<open>What the scan yields when all positions outside \<open>P\<close> were looked at.\<close>

definition scan_result ::
  "hash_table \<Rightarrow> hid \<Rightarrow> string \<Rightarrow> nat \<Rightarrow> (nat \<Rightarrow> bool) \<Rightarrow> c_error + nat \<times> int \<Rightarrow> bool" where
  "scan_result t tid target cur P r \<longleftrightarrow>
     (\<exists>cur2 rv. r = Inr (cur2, rv) \<and> cur2 < length (ht_vnodes t) \<and> vnum t cur2 = id_num tid \<and>
        (rv = 0 \<and> vmatch t target cur2 \<or>
         rv = 1 \<and> cur2 = cur \<and> no_match t tid target P))"

lemma collision_length: "collision t tid mn mx cur \<Longrightarrow> cur < length (ht_vnodes t)"
  by (auto simp: collision_def search_inv_def)

lemma hash_scan_down:
  assumes "collision t tid mn mx cur" "tmp < cur"
  shows "scan_result t tid target cur (\<lambda>i. i \<le> tmp) (hash_scan t tid target cur mn mx False tmp)"
  using assms(2)
proof (induction tmp)
  case 0
  note c = assms(1) [unfolded collision_def] and len = collision_length [OF assms(1)]
  have mn: "mn = 0" if "vn_id (ht_vnodes t ! 0) = tid"
    using c that by (auto simp: search_inv_def vnum_def intro: ccontr)
  have "hash_scan t tid target cur mn mx False 0 =
      (if vn_id (ht_vnodes t ! 0) = tid \<and> vmatch t target 0 then Inr (0, 0) else Inr (cur, 1))"
    using c len 0 mn by (subst hash_scan_step) auto
  moreover have "no_match t tid target (\<lambda>i. i \<le> 0)"
    if "\<not> (vn_id (ht_vnodes t ! 0) = tid \<and> vmatch t target 0)"
    using that by (auto simp: no_match_def vnum_def id_num_eq)
  ultimately show ?case
    using c len by (auto simp: scan_result_def vnum_def)
next
  case (Suc k)
  note c = assms(1) [unfolded collision_def] and len = collision_length [OF assms(1)]
  have step: "hash_scan t tid target cur mn mx False (Suc k) =
      (if vn_id (ht_vnodes t ! Suc k) \<noteq> tid then Inr (cur, 1)
       else if vmatch t target (Suc k) then Inr (Suc k, 0)
       else if Suc k = mn then Inr (cur, 1)
       else hash_scan t tid target cur mn mx False k)"
    using c len Suc by (subst hash_scan_step) auto
  have IH: "scan_result t tid target cur (\<lambda>i. i \<le> k) (hash_scan t tid target cur mn mx False k)"
    using Suc by simp
  have ext: "no_match t tid target (\<lambda>i. i \<le> Suc k)"
    if "no_match t tid target (\<lambda>i. i \<le> k)" "\<not> vmatch t target (Suc k)"
    using that by (auto simp: no_match_def le_Suc_eq)
  have low: "no_match t tid target (\<lambda>i. i \<le> k)" if "Suc k = mn"
    using no_match_outside(1) [OF assms(1), of target] that by (auto simp: no_match_def)
  show ?case
  proof (cases "vn_id (ht_vnodes t ! Suc k) = tid")
    case True
    show ?thesis
      unfolding step using True IH ext low c len Suc.prems
      by (auto simp: scan_result_def vnum_def)
  next
    case False
    then show ?thesis
      unfolding step using no_match_below [OF assms(1) _ False, of target] Suc.prems c len
      by (auto simp: scan_result_def)
  qed
qed

lemma hash_scan_turn:
  assumes "collision t tid mn mx cur" "no_match t tid target (\<lambda>i. cur \<le> i)"
  shows "scan_result t tid target cur (\<lambda>i. True)
    (if cur = 0 then Inr (cur, 1) else hash_scan t tid target cur mn mx False (cur - 1))"
proof (cases "cur = 0")
  case True
  then show ?thesis
    using assms collision_length [OF assms(1)]
    by (auto simp: scan_result_def collision_def no_match_def)
next
  case False
  then have "scan_result t tid target cur (\<lambda>i. i \<le> cur - 1)
      (hash_scan t tid target cur mn mx False (cur - 1))"
    using hash_scan_down [OF assms(1)] by simp
  moreover have "no_match t tid target (\<lambda>i. True)" if "no_match t tid target (\<lambda>i. i \<le> cur - 1)"
    using that assms(2) False unfolding no_match_def by (metis Suc_pred' le_neq_implies_less less_Suc_eq_le nat_le_linear not_gr_zero)
  ultimately show ?thesis
    using False by (auto simp: scan_result_def)
qed

lemma hash_scan_up:
  assumes "collision t tid mn mx cur" "cur < tmp" "tmp \<le> mx"
    and "no_match t tid target (\<lambda>i. cur \<le> i \<and> i < tmp)"
  shows "scan_result t tid target cur (\<lambda>i. True) (hash_scan t tid target cur mn mx True tmp)"
  using assms(2-4)
proof (induction "mx - tmp" arbitrary: tmp rule: less_induct)
  case less
  note c = assms(1) [unfolded collision_def]
  have mxl: "mx \<le> length (ht_vnodes t)" using c by (simp add: search_inv_def)
  have all: "no_match t tid target (\<lambda>i. cur \<le> i)" if "no_match t tid target (\<lambda>i. tmp \<le> i)"
    using that less.prems(3) by (auto simp: no_match_def)
  show ?case
  proof (cases "tmp = mx")
    case True
    have "hash_scan t tid target cur mn mx True tmp =
        (if cur = 0 then Inr (cur, 1) else hash_scan t tid target cur mn mx False (cur - 1))"
      using True by (subst hash_scan.simps) (simp add: Let_def)
    then show ?thesis
      using hash_scan_turn [OF assms(1) all] no_match_outside(2) [OF assms(1)] True by simp
  next
    case False
    then have l: "tmp < length (ht_vnodes t)" "tmp < mx" "tmp \<noteq> mn"
      using less.prems mxl c by auto
    have step: "hash_scan t tid target cur mn mx True tmp =
        (if vn_id (ht_vnodes t ! tmp) \<noteq> tid
         then (if cur = 0 then Inr (cur, 1) else hash_scan t tid target cur mn mx False (cur - 1))
         else if vmatch t target tmp then Inr (tmp, 0)
         else hash_scan t tid target cur mn mx True (tmp + 1))"
      using c l by (subst hash_scan_step) auto
    show ?thesis
    proof (cases "vn_id (ht_vnodes t ! tmp) = tid")
      case True
      have "scan_result t tid target cur (\<lambda>i. True) (hash_scan t tid target cur mn mx True (tmp + 1))"
        if "\<not> vmatch t target tmp"
        using l less.prems that
        by (intro less.hyps) (auto simp: no_match_def less_Suc_eq)
      then show ?thesis
        unfolding step using True l by (auto simp: scan_result_def vnum_def)
    next
      case False
      then show ?thesis
        unfolding step
        using hash_scan_turn [OF assms(1) all [OF no_match_above [OF assms(1) _ l(1) False]]]
          less.prems by simp
    qed
  qed
qed

text \<open>
  The whole lookup on a non-empty table: it returns 0 with a node of the name if a virtual node
  has the identifier and stands for a node of that name. Otherwise it returns 1 with a node
  whose identifier is the next one on the ring.
\<close>

definition successor :: "hash_table \<Rightarrow> nat \<Rightarrow> nat \<Rightarrow> bool" where
  "successor t tn i \<longleftrightarrow>
     i < length (ht_vnodes t) \<and>
     (vnum t i = tn \<or>
      (\<forall>j < length (ht_vnodes t). vnum t j \<noteq> tn) \<and>
      (tn < vnum t i \<and> (\<forall>j < i. vnum t j < tn) \<or>
       i = 0 \<and> (\<forall>j < length (ht_vnodes t). vnum t j < tn)))"

lemma search_converged:
  assumes "ht_ok t" "search_inv t tn cur cur" "ht_vnodes t \<noteq> []"
  shows "successor t tn (if cur = length (ht_vnodes t) then 0 else cur)"
    and "\<forall>j < length (ht_vnodes t). vnum t j \<noteq> tn"
  using assms by (auto simp: search_inv_def successor_def) (metis less_irrefl not_le)+

lemma hash_lookup_spec:
  fixes target :: string
  assumes ok: "ht_ok t" and ne: "ht_vnodes t \<noteq> []"
  defines "tid \<equiv> key_identifier target"
  shows "\<exists>rv i. hash_lookup (Some t) (Some target) = Inr (rv, vn_nodenum (ht_vnodes t ! i)) \<and>
    i < length (ht_vnodes t) \<and>
    (rv = 0 \<and> vnum t i = id_num tid \<and> vmatch t target i \<or>
     rv = 1 \<and> successor t (id_num tid) i \<and> no_match t tid target (\<lambda>i. True))"
proof -
  let ?n = "length (ht_vnodes t)"
  have "search_inv t (id_num tid) 0 ?n" by (simp add: search_inv_def)
  from hash_search_spec [OF ok this, of target] obtain cur mn mx rv
    where s: "hash_search t tid target 0 ?n = Inr (cur, mn, mx, rv)" and
      cases: "rv = 0 \<and> cur = mx \<and> cur < ?n \<and> vnum t cur = id_num tid \<and> vmatch t target cur \<or>
       rv = 1 \<and> search_inv t (id_num tid) mn mx \<and>
       (cur = mx \<and> mn = mx \<or>
        mn \<le> cur \<and> cur < mx \<and> vnum t cur = id_num tid \<and> \<not> vmatch t target cur)"
    by metis
  have look: "hash_lookup (Some t) (Some target) =
      bindE (if cur \<noteq> mx then hash_scan t tid target cur mn mx True (cur + 1) else Inr (cur, rv))
        (\<lambda>(cur2, rv2). bindE (vnode_at t (if cur2 = ?n then 0 else cur2))
          (\<lambda>v. Inr (rv2, vn_nodenum v)))"
    using s by (simp add: hash_lookup_def tid_def [symmetric])
  from cases consider (exact) "rv = 0" "cur = mx" "cur < ?n" "vnum t cur = id_num tid" "vmatch t target cur"
    | (none) "rv = 1" "search_inv t (id_num tid) cur cur" "cur = mx"
    | (coll) "collision t tid mn mx cur" "\<not> vmatch t target cur"
    using ok by (auto simp: collision_def)
  then show ?thesis
  proof cases
    case exact
    then show ?thesis using look by (auto simp: vnode_at_def)
  next
    case none
    note conv = search_converged [OF ok none(2) ne]
    have "(if cur = ?n then 0 else cur) < ?n" using conv(1) by (simp add: successor_def)
    then show ?thesis
      using look none conv by (auto simp: vnode_at_def no_match_def)
  next
    case coll
    have "no_match t tid target (\<lambda>i. cur \<le> i \<and> i < cur + 1)"
      using coll(2) by (auto simp: no_match_def less_Suc_eq)
    then have "scan_result t tid target cur (\<lambda>i. True) (hash_scan t tid target cur mn mx True (cur + 1))"
      using coll(1) by (intro hash_scan_up) (auto simp: collision_def)
    then obtain cur2 rv2 where r: "hash_scan t tid target cur mn mx True (cur + 1) = Inr (cur2, rv2)"
      "cur2 < ?n" "vnum t cur2 = id_num tid"
      "rv2 = 0 \<and> vmatch t target cur2 \<or> rv2 = 1 \<and> no_match t tid target (\<lambda>i. True)"
      by (auto simp: scan_result_def)
    have "cur \<noteq> mx" using coll(1) by (simp add: collision_def)
    with look r show ?thesis by (auto simp: vnode_at_def successor_def)
  qed
qed

subsection \<open>Building the ring\<close>

definition total_weight :: "hash_node list \<Rightarrow> int" where
  "total_weight ns = sum_list (map hn_weight ns)"

definition zero_count :: "hash_node list \<Rightarrow> nat" where
  "zero_count ns = length (filter (\<lambda>n. hn_weight n = 0) ns)"

text \<open>A node the table accepts, with a name of at most \<open>l\<close> characters.\<close>

definition node_ok :: "int \<Rightarrow> hash_node \<Rightarrow> bool" where
  "node_ok l n \<longleftrightarrow>
     0 \<le> hn_weight n \<and> (case hn_name n of None \<Rightarrow> False | Some s \<Rightarrow> int (length s) \<le> l)"

lemma node_ok_mono: "node_ok l n \<Longrightarrow> l \<le> l' \<Longrightarrow> node_ok l' n"
  by (auto simp: node_ok_def split: option.splits)

lemma hash_gather_Inr:
  "hash_gather ns tw zc mxn = Inr (tw', zc', mxn') \<Longrightarrow>
   tw' = tw + total_weight ns \<and> zc' = zc + int (zero_count ns) \<and> mxn \<le> mxn' \<and>
   (tw \<le> INT_MAX \<longrightarrow> tw' \<le> INT_MAX) \<and> (\<forall>n \<in> set ns. node_ok mxn' n)"
proof (induction ns arbitrary: tw zc mxn)
  case Nil
  then show ?case by (simp add: total_weight_def zero_count_def)
next
  case (Cons n ns)
  obtain s where s: "hn_name n = Some s" "0 \<le> hn_weight n"
    using Cons.prems by (auto simp: bindE_def split: if_splits option.splits sum.splits)
  obtain tw2 zc2 where b: "tw2 = tw + hn_weight n" "zc2 = zc + (if hn_weight n = 0 then 1 else 0)"
    "tw \<le> INT_MAX \<longrightarrow> tw2 \<le> INT_MAX"
    and r: "hash_gather ns tw2 zc2 (max mxn (int (length s))) = Inr (tw', zc', mxn')"
    using Cons.prems s
    by (auto simp: bindE_def chk_int_def max_def split: if_splits sum.splits)
  from Cons.IH [OF r] b s show ?case
    by (auto simp: total_weight_def zero_count_def node_ok_def)
qed

lemma hash_gather_ok:
  assumes "\<forall>n \<in> set ns. node_ok l n" "l \<le> INT_MAX"
    and "tw + total_weight ns \<le> INT_MAX" "zc + int (zero_count ns) \<le> INT_MAX"
    and "0 \<le> tw" "0 \<le> zc" "mxn \<le> l"
  shows "\<exists>tw' zc' mxn'. hash_gather ns tw zc mxn = Inr (tw', zc', mxn') \<and> mxn' \<le> l"
  using assms
proof (induction ns arbitrary: tw zc mxn)
  case (Cons n ns)
  obtain s where s: "hn_name n = Some s" "0 \<le> hn_weight n" "int (length s) \<le> l"
    using Cons.prems by (auto simp: node_ok_def split: option.splits)
  have nn: "0 \<le> total_weight ns"
    using Cons.prems(1) by (auto simp: total_weight_def node_ok_def intro!: sum_list_nonneg)
  have "\<exists>tw' zc' mxn'. hash_gather ns (tw + hn_weight n) (zc + (if hn_weight n = 0 then 1 else 0))
      (max mxn (int (length s))) = Inr (tw', zc', mxn') \<and> mxn' \<le> l"
    using Cons.prems s by (intro Cons.IH) (auto simp: total_weight_def zero_count_def)
  then show ?case
    using s nn Cons.prems
    by (auto simp: chk_int_def total_weight_def zero_count_def max_def split: if_splits)
qed simp

text \<open>The ratio gives the target count without an overflow.\<close>

lemma hash_weightratio_bound:
  assumes "0 \<le> tw" "tw \<le> INT_MAX"
  shows "0 \<le> hash_weightratio tw * tw" "hash_weightratio tw * tw \<le> INT_MAX"
    and "0 < tw \<Longrightarrow> TARGET_NODE_COUNT \<le> hash_weightratio tw * tw" "0 < hash_weightratio tw"
proof -
  have dm: "TARGET_NODE_COUNT div tw * tw + TARGET_NODE_COUNT mod tw = 50000"
    by (simp add: TARGET_NODE_COUNT_def)
  have md: "0 \<le> TARGET_NODE_COUNT mod tw" "TARGET_NODE_COUNT mod tw < tw" if "0 < tw"
    using that by simp_all
  have dv: "0 \<le> TARGET_NODE_COUNT div tw"
    using assms by (simp add: TARGET_NODE_COUNT_def div_int_pos_iff)
  have r: "hash_weightratio tw * tw = TARGET_NODE_COUNT div tw * tw +
      (if TARGET_NODE_COUNT mod tw \<noteq> 0 then tw else 0)"
    if "0 < tw" using that by (simp add: hash_weightratio_def distrib_right)
  show "0 \<le> hash_weightratio tw * tw"
    using dv assms by (cases "tw = 0") (auto simp: hash_weightratio_def)
  show "hash_weightratio tw * tw \<le> INT_MAX"
  proof (cases "50000 < tw")
    case True
    then show ?thesis using assms by (simp add: hash_weightratio_def TARGET_NODE_COUNT_def)
  next
    case False
    show ?thesis
    proof (cases "tw = 0")
      case False2: False
      then have p: "0 < tw" using assms by simp
      have "hash_weightratio tw * tw \<le> TARGET_NODE_COUNT div tw * tw + tw"
        using r [OF p] p by simp
      then have "hash_weightratio tw * tw \<le> 50000 + tw"
        using dm md(1) [OF p] by linarith
      with False show ?thesis by (simp add: INT_MAX_def)
    qed (simp add: hash_weightratio_def INT_MAX_def)
  qed
  show "TARGET_NODE_COUNT \<le> hash_weightratio tw * tw" if "0 < tw"
  proof -
    have "TARGET_NODE_COUNT div tw * tw + TARGET_NODE_COUNT mod tw \<le> hash_weightratio tw * tw"
      unfolding r [OF that] by (intro add_left_mono) (use md [OF that] in simp)
    with dm show ?thesis unfolding TARGET_NODE_COUNT_def by linarith
  qed
  show "0 < hash_weightratio tw"
  proof (cases "tw = 0")
    case False
    then have p: "0 < tw" using assms by simp
    have "TARGET_NODE_COUNT div tw \<noteq> 0 \<or> TARGET_NODE_COUNT mod tw \<noteq> 0"
      by (metis dm add.right_neutral mult_zero_left zero_neq_numeral)
    with dv md [OF p] False show ?thesis by (auto simp: hash_weightratio_def)
  qed (simp add: hash_weightratio_def)
qed

lemma hash_maxdigits_eq: "hash_maxdigits t d = d - 1 + int (length (show_nat t))"
proof (induction t d rule: hash_maxdigits.induct)
  case (1 t d)
  show ?case
  proof (cases "t div 10 = 0")
    case True
    then have "t < 10" by (simp add: div_eq_0_iff)
    then show ?thesis
      by (simp add: hash_maxdigits.simps [of t d] show_nat_def show_base.simps [of 10 t])
  next
    case False
    then have "\<not> t < 10" by (simp add: div_eq_0_iff)
    with False 1 show ?thesis
      by (simp add: hash_maxdigits.simps [of t d] show_nat_def show_base.simps [of 10 t])
  qed
qed

lemma length_show_nat_mono: "k \<le> n \<Longrightarrow> length (show_nat k) \<le> length (show_nat n)"
proof -
  assume "k \<le> n"
  moreover have "n < 10 ^ length (show_nat n)"
    using length_show_base_ge [of 10 "length (show_nat n)" n] by (auto simp: show_nat_def not_less [symmetric])
  ultimately show ?thesis
    by (intro length_show_nat_le) (auto intro: le_less_trans)
qed

text \<open>The virtual nodes of one node, in the order in which they are created.\<close>

definition node_ring :: "bool \<Rightarrow> int \<Rightarrow> nat \<Rightarrow> hash_node \<Rightarrow> virtual_node list" where
  "node_ring direct ratio cur n =
     (if hn_weight n \<noteq> 0
      then map (\<lambda>k. VNode (key_identifier (the (hn_name n) @ ''-'' @ show_nat k)) cur)
             [0..<nat (hn_weight n * ratio)]
      else if direct then [VNode (key_identifier (the (hn_name n))) cur] else [])"

lemma hash_mkweighted_eq:
  assumes "length vs + (cnt - k) \<le> vc" "k \<le> cnt" "blen \<le> INT_MAX"
    and "\<forall>j < cnt. int (length name + 1 + length (show_nat j)) < blen"
  shows "hash_mkweighted vc blen nodenum name cnt k vs =
    Inr (vs @ map (\<lambda>k. VNode (key_identifier (name @ ''-'' @ show_nat k)) nodenum) [k..<cnt])"
  using assms
proof (induction "cnt - k" arbitrary: k vs)
  case 0
  then show ?case by (simp add: hash_mkweighted.simps)
next
  case (Suc n)
  let ?out = "name @ ''-'' @ show_nat k"
  have b: "int (length ?out) < blen" using Suc by simp
  then have out: "snprintf_ret ?out = int (length ?out)" "snprintf_buf (nat blen) ?out = ?out"
    using Suc.prems(3) by (auto simp: snprintf_ret_def snprintf_buf_def)
  have IH: "hash_mkweighted vc blen nodenum name cnt (Suc k) (vs @ [VNode (key_identifier ?out) nodenum]) =
      Inr ((vs @ [VNode (key_identifier ?out) nodenum]) @
        map (\<lambda>k. VNode (key_identifier (name @ ''-'' @ show_nat k)) nodenum) [Suc k..<cnt])"
    using Suc by (intro Suc.hyps) auto
  have up: "[k..<cnt] = k # [Suc k..<cnt]"
    using Suc by (intro upt_conv_Cons) simp
  have "k < cnt" "length vs < vc" using Suc by auto
  then show ?case
    using IH out b by (subst hash_mkweighted.simps) (simp add: Let_def up)
qed

fun ring_of :: "bool \<Rightarrow> int \<Rightarrow> nat \<Rightarrow> hash_node list \<Rightarrow> virtual_node list" where
  "ring_of direct ratio cur [] = []"
| "ring_of direct ratio cur (n # ns) = node_ring direct ratio cur n @ ring_of direct ratio (Suc cur) ns"

lemma hash_mkvnodes_eq:
  assumes "\<forall>n \<in> set ns. node_ok mxn n \<and> hn_weight n * ratio \<le> wn"
    and "length vs + length (ring_of direct ratio cur ns) \<le> vc"
    and "blen = mxn + 2 + int (length (show_nat (nat wn)))" "blen \<le> INT_MAX"
  shows "hash_mkvnodes vc blen direct ratio cur ns vs = Inr (vs @ ring_of direct ratio cur ns)"
  using assms(1,2)
proof (induction ns arbitrary: cur vs)
  case (Cons n ns)
  obtain s where s: "hn_name n = Some s" "int (length s) \<le> mxn" "0 \<le> hn_weight n"
    using Cons.prems(1) by (auto simp: node_ok_def split: option.splits)
  have fits: "int (length s + 1 + length (show_nat j)) < blen" if "j < nat (hn_weight n * ratio)" for j
  proof -
    have "hn_weight n * ratio \<le> wn" using Cons.prems(1) by simp
    then have "nat (hn_weight n * ratio) \<le> nat wn" by (rule nat_mono)
    with that have "length (show_nat j) \<le> length (show_nat (nat wn))"
      by (intro length_show_nat_mono) linarith
    with s assms(3) show ?thesis by linarith
  qed
  have IH: "hash_mkvnodes vc blen direct ratio (Suc cur) ns (vs @ node_ring direct ratio cur n) =
      Inr ((vs @ node_ring direct ratio cur n) @ ring_of direct ratio (Suc cur) ns)"
    using Cons by (intro Cons.IH) auto
  show ?case
  proof (cases "hn_weight n = 0")
    case True
    then show ?thesis using IH s Cons.prems by (auto simp: node_ring_def split: if_splits)
  next
    case False
    have "hash_mkweighted vc blen cur s (nat (hn_weight n * ratio)) 0 vs =
        Inr (vs @ node_ring direct ratio cur n)"
      using False s fits Cons.prems(2) assms(4)
      by (subst hash_mkweighted_eq) (auto simp: node_ring_def)
    then show ?thesis using IH s False by simp
  qed
qed simp

lemma weight_le_total:
  "\<forall>n \<in> set ns. 0 \<le> hn_weight n \<Longrightarrow> n \<in> set ns \<Longrightarrow> hn_weight n \<le> total_weight ns"
proof (induction ns)
  case (Cons a ns)
  have "0 \<le> total_weight ns"
    using Cons.prems(1) by (auto simp: total_weight_def intro!: sum_list_nonneg)
  with Cons show ?case by (fastforce simp: total_weight_def)
qed simp

lemma length_ring_of:
  assumes "\<forall>n \<in> set ns. 0 \<le> hn_weight n" "0 < ratio"
  shows "int (length (ring_of direct ratio cur ns)) =
    ratio * total_weight ns + (if direct then int (zero_count ns) else 0)"
  using assms
proof (induction ns arbitrary: cur)
  case (Cons n ns)
  have "0 \<le> hn_weight n * ratio" using Cons.prems by simp
  then have "int (length (node_ring direct ratio cur n)) =
      ratio * hn_weight n + (if direct \<and> hn_weight n = 0 then 1 else 0)"
    by (auto simp: node_ring_def mult.commute)
  with Cons show ?case
    by (auto simp: total_weight_def zero_count_def distrib_left)
qed (simp add: total_weight_def zero_count_def)

definition ht_ring :: "bool \<Rightarrow> hash_node list \<Rightarrow> virtual_node list" where
  "ht_ring direct nodes = ring_of direct (hash_weightratio (total_weight nodes)) 0 nodes"

text \<open>
  What \<^verbatim>\<open>hash_init\<close> does behind its first loop, given what the loop found: with a name buffer that
  is not too long and enough memory it always succeeds.
\<close>

lemma hash_init_eq:
  assumes g: "hash_gather nodes 0 0 0 = Inr (tw, zc, mxn)"
  shows "hash_init m nodes direct =
    (if \<not> m 0 then Inl ENOMEM
     else if tw = 0 \<and> \<not> direct then Inl EINVAL
     else if \<not> m 1 then Inl ENOMEM
     else if INT_MAX < mxn + 2 + int (length (show_nat (nat (hash_weightratio tw * tw)))) then Inl UB
     else if \<not> m 2 then Inl ENOMEM
     else Inr \<lparr>ht_nodes = nodes, ht_vnodes = sort (ht_ring direct nodes), ht_curnode = 0,
               ht_iterated = 0\<rparr>)"
proof -
  note inv = hash_gather_Inr [OF g, simplified]
  have tw: "tw = total_weight nodes" "zc = int (zero_count nodes)" "\<forall>n \<in> set nodes. node_ok mxn n"
    "tw \<le> INT_MAX"
    using inv by (auto simp: INT_MAX_def)
  have nn: "\<forall>n \<in> set nodes. 0 \<le> hn_weight n"
    using tw(3) by (auto simp: node_ok_def)
  have tw0: "0 \<le> tw"
    using nn tw(1) by (auto simp: total_weight_def intro!: sum_list_nonneg)
  let ?r = "hash_weightratio tw"
  note r = hash_weightratio_bound [OF tw0 tw(4)]
  have le: "hn_weight n * ?r \<le> ?r * tw" if "n \<in> set nodes" for n
    using weight_le_total [OF nn that] r(4) tw(1) by (simp add: mult.commute)
  let ?vc = "nat (?r * tw + (if direct then zc else 0))"
  have len: "length (ht_ring direct nodes) = ?vc"
    using length_ring_of [OF nn r(4), of direct 0] tw(1,2) by (auto simp: ht_ring_def)
  let ?b = "mxn + 2 + int (length (show_nat (nat (?r * tw))))"
  have mk: "hash_mkvnodes ?vc ?b direct ?r 0 nodes [] = Inr (ht_ring direct nodes)" if "?b \<le> INT_MAX"
    using hash_mkvnodes_eq [of nodes mxn ?r "?r * tw" "[]" direct 0 ?vc ?b] tw(1,3) le len that
    by (simp add: ht_ring_def)
  have d: "hash_maxdigits (nat (?r * tw)) 1 = int (length (show_nat (nat (?r * tw))))"
    by (simp add: hash_maxdigits_eq)
  show ?thesis
    using g r(2) mk len by (cases direct) (simp_all add: hash_init_def chk_int_def d Let_def not_less)
qed

lemma hash_init_gather:
  "hash_init m nodes direct = Inr t \<Longrightarrow> \<exists>tw zc mxn. hash_gather nodes 0 0 0 = Inr (tw, zc, mxn)"
  by (auto simp: hash_init_def bindE_eq_Inr split: if_splits)

lemma ring_of_nodenum:
  "v \<in> set (ring_of direct ratio cur ns) \<Longrightarrow> vn_nodenum v < cur + length ns"
  by (induction ns arbitrary: cur) (fastforce simp: node_ring_def split: if_splits)+

lemma ring_of_direct:
  assumes "k < length ns" "hn_weight (ns ! k) = 0" "hn_name (ns ! k) = Some s"
  shows "VNode (key_identifier s) (cur + k) \<in> set (ring_of True ratio cur ns)"
  using assms
proof (induction ns arbitrary: cur k)
  case (Cons n ns)
  show ?case
  proof (cases k)
    case 0
    with Cons.prems show ?thesis by (simp add: node_ring_def)
  next
    case (Suc j)
    with Cons.IH [of j "Suc cur"] Cons.prems show ?thesis by simp
  qed
qed simp

text \<open>A table that was built: its ring, and the conditions of the lookup.\<close>

lemma hash_init_Inr:
  assumes "hash_init m nodes direct = Inr t"
  shows "ht_nodes t = nodes" "ht_vnodes t = sort (ht_ring direct nodes)" "ht_ok t"
    and "nodes \<noteq> [] \<Longrightarrow> ht_vnodes t \<noteq> []" "ht_curnode t = 0" "ht_iterated t = 0"
proof -
  obtain tw zc mxn where g: "hash_gather nodes 0 0 0 = Inr (tw, zc, mxn)"
    using hash_init_gather [OF assms] by blast
  note inv = hash_gather_Inr [OF g, simplified]
  have tw: "tw = total_weight nodes" "tw \<le> INT_MAX" "\<forall>n \<in> set nodes. node_ok mxn n"
    using inv by (auto simp: INT_MAX_def)
  have t: "t = \<lparr>ht_nodes = nodes, ht_vnodes = sort (ht_ring direct nodes), ht_curnode = 0,
      ht_iterated = 0\<rparr>" and td: "tw \<noteq> 0 \<or> direct"
    using assms hash_init_eq [OF g, of m direct] by (auto split: if_splits)
  show "ht_nodes t = nodes" "ht_vnodes t = sort (ht_ring direct nodes)" "ht_curnode t = 0"
    "ht_iterated t = 0"
    by (simp_all add: t)
  show "ht_ok t"
    using tw(3)
    by (auto simp: ht_ok_def t ht_ring_def node_ok_def dest: ring_of_nodenum split: option.splits)
  show "ht_vnodes t \<noteq> []" if "nodes \<noteq> []"
  proof -
    have nn: "\<forall>n \<in> set nodes. 0 \<le> hn_weight n" using tw(3) by (auto simp: node_ok_def)
    have tw0: "0 \<le> tw" using nn tw(1) by (auto simp: total_weight_def intro!: sum_list_nonneg)
    note r = hash_weightratio_bound [OF tw0 tw(2)]
    have "zero_count nodes \<noteq> 0" if "tw = 0"
    proof -
      have "hn_weight (hd nodes) = 0"
        using weight_le_total [OF nn, of "hd nodes"] nn \<open>nodes \<noteq> []\<close> tw(1) that
        by (simp add: order_antisym)
      with \<open>nodes \<noteq> []\<close> show ?thesis
        by (cases nodes) (auto simp: zero_count_def)
    qed
    then have "length (ht_ring direct nodes) \<noteq> 0"
      using length_ring_of [OF nn r(4), of direct 0] r(1,3) td tw(1) tw0
      by (cases "tw = 0") (auto simp: ht_ring_def TARGET_NODE_COUNT_def split: if_splits)
    then have "length (ht_vnodes t) \<noteq> 0" by (simp add: t)
    then show ?thesis by auto
  qed
qed

subsection \<open>Iteration\<close>

text \<open>
  The loop of a client that calls \<^verbatim>\<open>hash_iterate\<close> until it returns 0: the nodes it saw. \<open>None\<close> is a
  loop that did not end within the given number of calls.
\<close>

fun hash_drain :: "nat \<Rightarrow> hash_table \<Rightarrow> nat list option" where
  "hash_drain 0 t = None"
| "hash_drain (Suc n) t =
     (case hash_iterate (Some t) of
        Inr (rc, Some i, t2) \<Rightarrow> map_option (Cons i) (hash_drain n t2)
      | Inr (rc, None, t2) \<Rightarrow> Some []
      | Inl e \<Rightarrow> None)"

lemma hash_drain_from:
  assumes "ht_iterated t = ht_curnode t" "ht_curnode t < length (ht_nodes t)"
    and "length (ht_nodes t) - ht_curnode t < n"
  shows "hash_drain n t = Some [ht_curnode t..<length (ht_nodes t)]"
  using assms
proof (induction n arbitrary: t)
  case (Suc n)
  let ?c = "ht_curnode t" and ?l = "length (ht_nodes t)"
  have up: "[?c..<?l] = ?c # [Suc ?c..<?l]"
    using Suc.prems by (intro upt_conv_Cons) simp
  show ?case
  proof (cases "Suc ?c = ?l")
    case True
    then have n: "n \<noteq> 0" using Suc.prems by simp
    then obtain k where "n = Suc k" by (cases n) auto
    with True Suc.prems show ?thesis
      by (simp add: hash_iterate_def Let_def up)
  next
    case False
    let ?t = "t\<lparr>ht_iterated := ht_iterated t + 1, ht_curnode := Suc ?c\<rparr>"
    have "hash_drain n ?t = Some [ht_curnode ?t..<length (ht_nodes ?t)]"
      using Suc.prems False by (intro Suc.IH) auto
    with False Suc.prems show ?thesis by (simp add: hash_iterate_def Let_def up)
  qed
qed simp

section \<open>The interface of a name table\<close>

text \<open>
  What the configuration code relies on when it looks names up: a table built from a list of
  names finds exactly these names, at a position where they stand.
\<close>

locale name_table =
  fixes build :: "string list \<Rightarrow> c_error + 't"
    and find :: "'t \<Rightarrow> string \<Rightarrow> c_error + nat option"
    and usable :: "string list \<Rightarrow> bool"
  assumes build_ok: "usable ns \<Longrightarrow> \<exists>t. build ns = Inr t"
    and find_defined: "build ns = Inr t \<Longrightarrow> ns \<noteq> [] \<Longrightarrow> \<exists>r. find t s = Inr r"
    and find_sound: "build ns = Inr t \<Longrightarrow> find t s = Inr (Some i) \<Longrightarrow> i < length ns \<and> ns ! i = s"
    and find_complete: "build ns = Inr t \<Longrightarrow> find t s = Inr None \<Longrightarrow> s \<notin> set ns"
begin

lemma find_iff:
  assumes "build ns = Inr t" "ns \<noteq> []"
  shows "(\<exists>i. find t s = Inr (Some i)) \<longleftrightarrow> s \<in> set ns"
proof -
  obtain r where r: "find t s = Inr r" using find_defined [OF assms] by blast
  show ?thesis
    using r find_sound [OF assms(1)] find_complete [OF assms(1)]
    by (cases r) (auto, metis nth_mem)
qed

lemma find_position:
  assumes "build ns = Inr t" "distinct ns" "i < length ns"
  shows "find t (ns ! i) = Inr (Some i)"
proof -
  have ne: "ns \<noteq> []" using assms(3) by auto
  obtain j where j: "find t (ns ! i) = Inr (Some j)"
    using find_iff [OF assms(1) ne, of "ns ! i"] assms(3) by auto
  then have "j < length ns" "ns ! j = ns ! i" using find_sound [OF assms(1)] by auto
  with assms have "j = i" by (simp add: nth_eq_iff_index_eq)
  with j show ?thesis by simp
qed

end

text \<open>The direct lookup table: every name is a node of weight zero.\<close>

definition name_node :: "string \<Rightarrow> hash_node" where
  "name_node s = \<lparr>hn_name = Some s, hn_weight = 0, hn_content = 0\<rparr>"

definition build_names :: "string list \<Rightarrow> c_error + hash_table" where
  "build_names ns = hash_init all_mem (map name_node ns) True"

definition find_name :: "hash_table \<Rightarrow> string \<Rightarrow> c_error + nat option" where
  "find_name t s =
     bindE (hash_lookup (Some t) (Some s)) (\<lambda>(rv, i). Inr (if rv = 0 then Some i else None))"

definition usable_names :: "string list \<Rightarrow> bool" where
  "usable_names ns \<longleftrightarrow>
     int (length ns) \<le> INT_MAX \<and> (\<forall>s \<in> set ns. int (length s) \<le> INT_MAX - 3)"

lemma build_names_ok:
  assumes "usable_names ns"
  shows "\<exists>t. build_names ns = Inr t"
proof -
  have z: "total_weight (map name_node ns) = 0" "zero_count (map name_node ns) = length ns"
    by (simp_all add: total_weight_def zero_count_def name_node_def comp_def)
  have ok: "\<forall>n \<in> set (map name_node ns). node_ok (INT_MAX - 3) n"
    using assms by (auto simp: usable_names_def node_ok_def name_node_def)
  obtain tw zc mxn where g: "hash_gather (map name_node ns) 0 0 0 = Inr (tw, zc, mxn)" "mxn \<le> INT_MAX - 3"
    using hash_gather_ok [OF ok, of 0 0 0] assms z by (auto simp: usable_names_def INT_MAX_def)
  have "tw = 0" using hash_gather_Inr [OF g(1)] z by simp
  then show ?thesis
    using hash_init_eq [OF g(1), of all_mem True] g(2) by (simp add: build_names_def show_nat_01)
qed

lemma no_match_direct:
  assumes "hash_init m nodes True = Inr t" "k < length nodes"
    and "hn_weight (nodes ! k) = 0" "hn_name (nodes ! k) = Some s"
  shows "\<not> no_match t (key_identifier s) s (\<lambda>i. True)"
proof -
  note ini = hash_init_Inr [OF assms(1)]
  have "VNode (key_identifier s) k \<in> set (ht_vnodes t)"
    using ring_of_direct [OF assms(2-4), of 0] by (simp add: ini(2) ht_ring_def)
  then obtain i where i: "i < length (ht_vnodes t)" "ht_vnodes t ! i = VNode (key_identifier s) k"
    by (auto simp: in_set_conv_nth)
  then have "vnum t i = id_num (key_identifier s)" "vmatch t s i"
    using ini(1) assms(4) by (simp_all add: vnum_def vmatch_def)
  with i(1) show ?thesis by (auto simp: no_match_def)
qed

lemma find_name_cases:
  assumes "build_names ns = Inr t" "ns \<noteq> []"
  shows "(\<exists>i. find_name t s = Inr (Some i) \<and> i < length ns \<and> ns ! i = s) \<or>
         find_name t s = Inr None \<and> s \<notin> set ns"
proof -
  have init: "hash_init all_mem (map name_node ns) True = Inr t"
    using assms by (simp add: build_names_def)
  note ini = hash_init_Inr [OF init]
  have ne: "ht_vnodes t \<noteq> []" using ini(4) assms by simp
  obtain rv i where l: "hash_lookup (Some t) (Some s) = Inr (rv, vn_nodenum (ht_vnodes t ! i))"
    "i < length (ht_vnodes t)"
    and c: "rv = 0 \<and> vmatch t s i \<or> rv = 1 \<and> no_match t (key_identifier s) s (\<lambda>i. True)"
    using hash_lookup_spec [OF ini(3) ne, of s] by blast
  let ?k = "vn_nodenum (ht_vnodes t ! i)"
  have k: "?k < length ns" using ini(1,3) l(2) by (auto simp: ht_ok_def)
  have "ns ! ?k = s" if "vmatch t s i"
    using that ini(1) k by (simp add: vmatch_def name_node_def)
  moreover have "s \<notin> set ns" if "no_match t (key_identifier s) s (\<lambda>i. True)"
  proof
    assume "s \<in> set ns"
    then obtain j where "j < length ns" "ns ! j = s" by (auto simp: in_set_conv_nth)
    then show False
      using no_match_direct [OF init, of j s] that by (simp add: name_node_def)
  qed
  ultimately show ?thesis using c l k by (auto simp: find_name_def)
qed

interpretation direct: name_table build_names find_name usable_names
proof unfold_locales
  fix ns t s i
  assume b: "build_names ns = Inr t"
  show "\<exists>r. find_name t s = Inr r" if "ns \<noteq> []"
    using find_name_cases [OF b that, of s] by auto
  have nil: "find_name t s = Inl UB" if "ns = []"
  proof -
    have "ht_vnodes t = []"
      using hash_init_Inr(2) [of all_mem "[]" True t] b that
      by (simp add: build_names_def ht_ring_def)
    then show ?thesis
      by (simp add: find_name_def hash_lookup_def hash_search.simps vnode_at_def Let_def)
  qed
  show "i < length ns \<and> ns ! i = s" if "find_name t s = Inr (Some i)"
    using find_name_cases [OF b, of s] nil that by (cases "ns = []") auto
  show "s \<notin> set ns" if "find_name t s = Inr None"
    using find_name_cases [OF b, of s] nil that by (cases "ns = []") auto
qed (rule build_names_ok)

section \<open>Properties\<close>

lemma length_vnodes_of:
  assumes "k < length ns"
  shows "length (filter (\<lambda>v. vn_nodenum v = cur + k) (ring_of direct ratio cur ns)) =
    length (node_ring direct ratio (cur + k) (ns ! k))"
  using assms
proof (induction ns arbitrary: cur k)
  case (Cons n ns)
  have other: "filter (\<lambda>v. vn_nodenum v = j) (node_ring direct ratio i m) =
      (if i = j then node_ring direct ratio i m else [])" for i j m
    by (auto simp: node_ring_def filter_map comp_def)
  have later: "filter (\<lambda>v. vn_nodenum v = cur) (ring_of direct ratio (Suc cur) ns) = []"
  proof -
    have "cur < vn_nodenum v" if "v \<in> set (ring_of direct ratio i ms)" "cur < i" for v i ms
      using that by (induction ms arbitrary: i) (fastforce simp: node_ring_def split: if_splits)+
    then show ?thesis by (auto simp: filter_empty_conv)
  qed
  show ?case
  proof (cases k)
    case 0
    with other later show ?thesis by simp
  next
    case (Suc j)
    with other Cons.IH [of j "Suc cur"] Cons.prems show ?thesis by simp
  qed
qed simp

text \<open>
  C2. A hash table that was built from at least one node never fails a lookup and never reads
  outside its arrays. For every target string, the lookup returns 0 with a node of exactly that name if some virtual
  node has the identifier of the string and stands for a node of that name, even when other
  virtual nodes collide with it; otherwise it returns 1 with the node whose identifier equals
  or follows that of the string on the ring, wrapping at its end.
\<close>

theorem hash_lookup_correct:
  assumes "hash_init m nodes direct = Inr t" "nodes \<noteq> []"
  shows "\<exists>rv i. hash_lookup (Some t) (Some target) = Inr (rv, vn_nodenum (ht_vnodes t ! i)) \<and>
    i < length (ht_vnodes t) \<and> vn_nodenum (ht_vnodes t ! i) < length nodes \<and>
    (if \<exists>j < length (ht_vnodes t). vn_id (ht_vnodes t ! j) = key_identifier target \<and>
          hn_name (nodes ! vn_nodenum (ht_vnodes t ! j)) = Some target
     then rv = 0 \<and> hn_name (nodes ! vn_nodenum (ht_vnodes t ! i)) = Some target
     else rv = 1 \<and> successor t (id_num (key_identifier target)) i)"
proof -
  note ini = hash_init_Inr [OF assms(1)]
  have nb: "vn_nodenum (ht_vnodes t ! i) < length nodes" if "i < length (ht_vnodes t)" for i
    using ini(1,3) that by (auto simp: ht_ok_def)
  have nm: "no_match t (key_identifier target) target (\<lambda>i. True) \<longleftrightarrow>
      \<not> (\<exists>j < length (ht_vnodes t). vn_id (ht_vnodes t ! j) = key_identifier target \<and>
          hn_name (nodes ! vn_nodenum (ht_vnodes t ! j)) = Some target)"
    by (auto simp: no_match_def vmatch_def vnum_def id_num_eq ini(1))
  obtain rv i where l: "hash_lookup (Some t) (Some target) = Inr (rv, vn_nodenum (ht_vnodes t ! i))"
    "i < length (ht_vnodes t)"
    and c: "rv = 0 \<and> vnum t i = id_num (key_identifier target) \<and> vmatch t target i \<or>
      rv = 1 \<and> successor t (id_num (key_identifier target)) i \<and>
        no_match t (key_identifier target) target (\<lambda>i. True)"
    using hash_lookup_spec [OF ini(3) ini(4) [OF assms(2)], of target] by blast
  from c show ?thesis
  proof (elim disjE conjE)
    assume "rv = 0" "vnum t i = id_num (key_identifier target)" "vmatch t target i"
    then show ?thesis
      using l nb [OF l(2)] by (intro exI [of _ rv] exI [of _ i])
        (auto simp: vmatch_def vnum_def id_num_eq ini(1))
  next
    assume "rv = 1" "successor t (id_num (key_identifier target)) i"
      "no_match t (key_identifier target) target (\<lambda>i. True)"
    then show ?thesis
      using l nb [OF l(2)] unfolding nm by (intro exI [of _ rv] exI [of _ i]) simp
  qed
qed

definition two_names :: "hash_node list" where
  "two_names = [name_node ''a'', name_node ''b'']"

lemma two_names_init: "\<exists>t. hash_init all_mem two_names True = Inr t"
  using build_names_ok [of "[''a'', ''b'']"]
  by (simp add: build_names_def usable_names_def two_names_def INT_MAX_def)

theorem hash_lookup_correct_witness:
  "\<exists>t rv i. hash_init all_mem two_names True = Inr t \<and>
     hash_lookup (Some t) (Some ''zebra'') = Inr (rv, i) \<and> i < 2"
proof -
  obtain t where t: "hash_init all_mem two_names True = Inr t" using two_names_init by blast
  have "two_names \<noteq> []" "length two_names = 2" by (simp_all add: two_names_def)
  with hash_lookup_correct [OF t, of "''zebra''"] t show ?thesis by auto
qed

text \<open>
  C3. With direct lookup, every node of weight zero is found by its name: the lookup of the name
  returns 0 and a node of that name, whatever the weights of the other nodes and whatever
  identifiers collide.
\<close>

theorem hash_direct_lookup:
  assumes "hash_init m nodes True = Inr t" "k < length nodes"
    and "hn_weight (nodes ! k) = 0" "hn_name (nodes ! k) = Some s"
  shows "\<exists>i. hash_lookup (Some t) (Some s) = Inr (0, i) \<and> i < length nodes \<and>
             hn_name (nodes ! i) = Some s"
proof -
  note ini = hash_init_Inr [OF assms(1)]
  have "nodes \<noteq> []" using assms(2) by auto
  then have ne: "ht_vnodes t \<noteq> []" by (rule ini(4))
  obtain rv i where l: "hash_lookup (Some t) (Some s) = Inr (rv, vn_nodenum (ht_vnodes t ! i))"
    "i < length (ht_vnodes t)" "rv = 0 \<and> vmatch t s i"
    using hash_lookup_spec [OF ini(3) ne, of s] no_match_direct [OF assms] by blast
  have "vn_nodenum (ht_vnodes t ! i) < length nodes" using ini(1,3) l(2) by (auto simp: ht_ok_def)
  with l ini(1) show ?thesis by (auto simp: vmatch_def)
qed

theorem hash_direct_lookup_witness:
  "\<exists>t i. hash_init all_mem two_names True = Inr t \<and> hash_lookup (Some t) (Some ''b'') = Inr (0, i)"
proof -
  obtain t where t: "hash_init all_mem two_names True = Inr t" using two_names_init by blast
  from hash_direct_lookup [OF t, of 1 "''b''"] t show ?thesis
    by (auto simp: two_names_def name_node_def)
qed

text \<open>
  A table whose nodes all have weight zero decides membership: among distinct names each is
  found at its own position, and a string that is not a name is reported as absent.
\<close>

theorem name_lookup_exact:
  assumes "build_names ns = Inr t" "distinct ns" "ns \<noteq> []"
  shows "(\<forall>i < length ns. find_name t (ns ! i) = Inr (Some i)) \<and>
         (\<forall>s. s \<notin> set ns \<longrightarrow> find_name t s = Inr None)"
proof (intro conjI allI impI)
  show "find_name t (ns ! i) = Inr (Some i)" if "i < length ns" for i
    using direct.find_position [OF assms(1,2) that] .
  show "find_name t s = Inr None" if "s \<notin> set ns" for s
  proof -
    obtain r where r: "find_name t s = Inr r" using direct.find_defined [OF assms(1,3)] by blast
    with that direct.find_iff [OF assms(1,3), of s] show ?thesis by (cases r) auto
  qed
qed

theorem name_lookup_exact_witness:
  "\<exists>t. build_names [''a'', ''b''] = Inr t \<and> find_name t ''b'' = Inr (Some 1) \<and>
       find_name t ''c'' = Inr None"
proof -
  obtain t where t: "build_names [''a'', ''b''] = Inr t"
    using build_names_ok [of "[''a'', ''b'']"] by (auto simp: usable_names_def INT_MAX_def)
  have d: "distinct [''a'', ''b'']" "[''a'', ''b''] \<noteq> []" by simp_all
  note n = name_lookup_exact [OF t d]
  have "find_name t ''b'' = Inr (Some 1)"
    using conjunct1 [OF n, rule_format, of 1] by simp
  moreover have "find_name t ''c'' = Inr None"
    using conjunct2 [OF n, rule_format, of "''c''"] by simp
  ultimately show ?thesis using t by blast
qed

text \<open>
  C4. The distribution follows the weights: the table is sorted, holds \<open>weight * ratio\<close> virtual
  nodes for every weighted node and one for every node of weight zero of a direct lookup table
  (none otherwise), and a table with weights has at least the target count of virtual nodes.
\<close>

theorem hash_init_distribution:
  assumes "hash_init m nodes direct = Inr t"
  shows "sorted (ht_vnodes t) \<and>
    (\<forall>k < length nodes. length (filter (\<lambda>v. vn_nodenum v = k) (ht_vnodes t)) =
       (if hn_weight (nodes ! k) \<noteq> 0
        then nat (hn_weight (nodes ! k) * hash_weightratio (total_weight nodes))
        else if direct then 1 else 0)) \<and>
    (0 < total_weight nodes \<longrightarrow> TARGET_NODE_COUNT \<le> int (length (ht_vnodes t)))"
proof -
  note ini = hash_init_Inr [OF assms]
  obtain tw zc mxn where g: "hash_gather nodes 0 0 0 = Inr (tw, zc, mxn)"
    using hash_init_gather [OF assms] by blast
  note inv = hash_gather_Inr [OF g, simplified]
  have tw: "total_weight nodes \<le> INT_MAX" and nn: "\<forall>n \<in> set nodes. 0 \<le> hn_weight n"
    using inv by (auto simp: INT_MAX_def node_ok_def)
  have tw0: "0 \<le> total_weight nodes"
    using nn by (auto simp: total_weight_def intro!: sum_list_nonneg)
  note r = hash_weightratio_bound [OF tw0 tw]
  let ?r = "hash_weightratio (total_weight nodes)"
  have cnt: "length (filter (\<lambda>v. vn_nodenum v = k) (ht_vnodes t)) =
      length (node_ring direct ?r k (nodes ! k))" if "k < length nodes" for k
  proof -
    have "length (filter (\<lambda>v. vn_nodenum v = k) (ht_vnodes t)) =
        length (filter (\<lambda>v. vn_nodenum v = k) (ht_ring direct nodes))"
      by (simp add: ini(2) filter_sort)
    then show ?thesis
      using length_vnodes_of [OF that, of 0 direct ?r] by (simp add: ht_ring_def)
  qed
  have tgt: "TARGET_NODE_COUNT \<le> int (length (ht_vnodes t))" if "0 < total_weight nodes"
  proof -
    have "int (length (ht_vnodes t)) = ?r * total_weight nodes +
        (if direct then int (zero_count nodes) else 0)"
      using length_ring_of [OF nn r(4), of direct 0] by (simp add: ini(2) ht_ring_def)
    then show ?thesis using r(3) [OF that] by simp
  qed
  have len: "length (node_ring direct ?r k n) =
      (if hn_weight n \<noteq> 0 then nat (hn_weight n * ?r) else if direct then 1 else 0)" for k n
    by (simp add: node_ring_def)
  show ?thesis
    using cnt tgt unfolding len by (simp add: ini(2))
qed

theorem hash_init_distribution_witness:
  "\<exists>t. hash_init all_mem two_names True = Inr t \<and> sorted (ht_vnodes t) \<and>
       length (filter (\<lambda>v. vn_nodenum v = 1) (ht_vnodes t)) = 1"
proof -
  obtain t where t: "hash_init all_mem two_names True = Inr t" using two_names_init by blast
  have two: "1 < length two_names" "hn_weight (two_names ! 1) = 0"
    by (simp_all add: two_names_def name_node_def)
  from hash_init_distribution [OF t] two t show ?thesis by auto
qed

text \<open>
  C12. Iterating over a fresh table (or one after \<^verbatim>\<open>hash_reset\<close>) hands out every node exactly once,
  in order, and then reports the end.
\<close>

theorem hash_iterate_complete:
  assumes "hash_reset (Some t) = Inr t'"
  shows "hash_drain (Suc (length (ht_nodes t))) t' = Some [0..<length (ht_nodes t)]"
proof (cases "ht_nodes t = []")
  case True
  with assms show ?thesis by (auto simp: hash_reset_def hash_iterate_def)
next
  case False
  with assms hash_drain_from [of t'] show ?thesis
    by (auto simp: hash_reset_def simp del: hash_drain.simps)
qed

theorem hash_iterate_complete_witness:
  "hash_drain 3 \<lparr>ht_nodes = two_names, ht_vnodes = [], ht_curnode = 0, ht_iterated = 0\<rparr> =
   Some [0, 1]"
proof -
  let ?t = "\<lparr>ht_nodes = two_names, ht_vnodes = [], ht_curnode = 0, ht_iterated = 0\<rparr>"
  have "hash_reset (Some ?t) = Inr ?t" by (simp add: hash_reset_def)
  from hash_iterate_complete [OF this] show ?thesis
    by (simp add: two_names_def upt_rec eval_nat_numeral del: hash_drain.simps)
qed

text \<open>
  \<^verbatim>\<open>hash_rangevalue\<close> stays in range: for every string and every positive bound the result is at
  least zero and less than the bound.
\<close>

theorem hash_rangevalue_range:
  assumes "0 < sint maxval"
  shows "\<exists>r. hash_rangevalue s maxval = Inr r \<and> 0 \<le> sint r \<and> sint r < sint maxval"
proof -
  obtain i0 i1 where i: "key_identifier s = (i0, i1)" by fastforce
  have lt: "sint maxval < 2 ^ 31" using sint_lt [of maxval] by simp
  define mx :: u64 where "mx = scast maxval"
  have um: "uint mx = sint maxval"
  proof -
    have "uint mx = take_bit 64 (sint maxval)"
      by (simp only: mx_def scast_eq uint_word_of_int take_bit_eq_mod len_num0) simp
    also have "\<dots> = sint maxval" by (rule take_bit_int_eq_self) (use assms lt in simp_all)
    finally show ?thesis .
  qed
  have nz: "mx \<noteq> 0" using um assms by auto
  define v where "v = ((i1 mod mx) + (i0 mod mx)) mod mx"
  have v: "0 \<le> uint v" "uint v < sint maxval"
    using um assms by (simp_all add: v_def uint_mod)
  have "uint (ucast v :: u32) = uint v"
    using v lt by (simp add: unsigned_ucast_eq take_bit_int_eq_self)
  moreover have "signed_take_bit 31 (uint v) = uint v"
    by (rule signed_take_bit_int_eq_self) (use v lt in linarith)+
  ultimately have "sint (ucast v :: u32) = uint v"
    by (simp add: sint_uint)
  with v show ?thesis
    using nz by (simp add: hash_rangevalue_def i mx_def [symmetric] v_def [symmetric])
qed

theorem hash_rangevalue_range_witness:
  "\<exists>r. hash_rangevalue ''file'' 10 = Inr r \<and> 0 \<le> sint r \<and> sint r < 10"
  using hash_rangevalue_range [of 10 "''file''"] by simp

text \<open>
  A direct lookup table without nodes can be built, but a lookup in it reads the first entry
  of an empty array.
\<close>

theorem hash_lookup_empty_ub:
  "\<exists>t. hash_init all_mem [] True = Inr t \<and> hash_lookup (Some t) (Some s) = Inl UB"
  by (simp add: hash_init_def hash_weightratio_def chk_int_def INT_MAX_def hash_maxdigits.simps
      hash_lookup_def hash_search.simps vnode_at_def Let_def)

end
