(* ===== verification/Gctag.thy ===== *)
theory Gctag
  imports Codec
begin

text \<open>
  The garbage collection tag and the cache tag (\<^verbatim>\<open>src/tagging/tagging.c\<close>). A \<^verbatim>\<open>GCTAG\<close> is attached to
  a file when references of the files behind it in the stream were deleted; a \<^verbatim>\<open>CATAG\<close> to a file
  whose data lives in an external cache. Both are printed with a version, which the parser
  compares as a number; both interpret the contract of a printer and its parser.
\<close>

section \<open>Data\<close>

record gctag =
  gc_refcnt :: u64
  gc_eos :: u8
  gc_delzero :: u8
  gc_inprog :: u8

record catag =
  ca_cacheid :: string
  ca_cacheloc :: string

definition GCTAG_CURRENT_MAJORVERSION :: u64 where "GCTAG_CURRENT_MAJORVERSION = 0"
definition GCTAG_CURRENT_MINORVERSION :: u64 where "GCTAG_CURRENT_MINORVERSION = 1"
definition CATAG_CURRENT_MAJORVERSION :: u64 where "CATAG_CURRENT_MAJORVERSION = 0"
definition CATAG_CURRENT_MINORVERSION :: u64 where "CATAG_CURRENT_MINORVERSION = 1"

lemmas gc_version_defs = GCTAG_CURRENT_MAJORVERSION_def GCTAG_CURRENT_MINORVERSION_def
  CATAG_CURRENT_MAJORVERSION_def CATAG_CURRENT_MINORVERSION_def

section \<open>Parsing\<close>

text \<open>
  The version stanza, which both parsers read with the same statements: the major number must
  end in a dot and the minor number in a closing parenthesis. The result is the rest of the
  string.
\<close>

definition parse_version_exact :: "u64 \<Rightarrow> u64 \<Rightarrow> string \<Rightarrow> c_error + string" where
  "parse_version_exact maj minr s =
     (case after_lit ''VER('' s of
        None \<Rightarrow> Inl EINVAL
      | Some p \<Rightarrow>
          (case strtoull 10 p of (v, e) \<Rightarrow>
             if peek e \<noteq> CHR ''.'' \<or> v = SIZE_MAX then Inl EINVAL
             else if v \<noteq> maj then Inl EINVAL
             else
               (case strtoull 10 (tl e) of (w, e2) \<Rightarrow>
                  if peek e2 \<noteq> CHR '')'' then Inl EINVAL
                  else if w \<noteq> minr then Inl EINVAL
                  else Inr (tl e2))))"

text \<open>A flag: the given letter sets it, a dash clears it, anything else is an error.\<close>

definition parse_flag :: "char \<Rightarrow> string \<Rightarrow> c_error + u8 \<times> string" where
  "parse_flag c s =
     (if peek s = c then Inr (1, tl s) else if peek s \<noteq> CHR ''-'' then Inl EINVAL
      else Inr (0, tl s))"

text \<open>A single character that must follow.\<close>

definition expect :: "char \<Rightarrow> string \<Rightarrow> c_error + string" where
  "expect c s = (if peek s \<noteq> c then Inl EINVAL else Inr (tl s))"

definition gctag_parse_skip :: "string \<Rightarrow> c_error + u64 \<times> u8 \<times> string" where
  "gctag_parse_skip s =
     (case after_lit ''SKIP('' s of
        None \<Rightarrow> Inl EINVAL
      | Some p \<Rightarrow>
          (case strtoull 10 p of (v, e) \<Rightarrow>
             if peek e \<noteq> CHR ''|'' \<or> v = SIZE_MAX then Inl EINVAL
             else
               bindE (parse_flag CHR ''E'' (tl e)) (\<lambda>(eos, p2).
               bindE (expect CHR '')'' p2) (\<lambda>p3. Inr (v, eos, p3)))))"

text \<open>The progress stanza is optional. What follows it is not looked at.\<close>

definition gctag_parse_prog :: "string \<Rightarrow> c_error + u8 \<times> u8" where
  "gctag_parse_prog s =
     (if peek s = NUL then Inr (0, 0)
      else
        (case after_lit ''PROG('' s of
           None \<Rightarrow> Inl EINVAL
         | Some p \<Rightarrow>
             bindE (parse_flag CHR ''D'' p) (\<lambda>(delzero, p2).
             bindE (expect CHR ''|'' p2) (\<lambda>p3.
             bindE (parse_flag CHR ''I'' p3) (\<lambda>(inprog, p4).
             bindE (expect CHR '')'' p4) (\<lambda>_. Inr (delzero, inprog)))))))"

definition gctag_initstr :: "gctag option \<Rightarrow> string option \<Rightarrow> c_error + gctag" where
  "gctag_initstr go so =
     (case go of None \<Rightarrow> Inl EINVAL | Some g \<Rightarrow>
     (case so of None \<Rightarrow> Inl EINVAL | Some s \<Rightarrow>
        bindE (parse_version_exact GCTAG_CURRENT_MAJORVERSION GCTAG_CURRENT_MINORVERSION s) (\<lambda>p.
        bindE (gctag_parse_skip p) (\<lambda>(refcnt, eos, p2).
        bindE (gctag_parse_prog p2) (\<lambda>(delzero, inprog).
          Inr (g\<lparr>gc_refcnt := refcnt, gc_eos := eos, gc_delzero := delzero,
                 gc_inprog := inprog\<rparr>))))))"

text \<open>The loop that looks for the closing parenthesis: the text in front of it, and the rest.\<close>

fun fwd_paren :: "string \<Rightarrow> string \<times> string" where
  "fwd_paren [] = ([], [])"
| "fwd_paren (c # s) =
     (if c = CHR '')'' then ([], c # s) else (case fwd_paren s of (w, e) \<Rightarrow> (c # w, e)))"

text \<open>One stanza of the cache tag: header, text, closing parenthesis, and the copy (\<^verbatim>\<open>strndup\<close>).\<close>

definition catag_parse_stanza :: "bool \<Rightarrow> string \<Rightarrow> string \<Rightarrow> c_error + string \<times> string" where
  "catag_parse_stanza m hdr s =
     (case after_lit hdr s of
        None \<Rightarrow> Inl EINVAL
      | Some p \<Rightarrow>
          (case fwd_paren p of (w, e) \<Rightarrow>
             if peek e \<noteq> CHR '')'' then Inl EINVAL
             else if \<not> m then Inl ENOMEM
             else Inr (w, tl e)))"

definition catag_initstr :: "mem \<Rightarrow> catag option \<Rightarrow> string option \<Rightarrow> c_error + catag" where
  "catag_initstr m co so =
     (case co of None \<Rightarrow> Inl EINVAL | Some c \<Rightarrow>
     (case so of None \<Rightarrow> Inl EINVAL | Some s \<Rightarrow>
        bindE (parse_version_exact CATAG_CURRENT_MAJORVERSION CATAG_CURRENT_MINORVERSION s) (\<lambda>p.
        bindE (catag_parse_stanza (m 0) ''ID('' p) (\<lambda>(cacheid, p2).
        bindE (catag_parse_stanza (m 1) ''LOC('' p2) (\<lambda>(cacheloc, p3).
          if peek p3 \<noteq> NUL then Inl EINVAL
          else Inr (c\<lparr>ca_cacheid := cacheid, ca_cacheloc := cacheloc\<rparr>))))))"

section \<open>Printing\<close>

text \<open>The version piece is \<^verbatim>\<open>"%s(%u.%.3u)"\<close> in both printers.\<close>

definition version_piece :: "u64 \<Rightarrow> u64 \<Rightarrow> string" where
  "version_piece maj minr =
     ''VER('' @ show_nat (unat maj) @ ''.'' @ show_prec 3 (unat minr) @ '')''"

definition gctag_skip_piece :: "gctag \<Rightarrow> string" where
  "gctag_skip_piece g =
     ''SKIP('' @ show_nat (unat (gc_refcnt g)) @ ''|'' @
     (if gc_eos g \<noteq> 0 then ''E'' else ''-'') @ '')''"

definition gctag_prog_piece :: "gctag \<Rightarrow> string" where
  "gctag_prog_piece g =
     ''PROG('' @ (if gc_delzero g \<noteq> 0 then ''D'' else ''-'') @ ''|'' @
     (if gc_inprog g \<noteq> 0 then ''I'' else ''-'') @ '')''"

definition gctag_pieces :: "gctag \<Rightarrow> string list" where
  "gctag_pieces g =
     [version_piece GCTAG_CURRENT_MAJORVERSION GCTAG_CURRENT_MINORVERSION, gctag_skip_piece g] @
     (if gc_inprog g \<noteq> 0 \<or> gc_delzero g \<noteq> 0 then [gctag_prog_piece g] else [])"

definition gctag_tostr :: "gctag option \<Rightarrow> nat \<Rightarrow> outbuf option" where
  "gctag_tostr go len =
     (case go of None \<Rightarrow> None | Some g \<Rightarrow> emit_all (gctag_pieces g) (outbuf_init len))"

definition catag_pieces :: "catag \<Rightarrow> string list" where
  "catag_pieces c =
     [version_piece CATAG_CURRENT_MAJORVERSION CATAG_CURRENT_MINORVERSION,
      ''ID('' @ ca_cacheid c @ '')'', ''LOC('' @ ca_cacheloc c @ '')'']"

definition catag_tostr :: "catag option \<Rightarrow> nat \<Rightarrow> outbuf option" where
  "catag_tostr co len =
     (case co of None \<Rightarrow> None | Some c \<Rightarrow> emit_all (catag_pieces c) (outbuf_init len))"

section \<open>Lemmas\<close>

lemma parse_version_piece:
  "maj \<noteq> SIZE_MAX \<Longrightarrow> parse_version_exact maj minr (version_piece maj minr @ t) = Inr t"
  by (simp add: parse_version_exact_def version_piece_def cstr_simps)

lemma parse_flag_simps [simp]:
  "parse_flag c (c # s) = Inr (1, s)"
  "c \<noteq> CHR ''-'' \<Longrightarrow> parse_flag c (CHR ''-'' # s) = Inr (0, s)"
  by (auto simp: parse_flag_def)

lemma expect_simps [simp]: "expect c (c # s) = Inr s"
  by (simp add: expect_def)

text \<open>The flags that the parser can produce.\<close>

definition gctag_valid :: "gctag \<Rightarrow> bool" where
  "gctag_valid g \<longleftrightarrow>
     gc_refcnt g \<noteq> SIZE_MAX \<and> gc_eos g \<in> {0, 1} \<and> gc_delzero g \<in> {0, 1} \<and> gc_inprog g \<in> {0, 1}"

definition gctag_encode :: "gctag \<Rightarrow> string" where
  "gctag_encode g = concat (gctag_pieces g)"

lemma length_version_piece: "length (version_piece maj minr) \<le> 50"
  using length_show_u64 [of maj] length_show_u64 [of minr]
  by (simp add: version_piece_def length_show_prec)

lemma version_piece_printable: "printable (version_piece maj minr)"
  using length_version_piece [of maj minr]
  by (auto simp: printable_def INT_MAX_def version_piece_def)

lemma gctag_tostr_encode: "gctag_tostr (Some g) len = Some (printed len (gctag_encode g))"
proof -
  have "\<forall>p \<in> set (gctag_pieces g). printable p"
    using length_show_u64 [of "gc_refcnt g"] version_piece_printable
    by (auto simp: gctag_pieces_def gctag_skip_piece_def gctag_prog_piece_def printable_def
        INT_MAX_def)
  then show ?thesis
    by (simp add: gctag_tostr_def outbuf_init_printed emit_all_printed gctag_encode_def)
qed

lemma gctag_parse_skip_piece:
  "gc_refcnt g \<noteq> SIZE_MAX \<Longrightarrow> gc_eos g \<in> {0, 1} \<Longrightarrow>
   gctag_parse_skip (gctag_skip_piece g @ t) = Inr (gc_refcnt g, gc_eos g, t)"
  by (auto simp: gctag_parse_skip_def gctag_skip_piece_def cstr_simps)

lemma gctag_parse_prog_piece:
  "gc_delzero g \<in> {0, 1} \<Longrightarrow> gc_inprog g \<in> {0, 1} \<Longrightarrow>
   gctag_parse_prog (gctag_prog_piece g @ t) = Inr (gc_delzero g, gc_inprog g)"
  by (auto simp: gctag_parse_prog_def gctag_prog_piece_def NUL_def)

lemma gctag_initstr_encode:
  assumes "gctag_valid g"
  shows "gctag_initstr (Some h) (Some (gctag_encode g)) = Inr g"
proof -
  have v: "GCTAG_CURRENT_MAJORVERSION \<noteq> SIZE_MAX"
    by (simp add: gc_version_defs SIZE_MAX_def)
  have "gctag_parse_prog [] = Inr (0, 0)"
    by (simp add: gctag_parse_prog_def)
  then show ?thesis
    using assms v gctag_parse_prog_piece [of g "[]"]
    by (auto simp: gctag_initstr_def gctag_encode_def gctag_pieces_def gctag_valid_def
        parse_version_piece gctag_parse_skip_piece gctag_parse_skip_piece [of g "[]", simplified])
qed

interpretation gctag: tag_codec "\<lambda>g. gctag_tostr (Some g)"
  "\<lambda>s. gctag_initstr (Some h) (Some s)" gctag_encode gctag_valid for h
  by unfold_locales (simp_all add: gctag_tostr_encode gctag_initstr_encode)

lemma fwd_paren_append: "CHR '')'' \<notin> set w \<Longrightarrow> fwd_paren (w @ CHR '')'' # t) = (w, CHR '')'' # t)"
  by (induction w) auto

lemma catag_parse_stanza_piece:
  "CHR '')'' \<notin> set w \<Longrightarrow> catag_parse_stanza True hdr (hdr @ w @ CHR '')'' # t) = Inr (w, t)"
  by (simp add: catag_parse_stanza_def fwd_paren_append)

definition catag_valid :: "catag \<Rightarrow> bool" where
  "catag_valid c \<longleftrightarrow>
     CHR '')'' \<notin> set (ca_cacheid c) \<and> CHR '')'' \<notin> set (ca_cacheloc c) \<and>
     length (ca_cacheid c) \<le> 2147483000 \<and> length (ca_cacheloc c) \<le> 2147483000"

definition catag_encode :: "catag \<Rightarrow> string" where
  "catag_encode c = concat (catag_pieces c)"

lemma catag_tostr_encode:
  assumes "catag_valid c"
  shows "catag_tostr (Some c) len = Some (printed len (catag_encode c))"
proof -
  have "\<forall>p \<in> set (catag_pieces c). printable p"
    using assms version_piece_printable
    by (auto simp: catag_pieces_def printable_def INT_MAX_def catag_valid_def)
  then show ?thesis
    by (simp add: catag_tostr_def outbuf_init_printed emit_all_printed catag_encode_def)
qed

lemma catag_initstr_encode:
  assumes "catag_valid c"
  shows "catag_initstr all_mem (Some d) (Some (catag_encode c)) = Inr c"
proof -
  have v: "CATAG_CURRENT_MAJORVERSION \<noteq> SIZE_MAX"
    by (simp add: gc_version_defs SIZE_MAX_def)
  show ?thesis
    using assms v catag_parse_stanza_piece [of "ca_cacheid c" "''ID(''"]
      catag_parse_stanza_piece [of "ca_cacheloc c" "''LOC(''" "[]"]
    by (simp add: catag_initstr_def catag_encode_def catag_pieces_def catag_valid_def
        parse_version_piece)
qed

interpretation catag: tag_codec "\<lambda>c. catag_tostr (Some c)"
  "\<lambda>s. catag_initstr all_mem (Some d) (Some s)" catag_encode catag_valid for d
  by unfold_locales (simp_all add: catag_tostr_encode catag_initstr_encode)

text \<open>What a successful parse of a collection tag guarantees.\<close>

lemma parse_flag_inv: "parse_flag c s = Inr (b, t) \<Longrightarrow> b = 0 \<or> b = 1"
  by (auto simp: parse_flag_def split: if_splits)

lemma gctag_initstr_valid:
  assumes "gctag_initstr (Some h) (Some s) = Inr g"
  shows "gctag_valid g"
  using assms
  by (auto simp: gctag_initstr_def gctag_parse_skip_def gctag_parse_prog_def bindE_eq_Inr
      gctag_valid_def split: option.splits prod.splits if_splits dest!: parse_flag_inv)

section \<open>Properties\<close>

text \<open>
  C11. The collection tag survives being stored: the parser accepts exactly what it can
  represent, and every tag it yields prints to a text that it reads back as the same tag.
\<close>

theorem gctag_reparse:
  assumes "gctag_initstr (Some h) (Some s) = Inr g"
  shows "\<exists>b b'. gctag_tostr (Some g) 0 = Some b \<and> gctag_tostr (Some g) (Suc (ob_tot b)) = Some b' \<and>
                gctag_initstr (Some h') (Some (ob_text b')) = Inr g"
  using gctag.sized_roundtrip [OF gctag_initstr_valid [OF assms]] .

definition gctag_sample :: gctag where
  "gctag_sample = \<lparr>gc_refcnt = 7, gc_eos = 1, gc_delzero = 0, gc_inprog = 1\<rparr>"

lemma gctag_sample_parses:
  "gctag_initstr (Some gctag_sample) (Some (gctag_encode gctag_sample)) = Inr gctag_sample"
  by (rule gctag_initstr_encode) (simp add: gctag_valid_def gctag_sample_def SIZE_MAX_def)

theorem gctag_reparse_witness:
  "\<exists>b b'. gctag_tostr (Some gctag_sample) 0 = Some b \<and>
          gctag_tostr (Some gctag_sample) (Suc (ob_tot b)) = Some b' \<and>
          gctag_initstr (Some gctag_sample) (Some (ob_text b')) = Inr gctag_sample"
  using gctag_reparse [OF gctag_sample_parses] .

text \<open>
  The cache tag: printed and parsed, a tag whose strings hold no closing parenthesis comes
  back unchanged; a buffer that is too short never yields a different tag silently, since the
  returned length then is at least the buffer length.
\<close>

theorem catag_roundtrip:
  assumes "catag_valid c" and "catag_tostr (Some c) len = Some b" and "ob_tot b < len"
  shows "catag_initstr all_mem (Some d) (Some (ob_text b)) = Inr c"
  using catag.fits_roundtrip [OF assms] .

theorem catag_roundtrip_witness:
  "catag_initstr all_mem (Some \<lparr>ca_cacheid = '''', ca_cacheloc = ''''\<rparr>)
     (Some (ob_text (printed 60 (catag_encode \<lparr>ca_cacheid = ''id'', ca_cacheloc = ''/a/b''\<rparr>)))) =
   Inr \<lparr>ca_cacheid = ''id'', ca_cacheloc = ''/a/b''\<rparr>"
proof -
  let ?c = "\<lparr>ca_cacheid = ''id'', ca_cacheloc = ''/a/b''\<rparr>"
  have v: "catag_valid ?c" by (simp add: catag_valid_def)
  have "length (catag_encode ?c) < 60"
    by (simp add: catag_encode_def catag_pieces_def version_piece_def gc_version_defs
        length_show_prec show_nat_01)
  then have "ob_tot (printed 60 (catag_encode ?c)) < 60"
    by (simp add: printed_def)
  from catag_roundtrip [OF v catag_tostr_encode [OF v] this] show ?thesis .
qed

end
