(* ===== verification/Rtag.thy ===== *)
theory Rtag
  imports Codec
begin

text \<open>
  The rebuild tag (\<^verbatim>\<open>src/tagging/tagging.c\<close>): the erasure state of a damaged object, stored on its
  rebuild marker. The struct owns two status arrays with one byte per block of the stripe. The
  parser reuses them when the stripe width agrees, so it may change the caller's struct even
  when it fails; the model returns the struct together with the error.
\<close>

section \<open>Data\<close>

text \<open>
  A status array is \<open>None\<close> (NULL) or the list of its bytes. The checksum array belongs to the
  caller; the functions here only copy its address.
\<close>

record ne_state =
  ns_versz :: u64
  ns_blocksz :: u64
  ns_totsz :: u64
  ns_meta_status :: "u8 list option"
  ns_data_status :: "u8 list option"
  ns_csum :: "nat option"

record rtag =
  rt_majorversion :: u32
  rt_minorversion :: u32
  rt_createtime :: u64
  rt_stripewidth :: u64
  rt_stripestate :: ne_state

definition RTAG_CURRENT_MAJORVERSION :: u32 where "RTAG_CURRENT_MAJORVERSION = 0"
definition RTAG_CURRENT_MINORVERSION :: u32 where "RTAG_CURRENT_MINORVERSION = 1"

lemmas rtag_version_defs = RTAG_CURRENT_MAJORVERSION_def RTAG_CURRENT_MINORVERSION_def

text \<open>\<^verbatim>\<open>rtag_getname\<close>: the name of the attribute, \<open>None\<close> for NULL.\<close>

definition rtag_getname :: "bool \<Rightarrow> u64 \<Rightarrow> string option" where
  "rtag_getname m objno =
     (let out = ''MARFS-REBUILD-'' @ show_nat (unat objno); rtagnamelen = snprintf_ret out in
      if rtagnamelen < 1 then None
      else if \<not> m then None
      else if snprintf_ret out \<noteq> rtagnamelen then None
      else Some (snprintf_buf (nat (rtagnamelen + 1)) out))"

section \<open>Parsing\<close>

text \<open>The version and the time stamp: both versions, the stamp and the rest of the string.\<close>

definition rtag_parse_head :: "string \<Rightarrow> c_error + u32 \<times> u32 \<times> u64 \<times> string" where
  "rtag_parse_head s =
     (case after_lit ''VER('' s of
        None \<Rightarrow> Inl EINVAL
      | Some p \<Rightarrow>
          (case strtoull 10 p of (maj, e) \<Rightarrow>
             if peek e \<noteq> CHR ''.'' then Inl EINVAL
             else if maj \<noteq> ucast RTAG_CURRENT_MAJORVERSION then Inl EINVAL
             else
               (case strtoull 10 (tl e) of (minv, e2) \<Rightarrow>
                  if peek e2 \<noteq> CHR '')'' then Inl EINVAL
                  else if minv \<noteq> ucast RTAG_CURRENT_MINORVERSION then Inl EINVAL
                  else
                    (case after_lit ''TIME('' (tl e2) of
                       None \<Rightarrow> Inl EINVAL
                     | Some p2 \<Rightarrow>
                         (case strtoull 10 p2 of (v, e3) \<Rightarrow>
                            if SIZE_MAX < v then Inl ERANGE
                            else if peek e3 \<noteq> CHR '')'' then Inl EINVAL
                            else Inr (ucast maj, ucast minv, v, tl e3))))))"

text \<open>
  The stripe values: width, version size, block size and total size, in any order; zero is
  refused. The rest starts behind the closing parenthesis (or at the end of the string).
\<close>

function rtag_stripe_vals ::
  "u64 \<times> u64 \<times> u64 \<times> u64 \<Rightarrow> string \<Rightarrow> c_error + (u64 \<times> u64 \<times> u64 \<times> u64) \<times> string" where
  "rtag_stripe_vals q s =
     (case s of
        [] \<Rightarrow> Inr (q, [])
      | c # r \<Rightarrow>
          if c \<notin> {CHR ''w'', CHR ''v'', CHR ''b'', CHR ''t''} then Inl EINVAL
          else
            (case strtoull 10 r of (x, e) \<Rightarrow>
               if SIZE_MAX < x \<or> x = 0 then Inl ERANGE
               else
                 (let (w, v, b, t) = q;
                      q2 = (if c = CHR ''w'' then (x, v, b, t) else if c = CHR ''v'' then (w, x, b, t)
                            else if c = CHR ''b'' then (w, v, x, t) else (w, v, b, x))
                  in if peek e \<noteq> CHR ''|''
                     then (if peek e = CHR '')'' then Inr (q2, tl e) else Inl EINVAL)
                     else rtag_stripe_vals q2 (tl e))))"
  by pat_completeness auto
termination
  by (relation "measure (\<lambda>(q, s). length s)") (auto dest: length_strtoull_eq [OF sym])

declare rtag_stripe_vals.simps [simp del]

text \<open>
  The values of one health stanza, written into the array \<open>xs\<close>. A dash moves to the next block;
  the loop ends at a closing parenthesis or behind the last block. The array is part of the
  result in every case.
\<close>

function health_vals ::
  "nat \<Rightarrow> nat \<Rightarrow> u8 list \<Rightarrow> string \<Rightarrow> u8 list \<times> (c_error + nat \<times> string)" where
  "health_vals w hindex xs s =
     (if peek s = CHR '')'' \<or> \<not> hindex < w then (xs, Inr (hindex, s))
      else if peek s \<noteq> CHR ''1'' \<and> peek s \<noteq> CHR ''0'' then (xs, Inl EINVAL)
      else if \<not> hindex < length xs then (xs, Inl UB)
      else
        (let xs2 = xs[hindex := (if peek s = CHR ''1'' then 1 else 0)]; p = tl s in
         if peek p = CHR ''-'' then health_vals w (Suc hindex) xs2 (tl p)
         else health_vals w hindex xs2 p))"
  by pat_completeness auto
termination
  by (relation "measure (\<lambda>(w, h, xs, s). length s)")
     (auto simp: peek_def NUL_def split: list.splits)

declare health_vals.simps [simp del]

text \<open>What follows the loop: the stanza must be closed.\<close>

definition health_stanza ::
  "nat \<Rightarrow> u8 list \<Rightarrow> string \<Rightarrow> u8 list \<times> (c_error + string)" where
  "health_stanza w xs s =
     (case health_vals w 0 xs s of
        (ys, Inl e) \<Rightarrow> (ys, Inl e)
      | (ys, Inr (hindex, p)) \<Rightarrow>
          if peek p \<noteq> CHR '')''
          then (ys, Inl (if hindex = w then EFBIG else EINVAL))
          else (ys, Inr (tl p)))"

lemma health_vals_length:
  "health_vals w h xs s = (ys, Inr (k, p)) \<Longrightarrow> length p \<le> length s"
proof (induction w h xs s rule: health_vals.induct)
  case (1 w h xs s)
  then show ?case
    by (subst (asm) (3) health_vals.simps)
       (fastforce simp: Let_def split: if_splits)
qed

lemma health_stanza_length:
  "health_stanza w xs s = (ys, Inr p) \<Longrightarrow> length p \<le> length s"
  by (auto simp: health_stanza_def dest!: health_vals_length
      split: prod.splits sum.splits if_splits)

text \<open>
  The loop over the health stanzas, with the two arrays and the flags that say which stanza was
  seen. A duplicate or an unknown header ends the loop in front of the rest of the string.
\<close>

function health_loop ::
  "nat \<Rightarrow> u8 list \<Rightarrow> u8 list \<Rightarrow> bool \<Rightarrow> bool \<Rightarrow> string
     \<Rightarrow> u8 list \<times> u8 list \<times> (c_error + bool \<times> bool \<times> string)" where
  "health_loop w data meta datahval metahval s =
     (if s = [] then (data, meta, Inr (datahval, metahval, []))
      else
        (case after_lit ''DHLTH('' s of
           Some p \<Rightarrow>
             if datahval then (data, meta, Inr (datahval, metahval, s))
             else
               (case health_stanza w data p of
                  (data2, Inl e) \<Rightarrow> (data2, meta, Inl e)
                | (data2, Inr p2) \<Rightarrow> health_loop w data2 meta True metahval p2)
         | None \<Rightarrow>
             (case after_lit ''MHLTH('' s of
                Some p \<Rightarrow>
                  if metahval then (data, meta, Inr (datahval, metahval, s))
                  else
                    (case health_stanza w meta p of
                       (meta2, Inl e) \<Rightarrow> (data, meta2, Inl e)
                     | (meta2, Inr p2) \<Rightarrow> health_loop w data meta2 datahval True p2)
              | None \<Rightarrow> (data, meta, Inr (datahval, metahval, s)))))"
  by pat_completeness auto
termination
  by (relation "measure (\<lambda>(w, d, m, a, b, s). length s)")
     (fastforce dest!: health_stanza_length [OF sym] simp: after_lit_Some)+

declare health_loop.simps [simp del]

text \<open>
  The array a stanza is read into: the one of the struct when the width agrees, a fresh one of
  zeroes otherwise. \<open>Inr (xs, reused)\<close> says which.
\<close>

definition status_array ::
  "bool \<Rightarrow> u64 \<Rightarrow> u64 \<Rightarrow> u8 list option \<Rightarrow> c_error + u8 list \<times> bool" where
  "status_array m oldwidth width old =
     (if oldwidth \<noteq> width \<or> old = None
      then (if m then Inr (replicate (unat width) 0, False) else Inl ENOMEM)
      else Inr (the old, True))"

definition keep_arrays :: "u8 list \<times> bool \<Rightarrow> u8 list \<times> bool \<Rightarrow> rtag \<Rightarrow> rtag" where
  "keep_arrays data meta r =
     (let st = rt_stripestate r in
      r\<lparr>rt_stripestate := st\<lparr>
          ns_data_status := (if snd data then Some (fst data) else ns_data_status st),
          ns_meta_status := (if snd meta then Some (fst meta) else ns_meta_status st)\<rparr>\<rparr>)"

definition rtag_parse_health ::
  "mem \<Rightarrow> rtag \<Rightarrow> u32 \<times> u32 \<times> u64 \<Rightarrow> u64 \<times> u64 \<times> u64 \<times> u64 \<Rightarrow> string \<Rightarrow> c_error option \<times> rtag" where
  "rtag_parse_health m r hdr q s =
     (case hdr of (maj, minv, ctime) \<Rightarrow>
     (case q of (w, v, b, t) \<Rightarrow>
       (let st = rt_stripestate r in
        case status_array (m 0) (rt_stripewidth r) w (ns_data_status st) of
          Inl e \<Rightarrow> (Some e, r)
        | Inr (data, rd) \<Rightarrow>
            (case status_array (m 1) (rt_stripewidth r) w (ns_meta_status st) of
               Inl e \<Rightarrow> (Some e, r)
             | Inr (meta, rm) \<Rightarrow>
                 (case health_loop (unat w) data meta False False s of
                    (data2, meta2, Inl e) \<Rightarrow> (Some e, keep_arrays (data2, rd) (meta2, rm) r)
                  | (data2, meta2, Inr (datahval, metahval, p)) \<Rightarrow>
                      if p \<noteq> [] \<or> \<not> metahval \<or> \<not> datahval
                      then (Some EINVAL, keep_arrays (data2, rd) (meta2, rm) r)
                      else (None,
                            r\<lparr>rt_majorversion := maj, rt_minorversion := minv,
                              rt_createtime := ctime, rt_stripewidth := w,
                              rt_stripestate := st\<lparr>ns_versz := v, ns_blocksz := b, ns_totsz := t,
                                ns_meta_status := Some meta2, ns_data_status := Some data2\<rparr>\<rparr>))))))"

text \<open>
  \<^verbatim>\<open>rtag_initstr\<close>: the error, if any, and the struct after the call. The string is not checked
  for NULL.
\<close>

definition rtag_initstr :: "mem \<Rightarrow> rtag option \<Rightarrow> string option \<Rightarrow> c_error option \<times> rtag option" where
  "rtag_initstr m ro so =
     (case ro of None \<Rightarrow> (Some EINVAL, None) | Some r \<Rightarrow>
     (case so of None \<Rightarrow> (Some UB, Some r) | Some s \<Rightarrow>
     (case rtag_parse_head s of
        Inl e \<Rightarrow> (Some e, Some r)
      | Inr (maj, minv, ctime, p) \<Rightarrow>
          if p = [] then
            (None, Some (r\<lparr>rt_majorversion := maj, rt_minorversion := minv,
                           rt_createtime := ctime, rt_stripewidth := 0,
                           rt_stripestate := (rt_stripestate r)\<lparr>ns_versz := 0, ns_blocksz := 0,
                             ns_totsz := 0, ns_meta_status := None, ns_data_status := None\<rparr>\<rparr>))
          else
            (case after_lit ''STP('' p of
               None \<Rightarrow> (Some EINVAL, Some r)
             | Some p2 \<Rightarrow>
                 (case rtag_stripe_vals (0, 0, 0, 0) p2 of
                    Inl e \<Rightarrow> (Some e, Some r)
                  | Inr ((w, v, b, t), p3) \<Rightarrow>
                      if w = 0 \<or> v = 0 \<or> b = 0 \<or> t = 0 then (Some EINVAL, Some r)
                      else map_prod id Some
                             (rtag_parse_health m r (maj, minv, ctime) (w, v, b, t) p3))))))"

section \<open>Printing\<close>

text \<open>One block of a health stanza: the separator, except in front of the first block, and a flag.\<close>

definition health_piece :: "u8 list \<Rightarrow> nat \<Rightarrow> string" where
  "health_piece xs cur =
     (if cur \<noteq> 0 then ''-'' else '''') @ (if xs ! cur \<noteq> 0 then ''1'' else ''0'')"

function emit_health :: "nat \<Rightarrow> u8 list \<Rightarrow> nat \<Rightarrow> outbuf \<Rightarrow> c_error + outbuf" where
  "emit_health w xs cur b =
     (if \<not> cur < w then Inr b
      else if \<not> cur < length xs then Inl UB
      else (case emit (health_piece xs cur) b of
              None \<Rightarrow> Inl EFail
            | Some b2 \<Rightarrow> emit_health w xs (Suc cur) b2))"
  by pat_completeness auto
termination
  by (relation "measure (\<lambda>(w, xs, cur, b). w - cur)") auto

declare emit_health.simps [simp del]

definition emitE :: "string \<Rightarrow> outbuf \<Rightarrow> c_error + outbuf" where
  "emitE p b = (case emit p b of None \<Rightarrow> Inl EFail | Some b2 \<Rightarrow> Inr b2)"

definition rtag_ver_piece :: "rtag \<Rightarrow> string" where
  "rtag_ver_piece r =
     ''VER('' @ show_nat (unat (rt_majorversion r)) @ ''.'' @
     show_prec 3 (unat (rt_minorversion r)) @ '')''"

definition rtag_time_piece :: "rtag \<Rightarrow> string" where
  "rtag_time_piece r = ''TIME('' @ show_nat (unat (rt_createtime r)) @ '')''"

definition rtag_stripe_piece :: "rtag \<Rightarrow> string" where
  "rtag_stripe_piece r =
     ''STP(w'' @ show_nat (unat (rt_stripewidth r)) @
     ''|v'' @ show_nat (unat (ns_versz (rt_stripestate r))) @
     ''|b'' @ show_nat (unat (ns_blocksz (rt_stripestate r))) @
     ''|t'' @ show_nat (unat (ns_totsz (rt_stripestate r))) @ '')''"

text \<open>
  \<^verbatim>\<open>rtag_tostr\<close>: \<open>Inl\<close> stands for the return of zero, with its cause. A status array that is
  shorter than the stripe width is read out of bounds.
\<close>

definition rtag_tostr :: "rtag option \<Rightarrow> nat \<Rightarrow> c_error + outbuf" where
  "rtag_tostr ro len =
     (case ro of None \<Rightarrow> Inl EINVAL | Some r \<Rightarrow>
       (let st = rt_stripestate r; w = unat (rt_stripewidth r) in
        if w \<noteq> 0 \<and> (ns_meta_status st = None \<or> ns_data_status st = None) then Inl EINVAL
        else
          bindE (emitE (rtag_ver_piece r) (outbuf_init len)) (\<lambda>b.
          bindE (emitE (rtag_time_piece r) b) (\<lambda>b.
          if w = 0 then Inr b
          else
            bindE (emitE (rtag_stripe_piece r) b) (\<lambda>b.
            bindE (emitE ''DHLTH('' b) (\<lambda>b.
            bindE (emit_health w (the (ns_data_status st)) 0 b) (\<lambda>b.
            bindE (emitE '')MHLTH('' b) (\<lambda>b.
            bindE (emit_health w (the (ns_meta_status st)) 0 b) (\<lambda>b.
            emitE '')'' b)))))))))"

section \<open>Allocation\<close>

definition rtag_free :: "rtag \<Rightarrow> rtag" where
  "rtag_free r =
     r\<lparr>rt_stripewidth := 0,
       rt_stripestate := (rt_stripestate r)\<lparr>ns_meta_status := None, ns_data_status := None\<rparr>\<rparr>"

text \<open>\<^verbatim>\<open>rtag_alloc\<close>: the error, if any, and the struct. Allocation 0 is the metadata array.\<close>

definition rtag_alloc :: "mem \<Rightarrow> rtag option \<Rightarrow> c_error option \<times> rtag option" where
  "rtag_alloc m ro =
     (case ro of None \<Rightarrow> (Some EINVAL, None) | Some r \<Rightarrow>
        if rt_stripewidth r \<noteq> 0 \<and> ns_meta_status (rt_stripestate r) \<noteq> None \<and>
           ns_data_status (rt_stripestate r) \<noteq> None
        then (None, Some r)
        else
          (let w = rt_stripewidth r; r2 = rtag_free r; zeros = replicate (unat w) 0 in
           if \<not> m 0 \<or> \<not> m 1 then (Some ENOMEM, Some r2)
           else (None, Some (r2\<lparr>rt_stripewidth := w,
                  rt_stripestate := (rt_stripestate r2)\<lparr>ns_meta_status := Some zeros,
                    ns_data_status := Some zeros\<rparr>\<rparr>))))"

text \<open>
  \<^verbatim>\<open>memcpy\<close> of a status array: a NULL or too short source has no defined behaviour. The
  arrays are copied only for a non-zero width.
\<close>

definition copy_status :: "nat \<Rightarrow> u8 list option \<Rightarrow> c_error + u8 list" where
  "copy_status w a =
     (case a of None \<Rightarrow> Inl UB | Some xs \<Rightarrow> if length xs < w then Inl UB else Inr (take w xs))"

definition rtag_dup :: "mem \<Rightarrow> rtag option \<Rightarrow> rtag option \<Rightarrow> c_error option \<times> rtag option" where
  "rtag_dup m src dest =
     (case src of None \<Rightarrow> (Some EINVAL, dest) | Some r \<Rightarrow>
     (case dest of None \<Rightarrow> (Some EINVAL, dest) | Some d \<Rightarrow>
       (let w = unat (rt_stripewidth r); st = rt_stripestate r in
        if w = 0 then
          (None, Some (r\<lparr>rt_stripestate := st\<lparr>ns_meta_status := None, ns_data_status := None\<rparr>\<rparr>))
        else if \<not> m 0 \<or> \<not> m 1 then (Some ENOMEM, dest)
        else
          (case bindE (copy_status w (ns_meta_status st)) (\<lambda>meta.
                bindE (copy_status w (ns_data_status st)) (\<lambda>data. Inr (meta, data))) of
             Inl e \<Rightarrow> (Some e, dest)
           | Inr (meta, data) \<Rightarrow>
               (None, Some (r\<lparr>rt_stripestate := st\<lparr>ns_meta_status := Some meta,
                              ns_data_status := Some data\<rparr>\<rparr>))))))"

section \<open>Lemmas\<close>

subsection \<open>The arrays keep their length\<close>

definition status_ok :: "u64 \<Rightarrow> u8 list option \<Rightarrow> bool" where
  "status_ok w a \<longleftrightarrow> (case a of None \<Rightarrow> True | Some xs \<Rightarrow> length xs = unat w)"

text \<open>The convention of the header: non-NULL arrays have the length of the stripe.\<close>

definition rtag_wf :: "rtag \<Rightarrow> bool" where
  "rtag_wf r \<longleftrightarrow>
     status_ok (rt_stripewidth r) (ns_data_status (rt_stripestate r)) \<and>
     status_ok (rt_stripewidth r) (ns_meta_status (rt_stripestate r))"

lemma health_vals_inv:
  "health_vals w h xs s = (ys, res) \<Longrightarrow> length xs = w \<Longrightarrow> length ys = w \<and> res \<noteq> Inl UB"
proof (induction w h xs s rule: health_vals.induct)
  case (1 w h xs s)
  then show ?case
    by (subst (asm) (3) health_vals.simps) (auto simp: Let_def split: if_splits)
qed

lemma health_stanza_inv:
  "health_stanza w xs s = (ys, res) \<Longrightarrow> length xs = w \<Longrightarrow> length ys = w \<and> res \<noteq> Inl UB"
  by (auto simp: health_stanza_def dest!: health_vals_inv split: prod.splits sum.splits if_splits)

lemma health_loop_inv:
  "health_loop w data meta dh mh s = (data2, meta2, res) \<Longrightarrow> length data = w \<Longrightarrow>
   length meta = w \<Longrightarrow> length data2 = w \<and> length meta2 = w \<and> res \<noteq> Inl UB"
proof (induction w data meta dh mh s rule: health_loop.induct)
  case (1 w data meta dh mh s)
  then show ?case
    by (subst (asm) (3) health_loop.simps)
       (fastforce dest: health_stanza_inv split: option.splits if_splits prod.splits sum.splits)
qed

lemma status_array_inv:
  assumes "status_array m ow w old = Inr (xs, reused)" and "status_ok ow old"
  shows "length xs = unat w" and "reused \<Longrightarrow> ow = w"
  using assms by (auto simp: status_array_def status_ok_def split: if_splits option.splits)

lemma status_array_Inl: "status_array m ow w old = Inl x \<Longrightarrow> x = ENOMEM"
  by (simp add: status_array_def split: if_splits)

lemma keep_arrays_wf:
  assumes "rtag_wf r" and "length (fst data) = unat w" "snd data \<Longrightarrow> rt_stripewidth r = w"
    and "length (fst meta) = unat w" "snd meta \<Longrightarrow> rt_stripewidth r = w"
  shows "rtag_wf (keep_arrays data meta r)"
  using assms by (auto simp: keep_arrays_def rtag_wf_def status_ok_def Let_def)

lemma rtag_parse_health_inv:
  assumes "rtag_wf r" and "rtag_parse_health m r hdr (w, v, b, t) s = (e, r2)"
  shows "rtag_wf r2 \<and> e \<noteq> Some UB"
proof -
  obtain maj minv ctime where hdr: "hdr = (maj, minv, ctime)" by (cases hdr) auto
  let ?st = "rt_stripestate r"
  have ok: "status_ok (rt_stripewidth r) (ns_data_status ?st)"
    "status_ok (rt_stripewidth r) (ns_meta_status ?st)"
    using assms(1) by (simp_all add: rtag_wf_def)
  show ?thesis
  proof (cases "status_array (m 0) (rt_stripewidth r) w (ns_data_status ?st)")
    case (Inl x)
    then show ?thesis
      using assms status_array_Inl [OF Inl] by (auto simp: rtag_parse_health_def hdr Let_def)
  next
    case d: (Inr dx)
    obtain data rd where dx: "dx = (data, rd)" by (cases dx)
    show ?thesis
    proof (cases "status_array (m 1) (rt_stripewidth r) w (ns_meta_status ?st)")
      case (Inl x)
      then show ?thesis
        using assms status_array_Inl [OF Inl] d dx by (auto simp: rtag_parse_health_def hdr Let_def)
    next
      case mt: (Inr mx)
      obtain meta rm where mx: "mx = (meta, rm)" by (cases mx)
      note di = status_array_inv [OF d [unfolded dx] ok(1)]
        and mi = status_array_inv [OF mt [unfolded mx] ok(2)]
      obtain data2 meta2 res
        where hl: "health_loop (unat w) data meta False False s = (data2, meta2, res)"
        by (metis prod_cases3)
      note inv = health_loop_inv [OF hl di(1) mi(1)]
      have k: "rtag_wf (keep_arrays (data2, rd) (meta2, rm) r)"
        using inv di(2) mi(2) by (intro keep_arrays_wf [OF assms(1)]) auto
      show ?thesis
        using assms(2) d dx mt mx hl inv k
        by (auto simp: rtag_parse_health_def hdr Let_def rtag_wf_def status_ok_def
            split: sum.splits if_splits)
    qed
  qed
qed

lemma rtag_parse_head_no_UB: "rtag_parse_head s \<noteq> Inl UB"
  by (auto simp: rtag_parse_head_def split: option.splits prod.splits)

lemma rtag_stripe_vals_no_UB: "rtag_stripe_vals q s \<noteq> Inl UB"
proof (induction "length s" arbitrary: q s rule: less_induct)
  case less
  show ?case
  proof (cases s)
    case (Cons c r)
    obtain x e where e: "strtoull 10 r = (x, e)" by fastforce
    have "length (tl e) < length s" using length_strtoull_eq [OF e] Cons by simp
    note IH = less [OF this]
    show ?thesis
      using IH Cons e by (subst rtag_stripe_vals.simps) (auto simp: Let_def split: prod.splits)
  qed (simp add: rtag_stripe_vals.simps)
qed

lemma rtag_initstr_inv:
  assumes "rtag_wf r" and "rtag_initstr m (Some r) (Some s) = (e, r2)"
  shows "\<exists>r3. r2 = Some r3 \<and> rtag_wf r3 \<and> e \<noteq> Some UB"
proof -
  have base: "rtag_wf (r\<lparr>rt_majorversion := a, rt_minorversion := b, rt_createtime := c,
      rt_stripewidth := 0, rt_stripestate := (rt_stripestate r)\<lparr>ns_versz := 0, ns_blocksz := 0,
      ns_totsz := 0, ns_meta_status := None, ns_data_status := None\<rparr>\<rparr>)" for a b c
    by (simp add: rtag_wf_def status_ok_def)
  show ?thesis
    using assms base rtag_parse_head_no_UB [of s] rtag_stripe_vals_no_UB
    by (auto simp: rtag_initstr_def map_prod_def split: sum.splits if_splits option.splits prod.splits
        dest: rtag_parse_health_inv)
qed

subsection \<open>Printing and reading back\<close>

lemma emitE_printed [out_simps]:
  "printable p \<Longrightarrow> emitE p (printed len out0) = Inr (printed len (out0 @ p))"
  by (simp add: emitE_def emit_printed)

lemma emit_health_printed:
  "length xs = w \<Longrightarrow> cur \<le> w \<Longrightarrow>
   emit_health w xs cur (printed len out0) =
     Inr (printed len (out0 @ concat (map (health_piece xs) [cur..<w])))"
proof (induction "w - cur" arbitrary: cur out0)
  case 0
  then show ?case by (simp add: emit_health.simps)
next
  case (Suc n)
  have p: "printable (health_piece xs cur)"
    by (simp add: printable_def health_piece_def INT_MAX_def)
  have up: "[cur..<w] = cur # [Suc cur..<w]"
    using Suc by (intro upt_conv_Cons) simp
  show ?case
    using Suc p up by (subst emit_health.simps) (simp add: emit_printed)
qed

definition rtag_encode :: "rtag \<Rightarrow> string" where
  "rtag_encode r =
     rtag_ver_piece r @ rtag_time_piece r @
     (let st = rt_stripestate r; w = unat (rt_stripewidth r) in
      if w = 0 then []
      else rtag_stripe_piece r @ ''DHLTH('' @
           concat (map (health_piece (the (ns_data_status st))) [0..<w]) @ '')MHLTH('' @
           concat (map (health_piece (the (ns_meta_status st))) [0..<w]) @ '')'')"

definition status_valid :: "u64 \<Rightarrow> u8 list option \<Rightarrow> bool" where
  "status_valid w a \<longleftrightarrow> (case a of None \<Rightarrow> False | Some xs \<Rightarrow> length xs = unat w \<and> set xs \<subseteq> {0, 1})"

text \<open>
  The tags that survive being printed: without a stripe all sizes are zero and there are no
  arrays; with one, the sizes are not zero and each array has one flag per block.
\<close>

definition rtag_valid :: "rtag \<Rightarrow> bool" where
  "rtag_valid r \<longleftrightarrow>
     rt_majorversion r = RTAG_CURRENT_MAJORVERSION \<and> rt_minorversion r = RTAG_CURRENT_MINORVERSION \<and>
     (let st = rt_stripestate r in
      if rt_stripewidth r = 0
      then ns_versz st = 0 \<and> ns_blocksz st = 0 \<and> ns_totsz st = 0 \<and>
           ns_meta_status st = None \<and> ns_data_status st = None
      else ns_versz st \<noteq> 0 \<and> ns_blocksz st \<noteq> 0 \<and> ns_totsz st \<noteq> 0 \<and>
           status_valid (rt_stripewidth r) (ns_meta_status st) \<and>
           status_valid (rt_stripewidth r) (ns_data_status st))"

lemma rtag_pieces_printable:
  "printable (rtag_ver_piece r)" "printable (rtag_time_piece r)" "printable (rtag_stripe_piece r)"
  using length_show_u32 [of "rt_majorversion r"] length_show_u32 [of "rt_minorversion r"]
    length_show_u64 [of "rt_createtime r"] length_show_u64 [of "rt_stripewidth r"]
    length_show_u64 [of "ns_versz (rt_stripestate r)"]
    length_show_u64 [of "ns_blocksz (rt_stripestate r)"]
    length_show_u64 [of "ns_totsz (rt_stripestate r)"]
  by (simp_all add: printable_def rtag_ver_piece_def rtag_time_piece_def rtag_stripe_piece_def
      length_show_prec INT_MAX_def)

lemma rtag_tostr_encode:
  assumes "rtag_valid r"
  shows "rtag_tostr (Some r) len = Inr (printed len (rtag_encode r))"
proof -
  have lit: "printable ''DHLTH(''" "printable '')MHLTH(''" "printable '')''"
    by (simp_all add: printable_def INT_MAX_def)
  have z: "unat (rt_stripewidth r) = 0 \<longleftrightarrow> rt_stripewidth r = 0"
    by (simp add: unat_eq_0)
  show ?thesis
  proof (cases "rt_stripewidth r = 0")
    case True
    then show ?thesis
      using assms by (simp add: rtag_tostr_def rtag_encode_def rtag_valid_def Let_def
          outbuf_init_printed emitE_printed rtag_pieces_printable)
  next
    case False
    obtain data meta where st: "ns_data_status (rt_stripestate r) = Some data"
      "ns_meta_status (rt_stripestate r) = Some meta" "length data = unat (rt_stripewidth r)"
      "length meta = unat (rt_stripewidth r)"
      using assms False by (auto simp: rtag_valid_def status_valid_def Let_def split: option.splits)
    show ?thesis
      using st False z lit by (simp add: rtag_tostr_def rtag_encode_def Let_def
          outbuf_init_printed emitE_printed emit_health_printed rtag_pieces_printable)
  qed
qed

lemma health_vals_read:
  assumes "length ys = w" "set ys \<subseteq> {0, 1}" "h < w" "length xs = w"
  shows "health_vals w h xs
           ((if ys ! h \<noteq> 0 then CHR ''1'' else CHR ''0'') #
            concat (map (health_piece ys) [Suc h..<w]) @ CHR '')'' # t) =
         (take h xs @ drop h ys, Inr (w - 1, CHR '')'' # t))"
  using assms
proof (induction "w - Suc h" arbitrary: h xs)
  case 0
  then have w: "w = Suc h" by simp
  have d: "drop h ys = [ys ! h]" "take h (xs[h := v]) @ [v] = xs[h := v]" for v
    using 0 w Cons_nth_drop_Suc [of h ys] by (auto simp: upd_conv_take_nth_drop)
  have "ys ! h = 0 \<or> ys ! h = 1"
    using "0.prems"(1-3) nth_mem [of h ys] by blast
  then show ?case
    using 0 w d by (subst health_vals.simps)
      (auto simp: Let_def health_vals.simps [of _ _ _ "CHR '')'' # _"] take_update_cancel)
next
  case (Suc n)
  have up: "[Suc h..<w] = Suc h # [Suc (Suc h)..<w]"
    using Suc by (intro upt_conv_Cons) simp
  let ?v = "if ys ! h \<noteq> 0 then 1 else 0 :: u8"
  have "ys ! h = 0 \<or> ys ! h = 1"
    using Suc.prems(1-3) nth_mem [of h ys] by blast
  then have v: "ys ! h = ?v" by auto
  have IH: "health_vals w (Suc h) (xs[h := ?v])
      ((if ys ! Suc h \<noteq> 0 then CHR ''1'' else CHR ''0'') #
        concat (map (health_piece ys) [Suc (Suc h)..<w]) @ CHR '')'' # t) =
      (take (Suc h) (xs[h := ?v]) @ drop (Suc h) ys, Inr (w - 1, CHR '')'' # t))"
    using Suc by (intro Suc.hyps) auto
  have tk: "take (Suc h) (xs[h := ?v]) @ drop (Suc h) ys = take h xs @ drop h ys"
    using Suc.prems v Cons_nth_drop_Suc [of h ys]
    by (simp add: take_Suc_conv_app_nth)
  show ?case
    using IH Suc.prems tk
    by (subst health_vals.simps) (simp add: Let_def up health_piece_def split: if_splits)
qed

lemma health_stanza_read:
  assumes "length ys = w" "set ys \<subseteq> {0, 1}" "0 < w" "length xs = w"
  shows "health_stanza w xs (concat (map (health_piece ys) [0..<w]) @ CHR '')'' # t) = (ys, Inr t)"
proof -
  have up: "[0..<w] = 0 # [Suc 0..<w]"
    using assms by (intro upt_conv_Cons) simp
  show ?thesis
    using health_vals_read [OF assms(1-4), of t]
    by (simp add: health_stanza_def up health_piece_def [of ys 0] split: if_splits)
qed

lemma health_loop_read:
  assumes "status_valid w (Some ys)" "status_valid w (Some zs)" "w \<noteq> 0"
    and "length xs = unat w" "length xs' = unat w"
  shows "health_loop (unat w) xs xs' False False
           (''DHLTH('' @ concat (map (health_piece ys) [0..<unat w]) @ '')MHLTH('' @
            concat (map (health_piece zs) [0..<unat w]) @ '')'') =
         (ys, zs, Inr (True, True, []))"
proof -
  have w: "0 < unat w" using assms(3) by (simp add: unat_gt_0)
  note rd = health_stanza_read [OF _ _ w]
  show ?thesis
    using assms w rd [of ys xs "''MHLTH('' @ concat (map (health_piece zs) [0..<unat w]) @ '')''"]
      rd [of zs xs' "[]"]
    by (simp add: health_loop.simps [of _ _ _ _ _ "_ # _"] health_loop.simps [of _ _ _ _ _ "[]"]
        status_valid_def)
qed

lemma rtag_stripe_vals_piece:
  assumes "w \<noteq> 0" "v \<noteq> 0" "b \<noteq> 0" "t \<noteq> 0"
  shows "rtag_stripe_vals (0, 0, 0, 0)
     (CHR ''w'' # show_nat (unat w) @ CHR ''|'' # CHR ''v'' # show_nat (unat v) @
      CHR ''|'' # CHR ''b'' # show_nat (unat b) @ CHR ''|'' # CHR ''t'' # show_nat (unat t) @
      CHR '')'' # p) = Inr ((w, v, b, t), p)"
  using assms by (simp add: rtag_stripe_vals.simps [of _ "_ # _"] cstr_simps)

lemma rtag_parse_head_pieces:
  assumes "rt_majorversion r = RTAG_CURRENT_MAJORVERSION"
    and "rt_minorversion r = RTAG_CURRENT_MINORVERSION"
  shows "rtag_parse_head (rtag_ver_piece r @ rtag_time_piece r @ t) =
    Inr (rt_majorversion r, rt_minorversion r, rt_createtime r, t)"
  using assms
  by (simp add: rtag_parse_head_def rtag_ver_piece_def rtag_time_piece_def cstr_simps
      rtag_version_defs)

lemma status_array_length:
  "status_ok ow old \<Longrightarrow> \<exists>xs rd. status_array True ow w old = Inr (xs, rd) \<and> length xs = unat w"
  by (auto simp: status_array_def status_ok_def split: option.splits)

text \<open>
  Reading a printed tag gives the tag back, whatever the struct held before, except for the
  checksum address, which the parser leaves alone.
\<close>

lemma rtag_initstr_encode:
  assumes r: "rtag_valid r" and g: "rtag_wf g"
    and csum: "ns_csum (rt_stripestate g) = ns_csum (rt_stripestate r)"
  shows "rtag_initstr all_mem (Some g) (Some (rtag_encode r)) = (None, Some r)"
proof (cases "rt_stripewidth r = 0")
  case True
  then show ?thesis
    using r csum rtag_parse_head_pieces [of r "[]"]
    by (simp add: rtag_initstr_def rtag_encode_def rtag_valid_def Let_def)
next
  case False
  let ?st = "rt_stripestate r" and ?w = "rt_stripewidth r"
  obtain data meta where st: "ns_data_status ?st = Some data" "ns_meta_status ?st = Some meta"
    "status_valid ?w (Some data)" "status_valid ?w (Some meta)"
    using r False by (auto simp: rtag_valid_def status_valid_def Let_def split: option.splits)
  have nz: "ns_versz ?st \<noteq> 0" "ns_blocksz ?st \<noteq> 0" "ns_totsz ?st \<noteq> 0"
    using r False by (simp_all add: rtag_valid_def Let_def)
  obtain xs rd xs' rm where arr:
    "status_array True (rt_stripewidth g) ?w (ns_data_status (rt_stripestate g)) = Inr (xs, rd)"
    "status_array True (rt_stripewidth g) ?w (ns_meta_status (rt_stripestate g)) = Inr (xs', rm)"
    "length xs = unat ?w" "length xs' = unat ?w"
    using g status_array_length unfolding rtag_wf_def by metis
  let ?health = "''DHLTH('' @ concat (map (health_piece data) [0..<unat ?w]) @ '')MHLTH('' @
            concat (map (health_piece meta) [0..<unat ?w]) @ '')''"
  have hl: "health_loop (unat ?w) xs xs' False False ?health = (data, meta, Inr (True, True, []))"
    using health_loop_read [OF st(3,4) False arr(3,4)] .
  have ph: "rtag_parse_health all_mem g (rt_majorversion r, rt_minorversion r, rt_createtime r)
      (?w, ns_versz ?st, ns_blocksz ?st, ns_totsz ?st) ?health = (None, r)"
    unfolding rtag_parse_health_def prod.case Let_def arr(1,2) sum.case hl
    using st(1,2) csum by simp
  have enc: "rtag_encode r = rtag_ver_piece r @ rtag_time_piece r @ rtag_stripe_piece r @ ?health"
    using False st by (simp add: rtag_encode_def Let_def unat_eq_0)
  have sp: "after_lit ''STP('' (rtag_stripe_piece r @ ?health) =
      Some (CHR ''w'' # show_nat (unat ?w) @ CHR ''|'' # CHR ''v'' # show_nat (unat (ns_versz ?st)) @
      CHR ''|'' # CHR ''b'' # show_nat (unat (ns_blocksz ?st)) @ CHR ''|'' # CHR ''t'' #
      show_nat (unat (ns_totsz ?st)) @ CHR '')'' # ?health)" "rtag_stripe_piece r \<noteq> []"
    by (simp_all add: rtag_stripe_piece_def)
  have ver: "rt_majorversion r = RTAG_CURRENT_MAJORVERSION"
    "rt_minorversion r = RTAG_CURRENT_MINORVERSION"
    using r by (simp_all add: rtag_valid_def)
  have sv: "rtag_stripe_vals (0, 0, 0, 0) (CHR ''w'' # show_nat (unat ?w) @ CHR ''|'' # CHR ''v'' #
      show_nat (unat (ns_versz ?st)) @ CHR ''|'' # CHR ''b'' # show_nat (unat (ns_blocksz ?st)) @
      CHR ''|'' # CHR ''t'' # show_nat (unat (ns_totsz ?st)) @ CHR '')'' # ?health) =
      Inr ((?w, ns_versz ?st, ns_blocksz ?st, ns_totsz ?st), ?health)"
    using False nz by (rule rtag_stripe_vals_piece)
  show ?thesis
    unfolding rtag_initstr_def option.case enc rtag_parse_head_pieces [OF ver] sum.case prod.case
      sp(1) sv ph
    using False nz sp(2) by simp
qed

definition rtag_zero :: rtag where
  "rtag_zero = \<lparr>rt_majorversion = 0, rt_minorversion = 0, rt_createtime = 0, rt_stripewidth = 0,
     rt_stripestate = \<lparr>ns_versz = 0, ns_blocksz = 0, ns_totsz = 0, ns_meta_status = None,
       ns_data_status = None, ns_csum = None\<rparr>\<rparr>"

lemma rtag_zero_wf: "rtag_wf rtag_zero"
  by (simp add: rtag_wf_def rtag_zero_def status_ok_def)

lemma rtag_zero_csum [simp]: "ns_csum (rt_stripestate rtag_zero) = None"
  by (simp add: rtag_zero_def)

text \<open>The contract of printer and parser, for a struct that starts zeroed as in the callers.\<close>

interpretation rtag: tag_codec
  "\<lambda>r len. case rtag_tostr (Some r) len of Inl _ \<Rightarrow> None | Inr b \<Rightarrow> Some b"
  "\<lambda>s. case rtag_initstr all_mem (Some rtag_zero) (Some s) of
         (None, Some r) \<Rightarrow> Inr r | (None, None) \<Rightarrow> Inl EFail | (Some e, _) \<Rightarrow> Inl e"
  rtag_encode "\<lambda>r. rtag_valid r \<and> ns_csum (rt_stripestate r) = None"
  by unfold_locales (simp_all add: rtag_tostr_encode rtag_initstr_encode rtag_zero_wf)

section \<open>Properties\<close>

definition rtag_sample :: rtag where
  "rtag_sample = \<lparr>rt_majorversion = 0, rt_minorversion = 1, rt_createtime = 1700000000,
     rt_stripewidth = 3, rt_stripestate = \<lparr>ns_versz = 10, ns_blocksz = 20, ns_totsz = 30,
       ns_meta_status = Some [1, 0, 0], ns_data_status = Some [0, 1, 0], ns_csum = None\<rparr>\<rparr>"

lemma rtag_sample_valid: "rtag_valid rtag_sample"
  by (simp add: rtag_valid_def rtag_sample_def rtag_version_defs status_valid_def Let_def)

lemma rtag_sample_wf: "rtag_wf rtag_sample"
  by (simp add: rtag_wf_def rtag_sample_def status_ok_def)

text \<open>
  C6. A rebuild tag survives being stored: it prints, and its text is parsed back to the same
  tag, with both status arrays, into any struct whose arrays fit its stripe width.
\<close>

theorem rtag_roundtrip:
  assumes "rtag_valid r" and "rtag_wf g"
    and "ns_csum (rt_stripestate g) = ns_csum (rt_stripestate r)"
  shows "\<exists>b b'. rtag_tostr (Some r) 0 = Inr b \<and> rtag_tostr (Some r) (Suc (ob_tot b)) = Inr b' \<and>
                rtag_initstr all_mem (Some g) (Some (ob_text b')) = (None, Some r)"
  using rtag_tostr_encode [OF assms(1)] rtag_initstr_encode [OF assms]
  by (simp add: printed_def)

theorem rtag_roundtrip_witness:
  "\<exists>b b'. rtag_tostr (Some rtag_sample) 0 = Inr b \<and>
          rtag_tostr (Some rtag_sample) (Suc (ob_tot b)) = Inr b' \<and>
          rtag_initstr all_mem (Some (rtag_sample\<lparr>rt_createtime := 0\<rparr>)) (Some (ob_text b')) =
            (None, Some rtag_sample)"
  by (rule rtag_roundtrip [OF rtag_sample_valid])
     (simp_all add: rtag_wf_def rtag_sample_def status_ok_def)

text \<open>
  C7. The parser is memory safe on every text: if the arrays of the struct have the length that
  its stripe width says, no write leaves an array, and the arrays of the struct have the right
  length again afterwards, whether the call succeeds or fails and whichever allocations fail.
\<close>

theorem rtag_initstr_safe:
  assumes "rtag_wf r"
  shows "\<exists>e r2. rtag_initstr m (Some r) (Some s) = (e, Some r2) \<and> rtag_wf r2 \<and> e \<noteq> Some UB"
proof -
  obtain e r2 where er: "rtag_initstr m (Some r) (Some s) = (e, r2)" by fastforce
  from rtag_initstr_inv [OF assms er] er show ?thesis by blast
qed

theorem rtag_initstr_safe_witness:
  "\<exists>e r2. rtag_initstr (\<lambda>i. i = 0) (Some rtag_sample) (Some ''VER(0.001)TIME(5)STP(w'') =
            (e, Some r2) \<and> rtag_wf r2 \<and> e \<noteq> Some UB"
  using rtag_initstr_safe [OF rtag_sample_wf] .

text \<open>
  \<^verbatim>\<open>rtag_alloc\<close> and \<^verbatim>\<open>rtag_free\<close>: an allocated tag has two arrays of its stripe width; arrays
  that exist are kept, fresh ones are zeroed; when an allocation fails the tag is left without
  arrays and with width zero. In every case the arrays fit the width.
\<close>

theorem rtag_alloc_spec:
  assumes "rtag_wf r" and "rtag_alloc m (Some r) = (e, Some r2)"
  shows "rtag_wf r2 \<and>
    (e = None \<longrightarrow> rt_stripewidth r2 = rt_stripewidth r \<and>
       (\<exists>meta data. ns_meta_status (rt_stripestate r2) = Some meta \<and>
          ns_data_status (rt_stripestate r2) = Some data \<and>
          length meta = unat (rt_stripewidth r) \<and> length data = unat (rt_stripewidth r))) \<and>
    (e \<noteq> None \<longrightarrow> r2 = rtag_free r)"
  using assms
  by (auto simp: rtag_alloc_def rtag_free_def rtag_wf_def status_ok_def Let_def
      split: if_splits option.splits)

lemma replicate_2: "replicate 2 x = [x, x]"
  by (simp add: numeral_2_eq_2)

theorem rtag_alloc_spec_witness:
  "\<exists>r2. rtag_alloc all_mem (Some (rtag_zero\<lparr>rt_stripewidth := 2\<rparr>)) = (None, Some r2) \<and>
        rt_stripewidth r2 = 2 \<and> ns_data_status (rt_stripestate r2) = Some [0, 0]"
proof -
  let ?r = "rtag_zero\<lparr>rt_stripewidth := 2\<rparr>"
  have wf: "rtag_wf ?r" by (simp add: rtag_wf_def rtag_zero_def status_ok_def)
  obtain r2 where r2: "rtag_alloc all_mem (Some ?r) = (None, Some r2)"
    "ns_data_status (rt_stripestate r2) = Some [0, 0]"
    by (simp add: rtag_alloc_def rtag_zero_def rtag_free_def Let_def replicate_2)
  from rtag_alloc_spec [OF wf r2(1)] r2 show ?thesis by auto
qed

text \<open>
  \<^verbatim>\<open>rtag_dup\<close> makes an equal copy of every tag whose arrays fit and exist when the width is
  not zero; when memory is short the destination is left unchanged.
\<close>

theorem rtag_dup_spec:
  assumes "rtag_wf r" and "rt_stripewidth r \<noteq> 0"
    and "ns_meta_status (rt_stripestate r) \<noteq> None" "ns_data_status (rt_stripestate r) \<noteq> None"
  shows "rtag_dup m (Some r) (Some d) =
           (if m 0 \<and> m 1 then (None, Some r) else (Some ENOMEM, Some d))"
proof -
  obtain meta data where st: "ns_meta_status (rt_stripestate r) = Some meta"
    "ns_data_status (rt_stripestate r) = Some data" "length meta = unat (rt_stripewidth r)"
    "length data = unat (rt_stripewidth r)"
    using assms by (auto simp: rtag_wf_def status_ok_def)
  then have eq: "r\<lparr>rt_stripestate := (rt_stripestate r)\<lparr>ns_meta_status := Some meta,
      ns_data_status := Some data\<rparr>\<rparr> = r"
    by simp
  show ?thesis
    using st eq assms(2) by (simp add: rtag_dup_def copy_status_def Let_def unat_eq_0)
qed

theorem rtag_dup_spec_witness:
  "rtag_dup all_mem (Some rtag_sample) (Some rtag_zero) = (None, Some rtag_sample)"
  using rtag_dup_spec [OF rtag_sample_wf, of all_mem rtag_zero] by (simp add: rtag_sample_def)

end
