(* ===== verification/ThreadQueue.thy ===== *)
theory ThreadQueue
  imports Prelude
begin

text \<open>
  The thread queue (\<^verbatim>\<open>src/thread_queue/thread_queue.c\<close>): a bounded queue of work packages with a
  pool of producer threads, a pool of consumer threads and any number of master threads. This
  theory holds the queue, the functions that run with the queue lock held, the sections of the
  two thread bodies between two points where the lock is released, and the functions that a
  master calls. The theory \<^verbatim>\<open>TQThreads\<close> runs them as a system of threads.

  A section is a function from the queue to the queue. Signals on the condition variables are
  part of its result. A call that waits on a condition variable yields \<open>Block\<close>; it is called
  again when it wakes. The user's callbacks are parameters: a pause or resume callback is a
  function from the current package to its return value and the package it leaves behind.

  Unsigned 32-bit counters are natural numbers with the wrap-around written out. A package is an
  address, 0 is NULL.
\<close>

unbundle bit_operations_syntax

section \<open>Data\<close>

definition inc32 :: "nat \<Rightarrow> nat" where "inc32 n = (n + 1) mod 2 ^ 32"
definition dec32 :: "nat \<Rightarrow> nat" where "dec32 n = (n + 2 ^ 32 - 1) mod 2 ^ 32"
definition sub32 :: "nat \<Rightarrow> nat \<Rightarrow> nat" where "sub32 a b = (a + 2 ^ 32 - b) mod 2 ^ 32"

definition TQ_HALT :: u32 where "TQ_HALT = 1"
definition TQ_FINISHED :: u32 where "TQ_FINISHED = 2"
definition TQ_ABORT :: u32 where "TQ_ABORT = 4"

definition TQ_READY :: u32 where "TQ_READY = 1"
definition TQ_ERROR :: u32 where "TQ_ERROR = 2"
definition TQ_HALTED :: u32 where "TQ_HALTED = 4"

lemmas tq_flag_defs = TQ_HALT_def TQ_FINISHED_def TQ_ABORT_def TQ_READY_def TQ_ERROR_def TQ_HALTED_def

text \<open>\<open>has f g\<close>: the C test \<^verbatim>\<open>f & g\<close>.\<close>

definition has :: "u32 \<Rightarrow> u32 \<Rightarrow> bool" where
  "has f g \<longleftrightarrow> f AND g \<noteq> 0"

record pool =
  wp_start :: nat
  wp_num :: nat
  wp_act :: nat

datatype role = Producer | Consumer

record tq =
  tq_con_flags :: u32
  tq_state_flags :: "u32 list"
  tq_workpkg :: "nat list"
  tq_qdepth :: nat
  tq_max_qdepth :: nat
  tq_head :: nat
  tq_tail :: nat
  tq_uncoll_thrds :: nat
  tq_prod_pool :: "pool option"
  tq_cons_pool :: "pool option"

datatype cvar = State_resume | Consumer_resume | Producer_resume
datatype signal = Signal cvar | Broadcast cvar

text \<open>The queue's own flags.\<close>

definition cflag :: "tq \<Rightarrow> u32 \<Rightarrow> bool" where
  "cflag q f \<longleftrightarrow> has (tq_con_flags q) f"

definition pool_of :: "role \<Rightarrow> tq \<Rightarrow> pool option" where
  "pool_of r q = (case r of Producer \<Rightarrow> tq_prod_pool q | Consumer \<Rightarrow> tq_cons_pool q)"

definition upd_act :: "role \<Rightarrow> (nat \<Rightarrow> nat) \<Rightarrow> tq \<Rightarrow> tq" where
  "upd_act r f q =
     (case r of
        Producer \<Rightarrow> q\<lparr>tq_prod_pool := map_option (\<lambda>p. p\<lparr>wp_act := f (wp_act p)\<rparr>) (tq_prod_pool q)\<rparr>
      | Consumer \<Rightarrow> q\<lparr>tq_cons_pool := map_option (\<lambda>p. p\<lparr>wp_act := f (wp_act p)\<rparr>) (tq_cons_pool q)\<rparr>)"

definition set_state :: "nat \<Rightarrow> u32 \<Rightarrow> tq \<Rightarrow> tq" where
  "set_state i f q =
     q\<lparr>tq_state_flags := (tq_state_flags q)[i := (tq_state_flags q ! i) OR f]\<rparr>"

definition clear_state :: "nat \<Rightarrow> u32 \<Rightarrow> tq \<Rightarrow> tq" where
  "clear_state i f q =
     q\<lparr>tq_state_flags := (tq_state_flags q)[i := (tq_state_flags q ! i) AND NOT f]\<rparr>"

definition set_con :: "u32 \<Rightarrow> tq \<Rightarrow> tq" where
  "set_con f q = q\<lparr>tq_con_flags := tq_con_flags q OR f\<rparr>"

definition wake_all :: "signal list" where
  "wake_all = [Broadcast Producer_resume, Broadcast Consumer_resume, Broadcast State_resume]"

section \<open>The ring of packages\<close>

text \<open>The three statements that insert a package at the tail, and those that remove one.\<close>

definition ring_put :: "nat \<Rightarrow> tq \<Rightarrow> tq" where
  "ring_put w q =
     q\<lparr>tq_workpkg := (tq_workpkg q)[tq_tail q := w],
       tq_tail := (tq_tail q + 1) mod tq_max_qdepth q,
       tq_qdepth := inc32 (tq_qdepth q)\<rparr>"

definition ring_peek :: "tq \<Rightarrow> nat" where
  "ring_peek q = tq_workpkg q ! tq_head q"

definition ring_drop :: "tq \<Rightarrow> tq" where
  "ring_drop q =
     q\<lparr>tq_head := (tq_head q + 1) mod tq_max_qdepth q, tq_qdepth := dec32 (tq_qdepth q)\<rparr>"

text \<open>A consumer thread also clears the slot.\<close>

definition ring_take :: "tq \<Rightarrow> tq" where
  "ring_take q = ring_drop (q\<lparr>tq_workpkg := (tq_workpkg q)[tq_head q := 0]\<rparr>)"

text \<open>Whom to wake after an insertion and after a removal.\<close>

definition put_signals :: "tq \<Rightarrow> signal list" where
  "put_signals q =
     (case tq_cons_pool q of
        Some p \<Rightarrow>
          if wp_act p < tq_qdepth q \<and> wp_act p < wp_num p then [Signal Consumer_resume] else []
      | None \<Rightarrow> if tq_qdepth q = 1 then [Signal Consumer_resume] else [])"

definition take_signals :: "tq \<Rightarrow> signal list" where
  "take_signals q =
     (case tq_prod_pool q of
        Some p \<Rightarrow>
          if wp_act p < sub32 (tq_max_qdepth q) (tq_qdepth q) \<and> wp_act p < wp_num p
          then [Signal Producer_resume] else []
      | None \<Rightarrow>
          if tq_qdepth q = sub32 (tq_max_qdepth q) 1 then [Signal Producer_resume] else [])"

section \<open>Shared behaviour of the threads\<close>

text \<open>The loop over a pool: no READY flag means terminated.\<close>

fun none_ready :: "u32 list \<Rightarrow> nat \<Rightarrow> nat \<Rightarrow> bool" where
  "none_ready fs i 0 = True"
| "none_ready fs i (Suc n) = (if has (fs ! i) TQ_READY then False else none_ready fs (Suc i) n)"

definition tq_threads_terminated :: "tq \<Rightarrow> pool option \<Rightarrow> bool" where
  "tq_threads_terminated q p =
     (case p of None \<Rightarrow> True | Some wp \<Rightarrow> none_ready (tq_state_flags q) (wp_start wp) (wp_num wp))"

definition tq_signal :: "tq \<Rightarrow> u32 \<Rightarrow> tq \<times> signal list" where
  "tq_signal q sig =
     (set_con sig q,
      [Broadcast Consumer_resume, Broadcast Producer_resume, Broadcast State_resume])"

text \<open>Initialisation of a thread, given the result of its init callback; \<open>False\<close> is a failure.\<close>

definition general_thread_init_behavior :: "tq \<Rightarrow> nat \<Rightarrow> int \<Rightarrow> bool \<times> tq \<times> signal list" where
  "general_thread_init_behavior q i init_res =
     (if init_res \<noteq> 0
      then (False, set_con TQ_ABORT (set_state i TQ_ERROR q),
            [Broadcast Producer_resume, Broadcast Consumer_resume, Signal State_resume])
      else (True, set_state i TQ_READY q, [Signal State_resume]))"

text \<open>
  The behaviour in front of a wait and behind it; the first component is \<open>False\<close> when the callback
  asks to abort, the last one is the current package.
\<close>

definition general_thread_pause_behavior ::
  "tq \<Rightarrow> role \<Rightarrow> nat \<Rightarrow> (nat \<Rightarrow> int \<times> nat) \<Rightarrow> nat \<Rightarrow> bool \<times> tq \<times> signal list \<times> nat" where
  "general_thread_pause_behavior q r i pause w =
     (if cflag q TQ_HALT
      then
        (case pause w of (res, w2) \<Rightarrow>
           if res \<noteq> 0 then (False, set_state i TQ_ERROR (set_con TQ_ABORT q), wake_all, w2)
           else (True, upd_act r dec32 (set_state i TQ_HALTED q), [Broadcast State_resume], w2))
      else (True, upd_act r dec32 q, [], w))"

definition general_thread_resume_behavior ::
  "tq \<Rightarrow> role \<Rightarrow> nat \<Rightarrow> (nat \<Rightarrow> int \<times> nat) \<Rightarrow> nat \<Rightarrow> bool \<times> tq \<times> signal list \<times> nat" where
  "general_thread_resume_behavior q r i resume w =
     (let q1 = upd_act r inc32 q in
      if has (tq_state_flags q1 ! i) TQ_HALTED \<and> \<not> cflag q1 TQ_HALT
      then
        (let q2 = clear_state i TQ_HALTED q1 in
         case resume w of (res, w2) \<Rightarrow>
           if res \<noteq> 0 then (False, set_state i TQ_ERROR (set_con TQ_ABORT q2), wake_all, w2)
           else (True, q2, [], w2))
      else (True, q1, [], w))"

definition general_thread_post_work_behavior :: "tq \<Rightarrow> nat \<Rightarrow> int \<Rightarrow> tq \<times> signal list" where
  "general_thread_post_work_behavior q i work_res =
     (if work_res < 0 then (set_state i TQ_ERROR (set_con TQ_ABORT q), wake_all)
      else if work_res = 1 then
        (if cflag q TQ_ABORT then (q, []) else (set_con TQ_FINISHED q, wake_all))
      else if 1 < work_res then
        (if cflag q TQ_ABORT \<or> cflag q TQ_FINISHED then (q, []) else (set_con TQ_HALT q, wake_all))
      else (q, []))"

definition general_thread_term_behavior :: "tq \<Rightarrow> role \<Rightarrow> nat \<Rightarrow> tq \<times> signal list" where
  "general_thread_term_behavior q r i =
     (upd_act r dec32 (clear_state i TQ_READY q),
      Broadcast State_resume #
      (if tq_cons_pool q \<noteq> None \<and> r = Producer then [Broadcast Consumer_resume] else []))"

section \<open>The thread bodies\<close>

text \<open>
  Where a thread stands when it does not hold the lock: not initialised, waiting, in its work
  callback, exited after \<^verbatim>\<open>general_thread_term_behavior\<close>, exited after a failed initialisation.
  \<open>P_wait0\<close> is the wait of a producer in front of its first package.
\<close>

datatype tpc = T_new | C_wait | C_work | P_wait0 | P_wait | P_work | T_exit | T_failed

record thr =
  th_pc :: tpc
  th_work :: nat

definition thread_term :: "tq \<Rightarrow> role \<Rightarrow> nat \<Rightarrow> nat \<Rightarrow> tq \<times> thr \<times> signal list" where
  "thread_term q r i w =
     (case general_thread_term_behavior q r i of (q2, s) \<Rightarrow> (q2, \<lparr>th_pc = T_exit, th_work = w\<rparr>, s))"

definition consumer_waits :: "tq \<Rightarrow> bool" where
  "consumer_waits q \<longleftrightarrow>
     (tq_qdepth q = 0 \<or> cflag q TQ_HALT) \<and> \<not> cflag q TQ_ABORT \<and>
     \<not> (cflag q TQ_FINISHED \<and> tq_threads_terminated q (tq_prod_pool q))"

text \<open>
  Behind the holding pattern: quit, or take a package and release the lock. The sections of a
  thread presuppose that its pool exists, as it does for every thread that \<^verbatim>\<open>tq_init\<close> creates in its
  own loop; a consumer body on a queue without a consumer pool (\<^verbatim>\<open>wp\<close> is NULL) is not modelled.
\<close>

definition consumer_act :: "tq \<Rightarrow> nat \<Rightarrow> nat \<Rightarrow> tq \<times> thr \<times> signal list" where
  "consumer_act q i w =
     (if cflag q TQ_ABORT \<or>
         (tq_qdepth q = 0 \<and> cflag q TQ_FINISHED \<and> tq_threads_terminated q (tq_prod_pool q))
      then thread_term q Consumer i w
      else (let q2 = ring_take q in
            (q2, \<lparr>th_pc = C_work, th_work = ring_peek q\<rparr>, take_signals q2)))"

text \<open>The head of the main loop, with the lock held.\<close>

definition consumer_top :: "tq \<Rightarrow> nat \<Rightarrow> (nat \<Rightarrow> int \<times> nat) \<Rightarrow> nat \<Rightarrow> tq \<times> thr \<times> signal list" where
  "consumer_top q i pause w =
     (if consumer_waits q
      then
        (case general_thread_pause_behavior q Consumer i pause w of (ok, q2, s, w2) \<Rightarrow>
           if \<not> ok
           then (case consumer_act q2 i w2 of (q3, t, s3) \<Rightarrow> (q3, t, s @ s3))
           else (q2, \<lparr>th_pc = C_wait, th_work = w2\<rparr>,
                 s @ (if tq_qdepth q2 = 0 then [Broadcast Producer_resume] else [])))
      else consumer_act q i w)"

definition consumer_start ::
  "tq \<Rightarrow> nat \<Rightarrow> int \<Rightarrow> (nat \<Rightarrow> int \<times> nat) \<Rightarrow> tq \<times> thr \<times> signal list" where
  "consumer_start q i init_res pause =
     (case general_thread_init_behavior q i init_res of (ok, q2, s) \<Rightarrow>
        if \<not> ok then (q2, \<lparr>th_pc = T_failed, th_work = 0\<rparr>, s)
        else (case consumer_top q2 i pause 0 of (q3, t, s3) \<Rightarrow> (q3, t, s @ s3)))"

definition consumer_wake ::
  "tq \<Rightarrow> nat \<Rightarrow> (nat \<Rightarrow> int \<times> nat) \<Rightarrow> (nat \<Rightarrow> int \<times> nat) \<Rightarrow> nat \<Rightarrow> tq \<times> thr \<times> signal list" where
  "consumer_wake q i resume pause w =
     (case general_thread_resume_behavior q Consumer i resume w of (ok, q2, s, w2) \<Rightarrow>
        case (if ok then consumer_top q2 i pause w2 else consumer_act q2 i w2) of (q3, t, s3) \<Rightarrow>
          (q3, t, s @ s3))"

text \<open>After the work callback the package is forgotten.\<close>

definition consumer_worked ::
  "tq \<Rightarrow> nat \<Rightarrow> int \<Rightarrow> (nat \<Rightarrow> int \<times> nat) \<Rightarrow> tq \<times> thr \<times> signal list" where
  "consumer_worked q i work_res pause =
     (case general_thread_post_work_behavior q i work_res of (q2, s) \<Rightarrow>
      case consumer_top q2 i pause 0 of (q3, t, s3) \<Rightarrow> (q3, t, s @ s3))"

definition producer_waits0 :: "tq \<Rightarrow> bool" where
  "producer_waits0 q \<longleftrightarrow> cflag q TQ_HALT \<and> \<not> (cflag q TQ_ABORT \<or> cflag q TQ_FINISHED)"

definition producer_waits :: "tq \<Rightarrow> bool" where
  "producer_waits q \<longleftrightarrow>
     (tq_qdepth q = tq_max_qdepth q \<or> (cflag q TQ_HALT \<and> \<not> cflag q TQ_FINISHED)) \<and>
     \<not> cflag q TQ_ABORT"

text \<open>Behind the holding pattern: quit, store the package, quit or release the lock.\<close>

definition producer_act :: "tq \<Rightarrow> nat \<Rightarrow> nat \<Rightarrow> tq \<times> thr \<times> signal list" where
  "producer_act q i w =
     (if cflag q TQ_ABORT then thread_term q Producer i w
      else
        (let q2 = (if w \<noteq> 0 then ring_put w q else q);
             s = (if w \<noteq> 0 then put_signals q2 else [])
         in if cflag q2 TQ_FINISHED
            then (case thread_term q2 Producer i 0 of (q3, t, s3) \<Rightarrow> (q3, t, s @ s3))
            else (q2, \<lparr>th_pc = P_work, th_work = 0\<rparr>, s)))"

definition producer_top :: "tq \<Rightarrow> nat \<Rightarrow> (nat \<Rightarrow> int \<times> nat) \<Rightarrow> nat \<Rightarrow> tq \<times> thr \<times> signal list" where
  "producer_top q i pause w =
     (if producer_waits q
      then
        (case general_thread_pause_behavior q Producer i pause w of (ok, q2, s, w2) \<Rightarrow>
           if \<not> ok
           then (case producer_act q2 i w2 of (q3, t, s3) \<Rightarrow> (q3, t, s @ s3))
           else (q2, \<lparr>th_pc = P_wait, th_work = w2\<rparr>,
                 s @ (if tq_qdepth q2 = tq_max_qdepth q2 then [Broadcast Consumer_resume] else [])))
      else producer_act q i w)"

text \<open>The check for HALT in front of the first package; then the lock is released.\<close>

definition producer_top0 :: "tq \<Rightarrow> nat \<Rightarrow> (nat \<Rightarrow> int \<times> nat) \<Rightarrow> nat \<Rightarrow> tq \<times> thr \<times> signal list" where
  "producer_top0 q i pause w =
     (if producer_waits0 q
      then
        (case general_thread_pause_behavior q Producer i pause w of (ok, q2, s, w2) \<Rightarrow>
           (q2, \<lparr>th_pc = (if ok then P_wait0 else P_work), th_work = w2\<rparr>, s))
      else (q, \<lparr>th_pc = P_work, th_work = w\<rparr>, []))"

definition producer_start ::
  "tq \<Rightarrow> nat \<Rightarrow> int \<Rightarrow> (nat \<Rightarrow> int \<times> nat) \<Rightarrow> tq \<times> thr \<times> signal list" where
  "producer_start q i init_res pause =
     (case general_thread_init_behavior q i init_res of (ok, q2, s) \<Rightarrow>
        if \<not> ok then (q2, \<lparr>th_pc = T_failed, th_work = 0\<rparr>, s)
        else (case producer_top0 q2 i pause 0 of (q3, t, s3) \<Rightarrow> (q3, t, s @ s3)))"

definition producer_wake0 ::
  "tq \<Rightarrow> nat \<Rightarrow> (nat \<Rightarrow> int \<times> nat) \<Rightarrow> (nat \<Rightarrow> int \<times> nat) \<Rightarrow> nat \<Rightarrow> tq \<times> thr \<times> signal list" where
  "producer_wake0 q i resume pause w =
     (case general_thread_resume_behavior q Producer i resume w of (ok, q2, s, w2) \<Rightarrow>
        if \<not> ok then (q2, \<lparr>th_pc = P_work, th_work = w2\<rparr>, s)
        else (case producer_top0 q2 i pause w2 of (q3, t, s3) \<Rightarrow> (q3, t, s @ s3)))"

definition producer_wake ::
  "tq \<Rightarrow> nat \<Rightarrow> (nat \<Rightarrow> int \<times> nat) \<Rightarrow> (nat \<Rightarrow> int \<times> nat) \<Rightarrow> nat \<Rightarrow> tq \<times> thr \<times> signal list" where
  "producer_wake q i resume pause w =
     (case general_thread_resume_behavior q Producer i resume w of (ok, q2, s, w2) \<Rightarrow>
        case (if ok then producer_top q2 i pause w2 else producer_act q2 i w2) of (q3, t, s3) \<Rightarrow>
          (q3, t, s @ s3))"

definition producer_worked ::
  "tq \<Rightarrow> nat \<Rightarrow> int \<Rightarrow> (nat \<Rightarrow> int \<times> nat) \<Rightarrow> nat \<Rightarrow> tq \<times> thr \<times> signal list" where
  "producer_worked q i work_res pause w =
     (case general_thread_post_work_behavior q i work_res of (q2, s) \<Rightarrow>
      case producer_top q2 i pause w of (q3, t, s3) \<Rightarrow> (q3, t, s @ s3))"

section \<open>The functions of a master\<close>

text \<open>
  \<open>Block s\<close>: the call sent the signals and waits on a condition variable. \<open>Ret r q s\<close>: it returned
  \<open>r\<close> and left the queue \<open>q\<close>.
\<close>

datatype 'r tqres = Block "signal list" | Ret 'r tq "signal list"

text \<open>
  The calls that wait for one thread after the other leave the queue as it is: \<open>Wait i\<close> says that the
  call waits for thread \<open>i\<close>; when it wakes it goes on with that thread. \<open>Done r\<close>: it returned \<open>r\<close>.
\<close>

datatype tqwait = Wait nat | Done int

subsection \<open>Creation\<close>

record tq_opts =
  op_init_flags :: u32
  op_max_qdepth :: nat
  op_num_threads :: nat
  op_num_prod_threads :: nat
  op_has_consumer :: bool
  op_has_producer :: bool

text \<open>The checks of the options; \<open>has_consumer\<close> says that the consumer function is not NULL.\<close>

definition tq_opts_abort :: "tq_opts \<Rightarrow> bool" where
  "tq_opts_abort ops \<longleftrightarrow>
     op_max_qdepth ops = 0 \<or>
     op_num_threads ops < op_num_prod_threads ops \<or>
     (\<not> op_num_threads ops < op_num_prod_threads ops \<and> op_num_threads ops = 0) \<or>
     (\<not> op_has_producer ops \<and> (0 < op_num_prod_threads ops \<or> \<not> op_has_consumer ops)) \<or>
     (op_has_producer ops \<and> \<not> op_has_consumer ops \<and> op_num_prod_threads ops < op_num_threads ops)"

definition tq_fresh :: "tq_opts \<Rightarrow> tq" where
  "tq_fresh ops =
     \<lparr>tq_con_flags = op_init_flags ops,
      tq_state_flags = replicate (op_num_threads ops) 0,
      tq_workpkg = replicate (op_max_qdepth ops) 0,
      tq_qdepth = 0, tq_max_qdepth = op_max_qdepth ops, tq_head = 0, tq_tail = 0,
      tq_uncoll_thrds = 0,
      tq_prod_pool =
        (if 0 < op_num_prod_threads ops
         then Some \<lparr>wp_start = 0, wp_num = op_num_prod_threads ops, wp_act = op_num_prod_threads ops\<rparr>
         else None),
      tq_cons_pool =
        (if op_num_prod_threads ops < op_num_threads ops
         then Some \<lparr>wp_start = op_num_prod_threads ops,
                    wp_num = op_num_threads ops - op_num_prod_threads ops,
                    wp_act = op_num_threads ops - op_num_prod_threads ops\<rparr>
         else None)\<rparr>"

text \<open>
  The two loops that create the threads. \<open>create k\<close> says whether the \<open>k\<close>-th call of
  \<^verbatim>\<open>pthread_create\<close> succeeds. The result lists the bodies that were started, with their thread
  ids, and the value of \<open>tID\<close> behind the loop.
\<close>

function create_loop ::
  "(nat \<Rightarrow> bool) \<Rightarrow> role \<Rightarrow> nat \<Rightarrow> nat \<Rightarrow> nat \<Rightarrow> (role \<times> nat) list \<Rightarrow> nat \<times> nat \<times> (role \<times> nat) list" where
  "create_loop create r bound k tID started =
     (if \<not> tID < bound then (k, tID, started)
      else if \<not> create k then (Suc k, tID, started)
      else create_loop create r bound (Suc k) (Suc tID) (started @ [(r, tID)]))"
  by pat_completeness auto
termination
  by (relation "measure (\<lambda>(create, r, bound, k, tID, started). bound - tID)") auto

declare create_loop.simps [simp del]

text \<open>
  \<^verbatim>\<open>tq_init\<close>: \<open>Inl\<close> for NULL, otherwise the queue and the threads that run. The threads created
  before a failure are aborted and joined.
\<close>

definition tq_init :: "(nat \<Rightarrow> bool) \<Rightarrow> tq_opts \<Rightarrow> c_error + tq \<times> (role \<times> nat) list" where
  "tq_init create ops =
     (if tq_opts_abort ops then Inl EFail
      else
        (case create_loop create Producer (op_num_prod_threads ops) 0 0 [] of (k, tID, started) \<Rightarrow>
         case create_loop create Consumer (op_num_threads ops) k tID started of (k2, tID2, started2) \<Rightarrow>
           if tID2 \<noteq> op_num_threads ops then Inl EFail
           else Inr ((tq_fresh ops)\<lparr>tq_uncoll_thrds := length started2\<rparr>, started2)))"

text \<open>
  \<^verbatim>\<open>tq_check_init\<close>: the loop over the threads from thread \<open>i\<close> on; the call starts with thread 0. It
  waits for a thread that is neither ready nor failed.
\<close>

definition num_thrds :: "tq \<Rightarrow> nat" where
  "num_thrds q =
     (case tq_cons_pool q of None \<Rightarrow> 0 | Some p \<Rightarrow> wp_num p) +
     (case tq_prod_pool q of None \<Rightarrow> 0 | Some p \<Rightarrow> wp_num p)"

function tq_check_init :: "tq \<Rightarrow> nat \<Rightarrow> tqwait" where
  "tq_check_init q i =
     (if \<not> i < num_thrds q then Done 0
      else if \<not> has (tq_state_flags q ! i) (TQ_READY OR TQ_ERROR) then Wait i
      else if has (tq_state_flags q ! i) TQ_ERROR then Done (- 1)
      else tq_check_init q (Suc i))"
  by pat_completeness auto
termination
  by (relation "measure (\<lambda>(q, i). num_thrds q - i)") auto

declare tq_check_init.simps [simp del]

definition tq_get_opts :: "tq option \<Rightarrow> bool \<Rightarrow> c_error + tq_opts" where
  "tq_get_opts qo oref =
     (if \<not> oref then Inl EFail
      else
        (case qo of
           None \<Rightarrow> Inl EFail
         | Some q \<Rightarrow>
             Inr \<lparr>op_init_flags = 0, op_max_qdepth = tq_max_qdepth q, op_num_threads = num_thrds q,
                  op_num_prod_threads = (case tq_prod_pool q of None \<Rightarrow> 0 | Some p \<Rightarrow> wp_num p),
                  op_has_consumer = (tq_cons_pool q \<noteq> None),
                  op_has_producer = (tq_prod_pool q \<noteq> None)\<rparr>))"

subsection \<open>Packages\<close>

definition tq_enqueue :: "tq \<Rightarrow> u32 \<Rightarrow> nat \<Rightarrow> int tqres" where
  "tq_enqueue q ign w =
     (if tq_qdepth q = tq_max_qdepth q \<and> \<not> has (tq_con_flags q) (NOT ign)
      then Block [Broadcast Consumer_resume]
      else if has (tq_con_flags q) (NOT ign) then Ret (- 1) q []
      else (let q2 = ring_put w q in Ret 0 q2 (put_signals q2)))"

text \<open>\<^verbatim>\<open>tq_dequeue\<close>: the return value and the package stored through the reference.\<close>

definition tq_dequeue :: "tq \<Rightarrow> u32 \<Rightarrow> (int \<times> nat option) tqres" where
  "tq_dequeue q ign0 =
     (let ign = ign0 OR TQ_FINISHED in
      if tq_qdepth q = 0 \<and> tq_con_flags q = 0 then Block [Broadcast Producer_resume]
      else if has (tq_con_flags q) (NOT ign) then Ret (- 1, None) q []
      else if tq_qdepth q = 0 then Ret (0, Some 0) q []
      else
        (let q2 = ring_drop q in
         Ret (int (tq_qdepth q), Some (ring_peek q)) q2
           (if tq_con_flags q2 = 0 then take_signals q2 else [])))"

definition tq_depth :: "tq \<Rightarrow> int" where
  "tq_depth q = int (tq_qdepth q)"

subsection \<open>Flags\<close>

definition tq_set_flags :: "tq \<Rightarrow> u32 \<Rightarrow> int tqres" where
  "tq_set_flags q f = Ret 0 (set_con f q) wake_all"

definition tq_unset_flags :: "tq \<Rightarrow> u32 \<Rightarrow> int tqres" where
  "tq_unset_flags q f = Ret 0 (q\<lparr>tq_con_flags := tq_con_flags q AND NOT f\<rparr>) wake_all"

definition tq_get_flags :: "tq \<Rightarrow> int \<times> u32" where
  "tq_get_flags q = (0, tq_con_flags q)"

definition tq_wait_for_flags :: "tq \<Rightarrow> u32 \<Rightarrow> (int \<times> u32) tqres" where
  "tq_wait_for_flags q ign =
     (if ign = (TQ_FINISHED OR TQ_ABORT OR TQ_HALT) then Ret (- 1, 0) q []
      else if \<not> has (tq_con_flags q) (NOT ign) then Block []
      else Ret (0, tq_con_flags q) q [])"

subsection \<open>Waiting for the threads\<close>

text \<open>
  The loops of \<^verbatim>\<open>tq_wait_for_pause\<close> over the producers, then over the consumers: thread ids from
  \<open>i\<close> up to the number of threads. A call that waited for thread \<open>i\<close> goes on there.
\<close>

function wait_pause_loop :: "tq \<Rightarrow> nat \<Rightarrow> tqwait" where
  "wait_pause_loop q i =
     (if \<not> i < num_thrds q then Done 0
      else if \<not> has (tq_state_flags q ! i) TQ_HALTED \<and> \<not> cflag q (TQ_FINISHED OR TQ_ABORT) \<and>
              cflag q TQ_HALT then Wait i
      else if \<not> cflag q TQ_HALT then Done (- 1)
      else if cflag q (TQ_FINISHED OR TQ_ABORT) then Done (- 1)
      else wait_pause_loop q (Suc i))"
  by pat_completeness auto
termination
  by (relation "measure (\<lambda>(q, i). num_thrds q - i)") auto

declare wait_pause_loop.simps [simp del]

definition tq_wait_for_pause :: "tq \<Rightarrow> tqwait" where
  "tq_wait_for_pause q =
     (if \<not> cflag q TQ_HALT then Done (- 1)
      else if cflag q (TQ_FINISHED OR TQ_ABORT) then Done (- 1)
      else wait_pause_loop q 0)"

text \<open>
  The loops of \<^verbatim>\<open>tq_wait_for_completion\<close>; only the loop over the producers checks for a deadlock.
\<close>

function wait_completion_loop :: "tq \<Rightarrow> nat \<Rightarrow> tqwait" where
  "wait_completion_loop q i =
     (if \<not> i < num_thrds q then Done 0
      else if has (tq_state_flags q ! i) TQ_READY \<and> \<not> cflag q TQ_ABORT \<and> cflag q TQ_FINISHED
      then (if (case tq_prod_pool q of None \<Rightarrow> False | Some p \<Rightarrow> i < wp_num p) \<and>
               tq_cons_pool q = None \<and> tq_qdepth q \<noteq> 0
            then Done 1 else Wait i)
      else if \<not> cflag q TQ_FINISHED then Done (- 1)
      else if cflag q TQ_ABORT then Done (- 1)
      else wait_completion_loop q (Suc i))"
  by pat_completeness auto
termination
  by (relation "measure (\<lambda>(q, i). num_thrds q - i)") auto

declare wait_completion_loop.simps [simp del]

definition tq_wait_for_completion :: "tq \<Rightarrow> tqwait" where
  "tq_wait_for_completion q =
     (if \<not> cflag q TQ_FINISHED then Done (- 1)
      else if cflag q TQ_ABORT then Done (- 1)
      else wait_completion_loop q 0)"

text \<open>
  \<^verbatim>\<open>tq_next_thread_status\<close>: the number of uncollected threads and, when one was collected, its id.
  \<open>join\<close> is the success of \<^verbatim>\<open>pthread_join\<close>. One master at a time collects the threads.
\<close>

definition tq_next_thread_status :: "bool \<Rightarrow> tq \<Rightarrow> (int \<times> nat option) tqres" where
  "tq_next_thread_status join q =
     (if \<not> cflag q (TQ_FINISHED OR TQ_ABORT) then Ret (- 1, None) q []
      else if 0 < tq_uncoll_thrds q then
        (let i = sub32 (num_thrds q) (tq_uncoll_thrds q) in
         if has (tq_state_flags q ! i) TQ_READY then Block []
         else if \<not> join then Ret (- 1, None) q []
         else Ret (int (tq_uncoll_thrds q), Some i)
                (q\<lparr>tq_uncoll_thrds := dec32 (tq_uncoll_thrds q)\<rparr>) [])
      else Ret (int (tq_uncoll_thrds q), None) q [])"

text \<open>\<^verbatim>\<open>tq_close\<close>: \<open>None\<close> when the queue was freed.\<close>

definition tq_close :: "tq \<Rightarrow> int \<times> tq option" where
  "tq_close q =
     (if \<not> cflag q (TQ_FINISHED OR TQ_ABORT) \<or> tq_uncoll_thrds q \<noteq> 0 then (- 1, Some q)
      else if tq_qdepth q \<noteq> 0 then (int (tq_qdepth q), Some q)
      else (0, None))"

section \<open>Flags\<close>

lemma has_or [simp]: "has (f OR g) h \<longleftrightarrow> has f h \<or> has g h"
proof -
  have "(f OR g) AND h = (f AND h) OR (g AND h)"
    by (simp add: bit.conj_disj_distrib2)
  then show ?thesis by (simp add: has_def or_eq_0_iff)
qed

lemma has_mask [simp]: "has f (g OR h) \<longleftrightarrow> has f g \<or> has f h"
  using has_or [of g h f] by (simp add: has_def and.commute)

lemma has_zero [simp]: "\<not> has 0 f"
  by (simp add: has_def)

lemma has_flags [simp]:
  "has TQ_HALT TQ_HALT" "has TQ_FINISHED TQ_FINISHED" "has TQ_ABORT TQ_ABORT"
  "\<not> has TQ_HALT TQ_FINISHED" "\<not> has TQ_HALT TQ_ABORT" "\<not> has TQ_FINISHED TQ_HALT"
  "\<not> has TQ_FINISHED TQ_ABORT" "\<not> has TQ_ABORT TQ_HALT" "\<not> has TQ_ABORT TQ_FINISHED"
  "has TQ_READY TQ_READY" "has TQ_ERROR TQ_ERROR" "has TQ_HALTED TQ_HALTED"
  "\<not> has TQ_READY TQ_ERROR" "\<not> has TQ_READY TQ_HALTED" "\<not> has TQ_ERROR TQ_READY"
  "\<not> has TQ_ERROR TQ_HALTED" "\<not> has TQ_HALTED TQ_READY" "\<not> has TQ_HALTED TQ_ERROR"
  by (simp_all add: has_def tq_flag_defs)

text \<open>Clearing a single flag of a thread.\<close>

lemma has_clear [simp]:
  "has (f AND NOT TQ_READY) TQ_READY \<longleftrightarrow> False"
  "has (f AND NOT TQ_HALTED) TQ_READY \<longleftrightarrow> has f TQ_READY"
  "has (f AND NOT TQ_HALTED) TQ_HALTED \<longleftrightarrow> False"
  "has (f AND NOT TQ_READY) TQ_HALTED \<longleftrightarrow> has f TQ_HALTED"
proof -
  have n: "NOT TQ_READY AND TQ_READY = 0" "NOT TQ_HALTED AND TQ_READY = TQ_READY"
    "NOT TQ_HALTED AND TQ_HALTED = 0" "NOT TQ_READY AND TQ_HALTED = TQ_HALTED"
    by (simp_all add: tq_flag_defs)
  show "has (f AND NOT TQ_READY) TQ_READY \<longleftrightarrow> False" "has (f AND NOT TQ_HALTED) TQ_READY \<longleftrightarrow> has f TQ_READY"
    "has (f AND NOT TQ_HALTED) TQ_HALTED \<longleftrightarrow> False" "has (f AND NOT TQ_READY) TQ_HALTED \<longleftrightarrow> has f TQ_HALTED"
    unfolding has_def and.assoc n by simp_all
qed

section \<open>The ring as a queue\<close>

text \<open>The contract of a bounded first-in first-out queue.\<close>

locale bounded_fifo =
  fixes inv :: "'q \<Rightarrow> bool"
    and items :: "'q \<Rightarrow> 'a list"
    and cap :: "'q \<Rightarrow> nat"
    and put :: "'a \<Rightarrow> 'q \<Rightarrow> 'q"
    and front :: "'q \<Rightarrow> 'a"
    and remove :: "'q \<Rightarrow> 'q"
  assumes bounded: "inv q \<Longrightarrow> length (items q) \<le> cap q"
    and put_inv: "inv q \<Longrightarrow> length (items q) < cap q \<Longrightarrow> inv (put x q)"
    and put_items: "inv q \<Longrightarrow> length (items q) < cap q \<Longrightarrow> items (put x q) = items q @ [x]"
    and put_cap: "inv q \<Longrightarrow> length (items q) < cap q \<Longrightarrow> cap (put x q) = cap q"
    and front_items: "inv q \<Longrightarrow> items q \<noteq> [] \<Longrightarrow> front q = hd (items q)"
    and remove_inv: "inv q \<Longrightarrow> items q \<noteq> [] \<Longrightarrow> inv (remove q)"
    and remove_items: "inv q \<Longrightarrow> items q \<noteq> [] \<Longrightarrow> items (remove q) = tl (items q)"
    and remove_cap: "inv q \<Longrightarrow> items q \<noteq> [] \<Longrightarrow> cap (remove q) = cap q"
begin

lemma take_items: "inv q \<Longrightarrow> items q \<noteq> [] \<Longrightarrow> items q = front q # items (remove q)"
  by (simp add: front_items remove_items)

lemma room_after_remove:
  "inv q \<Longrightarrow> items q \<noteq> [] \<Longrightarrow> length (items (remove q)) < cap (remove q)"
  using bounded [of q] by (cases "items q") (auto simp: remove_items remove_cap)

text \<open>A queue that is filled and emptied again yields the packages in their order.\<close>

lemma put_all:
  "inv q \<Longrightarrow> length (items q) + length xs \<le> cap q \<Longrightarrow>
   inv (fold put xs q) \<and> items (fold put xs q) = items q @ xs"
proof (induction xs arbitrary: q)
  case (Cons x xs)
  then have r: "length (items q) < cap q" by simp
  then have "inv (put x q)" "items (put x q) = items q @ [x]" "cap (put x q) = cap q"
    using Cons.prems by (simp_all add: put_inv put_items put_cap)
  with Cons.IH [of "put x q"] Cons.prems show ?case by simp
qed simp

lemma remove_n:
  "inv q \<Longrightarrow> n \<le> length (items q) \<Longrightarrow>
   inv ((remove ^^ n) q) \<and> items ((remove ^^ n) q) = drop n (items q)"
proof (induction n arbitrary: q)
  case (Suc n)
  then have ne: "items q \<noteq> []" by auto
  have "inv (remove q)" "items (remove q) = tl (items q)"
    using Suc.prems ne by (simp_all add: remove_inv remove_items)
  with Suc.IH [of "remove q"] Suc.prems show ?case
    by (simp add: funpow_Suc_right drop_Suc del: funpow.simps)
qed simp

end

text \<open>The ring: the array has the maximal depth, the tail is the depth behind the head.\<close>

definition tq_inv :: "tq \<Rightarrow> bool" where
  "tq_inv q \<longleftrightarrow>
     0 < tq_max_qdepth q \<and> tq_max_qdepth q < 2 ^ 31 \<and> length (tq_workpkg q) = tq_max_qdepth q \<and>
     tq_qdepth q \<le> tq_max_qdepth q \<and> tq_head q < tq_max_qdepth q \<and>
     tq_tail q = (tq_head q + tq_qdepth q) mod tq_max_qdepth q"

definition tq_items :: "tq \<Rightarrow> nat list" where
  "tq_items q =
     map (\<lambda>k. tq_workpkg q ! ((tq_head q + k) mod tq_max_qdepth q)) [0..<tq_qdepth q]"

lemma length_tq_items [simp]: "length (tq_items q) = tq_qdepth q"
  by (simp add: tq_items_def)

lemma tq_items_Nil [simp]: "tq_items q = [] \<longleftrightarrow> tq_qdepth q = 0" "[] = tq_items q \<longleftrightarrow> tq_qdepth q = 0"
  by (auto simp: tq_items_def)

lemma inc32_small: "n < 2 ^ 31 \<Longrightarrow> inc32 n = Suc n"
  by (simp add: inc32_def)

lemma dec32_pos: "0 < n \<Longrightarrow> n < 2 ^ 32 \<Longrightarrow> dec32 n = n - 1"
  by (cases n) (simp_all add: dec32_def)

lemma mod_add_inj:
  fixes k j m :: nat
  assumes "k < m" "j < m" "(h + k) mod m = (h + j) mod m"
  shows "k = j"
proof -
  have "(h + k) mod m = (h + j) mod m \<Longrightarrow> k \<le> j \<Longrightarrow> k = j" if "k < m" "j < m" for k j
  proof -
    assume e: "(h + k) mod m = (h + j) mod m" and l: "k \<le> j"
    then have "m dvd (h + j) - (h + k)" by (metis mod_eq_dvd_iff_nat nat_add_left_cancel_le)
    then have "m dvd j - k" by simp
    with that l show "k = j" by (metis diff_is_0_eq' dvd_imp_le le_antisym less_imp_diff_less not_less zero_less_diff)
  qed
  with assms show ?thesis by (metis nat_le_linear)
qed

lemma ring_put_inv:
  assumes "tq_inv q" "tq_qdepth q < tq_max_qdepth q"
  shows "tq_inv (ring_put w q)"
  using assms inc32_small [of "tq_qdepth q"]
  by (auto simp: tq_inv_def ring_put_def mod_simps)

lemma ring_put_items:
  assumes "tq_inv q" "tq_qdepth q < tq_max_qdepth q"
  shows "tq_items (ring_put w q) = tq_items q @ [w]"
proof -
  let ?m = "tq_max_qdepth q" and ?h = "tq_head q" and ?d = "tq_qdepth q"
  have inc: "inc32 ?d = Suc ?d" using assms by (intro inc32_small) (auto simp: tq_inv_def)
  have t: "tq_tail q = (?h + ?d) mod ?m" "tq_tail q < length (tq_workpkg q)"
    using assms by (auto simp: tq_inv_def)
  have "(tq_workpkg q)[tq_tail q := w] ! ((?h + k) mod ?m) = tq_workpkg q ! ((?h + k) mod ?m)"
    if "k < ?d" for k
    using mod_add_inj [of k ?m ?d ?h] that assms t by (auto simp: nth_list_update)
  then show ?thesis
    using t by (simp add: tq_items_def ring_put_def inc)
qed

lemma ring_drop_inv:
  assumes "tq_inv q" "tq_qdepth q \<noteq> 0"
  shows "tq_inv (ring_drop q)"
proof -
  have "dec32 (tq_qdepth q) = tq_qdepth q - 1"
    using assms by (intro dec32_pos) (auto simp: tq_inv_def)
  moreover obtain e where "tq_qdepth q = Suc e" using assms(2) by (cases "tq_qdepth q") auto
  ultimately show ?thesis
    using assms by (auto simp: tq_inv_def ring_drop_def mod_simps)
qed

lemma ring_drop_items:
  assumes "tq_inv q" "tq_qdepth q \<noteq> 0"
  shows "tq_items (ring_drop q) = tl (tq_items q)" "ring_peek q = hd (tq_items q)"
proof -
  let ?m = "tq_max_qdepth q" and ?h = "tq_head q" and ?d = "tq_qdepth q"
  have dec: "dec32 ?d = ?d - 1"
    using assms by (intro dec32_pos) (auto simp: tq_inv_def)
  have up: "[0..<?d] = 0 # map Suc [0..<?d - 1]"
    using assms(2) by (cases ?d) (simp_all add: map_Suc_upt upt_conv_Cons del: upt_Suc)
  show "tq_items (ring_drop q) = tl (tq_items q)"
    unfolding tq_items_def up by (simp add: ring_drop_def dec mod_simps)
  show "ring_peek q = hd (tq_items q)"
    using assms unfolding tq_items_def up by (simp add: ring_peek_def tq_inv_def)
qed

lemma ring_cap [simp]:
  "tq_max_qdepth (ring_put w q) = tq_max_qdepth q" "tq_max_qdepth (ring_drop q) = tq_max_qdepth q"
  by (simp_all add: ring_put_def ring_drop_def)

lemma tq_inv_depth: "tq_inv q \<Longrightarrow> tq_qdepth q \<le> tq_max_qdepth q"
  by (simp add: tq_inv_def)

interpretation ring: bounded_fifo tq_inv tq_items tq_max_qdepth ring_put ring_peek ring_drop
  by unfold_locales
     (simp_all add: ring_put_inv ring_put_items ring_drop_inv ring_drop_items tq_inv_depth)

text \<open>Clearing the slot of the removed package does not change the others.\<close>

lemma ring_take_inv:
  assumes "tq_inv q" "tq_qdepth q \<noteq> 0"
  shows "tq_inv (ring_take q)" "tq_items (ring_take q) = tl (tq_items q)"
proof -
  let ?q = "q\<lparr>tq_workpkg := (tq_workpkg q)[tq_head q := 0]\<rparr>"
  let ?m = "tq_max_qdepth q" and ?h = "tq_head q" and ?d = "tq_qdepth q"
  have i: "tq_inv ?q" using assms by (simp add: tq_inv_def)
  then show "tq_inv (ring_take q)" using assms ring_drop_inv [of ?q] by (simp add: ring_take_def)
  have up: "[0..<?d] = 0 # map Suc [0..<?d - 1]"
    using assms(2) by (cases ?d) (simp_all add: map_Suc_upt upt_conv_Cons del: upt_Suc)
  have h: "?h = (?h + 0) mod ?m" "?d \<le> ?m" using assms by (simp_all add: tq_inv_def)
  have "?h \<noteq> (?h + Suc k) mod ?m" if "k < ?d - 1" for k
  proof -
    have "Suc k < ?m" using h(2) that by linarith
    with mod_add_inj [of "Suc k" ?m 0 ?h] h(1) show ?thesis by auto
  qed
  then have "tl (tq_items ?q) = tl (tq_items q)"
    by (auto simp: tq_items_def up comp_def intro!: nth_list_update_neq)
  then show "tq_items (ring_take q) = tl (tq_items q)"
    using ring_drop_items(1) [OF i] assms by (simp add: ring_take_def)
qed

section \<open>The masters and the ring\<close>

text \<open>
  \<^verbatim>\<open>tq_enqueue\<close> on every branch: a flag that is not ignored fails the call and leaves the queue,
  a full queue blocks, otherwise the package is appended behind the others and a consumer is woken
  only if one is idle.\<close>

theorem tq_enqueue_spec:
  "tq_inv q \<Longrightarrow>
   (case tq_enqueue q ign w of
      Ret r q' sg \<Rightarrow>
        if has (tq_con_flags q) (NOT ign) then r = - 1 \<and> q' = q
        else r = 0 \<and> length (tq_items q) < tq_max_qdepth q \<and> tq_inv q' \<and>
             tq_items q' = tq_items q @ [w] \<and> tq_con_flags q' = tq_con_flags q
    | Block sg \<Rightarrow>
        \<not> has (tq_con_flags q) (NOT ign) \<and> length (tq_items q) = tq_max_qdepth q)"
proof -
  assume i: "tq_inv q"
  have c: "tq_con_flags (ring_put w q) = tq_con_flags q" by (simp add: ring_put_def)
  show ?thesis
  proof (cases "has (tq_con_flags q) (NOT ign)")
    case True
    then show ?thesis by (simp add: tq_enqueue_def)
  next
    case False
    then show ?thesis
      using tq_inv_depth [OF i] ring.put_inv [OF i] ring.put_items [OF i] c
      by (simp add: tq_enqueue_def Let_def)
  qed
qed

definition ring_example :: tq where
  "ring_example =
     \<lparr>tq_con_flags = 0, tq_state_flags = [], tq_workpkg = [8, 0, 7], tq_qdepth = 2, tq_max_qdepth = 3,
      tq_head = 2, tq_tail = 1, tq_uncoll_thrds = 0, tq_prod_pool = None, tq_cons_pool = None\<rparr>"

lemma ring_example_inv: "tq_inv ring_example" "tq_items ring_example = [7, 8]"
proof -
  show "tq_inv ring_example" by (simp add: ring_example_def tq_inv_def)
  have "[0..<2] = [0, 1 :: nat]" by (simp add: numeral_2_eq_2)
  then show "tq_items ring_example = [7, 8]" by (simp add: ring_example_def tq_items_def)
qed

theorem tq_enqueue_spec_witness:
  "tq_inv ring_example \<and>
   (case tq_enqueue ring_example 0 9 of Ret r q' sg \<Rightarrow> tq_items q' = [7, 8, 9] | Block sg \<Rightarrow> False)"
proof -
  have f: "tq_con_flags ring_example = 0" "tq_max_qdepth ring_example = 3"
    by (simp_all add: ring_example_def)
  note spec = tq_enqueue_spec [OF ring_example_inv(1), of 0 9, unfolded f ring_example_inv(2)]
  show ?thesis
  proof (cases "tq_enqueue ring_example 0 9")
    case (Block sg)
    with spec show ?thesis by simp
  next
    case (Ret r q' sg)
    with spec have "tq_items q' = [7, 8] @ [9]" by simp
    with Ret ring_example_inv(1) show ?thesis by simp
  qed
qed

text \<open>
  C19. \<^verbatim>\<open>tq_dequeue\<close> on every branch: the call blocks exactly when the queue is empty and no flag is
  set; a flag that is neither ignored nor FINISHED fails the call; an empty queue whose flags are
  all ignored yields NULL and 0; otherwise the oldest package is returned with the depth before
  the call and leaves the queue.\<close>

theorem tq_dequeue_spec:
  "tq_inv q \<Longrightarrow>
   (case tq_dequeue q ign of
      Block sg \<Rightarrow> tq_items q = [] \<and> tq_con_flags q = 0
    | Ret (r, wo) q' sg \<Rightarrow>
        (tq_items q = [] \<longrightarrow> tq_con_flags q \<noteq> 0) \<and>
        (if has (tq_con_flags q) (NOT (ign OR TQ_FINISHED)) then r = - 1 \<and> wo = None \<and> q' = q
         else if tq_items q = [] then r = 0 \<and> wo = Some 0 \<and> q' = q
         else r = int (length (tq_items q)) \<and> wo = Some (hd (tq_items q)) \<and> tq_inv q' \<and>
              tq_items q' = tl (tq_items q) \<and> tq_con_flags q' = tq_con_flags q))"
proof -
  assume i: "tq_inv q"
  have c: "tq_con_flags (ring_drop q) = tq_con_flags q" by (simp add: ring_drop_def)
  show ?thesis
  proof (cases "tq_qdepth q = 0")
    case True
    then show ?thesis by (auto simp: tq_dequeue_def Let_def)
  next
    case False
    then show ?thesis
      using ring.remove_inv [OF i] ring.remove_items [OF i] ring.front_items [OF i] c
      by (simp add: tq_dequeue_def Let_def)
  qed
qed

theorem tq_dequeue_spec_witness:
  "tq_inv ring_example \<and>
   (case tq_dequeue ring_example 0 of Ret (r, wo) q' sg \<Rightarrow> r = 2 \<and> wo = Some 7 \<and> tq_items q' = [8]
    | Block sg \<Rightarrow> False)"
proof -
  have f: "tq_con_flags ring_example = 0" by (simp add: ring_example_def)
  note spec = tq_dequeue_spec [OF ring_example_inv(1), of 0, unfolded f ring_example_inv(2)]
  show ?thesis
    using spec ring_example_inv(1) by (cases "tq_dequeue ring_example 0") auto
qed

lemma wait_completion_waits:
  "i \<le> j \<Longrightarrow> j < num_thrds q \<Longrightarrow> has (tq_state_flags q ! j) TQ_READY \<Longrightarrow> cflag q TQ_FINISHED \<Longrightarrow>
   \<not> cflag q TQ_ABORT \<Longrightarrow> tq_cons_pool q \<noteq> None \<Longrightarrow> \<exists>k \<le> j. wait_completion_loop q i = Wait k"
proof (induction q i rule: wait_completion_loop.induct)
  case (1 q i)
  show ?case
  proof (cases "has (tq_state_flags q ! i) TQ_READY")
    case True
    with 1(2-) show ?thesis by (subst wait_completion_loop.simps) auto
  next
    case False
    with 1(2-) have "Suc i \<le> j" by (metis Suc_leI le_neq_implies_less)
    with 1 False have "\<exists>k \<le> j. wait_completion_loop q (Suc i) = Wait k" by simp
    with 1(2-) False show ?thesis by (subst wait_completion_loop.simps) auto
  qed
qed

text \<open>
  C21. FINISHED does not override HALT in a full queue: with both flags set, the ring full and a
  producer left, consumers and producers both stay in their waits, and \<^verbatim>\<open>tq_wait_for_completion\<close>
  waits for that producer or for one in front of it.\<close>

theorem tq_finished_halt_stuck:
  assumes "cflag q TQ_HALT" "cflag q TQ_FINISHED" "\<not> cflag q TQ_ABORT"
    and "tq_qdepth q = tq_max_qdepth q" "tq_cons_pool q \<noteq> None"
    and "tq_prod_pool q = Some p" "wp_start p = 0" "i < wp_num p" "has (tq_state_flags q ! i) TQ_READY"
  shows "consumer_waits q \<and> producer_waits q \<and> (\<exists>k \<le> i. tq_wait_for_completion q = Wait k)"
proof -
  have n: "none_ready fs k n \<Longrightarrow> k \<le> j \<Longrightarrow> j < k + n \<Longrightarrow> \<not> has (fs ! j) TQ_READY" for fs k j n
  proof (induction n arbitrary: k)
    case (Suc n)
    then show ?case by (cases "j = k") (auto split: if_splits)
  qed simp
  have "\<not> tq_threads_terminated q (tq_prod_pool q)"
    using n [of "tq_state_flags q" 0 "wp_num p" i] assms(6-9) by (auto simp: tq_threads_terminated_def)
  moreover have "\<exists>k \<le> i. wait_completion_loop q 0 = Wait k"
    using assms by (intro wait_completion_waits [of 0 i]) (auto simp: num_thrds_def)
  ultimately show ?thesis
    using assms by (simp add: consumer_waits_def producer_waits_def tq_wait_for_completion_def)
qed

definition stuck_example :: tq where
  "stuck_example =
     \<lparr>tq_con_flags = 3, tq_state_flags = [5, 5], tq_workpkg = [7], tq_qdepth = 1, tq_max_qdepth = 1,
      tq_head = 0, tq_tail = 0, tq_uncoll_thrds = 2,
      tq_prod_pool = Some \<lparr>wp_start = 0, wp_num = 1, wp_act = 0\<rparr>,
      tq_cons_pool = Some \<lparr>wp_start = 1, wp_num = 1, wp_act = 0\<rparr>\<rparr>"

theorem tq_finished_halt_stuck_witness:
  "consumer_waits stuck_example \<and> producer_waits stuck_example \<and>
   tq_wait_for_completion stuck_example = Wait 0"
proof -
  have "consumer_waits stuck_example \<and> producer_waits stuck_example \<and>
      (\<exists>k \<le> 0. tq_wait_for_completion stuck_example = Wait k)"
    by (rule tq_finished_halt_stuck [of _ "\<lparr>wp_start = 0, wp_num = 1, wp_act = 0\<rparr>" 0])
       (simp_all add: stuck_example_def cflag_def has_def tq_flag_defs)
  then show ?thesis by simp
qed

text \<open>
  Collecting the threads: once all threads have terminated, \<open>n\<close> calls of
  \<^verbatim>\<open>tq_next_thread_status\<close> yield the threads in the order of their ids, the next call reports that
  none is left, \<^verbatim>\<open>tq_close\<close> refuses before the last one was collected and afterwards frees an empty
  queue.\<close>

theorem tq_collect_all:
  assumes "cflag q (TQ_FINISHED OR TQ_ABORT)" "num_thrds q < 2 ^ 32" "k \<le> num_thrds q"
    and "\<And>i. i < num_thrds q \<Longrightarrow> \<not> has (tq_state_flags q ! i) TQ_READY"
    and "qk = q\<lparr>tq_uncoll_thrds := num_thrds q - k\<rparr>"
  shows "tq_next_thread_status True qk =
      (if k < num_thrds q
       then Ret (int (num_thrds q - k), Some k) (q\<lparr>tq_uncoll_thrds := num_thrds q - Suc k\<rparr>) []
       else Ret (0, None) qk []) \<and>
    tq_close qk =
      (if k < num_thrds q then (- 1, Some qk)
       else if tq_qdepth q \<noteq> 0 then (int (tq_qdepth q), Some qk) else (0, None))"
proof -
  have c: "cflag qk f = cflag q f" "num_thrds qk = num_thrds q" "tq_state_flags qk = tq_state_flags q"
    "tq_qdepth qk = tq_qdepth q" "tq_uncoll_thrds qk = num_thrds q - k" for f
    by (simp_all add: assms(5) cflag_def num_thrds_def)
  have s: "sub32 (num_thrds q) (num_thrds q - k) = k"
    using assms(2,3) by (simp add: sub32_def)
  have d: "dec32 (num_thrds q - k) = num_thrds q - Suc k" if "k < num_thrds q"
    using dec32_pos [of "num_thrds q - k"] that assms(2) by simp
  show ?thesis
    using assms(1,3,4) d
    by (simp add: tq_next_thread_status_def tq_close_def c s Let_def) (simp add: assms(5))
qed

theorem tq_collect_all_witness:
  "tq_next_thread_status True (stuck_example\<lparr>tq_state_flags := [0, 0], tq_uncoll_thrds := 1\<rparr>) =
   Ret (1, Some 1) (stuck_example\<lparr>tq_state_flags := [0, 0], tq_uncoll_thrds := 0\<rparr>) []"
proof -
  let ?q = "stuck_example\<lparr>tq_state_flags := [0, 0]\<rparr>"
  have n: "num_thrds ?q = 2" by (simp add: stuck_example_def num_thrds_def)
  have f: "cflag ?q (TQ_FINISHED OR TQ_ABORT)"
    by (simp add: stuck_example_def cflag_def has_def tq_flag_defs)
  have r: "\<not> has (tq_state_flags ?q ! i) TQ_READY" if "i < num_thrds ?q" for i
    using that n by (auto simp: less_Suc_eq numeral_2_eq_2)
  show ?thesis using tq_collect_all [OF f, of 1, OF _ _ r refl] by (simp add: n)
qed

end
