(* ===== verification/TQThreads.thy ===== *)
theory TQThreads
  imports ThreadQueue
begin

text \<open>
  The thread queue as a system of threads. A step is one section of a producer or a consumer, or
  one call of a master; the sections interleave in any order. A waiting thread may wake at any
  time, since condition variables wake spuriously; what holds of all these runs holds of the
  runs in which only signalled threads wake. The results of the callbacks are arbitrary.

  A master may make any call with any arguments, but for the flags that it removes: the
  repository only ever removes HALT. The calls that a run admits are a parameter of the step
  relation, since \<^verbatim>\<open>tq_enqueue\<close> with FINISHED or ABORT among the ignored flags, as two tests call
  it, stores packages behind the end; completion is proved for the runs without such a call.
\<close>

section \<open>The system\<close>

text \<open>
  \<open>sy_in\<close> lists the packages that were handed over to the queue, by a producer or by a master whose
  \<^verbatim>\<open>tq_enqueue\<close> returned 0, and \<open>sy_out\<close> those that a consumer's work callback or a master's
  \<^verbatim>\<open>tq_dequeue\<close> received, each as the thread or master holds it. \<open>sy_woken\<close> are the waiting threads
  that a broadcast reached since they began to wait; what a single signal wakes is left open,
  it may as well be a master. The three are not part of the program.
\<close>

record sys =
  sy_tq :: tq
  sy_thr :: "nat \<Rightarrow> thr"
  sy_in :: "nat list"
  sy_out :: "nat list"
  sy_woken :: "nat set"

definition num_prods :: "tq \<Rightarrow> nat" where
  "num_prods q = (case tq_prod_pool q of None \<Rightarrow> 0 | Some p \<Rightarrow> wp_num p)"

definition role_of :: "tq \<Rightarrow> nat \<Rightarrow> role" where
  "role_of q i = (if i < num_prods q then Producer else Consumer)"

text \<open>The package that a thread takes into its work callback.\<close>

definition received :: "thr \<Rightarrow> nat list" where
  "received t = (if th_pc t = C_work then [th_work t] else [])"

text \<open>
  A producer in front of its holding pattern has the package \<open>w\<close>: it hands it over unless it waits
  with it, has no package or is aborted. A resume callback may have replaced the package.
\<close>

definition handed :: "tq \<Rightarrow> thr \<Rightarrow> nat \<Rightarrow> nat list" where
  "handed q' t w = (if th_pc t = P_wait \<or> w = 0 \<or> cflag q' TQ_ABORT then [] else [w])"

definition resumed :: "tq \<Rightarrow> nat \<Rightarrow> (nat \<Rightarrow> int \<times> nat) \<Rightarrow> nat \<Rightarrow> nat" where
  "resumed q i resume w =
     (if has (tq_state_flags q ! i) TQ_HALTED \<and> \<not> cflag q TQ_HALT then snd (resume w) else w)"

text \<open>The condition variable a thread waits on, and the waiting threads that broadcasts reach.\<close>

definition cv_of :: "tpc \<Rightarrow> cvar option" where
  "cv_of pc =
     (if pc = C_wait then Some Consumer_resume
      else if pc = P_wait0 \<or> pc = P_wait then Some Producer_resume else None)"

definition reached :: "(nat \<Rightarrow> thr) \<Rightarrow> signal list \<Rightarrow> nat set" where
  "reached thr sg = {j. \<exists>cv. cv_of (th_pc (thr j)) = Some cv \<and> Broadcast cv \<in> set sg}"

definition sys_thread :: "sys \<Rightarrow> nat \<Rightarrow> nat list \<Rightarrow> tq \<times> thr \<times> signal list \<Rightarrow> sys" where
  "sys_thread s i ins r =
     (case r of (q', t, sg) \<Rightarrow>
        \<lparr>sy_tq = q', sy_thr = (sy_thr s)(i := t), sy_in = sy_in s @ ins,
         sy_out = sy_out s @ received t, sy_woken = (sy_woken s \<union> reached (sy_thr s) sg) - {i}\<rparr>)"

definition sys_master :: "sys \<Rightarrow> tq \<Rightarrow> nat list \<Rightarrow> nat list \<Rightarrow> signal list \<Rightarrow> sys" where
  "sys_master s q' ins outs sg =
     \<lparr>sy_tq = q', sy_thr = sy_thr s, sy_in = sy_in s @ ins, sy_out = sy_out s @ outs,
      sy_woken = sy_woken s \<union> reached (sy_thr s) sg\<rparr>"

text \<open>One section of thread \<open>i\<close>, according to where it stands, and the package it hands over.\<close>

inductive thread_section ::
  "tq \<Rightarrow> nat \<Rightarrow> thr \<Rightarrow> nat list \<Rightarrow> tq \<times> thr \<times> signal list \<Rightarrow> bool" where
  start_cons: "role_of q i = Consumer \<Longrightarrow> th_pc t = T_new \<Longrightarrow>
    thread_section q i t [] (consumer_start q i init_res pause)"
| start_prod: "role_of q i = Producer \<Longrightarrow> th_pc t = T_new \<Longrightarrow>
    thread_section q i t [] (producer_start q i init_res pause)"
| wake_cons: "th_pc t = C_wait \<Longrightarrow>
    thread_section q i t [] (consumer_wake q i resume pause (th_work t))"
| work_cons: "th_pc t = C_work \<Longrightarrow>
    thread_section q i t [] (consumer_worked q i work_res pause)"
| wake_prod0: "th_pc t = P_wait0 \<Longrightarrow>
    thread_section q i t [] (producer_wake0 q i resume pause (th_work t))"
| wake_prod: "th_pc t = P_wait \<Longrightarrow> producer_wake q i resume pause (th_work t) = (q', t', sg) \<Longrightarrow>
    thread_section q i t (handed q' t' (resumed q i resume (th_work t))) (q', t', sg)"
| work_prod: "th_pc t = P_work \<Longrightarrow> producer_worked q i work_res pause w = (q', t', sg) \<Longrightarrow>
    thread_section q i t (handed q' t' w) (q', t', sg)"

text \<open>One call of a master that returns, with the package handed over and the one received.\<close>

datatype mcall = Enqueue u32 nat | Dequeue u32 | Set_flags u32 | Unset_halt | Next_status bool

inductive master_call ::
  "mcall \<Rightarrow> tq \<Rightarrow> tq \<Rightarrow> nat list \<Rightarrow> nat list \<Rightarrow> signal list \<Rightarrow> bool" where
  enqueue: "tq_enqueue q ign w = Ret r q' sg \<Longrightarrow>
    master_call (Enqueue ign w) q q' (if r = 0 then [w] else []) [] sg"
| dequeue: "tq_dequeue q ign = Ret (r, wo) q' sg \<Longrightarrow>
    master_call (Dequeue ign) q q' [] (if 0 < r then [case wo of None \<Rightarrow> 0 | Some w \<Rightarrow> w] else []) sg"
| set_flags: "tq_set_flags q f = Ret r q' sg \<Longrightarrow> master_call (Set_flags f) q q' [] [] sg"
| unset_halt: "tq_unset_flags q TQ_HALT = Ret r q' sg \<Longrightarrow> master_call Unset_halt q q' [] [] sg"
| next_status: "tq_next_thread_status join q = Ret r q' sg \<Longrightarrow>
    master_call (Next_status join) q q' [] [] sg"

text \<open>The calls that store nothing behind the end.\<close>

definition timely :: "mcall \<Rightarrow> bool" where
  "timely c \<longleftrightarrow> (case c of Enqueue ign w \<Rightarrow> \<not> has ign (TQ_FINISHED OR TQ_ABORT) | _ \<Rightarrow> True)"

inductive sys_step :: "(mcall \<Rightarrow> bool) \<Rightarrow> sys \<Rightarrow> sys \<Rightarrow> bool" for ok where
  thread: "i < num_thrds (sy_tq s) \<Longrightarrow> thread_section (sy_tq s) i (sy_thr s i) ins r \<Longrightarrow>
    sys_step ok s (sys_thread s i ins r)"
| master: "ok c \<Longrightarrow> master_call c (sy_tq s) q' ins outs sg \<Longrightarrow>
    sys_step ok s (sys_master s q' ins outs sg)"

abbreviation tq_step :: "sys \<Rightarrow> sys \<Rightarrow> bool" where
  "tq_step \<equiv> sys_step (\<lambda>_. True)"

text \<open>The system behind a \<^verbatim>\<open>tq_init\<close> whose threads were all created.\<close>

definition sys_start :: "tq \<Rightarrow> sys" where
  "sys_start q =
     \<lparr>sy_tq = q, sy_thr = (\<lambda>_. \<lparr>th_pc = T_new, th_work = 0\<rparr>), sy_in = [], sy_out = [],
      sy_woken = {}\<rparr>"

inductive sys_reach :: "(mcall \<Rightarrow> bool) \<Rightarrow> tq_opts \<Rightarrow> sys \<Rightarrow> bool" for ok ops where
  init: "tq_init (\<lambda>_. True) ops = Inr (q, started) \<Longrightarrow> sys_reach ok ops (sys_start q)"
| step: "sys_reach ok ops s \<Longrightarrow> sys_step ok s s' \<Longrightarrow> sys_reach ok ops s'"

abbreviation tq_reach :: "tq_opts \<Rightarrow> sys \<Rightarrow> bool" where
  "tq_reach \<equiv> sys_reach (\<lambda>_. True)"

inductive_cases thread_sectionE: "thread_section q i t ins r"
inductive_cases master_callE: "master_call c q q' ins outs sg"
inductive_cases sys_stepE: "sys_step ok s s'"

lemma sys_step_any: "sys_step ok s s' \<Longrightarrow> tq_step s s'"
  by (auto elim!: sys_step.cases intro: sys_step.intros)

lemma sys_reach_any: "sys_reach ok ops s \<Longrightarrow> tq_reach ops s"
  by (induction rule: sys_reach.induct) (auto intro: sys_reach.intros sys_step_any)

section \<open>What the sections leave alone\<close>

text \<open>The functions that change only flags and counters do not touch the ring.\<close>

lemma ring_fields [simp]:
  "tq_workpkg (set_state i f q) = tq_workpkg q" "tq_workpkg (clear_state i f q) = tq_workpkg q"
  "tq_workpkg (set_con f q) = tq_workpkg q" "tq_workpkg (upd_act r g q) = tq_workpkg q"
  "tq_qdepth (set_state i f q) = tq_qdepth q" "tq_qdepth (clear_state i f q) = tq_qdepth q"
  "tq_qdepth (set_con f q) = tq_qdepth q" "tq_qdepth (upd_act r g q) = tq_qdepth q"
  "tq_max_qdepth (set_state i f q) = tq_max_qdepth q"
  "tq_max_qdepth (clear_state i f q) = tq_max_qdepth q"
  "tq_max_qdepth (set_con f q) = tq_max_qdepth q" "tq_max_qdepth (upd_act r g q) = tq_max_qdepth q"
  "tq_head (set_state i f q) = tq_head q" "tq_head (clear_state i f q) = tq_head q"
  "tq_head (set_con f q) = tq_head q" "tq_head (upd_act r g q) = tq_head q"
  "tq_tail (set_state i f q) = tq_tail q" "tq_tail (clear_state i f q) = tq_tail q"
  "tq_tail (set_con f q) = tq_tail q" "tq_tail (upd_act r g q) = tq_tail q"
  by (auto simp: set_state_def clear_state_def set_con_def upd_act_def split: role.splits)

lemma ring_same [simp]:
  "tq_inv (set_state i f q) = tq_inv q" "tq_inv (clear_state i f q) = tq_inv q"
  "tq_inv (set_con f q) = tq_inv q" "tq_inv (upd_act r g q) = tq_inv q"
  "tq_items (set_state i f q) = tq_items q" "tq_items (clear_state i f q) = tq_items q"
  "tq_items (set_con f q) = tq_items q" "tq_items (upd_act r g q) = tq_items q"
  by (simp_all add: tq_inv_def tq_items_def)

lemma con_flags_simps [simp]:
  "tq_con_flags (set_state i f q) = tq_con_flags q" "tq_con_flags (clear_state i f q) = tq_con_flags q"
  "tq_con_flags (set_con f q) = tq_con_flags q OR f" "tq_con_flags (upd_act r g q) = tq_con_flags q"
  "tq_con_flags (ring_put w q) = tq_con_flags q" "tq_con_flags (ring_drop q) = tq_con_flags q"
  "tq_con_flags (ring_take q) = tq_con_flags q"
  by (auto simp: set_state_def clear_state_def set_con_def upd_act_def ring_put_def ring_drop_def
      ring_take_def split: role.splits)

lemma state_flags_simps [simp]:
  "tq_state_flags (set_con f q) = tq_state_flags q" "tq_state_flags (upd_act r g q) = tq_state_flags q"
  "tq_state_flags (ring_put w q) = tq_state_flags q" "tq_state_flags (ring_drop q) = tq_state_flags q"
  "tq_state_flags (ring_take q) = tq_state_flags q"
  "tq_state_flags (set_state i f q) = (tq_state_flags q)[i := (tq_state_flags q ! i) OR f]"
  "tq_state_flags (clear_state i f q) = (tq_state_flags q)[i := (tq_state_flags q ! i) AND NOT f]"
  by (auto simp: set_state_def clear_state_def set_con_def upd_act_def ring_put_def ring_drop_def
      ring_take_def split: role.splits)

lemma pool_simps [simp]:
  "pool_of r (set_state i f q) = pool_of r q" "pool_of r (clear_state i f q) = pool_of r q"
  "pool_of r (set_con f q) = pool_of r q" "pool_of r (ring_put w q) = pool_of r q"
  "pool_of r (ring_drop q) = pool_of r q" "pool_of r (ring_take q) = pool_of r q"
  "pool_of r (upd_act r' g q) =
     (if r' = r then map_option (\<lambda>p. p\<lparr>wp_act := g (wp_act p)\<rparr>) (pool_of r q) else pool_of r q)"
  by (auto simp: pool_of_def set_state_def clear_state_def set_con_def upd_act_def ring_put_def
      ring_drop_def ring_take_def split: role.splits)

lemma cflag_simps [simp]:
  "cflag (set_state i f q) g = cflag q g" "cflag (clear_state i f q) g = cflag q g"
  "cflag (set_con f q) g = (cflag q g \<or> has f g)" "cflag (upd_act r h q) g = cflag q g"
  "cflag (ring_put w q) g = cflag q g" "cflag (ring_drop q) g = cflag q g"
  "cflag (ring_take q) g = cflag q g" "cflag q (f OR g) = (cflag q f \<or> cflag q g)"
  by (simp_all add: cflag_def)

text \<open>The pools without their counters of active threads.\<close>

definition pool_shape :: "role \<Rightarrow> tq \<Rightarrow> (nat \<times> nat) option" where
  "pool_shape r q = map_option (\<lambda>p. (wp_start p, wp_num p)) (pool_of r q)"

definition act_thrds :: "role \<Rightarrow> tq \<Rightarrow> nat" where
  "act_thrds r q = (case pool_of r q of None \<Rightarrow> 0 | Some p \<Rightarrow> wp_act p)"

lemma shape_simps [simp]:
  "pool_shape r (set_state i f q) = pool_shape r q" "pool_shape r (clear_state i f q) = pool_shape r q"
  "pool_shape r (set_con f q) = pool_shape r q" "pool_shape r (ring_put w q) = pool_shape r q"
  "pool_shape r (ring_drop q) = pool_shape r q" "pool_shape r (ring_take q) = pool_shape r q"
  "pool_shape r (upd_act r' g q) = pool_shape r q"
  by (auto simp: pool_shape_def option.map_comp comp_def)

lemma act_simps [simp]:
  "act_thrds r (set_state i f q) = act_thrds r q" "act_thrds r (clear_state i f q) = act_thrds r q"
  "act_thrds r (set_con f q) = act_thrds r q" "act_thrds r (ring_put w q) = act_thrds r q"
  "act_thrds r (ring_drop q) = act_thrds r q" "act_thrds r (ring_take q) = act_thrds r q"
  by (simp_all add: act_thrds_def)

lemma act_upd:
  "pool_of r' q \<noteq> None \<Longrightarrow>
   act_thrds r (upd_act r' g q) = (if r' = r then g (act_thrds r q) else act_thrds r q)"
  by (auto simp: act_thrds_def split: option.splits)

lemma shape_sizes:
  "(\<And>r. pool_shape r q' = pool_shape r q) \<Longrightarrow>
   num_thrds q' = num_thrds q \<and> num_prods q' = num_prods q \<and> (pool_of r q' = None \<longleftrightarrow> pool_of r q = None)"
proof -
  assume "\<And>r. pool_shape r q' = pool_shape r q"
  from this [of Producer] this [of Consumer] this [of r] show ?thesis
    by (auto simp: pool_shape_def pool_of_def num_thrds_def num_prods_def map_option_case
        split: option.splits role.splits)
qed

section \<open>What a section does\<close>

text \<open>
  The thread has set its READY flag and not yet cleared it; it waits; it counts as active in its
  pool. A thread that was not started counts from the beginning, one that failed to initialise
  keeps counting.
\<close>

definition alive :: "tpc \<Rightarrow> bool" where
  "alive pc \<longleftrightarrow> pc \<in> {C_wait, C_work, P_wait0, P_wait, P_work}"

definition waiting :: "tpc \<Rightarrow> bool" where
  "waiting pc \<longleftrightarrow> pc \<in> {C_wait, P_wait0, P_wait}"

definition counted :: "tpc \<Rightarrow> nat" where
  "counted pc = (if waiting pc \<or> pc = T_exit then 0 else 1)"

definition pc_role :: "role \<Rightarrow> tpc \<Rightarrow> bool" where
  "pc_role r pc \<longleftrightarrow>
     pc \<in> {T_new, T_exit, T_failed} \<union>
       (case r of Producer \<Rightarrow> {P_wait0, P_wait, P_work} | Consumer \<Rightarrow> {C_wait, C_work})"

lemmas pc_defs = alive_def waiting_def counted_def pc_role_def

text \<open>Nothing but the thread's own flag and the counter of its pool changes.\<close>

definition frame :: "role \<Rightarrow> nat \<Rightarrow> nat \<Rightarrow> tq \<Rightarrow> tq \<Rightarrow> bool" where
  "frame r i d q q' \<longleftrightarrow>
     (\<forall>r. pool_shape r q' = pool_shape r q) \<and>
     act_thrds r q' = act_thrds r q + d \<and> (\<forall>r'. r' \<noteq> r \<longrightarrow> act_thrds r' q' = act_thrds r' q) \<and>
     length (tq_state_flags q') = length (tq_state_flags q) \<and>
     (\<forall>j. j \<noteq> i \<longrightarrow> tq_state_flags q' ! j = tq_state_flags q ! j) \<and>
     (cflag q TQ_FINISHED \<longrightarrow> cflag q' TQ_FINISHED) \<and> (cflag q TQ_ABORT \<longrightarrow> cflag q' TQ_ABORT) \<and>
     tq_max_qdepth q' = tq_max_qdepth q"

text \<open>A consumer may leave only an aborted queue, or an empty and finished one without producers.\<close>

definition may_exit :: "role \<Rightarrow> tq \<Rightarrow> bool" where
  "may_exit r q \<longleftrightarrow>
     cflag q TQ_ABORT \<or> cflag q TQ_FINISHED \<and>
     (r = Consumer \<longrightarrow> tq_qdepth q = 0 \<and> tq_threads_terminated q (tq_prod_pool q))"

text \<open>
  The section of thread \<open>i\<close> of a pool \<open>r\<close>: \<open>a\<close> says whether the thread counted before, \<open>t\<close> is where
  it stands afterwards.
\<close>

definition sec_ok :: "role \<Rightarrow> nat \<Rightarrow> nat \<Rightarrow> tq \<Rightarrow> tq \<Rightarrow> tpc \<Rightarrow> bool" where
  "sec_ok r i a q q' pc \<longleftrightarrow>
     tq_inv q' \<and>
     (\<forall>r. pool_shape r q' = pool_shape r q) \<and>
     act_thrds r q' + a = act_thrds r q + counted pc \<and>
     (\<forall>r'. r' \<noteq> r \<longrightarrow> act_thrds r' q' = act_thrds r' q) \<and>
     length (tq_state_flags q') = length (tq_state_flags q) \<and>
     (\<forall>j. j \<noteq> i \<longrightarrow> tq_state_flags q' ! j = tq_state_flags q ! j) \<and>
     (cflag q TQ_FINISHED \<longrightarrow> cflag q' TQ_FINISHED) \<and> (cflag q TQ_ABORT \<longrightarrow> cflag q' TQ_ABORT) \<and>
     (has (tq_state_flags q' ! i) TQ_READY \<longleftrightarrow> alive pc) \<and> pc_role r pc \<and> pc \<noteq> T_new \<and>
     (has (tq_state_flags q' ! i) TQ_HALTED \<longrightarrow> alive pc \<longrightarrow>
        waiting pc \<or> cflag q' TQ_FINISHED \<or> cflag q' TQ_ABORT) \<and>
     (pc = T_exit \<longrightarrow> may_exit r q') \<and> (r = Consumer \<longrightarrow> tq_qdepth q' \<le> tq_qdepth q) \<and>
     (pc = T_failed \<longrightarrow> cflag q' TQ_ABORT)"

lemma items_depth: "tq_items q = xs \<Longrightarrow> tq_qdepth q = length xs"
  by auto

lemma sec_ok_frame:
  assumes "frame r i d q q1" "tq_items q1 = tq_items q" "sec_ok r i 1 q1 q' pc" "d \<le> 1"
  shows "sec_ok r i (1 - d) q q' pc"
  using assms items_depth [OF assms(2)] by (auto simp: sec_ok_def frame_def)

text \<open>A running thread with the lock held, in front of the section's last part.\<close>

definition running :: "role \<Rightarrow> nat \<Rightarrow> tq \<Rightarrow> bool" where
  "running r i q \<longleftrightarrow>
     tq_inv q \<and> pool_of r q \<noteq> None \<and> i < length (tq_state_flags q) \<and>
     has (tq_state_flags q ! i) TQ_READY \<and>
     0 < act_thrds r q \<and> act_thrds r q < 2 ^ 31 \<and>
     (r = Consumer \<longrightarrow> (\<forall>p. tq_prod_pool q = Some p \<longrightarrow> wp_start p + wp_num p \<le> i)) \<and>
     (has (tq_state_flags q ! i) TQ_HALTED \<longrightarrow>
        cflag q TQ_HALT \<or> cflag q TQ_FINISHED \<or> cflag q TQ_ABORT)"

lemma none_ready_upd:
  "i + n \<le> k \<Longrightarrow> none_ready (fs[k := f]) i n = none_ready fs i n"
  by (induction n arbitrary: i) auto

lemma terminated_upd:
  assumes "running Consumer i q"
  shows "tq_threads_terminated (upd_act Consumer g (clear_state i f q)) (tq_prod_pool q) =
         tq_threads_terminated q (tq_prod_pool q)"
  using assms
  by (auto simp: running_def tq_threads_terminated_def none_ready_upd split: option.splits)

lemma prod_pool_simps [simp]:
  "tq_prod_pool (upd_act Consumer g q) = tq_prod_pool q" "tq_prod_pool (clear_state i f q) = tq_prod_pool q"
  "tq_prod_pool (set_state i f q) = tq_prod_pool q" "tq_prod_pool (set_con f q) = tq_prod_pool q"
  by (simp_all add: upd_act_def clear_state_def set_state_def set_con_def)

lemma dec_act: "running r i q \<Longrightarrow> Suc (dec32 (act_thrds r q)) = act_thrds r q"
  using dec32_pos [of "act_thrds r q"] by (auto simp: running_def)

lemma thread_term_ok:
  assumes "running r i q" "may_exit r q" "thread_term q r i w = (q', t, s)"
  shows "sec_ok r i 1 q q' (th_pc t)"
proof -
  have q': "q' = upd_act r dec32 (clear_state i TQ_READY q)" "th_pc t = T_exit"
    using assms(3) by (auto simp: thread_term_def general_thread_term_behavior_def)
  have "may_exit r q'"
    using assms(1,2) terminated_upd [of i q dec32 TQ_READY]
    by (cases r) (auto simp: may_exit_def q')
  then show ?thesis
    using assms(1) dec_act [OF assms(1)]
    by (auto simp: sec_ok_def q' running_def act_upd pc_defs)
qed

lemma consumer_act_ok:
  assumes "running Consumer i q" "\<not> consumer_waits q" "consumer_act q i w = (q', t, s)"
  shows "sec_ok Consumer i 1 q q' (th_pc t)"
proof (cases "cflag q TQ_ABORT \<or> (tq_qdepth q = 0 \<and> cflag q TQ_FINISHED \<and>
    tq_threads_terminated q (tq_prod_pool q))")
  case True
  then have "thread_term q Consumer i w = (q', t, s)" "may_exit Consumer q"
    using assms(3) by (auto simp: consumer_act_def may_exit_def)
  with assms(1) show ?thesis by (rule_tac thread_term_ok)
next
  case False
  then have q': "q' = ring_take q" "th_pc t = C_work" and d: "tq_qdepth q \<noteq> 0"
    using assms(2,3) by (auto simp: consumer_act_def consumer_waits_def Let_def)
  have "tq_inv q" using assms(1) by (simp add: running_def)
  note rt = ring_take_inv [OF this d]
  have "tq_qdepth (ring_take q) \<le> tq_qdepth q"
    using items_depth [OF rt(2)] by simp
  then show ?thesis
    using assms(1,2) rt d False
    by (auto simp: sec_ok_def q' running_def pc_defs consumer_waits_def)
qed

lemma producer_act_ok:
  assumes "running Producer i q" "\<not> producer_waits q" "producer_act q i w = (q', t, s)"
  shows "sec_ok Producer i 1 q q' (th_pc t)"
proof (cases "cflag q TQ_ABORT")
  case True
  then show ?thesis
    using assms thread_term_ok [OF assms(1)] by (auto simp: producer_act_def may_exit_def)
next
  case False
  let ?q = "if w \<noteq> 0 then ring_put w q else q"
  have i: "tq_inv q" and d: "tq_qdepth q < tq_max_qdepth q"
    using assms(1,2) False tq_inv_depth [of q] by (auto simp: running_def producer_waits_def)
  have inv: "tq_inv ?q" using ring_put_inv [OF i d] i by simp
  have run: "running Producer i ?q"
    using assms(1) inv by (auto simp: running_def)
  have fr: "frame Producer i 0 q ?q" by (simp add: frame_def)
  show ?thesis
  proof (cases "cflag q TQ_FINISHED")
    case True
    have "may_exit Producer ?q" using True by (simp add: may_exit_def)
    moreover obtain s' where "thread_term ?q Producer i 0 = (q', t, s')"
      using assms(3) True False by (auto simp: producer_act_def Let_def split: prod.splits if_splits)
    ultimately have "sec_ok Producer i 1 ?q q' (th_pc t)" using run by (rule_tac thread_term_ok)
    then show ?thesis using fr by (auto simp: sec_ok_def frame_def)
  next
    case F: False
    have q': "q' = ?q" "th_pc t = P_work"
      using assms(3) False F by (auto simp: producer_act_def Let_def split: if_splits)
    show ?thesis
      using inv assms(1,2) False F d
      by (auto simp: sec_ok_def q' running_def pc_defs producer_waits_def)
  qed
qed

lemma frame_simps [simp]:
  "frame r i 0 q (set_con f q)" "frame r i 0 q (set_state i f q)"
  by (auto simp: frame_def)

lemma frame_trans: "frame r i d q q1 \<Longrightarrow> frame r i e q1 q2 \<Longrightarrow> frame r i (d + e) q q2"
  by (auto simp: frame_def)

text \<open>Raising a flag keeps a running thread running.\<close>

lemma running_abort:
  assumes "running r i q"
  shows "running r i (set_state i TQ_ERROR (set_con TQ_ABORT q))"
  using assms by (auto simp: running_def)

lemma running_set_con:
  assumes "running r i q"
  shows "running r i (set_con f q)"
  using assms by (auto simp: running_def)

lemma frame_abort: "frame r i 0 q (set_state i TQ_ERROR (set_con TQ_ABORT q))"
  using frame_trans [of r i 0 q "set_con TQ_ABORT q" 0] by simp

lemma pause_abort:
  assumes "general_thread_pause_behavior q r i pause w = (ok, q2, s, w2)" "\<not> ok"
  shows "q2 = set_state i TQ_ERROR (set_con TQ_ABORT q)"
  using assms by (auto simp: general_thread_pause_behavior_def split: if_splits prod.splits)

lemma pause_wait:
  assumes "running r i q" "general_thread_pause_behavior q r i pause w = (ok, q2, s, w2)" ok
    and "waiting pc" "pc_role r pc"
  shows "sec_ok r i 1 q q2 pc"
proof -
  have q2: "q2 = upd_act r dec32 q \<or> q2 = upd_act r dec32 (set_state i TQ_HALTED q)"
    using assms(2,3) by (auto simp: general_thread_pause_behavior_def split: if_splits prod.splits)
  have w: "alive pc" "counted pc = 0" "pc \<noteq> T_new" "pc \<noteq> T_exit" "pc \<noteq> T_failed"
    using assms(4) by (auto simp: pc_defs)
  show ?thesis
    using q2 assms(1,4,5) dec_act [OF assms(1)] w
    by (elim disjE) (auto simp: sec_ok_def running_def act_upd)
qed

lemma consumer_top_ok:
  assumes "running Consumer i q" "consumer_top q i pause w = (q', t, s)"
  shows "sec_ok Consumer i 1 q q' (th_pc t)"
proof (cases "consumer_waits q")
  case False
  then show ?thesis
    using assms consumer_act_ok [OF assms(1) False] by (simp add: consumer_top_def)
next
  case True
  obtain ok q2 s2 w2 where p: "general_thread_pause_behavior q Consumer i pause w = (ok, q2, s2, w2)"
    by (metis prod_cases4)
  show ?thesis
  proof (cases ok)
    case ok: True
    have "sec_ok Consumer i 1 q q2 C_wait"
      using pause_wait [OF assms(1) p ok] by (simp add: pc_defs)
    then show ?thesis using assms(2) True p ok by (auto simp: consumer_top_def)
  next
    case False
    note q2 = pause_abort [OF p False]
    obtain s3 where a: "consumer_act q2 i w2 = (q', t, s3)"
      using assms(2) True p False by (auto simp: consumer_top_def split: prod.splits)
    have "\<not> consumer_waits q2" by (simp add: q2 consumer_waits_def)
    then have "sec_ok Consumer i 1 q2 q' (th_pc t)"
      using consumer_act_ok [OF _ _ a] running_abort [OF assms(1)] q2 by simp
    then show ?thesis
      using sec_ok_frame [OF frame_abort] q2 by fastforce
  qed
qed

lemma producer_top_ok:
  assumes "running Producer i q" "producer_top q i pause w = (q', t, s)"
  shows "sec_ok Producer i 1 q q' (th_pc t)"
proof (cases "producer_waits q")
  case False
  then show ?thesis
    using assms producer_act_ok [OF assms(1) False] by (simp add: producer_top_def)
next
  case True
  obtain ok q2 s2 w2 where p: "general_thread_pause_behavior q Producer i pause w = (ok, q2, s2, w2)"
    by (metis prod_cases4)
  show ?thesis
  proof (cases ok)
    case ok: True
    have "sec_ok Producer i 1 q q2 P_wait"
      using pause_wait [OF assms(1) p ok] by (simp add: pc_defs)
    then show ?thesis using assms(2) True p ok by (auto simp: producer_top_def)
  next
    case False
    note q2 = pause_abort [OF p False]
    obtain s3 where a: "producer_act q2 i w2 = (q', t, s3)"
      using assms(2) True p False by (auto simp: producer_top_def split: prod.splits)
    have "\<not> producer_waits q2" by (simp add: q2 producer_waits_def)
    then have "sec_ok Producer i 1 q2 q' (th_pc t)"
      using producer_act_ok [OF _ _ a] running_abort [OF assms(1)] q2 by simp
    then show ?thesis
      using sec_ok_frame [OF frame_abort] q2 by fastforce
  qed
qed

lemma running_sec_work:
  assumes "running Producer i q" "\<not> cflag q TQ_HALT \<or> cflag q TQ_FINISHED \<or> cflag q TQ_ABORT"
  shows "sec_ok Producer i 1 q q P_work"
  using assms by (auto simp: sec_ok_def running_def  pc_defs)

lemma producer_top0_ok:
  assumes "running Producer i q" "producer_top0 q i pause w = (q', t, s)"
  shows "sec_ok Producer i 1 q q' (th_pc t)"
proof (cases "producer_waits0 q")
  case False
  then show ?thesis
    using assms running_sec_work [OF assms(1)]
    by (auto simp: producer_top0_def producer_waits0_def)
next
  case True
  obtain ok q2 s2 w2 where p: "general_thread_pause_behavior q Producer i pause w = (ok, q2, s2, w2)"
    by (metis prod_cases4)
  show ?thesis
  proof (cases ok)
    case ok: True
    have "sec_ok Producer i 1 q q2 P_wait0"
      using pause_wait [OF assms(1) p ok] by (simp add: pc_defs)
    then show ?thesis using assms(2) True p ok by (auto simp: producer_top0_def)
  next
    case False
    note q2 = pause_abort [OF p False]
    have "sec_ok Producer i 1 q2 q2 P_work"
      using running_sec_work [of i q2] running_abort [OF assms(1)] q2 by simp
    then have "sec_ok Producer i 1 q q2 P_work"
      using sec_ok_frame [OF frame_abort] q2 by fastforce
    then show ?thesis using assms(2) True p False by (auto simp: producer_top0_def)
  qed
qed

subsection \<open>Waking, starting, after the work\<close>

definition sleeping :: "role \<Rightarrow> nat \<Rightarrow> tq \<Rightarrow> bool" where
  "sleeping r i q \<longleftrightarrow>
     tq_inv q \<and> pool_of r q \<noteq> None \<and> i < length (tq_state_flags q) \<and>
     has (tq_state_flags q ! i) TQ_READY \<and> act_thrds r q < 2 ^ 31 - 1 \<and>
     (r = Consumer \<longrightarrow> (\<forall>p. tq_prod_pool q = Some p \<longrightarrow> wp_start p + wp_num p \<le> i))"

lemma prod_pool_upd: "tq_prod_pool (upd_act r g q) =
    (if r = Producer then map_option (\<lambda>p. p\<lparr>wp_act := g (wp_act p)\<rparr>) (tq_prod_pool q) else tq_prod_pool q)"
  by (cases r) (simp_all add: upd_act_def)

lemma resume_running:
  assumes "sleeping r i q" "general_thread_resume_behavior q r i resume w = (ok, q2, s, w2)"
  shows "running r i q2" "frame r i 1 q q2" "tq_items q2 = tq_items q"
    and "\<not> ok \<Longrightarrow> cflag q2 TQ_ABORT"
proof -
  let ?q1 = "upd_act r inc32 q"
  have inc: "inc32 (act_thrds r q) = Suc (act_thrds r q)"
    using assms(1) by (intro inc32_small) (simp add: sleeping_def)
  have q2: "q2 = ?q1 \<and> (has (tq_state_flags q ! i) TQ_HALTED \<longrightarrow> cflag q TQ_HALT) \<and> ok \<or>
      q2 = clear_state i TQ_HALTED ?q1 \<and> ok \<or>
      q2 = set_state i TQ_ERROR (set_con TQ_ABORT (clear_state i TQ_HALTED ?q1))"
    using assms(2) by (auto simp: general_thread_resume_behavior_def Let_def split: if_splits prod.splits)
  from assms(1) inc q2 show "running r i q2"
    by (elim disjE) (auto simp: running_def sleeping_def act_upd prod_pool_upd)
  from assms(1) inc q2 show "frame r i 1 q q2"
    by (elim disjE) (auto simp: frame_def sleeping_def act_upd)
  from q2 show "tq_items q2 = tq_items q" "\<not> ok \<Longrightarrow> cflag q2 TQ_ABORT" by auto
qed

lemma consumer_wake_ok:
  assumes "sleeping Consumer i q" "consumer_wake q i resume pause w = (q', t, s)"
  shows "sec_ok Consumer i 0 q q' (th_pc t)"
proof -
  obtain ok q2 s2 w2 where p: "general_thread_resume_behavior q Consumer i resume w = (ok, q2, s2, w2)"
    by (metis prod_cases4)
  note r = resume_running [OF assms(1) p]
  obtain s3 where "(if ok then consumer_top q2 i pause w2 else consumer_act q2 i w2) = (q', t, s3)"
    using assms(2) p by (auto simp: consumer_wake_def split: prod.splits if_splits)
  then have "sec_ok Consumer i 1 q2 q' (th_pc t)"
    using consumer_top_ok [OF r(1)] consumer_act_ok [OF r(1)] r(4)
    by (cases ok) (auto simp: consumer_waits_def)
  from sec_ok_frame [OF r(2,3) this] show ?thesis by simp
qed

lemma producer_wake_ok:
  assumes "sleeping Producer i q" "producer_wake q i resume pause w = (q', t, s)"
  shows "sec_ok Producer i 0 q q' (th_pc t)"
proof -
  obtain ok q2 s2 w2 where p: "general_thread_resume_behavior q Producer i resume w = (ok, q2, s2, w2)"
    by (metis prod_cases4)
  note r = resume_running [OF assms(1) p]
  obtain s3 where "(if ok then producer_top q2 i pause w2 else producer_act q2 i w2) = (q', t, s3)"
    using assms(2) p by (auto simp: producer_wake_def split: prod.splits if_splits)
  then have "sec_ok Producer i 1 q2 q' (th_pc t)"
    using producer_top_ok [OF r(1)] producer_act_ok [OF r(1)] r(4)
    by (cases ok) (auto simp: producer_waits_def)
  from sec_ok_frame [OF r(2,3) this] show ?thesis by simp
qed

lemma producer_wake0_ok:
  assumes "sleeping Producer i q" "producer_wake0 q i resume pause w = (q', t, s)"
  shows "sec_ok Producer i 0 q q' (th_pc t)"
proof -
  obtain ok q2 s2 w2 where p: "general_thread_resume_behavior q Producer i resume w = (ok, q2, s2, w2)"
    by (metis prod_cases4)
  note r = resume_running [OF assms(1) p]
  have "sec_ok Producer i 1 q2 q' (th_pc t)"
    using assms(2) p producer_top0_ok [OF r(1)] running_sec_work [OF r(1)] r(4)
    by (cases ok) (auto simp: producer_wake0_def split: prod.splits)
  from sec_ok_frame [OF r(2,3) this] show ?thesis by simp
qed

lemma post_work_ok:
  assumes "running r i q" "general_thread_post_work_behavior q i res = (q2, s)"
  shows "running r i q2" "frame r i 0 q q2" "tq_items q2 = tq_items q"
proof -
  have q2: "q2 = q \<or> (\<exists>f. q2 = set_con f q) \<or> q2 = set_state i TQ_ERROR (set_con TQ_ABORT q)"
    using assms(2) by (auto simp: general_thread_post_work_behavior_def split: if_splits)
  then show "running r i q2" "frame r i 0 q q2" "tq_items q2 = tq_items q"
    using assms(1) running_abort [OF assms(1)] running_set_con [OF assms(1)] frame_abort
    by (auto simp: frame_def)
qed

lemma consumer_worked_ok:
  assumes "running Consumer i q" "consumer_worked q i res pause = (q', t, s)"
  shows "sec_ok Consumer i 1 q q' (th_pc t)"
proof -
  obtain q2 s2 where p: "general_thread_post_work_behavior q i res = (q2, s2)" by fastforce
  note r = post_work_ok [OF assms(1) p]
  have "sec_ok Consumer i 1 q2 q' (th_pc t)"
    using assms(2) p consumer_top_ok [OF r(1)] by (auto simp: consumer_worked_def split: prod.splits)
  from sec_ok_frame [OF r(2,3) this] show ?thesis by simp
qed

lemma producer_worked_ok:
  assumes "running Producer i q" "producer_worked q i res pause w = (q', t, s)"
  shows "sec_ok Producer i 1 q q' (th_pc t)"
proof -
  obtain q2 s2 where p: "general_thread_post_work_behavior q i res = (q2, s2)" by fastforce
  note r = post_work_ok [OF assms(1) p]
  have "sec_ok Producer i 1 q2 q' (th_pc t)"
    using assms(2) p producer_top_ok [OF r(1)] by (auto simp: producer_worked_def split: prod.splits)
  from sec_ok_frame [OF r(2,3) this] show ?thesis by simp
qed

definition unstarted :: "role \<Rightarrow> nat \<Rightarrow> tq \<Rightarrow> bool" where
  "unstarted r i q \<longleftrightarrow>
     tq_inv q \<and> pool_of r q \<noteq> None \<and> i < length (tq_state_flags q) \<and>
     \<not> has (tq_state_flags q ! i) TQ_READY \<and> \<not> has (tq_state_flags q ! i) TQ_HALTED \<and>
     0 < act_thrds r q \<and> act_thrds r q < 2 ^ 31 \<and>
     (r = Consumer \<longrightarrow> (\<forall>p. tq_prod_pool q = Some p \<longrightarrow> wp_start p + wp_num p \<le> i))"

lemma init_ready:
  assumes "unstarted r i q" "general_thread_init_behavior q i res = (ok, q2, s)"
  shows "ok \<Longrightarrow> running r i q2" "ok \<Longrightarrow> frame r i 0 q q2" "tq_items q2 = tq_items q"
    and "\<not> ok \<Longrightarrow> sec_ok r i 1 q q2 T_failed"
proof -
  have q2: "ok \<and> q2 = set_state i TQ_READY q \<or> \<not> ok \<and> q2 = set_con TQ_ABORT (set_state i TQ_ERROR q)"
    using assms(2) by (auto simp: general_thread_init_behavior_def split: if_splits)
  then show "ok \<Longrightarrow> running r i q2" "ok \<Longrightarrow> frame r i 0 q q2" "tq_items q2 = tq_items q"
    using assms(1) by (auto simp: running_def unstarted_def)
  show "\<not> ok \<Longrightarrow> sec_ok r i 1 q q2 T_failed"
    using q2 assms(1) by (auto simp: sec_ok_def unstarted_def  pc_defs)
qed

lemma consumer_start_ok:
  assumes "unstarted Consumer i q" "consumer_start q i res pause = (q', t, s)"
  shows "sec_ok Consumer i 1 q q' (th_pc t)"
proof -
  obtain ok q2 s2 where p: "general_thread_init_behavior q i res = (ok, q2, s2)"
    by (metis prod_cases3)
  note r = init_ready [OF assms(1) p]
  show ?thesis
  proof (cases ok)
    case True
    have "sec_ok Consumer i 1 q2 q' (th_pc t)"
      using assms(2) p True consumer_top_ok [OF r(1) [OF True]]
      by (auto simp: consumer_start_def split: prod.splits)
    from sec_ok_frame [OF r(2) [OF True] r(3) this] show ?thesis by simp
  next
    case False
    with assms(2) p r(4) show ?thesis by (auto simp: consumer_start_def)
  qed
qed

lemma producer_start_ok:
  assumes "unstarted Producer i q" "producer_start q i res pause = (q', t, s)"
  shows "sec_ok Producer i 1 q q' (th_pc t)"
proof -
  obtain ok q2 s2 where p: "general_thread_init_behavior q i res = (ok, q2, s2)"
    by (metis prod_cases3)
  note r = init_ready [OF assms(1) p]
  show ?thesis
  proof (cases ok)
    case True
    have "sec_ok Producer i 1 q2 q' (th_pc t)"
      using assms(2) p True producer_top0_ok [OF r(1) [OF True]]
      by (auto simp: producer_start_def split: prod.splits)
    from sec_ok_frame [OF r(2) [OF True] r(3) this] show ?thesis by simp
  next
    case False
    with assms(2) p r(4) show ?thesis by (auto simp: producer_start_def)
  qed
qed

section \<open>The packages of a section\<close>

text \<open>
  Whatever a section does, the packages of the queue followed by the one that the thread hands
  over are the one that the thread receives followed by the packages left.
\<close>

lemma consumer_act_items:
  assumes "tq_inv q" "\<not> consumer_waits q" "consumer_act q i w = (q', t, s)"
  shows "tq_items q = received t @ tq_items q'"
proof (cases "th_pc t = C_work")
  case True
  then have "t = \<lparr>th_pc = C_work, th_work = ring_peek q\<rparr>" "q' = ring_take q" "tq_qdepth q \<noteq> 0"
    using assms(2,3)
    by (auto simp: consumer_act_def consumer_waits_def thread_term_def Let_def split: if_splits prod.splits)
  then show ?thesis
    using ring_take_inv [OF assms(1)] ring.front_items [OF assms(1)] by (simp add: received_def)
next
  case False
  then have "tq_items q' = tq_items q"
    using assms(3) by (auto simp: consumer_act_def thread_term_def general_thread_term_behavior_def
        Let_def split: if_splits)
  with False show ?thesis by (simp add: received_def)
qed

lemma consumer_top_items:
  assumes "tq_inv q" "consumer_top q i pause w = (q', t, s)"
  shows "tq_items q = received t @ tq_items q'"
proof (cases "consumer_waits q")
  case False
  then show ?thesis
    using assms consumer_act_items [OF assms(1) False] by (simp add: consumer_top_def)
next
  case True
  obtain ok q2 s2 w2 where p: "general_thread_pause_behavior q Consumer i pause w = (ok, q2, s2, w2)"
    by (metis prod_cases4)
  then have e: "tq_items q2 = tq_items q" "tq_inv q2 = tq_inv q"
    by (auto simp: general_thread_pause_behavior_def split: if_splits prod.splits)
  show ?thesis
  proof (cases ok)
    case ok: True
    then have "q' = q2" "th_pc t = C_wait" using assms(2) True p by (auto simp: consumer_top_def)
    with e show ?thesis by (simp add: received_def)
  next
    case False
    obtain s3 where a: "consumer_act q2 i w2 = (q', t, s3)"
      using assms(2) True p False by (auto simp: consumer_top_def split: prod.splits)
    have "\<not> consumer_waits q2" by (simp add: pause_abort [OF p False] consumer_waits_def)
    from consumer_act_items [OF _ this a] e assms(1) show ?thesis by simp
  qed
qed

lemma producer_act_items:
  assumes "tq_inv q" "\<not> producer_waits q" "producer_act q i w = (q', t, s)"
  shows "tq_items q' = tq_items q @ handed q' t w \<and> th_pc t \<noteq> P_wait \<and> th_pc t \<noteq> C_work"
proof (cases "cflag q TQ_ABORT")
  case True
  then show ?thesis
    using assms(3) by (auto simp: producer_act_def handed_def thread_term_def
        general_thread_term_behavior_def cflag_def)
next
  case False
  then have d: "tq_qdepth q < tq_max_qdepth q"
    using assms(2) tq_inv_depth [OF assms(1)] by (auto simp: producer_waits_def)
  let ?q = "if w \<noteq> 0 then ring_put w q else q"
  have q': "tq_items q' = tq_items ?q" "cflag q' TQ_ABORT = cflag q TQ_ABORT"
    "th_pc t \<noteq> P_wait" "th_pc t \<noteq> C_work"
    using assms(3) False
    by (auto simp: producer_act_def thread_term_def general_thread_term_behavior_def Let_def
        split: if_splits)
  show ?thesis
    using q' False ring_put_items [OF assms(1) d] by (auto simp: handed_def)
qed

lemma producer_top_items:
  assumes "tq_inv q" "producer_top q i pause w = (q', t, s)"
  shows "tq_items q' = tq_items q @ handed q' t w \<and> th_pc t \<noteq> C_work"
proof (cases "producer_waits q")
  case False
  then show ?thesis
    using assms producer_act_items [OF assms(1) False] by (simp add: producer_top_def)
next
  case True
  obtain ok q2 s2 w2 where p: "general_thread_pause_behavior q Producer i pause w = (ok, q2, s2, w2)"
    by (metis prod_cases4)
  then have e: "tq_items q2 = tq_items q" "tq_inv q2 = tq_inv q"
    by (auto simp: general_thread_pause_behavior_def split: if_splits prod.splits)
  show ?thesis
  proof (cases ok)
    case ok: True
    then have "q' = q2" "th_pc t = P_wait" using assms(2) True p by (auto simp: producer_top_def)
    with e show ?thesis by (simp add: handed_def)
  next
    case False
    obtain s3 where a: "producer_act q2 i w2 = (q', t, s3)"
      using assms(2) True p False by (auto simp: producer_top_def split: prod.splits)
    have ab: "cflag q2 TQ_ABORT" by (simp add: pause_abort [OF p False])
    then have "\<not> producer_waits q2" "cflag q' TQ_ABORT"
      using a by (auto simp: producer_waits_def producer_act_def thread_term_def
          general_thread_term_behavior_def cflag_def)
    from producer_act_items [OF _ this(1) a] this(2) e assms(1) show ?thesis
      by (simp add: handed_def)
  qed
qed

lemma producer_top0_items:
  "producer_top0 q i pause w = (q', t, s) \<Longrightarrow> tq_items q' = tq_items q \<and> received t = []"
  by (auto simp: producer_top0_def general_thread_pause_behavior_def received_def
      split: if_splits prod.splits)

lemma resume_items:
  assumes "general_thread_resume_behavior q r i resume w = (ok, q2, s, w2)"
  shows "tq_items q2 = tq_items q" "tq_inv q2 = tq_inv q" "\<not> ok \<Longrightarrow> cflag q2 TQ_ABORT"
    and "w2 = resumed q i resume w"
  using assms by (auto simp: general_thread_resume_behavior_def resumed_def Let_def
      split: if_splits prod.splits)

lemma post_work_items:
  assumes "general_thread_post_work_behavior q i res = (q2, s)"
  shows "tq_items q2 = tq_items q" "tq_inv q2 = tq_inv q"
  using assms by (auto simp: general_thread_post_work_behavior_def split: if_splits)

lemma init_items:
  assumes "general_thread_init_behavior q i res = (ok, q2, s)"
  shows "tq_items q2 = tq_items q" "tq_inv q2 = tq_inv q"
  using assms by (auto simp: general_thread_init_behavior_def split: if_splits)

lemma consumer_wake_items:
  assumes "tq_inv q" "consumer_wake q i resume pause w = (q', t, s)"
  shows "tq_items q = received t @ tq_items q'"
proof -
  obtain ok q2 s2 w2 where p: "general_thread_resume_behavior q Consumer i resume w = (ok, q2, s2, w2)"
    by (metis prod_cases4)
  note r = resume_items [OF p]
  obtain s3 where "(if ok then consumer_top q2 i pause w2 else consumer_act q2 i w2) = (q', t, s3)"
    using assms(2) p by (auto simp: consumer_wake_def split: prod.splits if_splits)
  then show ?thesis
    using consumer_top_items [of q2 i pause w2] consumer_act_items [of q2 i w2] r assms(1)
    by (cases ok) (auto simp: consumer_waits_def)
qed

lemma producer_wake_items:
  assumes "tq_inv q" "producer_wake q i resume pause w = (q', t, s)"
  shows "tq_items q' = tq_items q @ handed q' t (resumed q i resume w) \<and> th_pc t \<noteq> C_work"
proof -
  obtain ok q2 s2 w2 where p: "general_thread_resume_behavior q Producer i resume w = (ok, q2, s2, w2)"
    by (metis prod_cases4)
  note r = resume_items [OF p]
  obtain s3 where "(if ok then producer_top q2 i pause w2 else producer_act q2 i w2) = (q', t, s3)"
    using assms(2) p by (auto simp: producer_wake_def split: prod.splits if_splits)
  then show ?thesis
    using producer_top_items [of q2 i pause w2] producer_act_items [of q2 i w2] r assms(1)
    by (cases ok) (auto simp: producer_waits_def)
qed

lemma producer_wake0_items:
  assumes "producer_wake0 q i resume pause w = (q', t, s)"
  shows "tq_items q' = tq_items q \<and> received t = []"
proof -
  obtain ok q2 s2 w2 where p: "general_thread_resume_behavior q Producer i resume w = (ok, q2, s2, w2)"
    by (metis prod_cases4)
  show ?thesis
    using assms p resume_items(1) [OF p] producer_top0_items [of q2 i pause w2]
    by (cases ok) (auto simp: producer_wake0_def received_def split: prod.splits)
qed

lemma start_items:
  "tq_inv q \<Longrightarrow> consumer_start q i res pause = (q', t, s) \<Longrightarrow> tq_items q = received t @ tq_items q'"
  "producer_start q i res pause = (q', t, s) \<Longrightarrow> tq_items q' = tq_items q \<and> received t = []"
  using init_items [of q i res] consumer_top_items producer_top0_items
  by (fastforce simp: consumer_start_def producer_start_def received_def split: prod.splits if_splits)+

lemma worked_items:
  "tq_inv q \<Longrightarrow> consumer_worked q i res pause = (q', t, s) \<Longrightarrow> tq_items q = received t @ tq_items q'"
  "tq_inv q \<Longrightarrow> producer_worked q i res pause w = (q', t, s) \<Longrightarrow>
   tq_items q' = tq_items q @ handed q' t w \<and> th_pc t \<noteq> C_work"
  using post_work_items [of q i res] consumer_top_items producer_top_items
  by (fastforce simp: consumer_worked_def producer_worked_def split: prod.splits)+

lemma section_items:
  assumes "thread_section q i t0 ins (q', t, sg)" "tq_inv q"
  shows "tq_items q @ ins = received t @ tq_items q'"
  using assms(1)
proof (cases rule: thread_section.cases)
  case (start_cons init_res pause)
  then show ?thesis using start_items(1) [OF assms(2) start_cons(2) [symmetric]] by simp
next
  case (start_prod init_res pause)
  then show ?thesis using start_items(2) [OF start_prod(2) [symmetric]] by simp
next
  case (wake_cons resume pause)
  then show ?thesis using consumer_wake_items [OF assms(2) wake_cons(2) [symmetric]] by simp
next
  case (work_cons work_res pause)
  then show ?thesis using worked_items(1) [OF assms(2) work_cons(2) [symmetric]] by simp
next
  case (wake_prod0 resume pause)
  then show ?thesis using producer_wake0_items [OF wake_prod0(2) [symmetric]] by simp
next
  case (wake_prod resume pause)
  then show ?thesis using producer_wake_items [OF assms(2) wake_prod(3)] by (simp add: received_def)
next
  case (work_prod work_res pause w)
  then show ?thesis using worked_items(2) [OF assms(2) work_prod(3)] by (simp add: received_def)
qed

section \<open>The invariant of the system\<close>

definition pool_ids :: "tq \<Rightarrow> role \<Rightarrow> nat set" where
  "pool_ids q r = {i. i < num_thrds q \<and> role_of q i = r}"

text \<open>The layout of the pools: producers first, then consumers.\<close>

definition layout_ok :: "tq \<Rightarrow> bool" where
  "layout_ok q \<longleftrightarrow>
     length (tq_state_flags q) = num_thrds q \<and> num_thrds q < 2 ^ 31 - 1 \<and>
     (\<forall>p. tq_prod_pool q = Some p \<longrightarrow> wp_start p = 0)"

text \<open>The flags of a thread agree with where it stands.\<close>

definition thread_ok :: "tq \<Rightarrow> nat \<Rightarrow> tpc \<Rightarrow> bool" where
  "thread_ok q i pc \<longleftrightarrow>
     (has (tq_state_flags q ! i) TQ_READY \<longleftrightarrow> alive pc) \<and> pc_role (role_of q i) pc \<and>
     (has (tq_state_flags q ! i) TQ_HALTED \<longrightarrow>
        pc \<noteq> T_new \<and> (alive pc \<longrightarrow> waiting pc \<or> cflag q TQ_FINISHED \<or> cflag q TQ_ABORT)) \<and>
     (pc = T_exit \<longrightarrow> cflag q TQ_FINISHED \<or> cflag q TQ_ABORT) \<and>
     (pc = T_failed \<longrightarrow> cflag q TQ_ABORT)"

definition counts_ok :: "sys \<Rightarrow> bool" where
  "counts_ok s \<longleftrightarrow>
     (\<forall>r. act_thrds r (sy_tq s) = (\<Sum>i \<in> pool_ids (sy_tq s) r. counted (th_pc (sy_thr s i))))"

definition sys_inv :: "sys \<Rightarrow> bool" where
  "sys_inv s \<longleftrightarrow>
     tq_inv (sy_tq s) \<and> layout_ok (sy_tq s) \<and>
     (\<forall>i < num_thrds (sy_tq s). thread_ok (sy_tq s) i (th_pc (sy_thr s i))) \<and>
     counts_ok s \<and> sy_in s = sy_out s @ tq_items (sy_tq s)"

lemma finite_pool_ids [simp]: "finite (pool_ids q r)"
  by (simp add: pool_ids_def)

lemma count_upd:
  assumes "i \<in> A" "finite A"
  shows "(\<Sum>j \<in> A. counted (th_pc ((f(i := t)) j))) + counted (th_pc (f i)) =
         (\<Sum>j \<in> A. counted (th_pc (f j))) + counted (th_pc t)"
proof -
  have "(\<Sum>j \<in> A - {i}. counted (th_pc ((f(i := t)) j))) = (\<Sum>j \<in> A - {i}. counted (th_pc (f j)))"
    by (rule sum.cong) auto
  then show ?thesis
    using assms by (simp add: sum.remove [of A i])
qed

lemma count_upd_other:
  "i \<notin> A \<Longrightarrow> (\<Sum>j \<in> A. counted (th_pc ((f(i := t)) j))) = (\<Sum>j \<in> A. counted (th_pc (f j)))"
  by (rule sum.cong) auto

lemma count_bound: "(\<Sum>i \<in> pool_ids q r. counted (th_pc (f i))) \<le> num_thrds q"
proof -
  have "(\<Sum>i \<in> pool_ids q r. counted (th_pc (f i))) \<le> (\<Sum>i \<in> pool_ids q r. 1)"
    by (rule sum_mono) (simp add: counted_def)
  also have "\<dots> \<le> (\<Sum>i \<in> {..<num_thrds q}. 1)"
    by (rule sum_mono2) (auto simp: pool_ids_def)
  finally show ?thesis by simp
qed

lemma count_pos:
  "i \<in> A \<Longrightarrow> finite A \<Longrightarrow> counted (th_pc (f i)) = 1 \<Longrightarrow> 0 < (\<Sum>j \<in> A. counted (th_pc (f j)))"
  by (simp add: sum.remove [of A i])

subsection \<open>Every step keeps it\<close>

lemma role_pool:
  assumes "i < num_thrds q"
  shows "pool_of (role_of q i) q \<noteq> None"
  using assms by (auto simp: role_of_def num_thrds_def num_prods_def pool_of_def split: option.splits if_splits)

lemma consumer_behind:
  assumes "layout_ok q" "role_of q i = Consumer" "tq_prod_pool q = Some p"
  shows "wp_start p + wp_num p \<le> i"
  using assms by (auto simp: layout_ok_def role_of_def num_prods_def split: if_splits)

lemma sys_inv_thread:
  assumes "sys_inv s" "i < num_thrds (sy_tq s)"
  defines "q \<equiv> sy_tq s" and "pc \<equiv> th_pc (sy_thr s i)"
  defines "r \<equiv> role_of q i"
  shows "pc = T_new \<Longrightarrow> unstarted r i q" "waiting pc \<Longrightarrow> sleeping r i q"
    and "alive pc \<Longrightarrow> \<not> waiting pc \<Longrightarrow> running r i q"
proof -
  have act: "act_thrds r q = (\<Sum>j \<in> pool_ids q r. counted (th_pc (sy_thr s j)))"
    using assms(1) by (simp add: sys_inv_def counts_ok_def q_def)
  have lay: "layout_ok q" "i < num_thrds q" "tq_inv q"
    using assms(1,2) by (simp_all add: sys_inv_def q_def)
  have bound: "act_thrds r q < 2 ^ 31 - 1"
    using count_bound [of "\<lambda>j. sy_thr s j" q r] lay(1) act by (simp add: layout_ok_def)
  have mem: "i \<in> pool_ids q r" using lay(2) by (simp add: pool_ids_def r_def)
  have pos: "0 < act_thrds r q" if "counted pc = 1"
    using count_pos [OF mem, of "sy_thr s"] that act by (simp add: pc_def)
  have ok: "thread_ok q i pc"
    using assms(1,2) by (simp add: sys_inv_def q_def pc_def)
  note cb = consumer_behind [OF lay(1), of i] and rp = role_pool [OF lay(2)]
  have len: "i < length (tq_state_flags q)" using lay by (simp add: layout_ok_def)
  show "pc = T_new \<Longrightarrow> unstarted r i q"
    using lay bound pos ok cb rp len by (auto simp: unstarted_def thread_ok_def pc_defs r_def)
  show "waiting pc \<Longrightarrow> sleeping r i q"
    using lay bound ok cb rp len by (auto simp: sleeping_def thread_ok_def pc_defs r_def)
  show "alive pc \<Longrightarrow> \<not> waiting pc \<Longrightarrow> running r i q"
    using lay bound pos ok cb rp len by (auto simp: running_def thread_ok_def pc_defs r_def)
qed

lemma thread_section_ok:
  assumes inv: "sys_inv s" and i: "i < num_thrds (sy_tq s)"
    and sec: "thread_section (sy_tq s) i (sy_thr s i) ins (q', t, sg)"
  shows "sec_ok (role_of (sy_tq s) i) i (counted (th_pc (sy_thr s i))) (sy_tq s) q' (th_pc t)"
proof -
  note st = sys_inv_thread [OF inv i]
  have ok: "pc_role (role_of (sy_tq s) i) (th_pc (sy_thr s i))"
    using inv i by (simp add: sys_inv_def thread_ok_def)
  have rC: "role_of (sy_tq s) i = Consumer" if "th_pc (sy_thr s i) \<in> {C_wait, C_work}"
    using ok that by (cases "role_of (sy_tq s) i") (auto simp: pc_role_def)
  have rP: "role_of (sy_tq s) i = Producer" if "th_pc (sy_thr s i) \<in> {P_wait0, P_wait, P_work}"
    using ok that by (cases "role_of (sy_tq s) i") (auto simp: pc_role_def)
  from sec show ?thesis
  proof (cases rule: thread_section.cases)
    case (start_cons init_res pause)
    then show ?thesis
      using st(1) consumer_start_ok [OF _ start_cons(2) [symmetric]] by (auto simp: pc_defs)
  next
    case (start_prod init_res pause)
    then show ?thesis
      using st(1) producer_start_ok [OF _ start_prod(2) [symmetric]] by (auto simp: pc_defs)
  next
    case (wake_cons resume pause)
    then show ?thesis
      using st(2) rC consumer_wake_ok [OF _ wake_cons(2) [symmetric]] by (auto simp: pc_defs)
  next
    case (work_cons work_res pause)
    then show ?thesis
      using st(3) rC consumer_worked_ok [OF _ work_cons(2) [symmetric]] by (auto simp: pc_defs)
  next
    case (wake_prod0 resume pause)
    then show ?thesis
      using st(2) rP producer_wake0_ok [OF _ wake_prod0(2) [symmetric]] by (auto simp: pc_defs)
  next
    case (wake_prod resume pause)
    then show ?thesis
      using st(2) rP producer_wake_ok [OF _ wake_prod(3)] by (auto simp: pc_defs)
  next
    case (work_prod work_res pause w)
    then show ?thesis
      using st(3) rP producer_worked_ok [OF _ work_prod(3)] by (auto simp: pc_defs)
  qed
qed

lemma role_of_shape: "num_prods q' = num_prods q \<Longrightarrow> role_of q' i = role_of q i"
  by (simp add: role_of_def)

lemma pool_ids_shape:
  "num_thrds q' = num_thrds q \<Longrightarrow> num_prods q' = num_prods q \<Longrightarrow> pool_ids q' r = pool_ids q r"
  by (simp add: pool_ids_def role_of_def)

lemma layout_shape:
  assumes "layout_ok q" "\<And>r. pool_shape r q' = pool_shape r q"
    and "length (tq_state_flags q') = length (tq_state_flags q)"
  shows "layout_ok q'"
proof -
  have "wp_start p = 0" if "tq_prod_pool q' = Some p" for p
    using assms(1) assms(2) [of Producer] that
    by (cases "tq_prod_pool q") (auto simp: pool_shape_def pool_of_def layout_ok_def)
  then show ?thesis
    using assms(1,3) shape_sizes [OF assms(2)] by (simp add: layout_ok_def)
qed

lemma thread_ok_mono:
  assumes "thread_ok q j pc" "tq_state_flags q' ! j = tq_state_flags q ! j"
    and "role_of q' j = role_of q j"
    and "cflag q TQ_FINISHED \<longrightarrow> cflag q' TQ_FINISHED" "cflag q TQ_ABORT \<longrightarrow> cflag q' TQ_ABORT"
  shows "thread_ok q' j pc"
  using assms by (auto simp: thread_ok_def)

lemma sys_thread_simps [simp]:
  "sy_tq (sys_thread s i ins (q', t, sg)) = q'"
  "sy_thr (sys_thread s i ins (q', t, sg)) = (sy_thr s)(i := t)"
  "sy_in (sys_thread s i ins (q', t, sg)) = sy_in s @ ins"
  "sy_out (sys_thread s i ins (q', t, sg)) = sy_out s @ received t"
  "sy_woken (sys_thread s i ins (q', t, sg)) = (sy_woken s \<union> reached (sy_thr s) sg) - {i}"
  by (simp_all add: sys_thread_def)

lemma sys_master_simps [simp]:
  "sy_tq (sys_master s q' ins outs sg) = q'" "sy_thr (sys_master s q' ins outs sg) = sy_thr s"
  "sy_in (sys_master s q' ins outs sg) = sy_in s @ ins"
  "sy_out (sys_master s q' ins outs sg) = sy_out s @ outs"
  "sy_woken (sys_master s q' ins outs sg) = sy_woken s \<union> reached (sy_thr s) sg"
  by (simp_all add: sys_master_def)

lemma sys_inv_thread_step:
  assumes inv: "sys_inv s" and i: "i < num_thrds (sy_tq s)"
    and sec: "thread_section (sy_tq s) i (sy_thr s i) ins (q', t, sg)"
  shows "sys_inv (sys_thread s i ins (q', t, sg))"
proof -
  let ?q = "sy_tq s" and ?r = "role_of (sy_tq s) i"
  have ok: "sec_ok ?r i (counted (th_pc (sy_thr s i))) ?q q' (th_pc t)"
    by (rule thread_section_ok [OF inv i sec])
  then have shape: "\<And>r. pool_shape r q' = pool_shape r ?q" by (simp add: sec_ok_def)
  note sz = shape_sizes [OF shape]
  have ro: "role_of q' j = role_of ?q j" for j using sz by (simp add: role_of_def)
  have ids: "pool_ids q' r = pool_ids ?q r" for r by (rule pool_ids_shape) (use sz in simp_all)
  have lay: "layout_ok q'"
    using layout_shape [OF _ shape] inv ok by (simp add: sys_inv_def sec_ok_def)
  have thr: "thread_ok q' j (th_pc (((sy_thr s)(i := t)) j))" if j: "j < num_thrds q'" for j
  proof (cases "j = i")
    case True
    then show ?thesis using ok ro by (auto simp: thread_ok_def sec_ok_def may_exit_def)
  next
    case False
    have "thread_ok ?q j (th_pc (sy_thr s j))" using inv j sz by (simp add: sys_inv_def)
    then show ?thesis using thread_ok_mono [of ?q j _ q'] ok False ro by (simp add: sec_ok_def)
  qed
  have cnt: "act_thrds r q' = (\<Sum>j \<in> pool_ids ?q r. counted (th_pc (((sy_thr s)(i := t)) j)))" for r
  proof -
    have a: "act_thrds r ?q = (\<Sum>j \<in> pool_ids ?q r. counted (th_pc (sy_thr s j)))"
      using inv by (simp add: sys_inv_def counts_ok_def)
    show ?thesis
    proof (cases "r = ?r")
      case True
      have "i \<in> pool_ids ?q r" using i True by (simp add: pool_ids_def)
      then have "(\<Sum>j \<in> pool_ids ?q r. counted (th_pc (((sy_thr s)(i := t)) j))) + counted (th_pc (sy_thr s i)) =
          act_thrds r ?q + counted (th_pc t)"
        using count_upd [of i "pool_ids ?q r" "sy_thr s" t] a by simp
      with ok True show ?thesis by (simp add: sec_ok_def)
    next
      case False
      then have "i \<notin> pool_ids ?q r" by (auto simp: pool_ids_def)
      from count_upd_other [OF this, of "sy_thr s" t] a ok False show ?thesis
        by (simp add: sec_ok_def)
    qed
  qed
  have log: "sy_in s @ ins = (sy_out s @ received t) @ tq_items q'"
    using section_items [OF sec] inv by (simp add: sys_inv_def)
  have "tq_inv q'" using ok by (simp add: sec_ok_def)
  with lay thr cnt log ids show ?thesis by (simp add: sys_inv_def counts_ok_def)
qed

text \<open>
  A master changes neither the threads' flags nor the pools, and never removes FINISHED or ABORT;
  a timely call stores nothing in a finished queue.
\<close>

definition master_ok :: "tq \<Rightarrow> tq \<Rightarrow> bool" where
  "master_ok q q' \<longleftrightarrow>
     tq_inv q' \<and> (\<forall>r. pool_of r q' = pool_of r q) \<and>
     tq_state_flags q' = tq_state_flags q \<and>
     (cflag q TQ_FINISHED \<longrightarrow> cflag q' TQ_FINISHED) \<and>
     (cflag q TQ_ABORT \<longrightarrow> cflag q' TQ_ABORT)"

lemma has_not_ign: "has f g \<Longrightarrow> \<not> has ign g \<Longrightarrow> has f (NOT ign)"
proof -
  assume a: "has f g" "\<not> has ign g"
  have "f AND g = f AND g AND (ign OR NOT ign)" by simp
  also have "\<dots> = (f AND (g AND ign)) OR (f AND g AND NOT ign)"
    by (simp only: bit.conj_disj_distrib and.assoc)
  also have "g AND ign = 0" using a(2) by (simp add: has_def and.commute)
  finally have "f AND g AND NOT ign \<noteq> 0" using a(1) by (simp add: has_def)
  then have "(f AND NOT ign) AND g \<noteq> 0" by (simp add: and.commute and.left_commute)
  then show "has f (NOT ign)" by (auto simp: has_def)
qed

lemma has_unset_halt [simp]:
  "has (f AND NOT TQ_HALT) TQ_FINISHED \<longleftrightarrow> has f TQ_FINISHED"
  "has (f AND NOT TQ_HALT) TQ_ABORT \<longleftrightarrow> has f TQ_ABORT"
proof -
  have n: "NOT TQ_HALT AND TQ_FINISHED = TQ_FINISHED" "NOT TQ_HALT AND TQ_ABORT = TQ_ABORT"
    by (simp_all add: tq_flag_defs)
  show "has (f AND NOT TQ_HALT) TQ_FINISHED \<longleftrightarrow> has f TQ_FINISHED"
    "has (f AND NOT TQ_HALT) TQ_ABORT \<longleftrightarrow> has f TQ_ABORT"
    unfolding has_def and.assoc n by simp_all
qed

lemma ring_drop_depth: "tq_inv q \<Longrightarrow> tq_qdepth q \<noteq> 0 \<Longrightarrow> tq_qdepth (ring_drop q) \<le> tq_qdepth q"
  using items_depth [OF ring_drop_items(1)] by simp

lemma enqueue_cases:
  assumes "tq_enqueue q ign w = Ret r q' sg" "tq_inv q"
  shows "r \<noteq> 0 \<and> q' = q \<or>
    r = 0 \<and> q' = ring_put w q \<and> tq_qdepth q < tq_max_qdepth q \<and> \<not> has (tq_con_flags q) (NOT ign)"
  using assms(1) tq_inv_depth [OF assms(2)] by (auto simp: tq_enqueue_def Let_def split: if_splits)

lemma dequeue_cases:
  assumes "tq_dequeue q ign = Ret (r, wo) q' sg"
  shows "\<not> 0 < r \<and> q' = q \<or> 0 < r \<and> q' = ring_drop q \<and> wo = Some (ring_peek q) \<and> tq_qdepth q \<noteq> 0"
  using assms by (auto simp: tq_dequeue_def Let_def split: if_splits)

lemma master_call_items:
  assumes "master_call c q q' ins outs sg" "tq_inv q"
  shows "tq_items q @ ins = outs @ tq_items q'" "tq_inv q'"
proof -
  have "tq_items q @ ins = outs @ tq_items q' \<and> tq_inv q'"
    using assms(1)
  proof (cases rule: master_call.cases)
    case (enqueue ign w r)
    then show ?thesis
      using enqueue_cases [OF enqueue(4) assms(2)] ring_put_items [OF assms(2)]
        ring_put_inv [OF assms(2)] assms(2) by auto
  next
    case (dequeue ign r wo)
    then show ?thesis
      using dequeue_cases [OF dequeue(4)] ring.take_items [OF assms(2)]
        ring_drop_inv [OF assms(2)] assms(2) by auto
  next
    case (set_flags f r)
    then show ?thesis using assms(2) by (auto simp: tq_set_flags_def)
  next
    case (unset_halt r)
    then show ?thesis
      using assms(2) by (auto simp: tq_unset_flags_def tq_inv_def tq_items_def)
  next
    case (next_status join r)
    then have "q' = q \<or> (\<exists>n. q' = q\<lparr>tq_uncoll_thrds := n\<rparr>)"
      by (auto simp: tq_next_thread_status_def Let_def split: if_splits)
    then show ?thesis using next_status assms(2) by (auto simp: tq_inv_def tq_items_def)
  qed
  then show "tq_items q @ ins = outs @ tq_items q'" "tq_inv q'" by simp_all
qed

lemma master_call_ok:
  assumes "master_call c q q' ins outs sg" "tq_inv q"
  shows "master_ok q q'"
  using assms(1)
proof (cases rule: master_call.cases)
  case (enqueue ign w r)
  then show ?thesis
    using enqueue_cases [OF enqueue(4) assms(2)] master_call_items(2) [OF assms]
    by (auto simp: master_ok_def)
next
  case (dequeue ign r wo)
  then show ?thesis
    using dequeue_cases [OF dequeue(4)] master_call_items(2) [OF assms]
    by (auto simp: master_ok_def)
next
  case (set_flags f r)
  then show ?thesis
    using assms(2) by (auto simp: tq_set_flags_def master_ok_def)
next
  case (unset_halt r)
  then have q': "q' = q\<lparr>tq_con_flags := tq_con_flags q AND NOT TQ_HALT\<rparr>"
    by (simp add: tq_unset_flags_def)
  show ?thesis
    using master_call_items(2) [OF assms] by (auto simp: q' master_ok_def pool_of_def
        cflag_def split: role.splits)
next
  case (next_status join r)
  then have "q' = q \<or> (\<exists>n. q' = q\<lparr>tq_uncoll_thrds := n\<rparr>)"
    by (auto simp: tq_next_thread_status_def Let_def split: if_splits)
  then show ?thesis
    using master_call_items(2) [OF assms] by (auto simp: master_ok_def pool_of_def
        cflag_def split: role.splits)
qed

lemma master_timely:
  assumes "master_call c q q' ins outs sg" "tq_inv q" "timely c" "cflag q TQ_FINISHED"
  shows "tq_qdepth q' \<le> tq_qdepth q"
  using assms(1)
proof (cases rule: master_call.cases)
  case (enqueue ign w r)
  have "has (tq_con_flags q) (NOT ign)"
    using has_not_ign [of "tq_con_flags q" TQ_FINISHED ign] assms(3,4) enqueue(1)
    by (simp add: cflag_def timely_def)
  then show ?thesis using enqueue_cases [OF enqueue(4) assms(2)] by auto
next
  case (dequeue ign r wo)
  then show ?thesis
    using dequeue_cases [OF dequeue(4)] ring_drop_depth [OF assms(2)] by auto
next
  case (set_flags f r)
  then show ?thesis by (auto simp: tq_set_flags_def)
next
  case (unset_halt r)
  then show ?thesis by (auto simp: tq_unset_flags_def)
next
  case (next_status join r)
  then show ?thesis by (auto simp: tq_next_thread_status_def Let_def split: if_splits)
qed

lemma sys_inv_master_step:
  assumes inv: "sys_inv s" and call: "master_call c (sy_tq s) q' ins outs sg"
  shows "sys_inv (sys_master s q' ins outs sg)"
proof -
  let ?q = "sy_tq s"
  have ok: "master_ok ?q q'" using master_call_ok [OF call] inv by (simp add: sys_inv_def)
  have shape: "\<And>r. pool_shape r q' = pool_shape r ?q" using ok by (simp add: master_ok_def pool_shape_def)
  note sz = shape_sizes [OF shape]
  have ids: "pool_ids q' r = pool_ids ?q r" for r by (rule pool_ids_shape) (use sz in simp_all)
  have lay: "layout_ok q'"
    using layout_shape [OF _ shape] inv ok by (simp add: sys_inv_def master_ok_def)
  have thr: "thread_ok q' j (th_pc (sy_thr s j))" if j: "j < num_thrds q'" for j
  proof -
    have "thread_ok ?q j (th_pc (sy_thr s j))" using inv j sz by (simp add: sys_inv_def)
    moreover have "role_of q' j = role_of ?q j" using sz by (simp add: role_of_def)
    ultimately show ?thesis using thread_ok_mono [of ?q j _ q'] ok by (simp add: master_ok_def)
  qed
  have "act_thrds r q' = act_thrds r ?q" for r using ok by (simp add: master_ok_def act_thrds_def)
  moreover have "sy_in s @ ins = (sy_out s @ outs) @ tq_items q'"
    using master_call_items(1) [OF call] inv by (simp add: sys_inv_def)
  ultimately show ?thesis
    using lay thr ids inv ok by (simp add: sys_inv_def counts_ok_def master_ok_def)
qed

lemma sys_inv_step:
  assumes "sys_inv s" "sys_step ok s s'"
  shows "sys_inv s'"
  using assms(2)
proof (cases rule: sys_step.cases)
  case (thread i ins r)
  then show ?thesis using sys_inv_thread_step [OF assms(1)] by (cases r) auto
next
  case (master c q' ins outs sg)
  then show ?thesis using sys_inv_master_step [OF assms(1)] by simp
qed

text \<open>The start: every thread counts as active and is not ready.\<close>

lemma create_loop_later:
  "tID \<le> bound \<Longrightarrow> (\<And>j. n \<le> j \<Longrightarrow> create j) \<Longrightarrow>
   create_loop create r bound n tID started = (n + (bound - tID), bound, started @ map (Pair r) [tID..<bound])"
proof (induction "bound - tID" arbitrary: n tID started)
  case 0
  then show ?case by (simp add: create_loop.simps)
next
  case (Suc m)
  then have "[tID..<bound] = tID # [Suc tID..<bound]" by (intro upt_conv_Cons) simp
  with Suc show ?case by (subst create_loop.simps) simp
qed

lemmas create_loop_all = create_loop_later [where create = "\<lambda>_. True", simplified]

lemma tq_init_all:
  "tq_init (\<lambda>_. True) ops =
     (if tq_opts_abort ops then Inl EFail
      else Inr ((tq_fresh ops)\<lparr>tq_uncoll_thrds := op_num_threads ops\<rparr>,
                map (Pair Producer) [0..<op_num_prod_threads ops] @
                map (Pair Consumer) [op_num_prod_threads ops..<op_num_threads ops]))"
  by (auto simp: tq_init_def create_loop_all tq_opts_abort_def)

text \<open>The limits of the counters: fewer than \<open>2 ^ 31 - 1\<close> threads and slots.\<close>

definition opts_small :: "tq_opts \<Rightarrow> bool" where
  "opts_small ops \<longleftrightarrow> op_num_threads ops < 2 ^ 31 - 1 \<and> op_max_qdepth ops < 2 ^ 31"

lemma sys_inv_start:
  assumes "tq_init (\<lambda>_. True) ops = Inr (q, started)" "opts_small ops"
  shows "sys_inv (sys_start q)"
proof -
  have ab: "\<not> tq_opts_abort ops" and q: "q = (tq_fresh ops)\<lparr>tq_uncoll_thrds := op_num_threads ops\<rparr>"
    using assms(1) by (auto simp: tq_init_all split: if_splits)
  have le: "op_num_prod_threads ops \<le> op_num_threads ops" "0 < op_max_qdepth ops"
    using ab by (auto simp: tq_opts_abort_def)
  have sz: "num_thrds q = op_num_threads ops" "num_prods q = op_num_prod_threads ops"
    using le by (auto simp: q tq_fresh_def num_thrds_def num_prods_def)
  have ids: "pool_ids q Producer = {..<op_num_prod_threads ops}"
    "pool_ids q Consumer = {op_num_prod_threads ops..<op_num_threads ops}"
    using sz le by (auto simp: pool_ids_def role_of_def split: if_splits)
  have pl: "act_thrds Producer q = op_num_prod_threads ops"
    "act_thrds Consumer q = op_num_threads ops - op_num_prod_threads ops"
    using le by (auto simp: act_thrds_def pool_of_def q tq_fresh_def)
  have cnt: "act_thrds r q = (\<Sum>i \<in> pool_ids q r. counted T_new)" for r
    by (cases r) (simp_all add: ids pl counted_def waiting_def)
  have "thread_ok q i T_new" if "i < op_num_threads ops" for i
    using that by (auto simp: thread_ok_def q tq_fresh_def pc_defs)
  moreover have "tq_inv q" "layout_ok q" "tq_items q = []"
    using assms(2) le sz by (auto simp: tq_inv_def layout_ok_def q tq_fresh_def opts_small_def tq_items_def)
  ultimately show ?thesis
    using cnt sz by (simp add: sys_inv_def sys_start_def counts_ok_def)
qed

lemma tq_reach_inv: "sys_reach ok ops s \<Longrightarrow> opts_small ops \<Longrightarrow> sys_inv s"
  by (induction rule: sys_reach.induct) (auto intro: sys_inv_start sys_inv_step)

end
