(* ===== verification/TQCalls.thy ===== *)
theory TQCalls
  imports TQThreads
begin

text \<open>
  The calls of a master that wait for all threads (\<^verbatim>\<open>tq_check_init\<close>, \<^verbatim>\<open>tq_wait_for_pause\<close>,
  \<^verbatim>\<open>tq_wait_for_completion\<close>), run inside the system of threads: while such a call waits for one
  thread, the other threads and masters take any number of steps; then it goes on with that
  thread and does not look at the earlier ones again.
\<close>

section \<open>A waiting call\<close>

inductive wait_call ::
  "(tq \<Rightarrow> nat \<Rightarrow> tqwait) \<Rightarrow> (sys \<Rightarrow> sys \<Rightarrow> bool) \<Rightarrow> tqwait \<Rightarrow> sys \<Rightarrow> int \<Rightarrow> sys \<Rightarrow> bool"
  for loop step where
  finish: "wait_call loop step (Done r) s r s"
| wait: "step\<^sup>*\<^sup>* s s1 \<Longrightarrow> wait_call loop step (loop (sy_tq s1) i) s1 r s2 \<Longrightarrow>
    wait_call loop step (Wait i) s r s2"

text \<open>
  The loops of the three calls have one shape: thread \<open>i\<close> passes a test, or the call waits for it or
  fails.
\<close>

locale thread_loop =
  fixes loop :: "tq \<Rightarrow> nat \<Rightarrow> tqwait"
    and pass :: "tq \<Rightarrow> nat \<Rightarrow> bool"
  assumes at_end: "\<not> i < num_thrds q \<Longrightarrow> loop q i = Done 0"
    and passed: "i < num_thrds q \<Longrightarrow> pass q i \<Longrightarrow> loop q i = loop q (Suc i)"
    and stopped: "i < num_thrds q \<Longrightarrow> \<not> pass q i \<Longrightarrow> loop q i = Wait i \<or> (\<exists>r. r \<noteq> 0 \<and> loop q i = Done r)"
begin

lemma loop_wait:
  "loop q i = Wait k \<Longrightarrow> i \<le> k \<and> k < num_thrds q \<and> (\<forall>j. i \<le> j \<and> j < k \<longrightarrow> pass q j)"
proof (induction "num_thrds q - i" arbitrary: i)
  case 0
  then show ?case using at_end [of i q] by simp
next
  case (Suc n)
  show ?case
  proof (cases "pass q i")
    case True
    have i: "i < num_thrds q" "n = num_thrds q - Suc i" using Suc(2) by simp_all
    with Suc True have "Suc i \<le> k \<and> k < num_thrds q \<and> (\<forall>j. Suc i \<le> j \<and> j < k \<longrightarrow> pass q j)"
      using passed [OF i(1) True] by simp
    with True show ?thesis by (metis Suc_leD Suc_leI le_neq_implies_less)
  next
    case False
    with Suc show ?thesis using stopped [of i q] by auto
  qed
qed

lemma loop_done:
  "loop q i = Done 0 \<Longrightarrow> i \<le> j \<Longrightarrow> j < num_thrds q \<Longrightarrow> pass q j"
proof (induction "num_thrds q - i" arbitrary: i)
  case (Suc n)
  have i: "i < num_thrds q" "n = num_thrds q - Suc i" using Suc(2) by simp_all
  have "pass q i" using stopped [OF i(1)] Suc(3) by auto
  then show ?case using Suc i passed [OF i(1)] by (cases "j = i") auto
qed simp

text \<open>A property of the state and of the number of threads that passed is carried to the end.\<close>

lemma wait_call_carries:
  assumes "wait_call loop step w s r s'" "r = 0"
    and step: "\<And>s s' i. step s s' \<Longrightarrow> G s i \<Longrightarrow> G s' i \<and> num_thrds (sy_tq s') = num_thrds (sy_tq s)"
    and pass: "\<And>s i. G s i \<Longrightarrow> i < num_thrds (sy_tq s) \<Longrightarrow> pass (sy_tq s) i \<Longrightarrow> G s (Suc i)"
    and start: "i \<le> num_thrds (sy_tq s)" "w = loop (sy_tq s) i" "G s i"
  shows "G s' (num_thrds (sy_tq s')) \<and> (i < num_thrds (sy_tq s) \<longrightarrow> pass (sy_tq s') (num_thrds (sy_tq s') - 1))"
  using assms(1,2) start
proof (induction arbitrary: i rule: wait_call.induct)
  case (finish r s)
  have all: "pass (sy_tq s) j" if "i \<le> j" "j < num_thrds (sy_tq s)" for j
    using loop_done [of "sy_tq s" i j] finish that by simp
  have "G s (i + n)" if "i + n \<le> num_thrds (sy_tq s)" for n
    using that
  proof (induction n)
    case (Suc n)
    then show ?case using pass [of s "i + n"] all [of "i + n"] by simp
  qed (use finish in simp)
  from this [of "num_thrds (sy_tq s) - i"] show ?case
    using finish all [of "num_thrds (sy_tq s) - 1"] by auto
next
  case (wait s s1 k r s2)
  have w: "i \<le> k" "k < num_thrds (sy_tq s)" "\<forall>j. i \<le> j \<and> j < k \<longrightarrow> pass (sy_tq s) j"
    using loop_wait [of "sy_tq s" i k] wait.prems by simp_all
  have "G s (i + n)" if "i + n \<le> k" for n
    using that
  proof (induction n)
    case (Suc n)
    then show ?case using pass [of s "i + n"] w by simp
  qed (use wait.prems in simp)
  from this [of "k - i"] w(1) have "G s k" by simp
  with wait.hyps(1) have "G s1 k \<and> num_thrds (sy_tq s1) = num_thrds (sy_tq s)"
    by (induction rule: rtranclp_induct) (auto dest: step)
  with wait.IH [of k] wait.prems w show ?case by simp
qed

end

definition init_pass :: "tq \<Rightarrow> nat \<Rightarrow> bool" where
  "init_pass q i \<longleftrightarrow> has (tq_state_flags q ! i) TQ_READY \<and> \<not> has (tq_state_flags q ! i) TQ_ERROR"

definition pause_pass :: "tq \<Rightarrow> nat \<Rightarrow> bool" where
  "pause_pass q i \<longleftrightarrow> has (tq_state_flags q ! i) TQ_HALTED \<and> cflag q TQ_HALT \<and>
     \<not> cflag q TQ_FINISHED \<and> \<not> cflag q TQ_ABORT"

definition completion_pass :: "tq \<Rightarrow> nat \<Rightarrow> bool" where
  "completion_pass q i \<longleftrightarrow> \<not> has (tq_state_flags q ! i) TQ_READY \<and> cflag q TQ_FINISHED \<and>
     \<not> cflag q TQ_ABORT"

interpretation init: thread_loop tq_check_init init_pass
proof (unfold_locales, goal_cases)
  case (1 i q)
  then show ?case by (simp add: tq_check_init.simps [of q i])
next
  case (2 i q)
  then show ?case by (simp add: tq_check_init.simps [of q i] init_pass_def)
next
  case (3 i q)
  then show ?case by (auto simp: tq_check_init.simps [of q i] init_pass_def)
qed

interpretation pause: thread_loop wait_pause_loop pause_pass
proof (unfold_locales, goal_cases)
  case (1 i q)
  then show ?case by (simp add: wait_pause_loop.simps [of q i])
next
  case (2 i q)
  then show ?case by (simp add: wait_pause_loop.simps [of q i] pause_pass_def)
next
  case (3 i q)
  then show ?case by (auto simp: wait_pause_loop.simps [of q i] pause_pass_def)
qed

interpretation completion: thread_loop wait_completion_loop completion_pass
proof (unfold_locales, goal_cases)
  case (1 i q)
  then show ?case by (simp add: wait_completion_loop.simps [of q i])
next
  case (2 i q)
  then show ?case by (simp add: wait_completion_loop.simps [of q i] completion_pass_def)
next
  case (3 i q)
  then show ?case by (auto simp: wait_completion_loop.simps [of q i] completion_pass_def)
qed

section \<open>What a step keeps\<close>

lemma step_sizes:
  assumes "sys_inv s" "sys_step ok s s'"
  shows "num_thrds (sy_tq s') = num_thrds (sy_tq s) \<and> num_prods (sy_tq s') = num_prods (sy_tq s) \<and>
    pool_ids (sy_tq s') r = pool_ids (sy_tq s) r"
proof -
  have shape: "pool_shape p (sy_tq s') = pool_shape p (sy_tq s)" for p
    using assms(2)
  proof (cases rule: sys_step.cases)
    case (thread i ins res)
    then show ?thesis using thread_section_ok [OF assms(1)] by (cases res) (auto simp: sec_ok_def)
  next
    case (master c q' ins outs sg)
    then show ?thesis
      using master_call_ok assms(1) by (auto simp: sys_inv_def master_ok_def pool_shape_def)
  qed
  from shape_sizes [OF shape] show ?thesis using pool_ids_shape by blast
qed

text \<open>FINISHED and ABORT stay; a thread never returns to its start, and one that left stays away.\<close>

lemma step_keeps:
  assumes "sys_inv s" "sys_step ok s s'"
  shows "cflag (sy_tq s) TQ_FINISHED \<Longrightarrow> cflag (sy_tq s') TQ_FINISHED"
    and "cflag (sy_tq s) TQ_ABORT \<Longrightarrow> cflag (sy_tq s') TQ_ABORT"
    and "j < num_thrds (sy_tq s) \<Longrightarrow> th_pc (sy_thr s j) \<noteq> T_new \<Longrightarrow> th_pc (sy_thr s' j) \<noteq> T_new"
    and "th_pc (sy_thr s j) \<in> {T_exit, T_failed} \<Longrightarrow> th_pc (sy_thr s' j) = th_pc (sy_thr s j)"
proof -
  have "(cflag (sy_tq s) TQ_FINISHED \<longrightarrow> cflag (sy_tq s') TQ_FINISHED) \<and>
      (cflag (sy_tq s) TQ_ABORT \<longrightarrow> cflag (sy_tq s') TQ_ABORT) \<and>
      (j < num_thrds (sy_tq s) \<longrightarrow> th_pc (sy_thr s j) \<noteq> T_new \<longrightarrow> th_pc (sy_thr s' j) \<noteq> T_new) \<and>
      (th_pc (sy_thr s j) \<in> {T_exit, T_failed} \<longrightarrow> th_pc (sy_thr s' j) = th_pc (sy_thr s j))"
    using assms(2)
  proof (cases rule: sys_step.cases)
    case (thread i ins r)
    obtain q' t sg where r: "r = (q', t, sg)" by (cases r) auto
    have ok: "sec_ok (role_of (sy_tq s) i) i (counted (th_pc (sy_thr s i))) (sy_tq s) q' (th_pc t)"
      using thread_section_ok [OF assms(1) thread(2)] thread(3) r by simp
    have "th_pc (sy_thr s i) \<notin> {T_exit, T_failed}" using thread(3) by (auto elim: thread_section.cases)
    with ok thread(1) r show ?thesis by (auto simp: sec_ok_def)
  next
    case (master c q' ins outs sg)
    then show ?thesis using master_call_ok assms(1) by (auto simp: sys_inv_def master_ok_def)
  qed
  then show "cflag (sy_tq s) TQ_FINISHED \<Longrightarrow> cflag (sy_tq s') TQ_FINISHED"
    and "cflag (sy_tq s) TQ_ABORT \<Longrightarrow> cflag (sy_tq s') TQ_ABORT"
    and "j < num_thrds (sy_tq s) \<Longrightarrow> th_pc (sy_thr s j) \<noteq> T_new \<Longrightarrow> th_pc (sy_thr s' j) \<noteq> T_new"
    and "th_pc (sy_thr s j) \<in> {T_exit, T_failed} \<Longrightarrow> th_pc (sy_thr s' j) = th_pc (sy_thr s j)"
    by auto
qed

section \<open>Pausing\<close>

text \<open>A thread that halted stays halted while the queue is halted.\<close>

lemma thread_term_con: "thread_term q r i w = (q', t, s) \<Longrightarrow> tq_con_flags q' = tq_con_flags q"
  by (auto simp: thread_term_def general_thread_term_behavior_def)

lemma act_abort:
  "consumer_act q i w = (q', t, s) \<Longrightarrow> cflag q TQ_ABORT \<Longrightarrow> cflag q' TQ_ABORT"
  "producer_act q i w = (q', t, s) \<Longrightarrow> cflag q TQ_ABORT \<Longrightarrow> cflag q' TQ_ABORT"
  by (auto simp: consumer_act_def producer_act_def cflag_def dest: thread_term_con)

definition halted_only :: "tq \<Rightarrow> bool" where
  "halted_only q \<longleftrightarrow> cflag q TQ_HALT \<and> \<not> cflag q TQ_FINISHED \<and> \<not> cflag q TQ_ABORT"

lemma halted_waits:
  assumes "halted_only q"
  shows "consumer_waits q" "producer_waits q" "producer_waits0 q"
  using assms by (simp_all add: halted_only_def consumer_waits_def producer_waits_def producer_waits0_def)

lemma halted_pause:
  assumes "halted_only q" "general_thread_pause_behavior q r i pause w = (ok, q', s, w2)"
    and "i < length (tq_state_flags q)"
  shows "ok \<Longrightarrow> has (tq_state_flags q' ! i) TQ_HALTED" "\<not> ok \<Longrightarrow> cflag q' TQ_ABORT"
  using assms
  by (auto simp: halted_only_def general_thread_pause_behavior_def split: if_splits prod.splits)

lemma halted_resume:
  assumes "halted_only q"
  shows "general_thread_resume_behavior q r i resume w = (True, upd_act r inc32 q, [], w)"
  using assms by (simp add: halted_only_def general_thread_resume_behavior_def)

lemma halted_consumer_wake:
  assumes "halted_only q" "consumer_wake q i resume pause w = (q', t, s)"
    and "i < length (tq_state_flags q)" "\<not> cflag q' TQ_ABORT"
  shows "has (tq_state_flags q' ! i) TQ_HALTED"
proof -
  let ?q = "upd_act Consumer inc32 q"
  have h: "halted_only ?q" using assms(1) by (simp add: halted_only_def)
  obtain ok q2 s2 w2 where p: "general_thread_pause_behavior ?q Consumer i pause w = (ok, q2, s2, w2)"
    by (metis prod_cases4)
  note hp = halted_pause [OF h p]
  show ?thesis
    using assms(2-4) hp halted_waits [OF h] act_abort(1)
    by (auto simp: consumer_wake_def halted_resume [OF assms(1)] consumer_top_def p split: if_splits prod.splits)
qed

lemma halted_producer_wake:
  assumes "halted_only q" "producer_wake q i resume pause w = (q', t, s)"
    and "i < length (tq_state_flags q)" "\<not> cflag q' TQ_ABORT"
  shows "has (tq_state_flags q' ! i) TQ_HALTED"
proof -
  let ?q = "upd_act Producer inc32 q"
  have h: "halted_only ?q" using assms(1) by (simp add: halted_only_def)
  obtain ok q2 s2 w2 where p: "general_thread_pause_behavior ?q Producer i pause w = (ok, q2, s2, w2)"
    by (metis prod_cases4)
  note hp = halted_pause [OF h p]
  show ?thesis
    using assms(2-4) hp halted_waits [OF h] act_abort(2)
    by (auto simp: producer_wake_def halted_resume [OF assms(1)] producer_top_def p split: if_splits prod.splits)
qed

lemma halted_producer_wake0:
  assumes "halted_only q" "producer_wake0 q i resume pause w = (q', t, s)"
    and "i < length (tq_state_flags q)" "\<not> cflag q' TQ_ABORT"
  shows "has (tq_state_flags q' ! i) TQ_HALTED"
proof -
  let ?q = "upd_act Producer inc32 q"
  have h: "halted_only ?q" using assms(1) by (simp add: halted_only_def)
  obtain ok q2 s2 w2 where p: "general_thread_pause_behavior ?q Producer i pause w = (ok, q2, s2, w2)"
    by (metis prod_cases4)
  note hp = halted_pause [OF h p]
  show ?thesis
    using assms(2-4) hp halted_waits [OF h]
    by (auto simp: producer_wake0_def halted_resume [OF assms(1)] producer_top0_def p split: if_splits prod.splits)
qed

text \<open>A run in which HALT is not removed.\<close>

definition halted_step :: "sys \<Rightarrow> sys \<Rightarrow> bool" where
  "halted_step s s' \<longleftrightarrow> tq_step s s' \<and> cflag (sy_tq s') TQ_HALT"

definition halted_upto :: "sys \<Rightarrow> nat \<Rightarrow> bool" where
  "halted_upto s i \<longleftrightarrow>
     sys_inv s \<and> cflag (sy_tq s) TQ_HALT \<and>
     (halted_only (sy_tq s) \<longrightarrow>
      (\<forall>j < i. j < num_thrds (sy_tq s) \<longrightarrow> has (tq_state_flags (sy_tq s) ! j) TQ_HALTED))"

lemma halted_section:
  assumes inv: "sys_inv s" and j: "j < num_thrds (sy_tq s)"
    and sec: "thread_section (sy_tq s) j (sy_thr s j) ins (q', t, sg)"
    and h: "halted_only (sy_tq s)" "has (tq_state_flags (sy_tq s) ! j) TQ_HALTED" "halted_only q'"
  shows "has (tq_state_flags q' ! j) TQ_HALTED"
proof -
  have len: "j < length (tq_state_flags (sy_tq s))"
    using inv j by (simp add: sys_inv_def layout_ok_def)
  have na: "\<not> cflag q' TQ_ABORT" using h(3) by (simp add: halted_only_def)
  have "thread_ok (sy_tq s) j (th_pc (sy_thr s j))" using inv j by (simp add: sys_inv_def)
  then have "waiting (th_pc (sy_thr s j))"
    using h(1,2) by (cases "th_pc (sy_thr s j)") (auto simp: thread_ok_def pc_defs halted_only_def)
  with sec show ?thesis
    using halted_consumer_wake [OF h(1) _ len na] halted_producer_wake [OF h(1) _ len na]
      halted_producer_wake0 [OF h(1) _ len na]
    by (auto simp: waiting_def elim!: thread_section.cases dest!: sym [of "(q', t, sg)"])
qed

lemma halted_upto_step:
  assumes "halted_step s s'" "halted_upto s i"
  shows "halted_upto s' i \<and> num_thrds (sy_tq s') = num_thrds (sy_tq s)"
proof -
  have st: "tq_step s s'" and inv: "sys_inv s" using assms by (simp_all add: halted_step_def halted_upto_def)
  note sz = step_sizes [OF inv st] and kp = step_keeps [OF inv st]
  have inv': "sys_inv s'" by (rule sys_inv_step [OF inv st])
  have "has (tq_state_flags (sy_tq s') ! j) TQ_HALTED"
    if h: "halted_only (sy_tq s')" and j: "j < i" "j < num_thrds (sy_tq s')" for j
  proof -
    have h0: "halted_only (sy_tq s)"
      using h kp(1,2) assms(2) by (auto simp: halted_only_def halted_upto_def)
    then have f: "has (tq_state_flags (sy_tq s) ! j) TQ_HALTED"
      using assms(2) j sz by (simp add: halted_upto_def)
    from st show ?thesis
    proof (cases rule: sys_step.cases)
      case (thread k ins r)
      obtain q' t sg where r: "r = (q', t, sg)" by (cases r) auto
      show ?thesis
      proof (cases "k = j")
        case True
        then show ?thesis using halted_section [OF inv, of j ins q' t sg] h0 f h thread r by simp
      next
        case False
        then show ?thesis using thread_section_ok [OF inv thread(2)] thread r f by (simp add: sec_ok_def)
      qed
    next
      case (master c q' ins outs sg)
      then show ?thesis using master_call_ok inv f by (auto simp: sys_inv_def master_ok_def)
    qed
  qed
  then show ?thesis using inv' sz assms(1) by (simp add: halted_upto_def halted_step_def)
qed

lemma halted_upto_pass:
  "halted_upto s i \<Longrightarrow> pause_pass (sy_tq s) i \<Longrightarrow> halted_upto s (Suc i)"
  by (auto simp: halted_upto_def pause_pass_def less_Suc_eq)

section \<open>Initialisation and completion\<close>

lemma none_ready_iff:
  "none_ready fs i n \<longleftrightarrow> (\<forall>j. i \<le> j \<and> j < i + n \<longrightarrow> \<not> has (fs ! j) TQ_READY)"
proof (induction n arbitrary: i)
  case (Suc n)
  have "(\<forall>j. i \<le> j \<and> j < i + Suc n \<longrightarrow> \<not> has (fs ! j) TQ_READY) \<longleftrightarrow>
        \<not> has (fs ! i) TQ_READY \<and> (\<forall>j. Suc i \<le> j \<and> j < Suc i + n \<longrightarrow> \<not> has (fs ! j) TQ_READY)"
    by (metis add_Suc_right add_Suc_shift le_add1 le_imp_less_Suc less_or_eq_imp_le not_less_eq_eq order_antisym_conv)
  with Suc show ?case by auto
qed auto

lemma terminated_producers:
  assumes "sys_inv s" "tq_threads_terminated (sy_tq s) (tq_prod_pool (sy_tq s))"
    and "i \<in> pool_ids (sy_tq s) Producer"
  shows "\<not> alive (th_pc (sy_thr s i))"
proof -
  have i: "i < num_thrds (sy_tq s)" "i < num_prods (sy_tq s)"
    using assms(3) by (auto simp: pool_ids_def role_of_def split: if_splits)
  then obtain p where p: "tq_prod_pool (sy_tq s) = Some p" "i < wp_num p"
    by (auto simp: num_prods_def split: option.splits)
  then have "wp_start p = 0" using assms(1) by (simp add: sys_inv_def layout_ok_def)
  with p assms(2) have "\<not> has (tq_state_flags (sy_tq s) ! i) TQ_READY"
    by (simp add: tq_threads_terminated_def none_ready_iff)
  then show ?thesis using assms(1) i(1) by (simp add: sys_inv_def thread_ok_def)
qed

text \<open>
  Once every producer was initialised: a consumer that left a queue that was not aborted saw it
  finished and empty, and no producer was left.
\<close>

definition drained :: "sys \<Rightarrow> bool" where
  "drained s \<longleftrightarrow>
     cflag (sy_tq s) TQ_FINISHED \<and> tq_qdepth (sy_tq s) = 0 \<and>
     (\<forall>i \<in> pool_ids (sy_tq s) Producer. \<not> alive (th_pc (sy_thr s i)))"

definition drain_inv :: "sys \<Rightarrow> bool" where
  "drain_inv s \<longleftrightarrow>
     (\<forall>i \<in> pool_ids (sy_tq s) Producer. th_pc (sy_thr s i) \<noteq> T_new) \<and>
     (\<not> cflag (sy_tq s) TQ_ABORT \<longrightarrow>
      (\<exists>i \<in> pool_ids (sy_tq s) Consumer. th_pc (sy_thr s i) = T_exit) \<longrightarrow> drained s)"

lemma section_alive: "thread_section q i t ins r \<Longrightarrow> th_pc t = T_new \<or> alive (th_pc t)"
  by (erule thread_section.cases) (auto simp: alive_def)

text \<open>Nothing but steps of consumers and of masters is left in a drained system.\<close>

lemma drained_thread_step:
  assumes inv: "sys_inv s" and dr: "drained s" "drain_inv s" and i: "i < num_thrds (sy_tq s)"
    and sec: "thread_section (sy_tq s) i (sy_thr s i) ins (q', t, sg)"
  shows "drained (sys_thread s i ins (q', t, sg))"
proof -
  let ?q = "sy_tq s"
  have ok: "sec_ok (role_of ?q i) i (counted (th_pc (sy_thr s i))) ?q q' (th_pc t)"
    by (rule thread_section_ok [OF inv i sec])
  then have "\<And>r. pool_shape r q' = pool_shape r ?q" by (simp add: sec_ok_def)
  note sz = shape_sizes [OF this]
  have ids: "pool_ids q' Producer = pool_ids ?q Producer" by (rule pool_ids_shape) (use sz in simp_all)
  have np: "i \<notin> pool_ids ?q Producer"
    using section_alive [OF sec] dr by (auto simp: drained_def drain_inv_def)
  then have "role_of ?q i = Consumer" using i by (cases "role_of ?q i") (auto simp: pool_ids_def)
  with ok dr ids np show ?thesis by (auto simp: drained_def sec_ok_def)
qed

lemma drain_inv_thread_step:
  assumes inv: "sys_inv s" and dr: "drain_inv s" and i: "i < num_thrds (sy_tq s)"
    and sec: "thread_section (sy_tq s) i (sy_thr s i) ins (q', t, sg)"
  shows "drain_inv (sys_thread s i ins (q', t, sg))"
proof -
  let ?q = "sy_tq s" and ?s = "sys_thread s i ins (q', t, sg)"
  have ok: "sec_ok (role_of ?q i) i (counted (th_pc (sy_thr s i))) ?q q' (th_pc t)"
    by (rule thread_section_ok [OF inv i sec])
  then have "\<And>r. pool_shape r q' = pool_shape r ?q" by (simp add: sec_ok_def)
  note sz = shape_sizes [OF this]
  have ids: "pool_ids q' r = pool_ids ?q r" for r by (rule pool_ids_shape) (use sz in simp_all)
  have "drained ?s"
    if na: "\<not> cflag q' TQ_ABORT" and ex: "\<exists>j \<in> pool_ids q' Consumer. th_pc (sy_thr ?s j) = T_exit"
  proof (cases "\<exists>j \<in> pool_ids ?q Consumer. th_pc (sy_thr s j) = T_exit")
    case True
    have "\<not> cflag ?q TQ_ABORT" using na ok by (auto simp: sec_ok_def)
    with True dr have "drained s" by (simp add: drain_inv_def)
    then show ?thesis by (rule drained_thread_step [OF inv _ dr i sec])
  next
    case False
    then have e: "th_pc t = T_exit" "i \<in> pool_ids ?q Consumer"
      using ex ids by (auto split: if_splits)
    then have "role_of ?q i = Consumer" by (simp add: pool_ids_def)
    then have m: "may_exit Consumer q'" using ok e by (simp add: sec_ok_def)
    have inv': "sys_inv ?s" by (rule sys_inv_thread_step [OF inv i sec])
    from m na terminated_producers [OF inv'] show ?thesis by (simp add: may_exit_def drained_def)
  qed
  moreover have "\<forall>j \<in> pool_ids q' Producer. th_pc (sy_thr ?s j) \<noteq> T_new"
    using dr ok ids by (simp add: drain_inv_def sec_ok_def)
  ultimately show ?thesis by (simp add: drain_inv_def)
qed

lemma drain_inv_master_step:
  assumes inv: "sys_inv s" and dr: "drain_inv s" and call: "master_call c (sy_tq s) q' ins outs sg" "timely c"
  shows "drain_inv (sys_master s q' ins outs sg)"
proof -
  let ?q = "sy_tq s"
  have i: "tq_inv ?q" using inv by (simp add: sys_inv_def)
  have ok: "master_ok ?q q'" by (rule master_call_ok [OF call(1) i])
  note le = master_timely [OF call(1) i call(2)]
  have "\<And>r. pool_shape r q' = pool_shape r ?q" using ok by (simp add: master_ok_def pool_shape_def)
  note sz = shape_sizes [OF this]
  have "pool_ids q' r = pool_ids ?q r" for r by (rule pool_ids_shape) (use sz in simp_all)
  then show ?thesis using dr ok le by (auto simp: drain_inv_def drained_def master_ok_def)
qed

lemma drain_inv_step:
  assumes "sys_inv s" "drain_inv s" "sys_step timely s s'"
  shows "drain_inv s'"
  using assms(3)
proof (cases rule: sys_step.cases)
  case (thread i ins r)
  then show ?thesis using drain_inv_thread_step [OF assms(1,2)] by (cases r) auto
next
  case (master c q' ins outs sg)
  then show ?thesis using drain_inv_master_step [OF assms(1,2)] by simp
qed

text \<open>
  What \<^verbatim>\<open>tq_check_init\<close> knows when the threads below \<open>i\<close> passed. A consumer that left too early is
  never seen as ready again, so the call cannot return behind it.
\<close>

definition init_upto :: "sys \<Rightarrow> nat \<Rightarrow> bool" where
  "init_upto s i \<longleftrightarrow>
     sys_inv s \<and> (\<forall>j < i. j < num_thrds (sy_tq s) \<longrightarrow> th_pc (sy_thr s j) \<noteq> T_new) \<and>
     (num_prods (sy_tq s) < i \<longrightarrow>
      drain_inv s \<or> (\<exists>j \<in> pool_ids (sy_tq s) Consumer. i \<le> j \<and> th_pc (sy_thr s j) = T_exit))"

lemma init_upto_step:
  assumes "sys_step timely s s'" "init_upto s i"
  shows "init_upto s' i \<and> num_thrds (sy_tq s') = num_thrds (sy_tq s)"
proof -
  have inv: "sys_inv s" using assms(2) by (simp add: init_upto_def)
  note sz = step_sizes [OF inv assms(1)] and kp = step_keeps [OF inv assms(1)]
  have "th_pc (sy_thr s' j) \<noteq> T_new" if "j < i" "j < num_thrds (sy_tq s')" for j
    using that assms(2) sz kp(3) [of j] by (simp add: init_upto_def)
  moreover have "drain_inv s' \<or> (\<exists>j \<in> pool_ids (sy_tq s') Consumer. i \<le> j \<and> th_pc (sy_thr s' j) = T_exit)"
    if "num_prods (sy_tq s') < i"
  proof -
    have "drain_inv s \<or> (\<exists>j \<in> pool_ids (sy_tq s) Consumer. i \<le> j \<and> th_pc (sy_thr s j) = T_exit)"
      using that assms(2) sz by (simp add: init_upto_def)
    then show ?thesis
      using drain_inv_step [OF inv _ assms(1)] kp(4) step_sizes [OF inv assms(1), of Consumer] by force
  qed
  ultimately show ?thesis using sys_inv_step [OF inv assms(1)] sz by (simp add: init_upto_def)
qed

lemma ready_alive:
  "sys_inv s \<Longrightarrow> i < num_thrds (sy_tq s) \<Longrightarrow> has (tq_state_flags (sy_tq s) ! i) TQ_READY \<longleftrightarrow> alive (th_pc (sy_thr s i))"
  by (simp add: sys_inv_def thread_ok_def)

lemma init_upto_pass:
  assumes "init_upto s i" "i < num_thrds (sy_tq s)" "init_pass (sy_tq s) i"
  shows "init_upto s (Suc i)"
proof -
  let ?q = "sy_tq s" and ?pc = "\<lambda>j. th_pc (sy_thr s j)"
  have al: "alive (?pc i)" and inv: "sys_inv s"
    using assms ready_alive [of s i] by (simp_all add: init_upto_def init_pass_def)
  then have ne: "?pc i \<noteq> T_new" "?pc i \<noteq> T_exit" by (auto simp: alive_def)
  have new: "\<forall>j < Suc i. j < num_thrds ?q \<longrightarrow> ?pc j \<noteq> T_new"
    using assms(1) ne by (auto simp: init_upto_def less_Suc_eq)
  have "drain_inv s \<or> (\<exists>j \<in> pool_ids ?q Consumer. Suc i \<le> j \<and> ?pc j = T_exit)"
    if "num_prods ?q < Suc i"
  proof (cases "num_prods ?q < i")
    case True
    then show ?thesis
      using assms(1) ne by (auto simp: init_upto_def) (metis Suc_leI le_neq_implies_less)
  next
    case False
    with that have i: "num_prods ?q = i" by simp
    have "\<forall>j \<in> pool_ids ?q Producer. ?pc j \<noteq> T_new"
      using new i by (auto simp: pool_ids_def role_of_def split: if_splits)
    moreover have "Suc i \<le> j" if "j \<in> pool_ids ?q Consumer" "?pc j = T_exit" for j
    proof -
      have "i \<le> j" using that i by (auto simp: pool_ids_def role_of_def split: if_splits)
      with ne that show ?thesis by (metis Suc_leI le_neq_implies_less)
    qed
    ultimately show ?thesis by (auto simp: drain_inv_def)
  qed
  with new inv show ?thesis by (simp add: init_upto_def)
qed

text \<open>What holds behind a successful \<^verbatim>\<open>tq_check_init\<close> on a queue with consumers.\<close>

definition initialised :: "sys \<Rightarrow> bool" where
  "initialised s \<longleftrightarrow>
     sys_inv s \<and> drain_inv s \<and> pool_ids (sy_tq s) Consumer \<noteq> {} \<and>
     (\<forall>j < num_thrds (sy_tq s). th_pc (sy_thr s j) \<noteq> T_new)"

lemma check_init_initialised:
  assumes "sys_inv s0" "wait_call tq_check_init (sys_step timely) (tq_check_init (sy_tq s0) 0) s0 0 s"
    and "pool_ids (sy_tq s0) Consumer \<noteq> {}"
  shows "initialised s"
proof -
  let ?G = "\<lambda>s i. init_upto s i \<and> pool_ids (sy_tq s) Consumer \<noteq> {}"
  have step: "?G s' i \<and> num_thrds (sy_tq s') = num_thrds (sy_tq s)" if "sys_step timely s s'" "?G s i" for s s' i
    using init_upto_step [OF that(1)] step_sizes [OF _ that(1), of Consumer] that(2)
    by (auto simp: init_upto_def)
  have "?G s0 0" using assms(1,3) by (simp add: init_upto_def)
  with init.wait_call_carries [of "sys_step timely" _ s0 0 s ?G 0] assms(2) step init_upto_pass
  have g: "?G s (num_thrds (sy_tq s))" by blast
  then have "num_prods (sy_tq s) < num_thrds (sy_tq s)"
    by (auto simp: pool_ids_def role_of_def split: if_splits)
  with g show ?thesis by (auto simp: init_upto_def initialised_def pool_ids_def)
qed

lemma initialised_step:
  assumes "sys_step timely s s'" "initialised s"
  shows "initialised s'"
proof -
  have inv: "sys_inv s" using assms(2) by (simp add: initialised_def)
  show ?thesis
    using assms sys_inv_step [OF inv assms(1)] drain_inv_step [OF inv _ assms(1)]
      step_sizes [OF inv assms(1)] step_keeps(3) [OF inv assms(1)]
    by (simp add: initialised_def)
qed

lemma initialised_steps: "(sys_step timely)\<^sup>*\<^sup>* s s' \<Longrightarrow> initialised s \<Longrightarrow> initialised s'"
  by (induction rule: rtranclp_induct) (auto intro: initialised_step)

definition completed_upto :: "sys \<Rightarrow> nat \<Rightarrow> bool" where
  "completed_upto s i \<longleftrightarrow>
     initialised s \<and> (\<forall>j < i. j < num_thrds (sy_tq s) \<longrightarrow> th_pc (sy_thr s j) \<in> {T_exit, T_failed})"

lemma completed_upto_step:
  assumes "sys_step timely s s'" "completed_upto s i"
  shows "completed_upto s' i \<and> num_thrds (sy_tq s') = num_thrds (sy_tq s)"
proof -
  have inv: "sys_inv s" using assms(2) by (simp add: completed_upto_def initialised_def)
  note sz = step_sizes [OF inv assms(1)]
  have "th_pc (sy_thr s' j) \<in> {T_exit, T_failed}" if "j < i" "j < num_thrds (sy_tq s')" for j
    using that assms(2) sz step_keeps(4) [OF inv assms(1), of j] by (auto simp: completed_upto_def)
  then show ?thesis
    using initialised_step [OF assms(1)] assms(2) sz by (simp add: completed_upto_def)
qed

lemma completed_upto_pass:
  assumes "completed_upto s i" "i < num_thrds (sy_tq s)" "completion_pass (sy_tq s) i"
  shows "completed_upto s (Suc i)"
proof -
  have "\<not> alive (th_pc (sy_thr s i))" "th_pc (sy_thr s i) \<noteq> T_new"
    using assms ready_alive [of s i]
    by (auto simp: completed_upto_def initialised_def completion_pass_def)
  then have "th_pc (sy_thr s i) \<in> {T_exit, T_failed}" by (cases "th_pc (sy_thr s i)") (auto simp: alive_def)
  then show ?thesis using assms(1) by (auto simp: completed_upto_def less_Suc_eq)
qed

lemma no_producer_left:
  assumes "sys_inv s" "\<And>j. j \<in> pool_ids (sy_tq s) Producer \<Longrightarrow> \<not> alive (th_pc (sy_thr s j))"
  shows "tq_threads_terminated (sy_tq s) (tq_prod_pool (sy_tq s))"
proof -
  let ?q = "sy_tq s"
  have "\<not> has (tq_state_flags ?q ! j) TQ_READY" if "j < num_prods ?q" for j
  proof -
    have "j < num_thrds ?q" using that by (auto simp: num_prods_def num_thrds_def split: option.splits)
    moreover from this have "j \<in> pool_ids ?q Producer" using that by (simp add: pool_ids_def role_of_def)
    ultimately show ?thesis using assms(2) [of j] ready_alive [OF assms(1)] by simp
  qed
  then show ?thesis
    using assms(1) by (auto simp: tq_threads_terminated_def none_ready_iff sys_inv_def layout_ok_def
        num_prods_def split: option.splits)
qed

end
