(* ===== verification/TQWake.thy ===== *)
theory TQWake
  imports TQCalls
begin

text \<open>
  The end of the work without lost wake-ups. In a queue that is finished and neither halted nor
  aborted every section that leaves another thread something to do, or ends the last reason to
  wait, broadcasts to the threads that wait for it; so as long as a thread is left one of them is
  in its callback or has been reached by a broadcast since it began to wait. A wake-up is counted
  only when a broadcast reached the thread; single signals may go to a master.
\<close>

section \<open>What a section broadcasts\<close>

definition ending :: "tq \<Rightarrow> bool" where
  "ending q \<longleftrightarrow> cflag q TQ_FINISHED \<and> \<not> cflag q TQ_HALT \<and> \<not> cflag q TQ_ABORT"

text \<open>
  A section of a pool \<open>r\<close> from \<open>q\<close> to \<open>q'\<close> that leaves its thread at \<open>pc\<close> and sends \<open>sg\<close>: a consumer waits
  only on an empty queue with producers and broadcasts to them, a producer waits only on a full
  queue and broadcasts to the consumers, as it does when it stores a package or leaves.
\<close>

definition told :: "role \<Rightarrow> tq \<Rightarrow> tq \<Rightarrow> tpc \<Rightarrow> signal list \<Rightarrow> bool" where
  "told r q q' pc sg \<longleftrightarrow>
     (ending q' \<longrightarrow>
      \<not> cflag q TQ_HALT \<and> pc \<noteq> P_wait0 \<and>
      (pc = C_wait \<longrightarrow> tq_qdepth q' = 0 \<and> \<not> tq_threads_terminated q' (tq_prod_pool q') \<and>
         Broadcast Producer_resume \<in> set sg) \<and>
      (pc = P_wait \<longrightarrow> tq_qdepth q' = tq_max_qdepth q' \<and> Broadcast Consumer_resume \<in> set sg) \<and>
      (r = Producer \<longrightarrow> pc = T_exit \<or> tq_qdepth q' \<noteq> tq_qdepth q \<longrightarrow>
         Broadcast Consumer_resume \<in> set sg) \<and>
      (\<not> cflag q TQ_FINISHED \<longrightarrow>
         Broadcast Producer_resume \<in> set sg \<and> Broadcast Consumer_resume \<in> set sg))"

lemma told_abort: "cflag q' TQ_ABORT \<Longrightarrow> told r q q' pc sg"
  by (simp add: told_def ending_def)

text \<open>The first part of a section changes neither the depth nor, but for the end, the flags.\<close>

lemma told_prefix:
  assumes "told r q2 q' pc s2" "tq_qdepth q2 = tq_qdepth q" "cflag q TQ_HALT \<longrightarrow> cflag q2 TQ_HALT"
    and "cflag q2 TQ_FINISHED \<and> \<not> cflag q TQ_FINISHED \<longrightarrow> set wake_all \<subseteq> set s"
  shows "told r q q' pc (s @ s2)"
  using assms by (auto simp: told_def wake_all_def)

lemma consumer_act_told:
  "consumer_act q i w = (q', t, s) \<Longrightarrow> \<not> consumer_waits q \<Longrightarrow> told Consumer q q' (th_pc t) s"
  by (auto simp: consumer_act_def told_def ending_def thread_term_def consumer_waits_def
      general_thread_term_behavior_def Let_def split: if_splits)

lemma producer_act_told:
  "producer_act q i w = (q', t, s) \<Longrightarrow> \<not> producer_waits q \<Longrightarrow> tq_cons_pool q \<noteq> None \<Longrightarrow>
   told Producer q q' (th_pc t) s"
  by (auto simp: producer_act_def told_def ending_def thread_term_def ring_put_def
      general_thread_term_behavior_def Let_def cflag_def split: if_splits)

lemma terminated_upd_act [simp]:
  "tq_threads_terminated (upd_act r g q) p = tq_threads_terminated q p"
  by (simp add: tq_threads_terminated_def split: option.splits)

lemma pause_running:
  assumes "general_thread_pause_behavior q r i pause w = (True, q2, s, w2)" "\<not> cflag q2 TQ_HALT"
  shows "q2 = upd_act r dec32 q \<and> s = []"
  using assms by (auto simp: general_thread_pause_behavior_def split: if_splits prod.splits)

lemma consumer_top_told:
  assumes "consumer_top q i pause w = (q', t, s)"
  shows "told Consumer q q' (th_pc t) s"
proof (cases "consumer_waits q")
  case False
  then show ?thesis using assms consumer_act_told by (simp add: consumer_top_def)
next
  case True
  obtain ok q2 s2 w2 where p: "general_thread_pause_behavior q Consumer i pause w = (ok, q2, s2, w2)"
    by (metis prod_cases4)
  show ?thesis
  proof (cases ok)
    case ok: True
    have e: "q2 = upd_act Consumer dec32 q" if "\<not> cflag q' TQ_HALT"
      using pause_running p ok that assms True by (auto simp: consumer_top_def)
    show ?thesis
    proof (cases "ending q'")
      case True
      with e assms p ok \<open>consumer_waits q\<close> show ?thesis
        by (auto simp: consumer_top_def told_def ending_def consumer_waits_def)
    qed (simp add: told_def)
  next
    case False
    then have "cflag q2 TQ_ABORT" by (simp add: pause_abort [OF p False])
    then have "cflag q' TQ_ABORT"
      using assms True p False act_abort(1) by (auto simp: consumer_top_def split: prod.splits)
    then show ?thesis by (rule told_abort)
  qed
qed

lemma producer_top_told:
  assumes "producer_top q i pause w = (q', t, s)" "tq_cons_pool q \<noteq> None"
  shows "told Producer q q' (th_pc t) s"
proof (cases "producer_waits q")
  case False
  then show ?thesis using assms producer_act_told by (simp add: producer_top_def)
next
  case True
  obtain ok q2 s2 w2 where p: "general_thread_pause_behavior q Producer i pause w = (ok, q2, s2, w2)"
    by (metis prod_cases4)
  show ?thesis
  proof (cases ok)
    case ok: True
    have e: "q2 = upd_act Producer dec32 q" if "\<not> cflag q' TQ_HALT"
      using pause_running p ok that assms True by (auto simp: producer_top_def)
    show ?thesis
    proof (cases "ending q'")
      case True
      with e assms p ok \<open>producer_waits q\<close> show ?thesis
        by (auto simp: producer_top_def told_def ending_def producer_waits_def)
    qed (simp add: told_def)
  next
    case False
    then have "cflag q2 TQ_ABORT" by (simp add: pause_abort [OF p False])
    then have "cflag q' TQ_ABORT"
      using assms True p False act_abort(2) by (auto simp: producer_top_def split: prod.splits)
    then show ?thesis by (rule told_abort)
  qed
qed

lemma producer_top0_told:
  "producer_top0 q i pause w = (q', t, s) \<Longrightarrow> told Producer q q' (th_pc t) s"
  by (auto simp: producer_top0_def producer_waits0_def general_thread_pause_behavior_def told_def
      ending_def split: if_splits prod.splits)

lemma resume_told:
  assumes "general_thread_resume_behavior q r i resume w = (ok, q2, s, w2)"
  shows "ok \<Longrightarrow> tq_con_flags q2 = tq_con_flags q" "tq_qdepth q2 = tq_qdepth q"
    and "\<not> ok \<Longrightarrow> cflag q2 TQ_ABORT" "tq_cons_pool q2 = None \<longleftrightarrow> tq_cons_pool q = None"
  using assms by (cases r; auto simp: general_thread_resume_behavior_def Let_def upd_act_def
      set_state_def set_con_def clear_state_def cflag_def split: if_splits prod.splits)+

lemma cons_pool_simps [simp]:
  "tq_cons_pool (set_state i f q) = tq_cons_pool q" "tq_cons_pool (set_con f q) = tq_cons_pool q"
  by (simp_all add: set_state_def set_con_def)

lemma post_work_told:
  assumes "general_thread_post_work_behavior q i res = (q2, s)"
  shows "tq_qdepth q2 = tq_qdepth q" "cflag q TQ_HALT \<longrightarrow> cflag q2 TQ_HALT"
    and "cflag q2 TQ_FINISHED \<and> \<not> cflag q TQ_FINISHED \<longrightarrow> set wake_all \<subseteq> set s"
    and "tq_cons_pool q2 = tq_cons_pool q"
  using assms by (auto simp: general_thread_post_work_behavior_def split: if_splits)

lemma init_told:
  assumes "general_thread_init_behavior q i res = (True, q2, s)"
  shows "cflag q2 f = cflag q f" "tq_qdepth q2 = tq_qdepth q" "tq_cons_pool q2 = tq_cons_pool q"
  using assms by (auto simp: general_thread_init_behavior_def split: if_splits)

lemma consumer_start_told:
  assumes "consumer_start q i res pause = (q', t, s)"
  shows "told Consumer q q' (th_pc t) s"
proof -
  obtain ok q2 s2 where p: "general_thread_init_behavior q i res = (ok, q2, s2)"
    by (metis prod_cases3)
  show ?thesis
  proof (cases ok)
    case True
    then obtain s3 where c: "consumer_top q2 i pause 0 = (q', t, s3)" "s = s2 @ s3"
      using assms p by (auto simp: consumer_start_def split: prod.splits)
    from told_prefix [OF consumer_top_told [OF c(1)], of q s2] init_told [of q i res q2 s2] p True c(2)
    show ?thesis by simp
  next
    case False
    then have "cflag q' TQ_ABORT"
      using assms p by (auto simp: consumer_start_def general_thread_init_behavior_def split: if_splits)
    then show ?thesis by (rule told_abort)
  qed
qed

lemma producer_start_told:
  assumes "producer_start q i res pause = (q', t, s)"
  shows "told Producer q q' (th_pc t) s"
proof -
  obtain ok q2 s2 where p: "general_thread_init_behavior q i res = (ok, q2, s2)"
    by (metis prod_cases3)
  show ?thesis
  proof (cases ok)
    case True
    then obtain s3 where c: "producer_top0 q2 i pause 0 = (q', t, s3)" "s = s2 @ s3"
      using assms p by (auto simp: producer_start_def split: prod.splits)
    from told_prefix [OF producer_top0_told [OF c(1)], of q s2] init_told [of q i res q2 s2] p True c(2)
    show ?thesis by simp
  next
    case False
    then have "cflag q' TQ_ABORT"
      using assms p by (auto simp: producer_start_def general_thread_init_behavior_def split: if_splits)
    then show ?thesis by (rule told_abort)
  qed
qed

lemma consumer_wake_told:
  assumes "consumer_wake q i resume pause w = (q', t, s)"
  shows "told Consumer q q' (th_pc t) s"
proof -
  obtain ok q2 s2 w2 where p: "general_thread_resume_behavior q Consumer i resume w = (ok, q2, s2, w2)"
    by (metis prod_cases4)
  note r = resume_told [OF p]
  obtain s3 where c: "(if ok then consumer_top q2 i pause w2 else consumer_act q2 i w2) = (q', t, s3)"
    "s = s2 @ s3"
    using assms p by (auto simp: consumer_wake_def split: prod.splits if_splits)
  show ?thesis
  proof (cases ok)
    case True
    with told_prefix [OF consumer_top_told, of q2 i pause w2 q' t s3 q s2] r c show ?thesis
      by (simp add: cflag_def)
  next
    case False
    then show ?thesis using act_abort(1) [of q2 i w2 q' t s3] r c by (simp add: told_abort)
  qed
qed

lemma producer_wake_told:
  assumes "producer_wake q i resume pause w = (q', t, s)" "tq_cons_pool q \<noteq> None"
  shows "told Producer q q' (th_pc t) s"
proof -
  obtain ok q2 s2 w2 where p: "general_thread_resume_behavior q Producer i resume w = (ok, q2, s2, w2)"
    by (metis prod_cases4)
  note r = resume_told [OF p]
  obtain s3 where c: "(if ok then producer_top q2 i pause w2 else producer_act q2 i w2) = (q', t, s3)"
    "s = s2 @ s3"
    using assms p by (auto simp: producer_wake_def split: prod.splits if_splits)
  show ?thesis
  proof (cases ok)
    case True
    with told_prefix [OF producer_top_told, of q2 i pause w2 q' t s3 q s2] r c assms(2) show ?thesis
      by (simp add: cflag_def)
  next
    case False
    then show ?thesis using act_abort(2) [of q2 i w2 q' t s3] r c by (simp add: told_abort)
  qed
qed

lemma producer_wake0_told:
  assumes "producer_wake0 q i resume pause w = (q', t, s)"
  shows "told Producer q q' (th_pc t) s"
proof -
  obtain ok q2 s2 w2 where p: "general_thread_resume_behavior q Producer i resume w = (ok, q2, s2, w2)"
    by (metis prod_cases4)
  note r = resume_told [OF p]
  show ?thesis
  proof (cases ok)
    case True
    then obtain s3 where c: "producer_top0 q2 i pause w2 = (q', t, s3)" "s = s2 @ s3"
      using assms p by (auto simp: producer_wake0_def split: prod.splits)
    from told_prefix [OF producer_top0_told [OF c(1)], of q s2] r True c(2) show ?thesis
      by (simp add: cflag_def)
  next
    case False
    then have "q' = q2" using assms p by (simp add: producer_wake0_def)
    with r(3) False show ?thesis by (simp add: told_abort)
  qed
qed

lemma worked_told:
  "consumer_worked q i res pause = (q', t, s) \<Longrightarrow> told Consumer q q' (th_pc t) s"
  "producer_worked q i res pause w = (q', t, s) \<Longrightarrow> tq_cons_pool q \<noteq> None \<Longrightarrow>
   told Producer q q' (th_pc t) s"
proof -
  obtain q2 s2 where p: "general_thread_post_work_behavior q i res = (q2, s2)" by fastforce
  note r = post_work_told [OF p]
  show "told Consumer q q' (th_pc t) s" if a: "consumer_worked q i res pause = (q', t, s)"
  proof -
    obtain s3 where c: "consumer_top q2 i pause 0 = (q', t, s3)" "s = s2 @ s3"
      using a p by (auto simp: consumer_worked_def split: prod.splits)
    from told_prefix [OF consumer_top_told [OF c(1)] r(1-3)] c(2) show ?thesis by simp
  qed
  show "told Producer q q' (th_pc t) s"
    if a: "producer_worked q i res pause w = (q', t, s)" "tq_cons_pool q \<noteq> None"
  proof -
    obtain s3 where c: "producer_top q2 i pause w = (q', t, s3)" "s = s2 @ s3"
      using a p by (auto simp: producer_worked_def split: prod.splits)
    from told_prefix [OF producer_top_told [OF c(1)] r(1-3)] r(4) a(2) c(2) show ?thesis by simp
  qed
qed

lemma section_told:
  assumes "thread_section q i t0 ins (q', t, sg)" "tq_cons_pool q \<noteq> None"
    and "pc_role (role_of q i) (th_pc t0)"
  shows "told (role_of q i) q q' (th_pc t) sg"
proof -
  have rC: "role_of q i = Consumer" if "th_pc t0 \<in> {C_wait, C_work}"
    using assms(3) that by (cases "role_of q i") (auto simp: pc_role_def)
  have rP: "role_of q i = Producer" if "th_pc t0 \<in> {P_wait0, P_wait, P_work}"
    using assms(3) that by (cases "role_of q i") (auto simp: pc_role_def)
  from assms(1) show ?thesis
  proof (cases rule: thread_section.cases)
    case (start_cons init_res pause)
    then show ?thesis using consumer_start_told [OF start_cons(2) [symmetric]] by simp
  next
    case (start_prod init_res pause)
    then show ?thesis using producer_start_told [OF start_prod(2) [symmetric]] by simp
  next
    case (wake_cons resume pause)
    then show ?thesis using consumer_wake_told [OF wake_cons(2) [symmetric]] rC by simp
  next
    case (work_cons work_res pause)
    then show ?thesis using worked_told(1) [OF work_cons(2) [symmetric]] rC by simp
  next
    case (wake_prod0 resume pause)
    then show ?thesis using producer_wake0_told [OF wake_prod0(2) [symmetric]] rP by simp
  next
    case (wake_prod resume pause)
    then show ?thesis using producer_wake_told [OF wake_prod(3) assms(2)] rP by simp
  next
    case (work_prod work_res pause w)
    then show ?thesis using worked_told(2) [OF work_prod(3) assms(2)] rP by simp
  qed
qed

section \<open>The invariant at the end\<close>

text \<open>A thread that will run: not started yet, in its callback, or waiting and woken.\<close>

definition stirred :: "sys \<Rightarrow> nat \<Rightarrow> bool" where
  "stirred s i \<longleftrightarrow>
     th_pc (sy_thr s i) \<in> {T_new, C_work, P_work} \<or> waiting (th_pc (sy_thr s i)) \<and> i \<in> sy_woken s"

definition end_awake :: "sys \<Rightarrow> bool" where
  "end_awake s \<longleftrightarrow>
     (ending (sy_tq s) \<longrightarrow>
      ((\<forall>c \<in> pool_ids (sy_tq s) Consumer. th_pc (sy_thr s c) \<noteq> T_exit) \<longrightarrow>
         (0 < tq_qdepth (sy_tq s) \<longrightarrow> (\<exists>c \<in> pool_ids (sy_tq s) Consumer. stirred s c)) \<and>
         (\<exists>i < num_thrds (sy_tq s). stirred s i)) \<and>
      ((\<forall>p \<in> pool_ids (sy_tq s) Producer. th_pc (sy_thr s p) = T_exit) \<longrightarrow>
         (\<forall>c \<in> pool_ids (sy_tq s) Consumer. th_pc (sy_thr s c) = C_wait \<longrightarrow> c \<in> sy_woken s)))"

text \<open>A broadcast to the consumers stirs every consumer that is left.\<close>

lemma consumer_pcs:
  assumes "sys_inv s" "c \<in> pool_ids (sy_tq s) Consumer" "\<not> cflag (sy_tq s) TQ_ABORT"
    and "th_pc (sy_thr s c) \<noteq> T_exit"
  shows "th_pc (sy_thr s c) \<in> {T_new, C_work, C_wait}"
proof -
  have "thread_ok (sy_tq s) c (th_pc (sy_thr s c))" "role_of (sy_tq s) c = Consumer"
    using assms(1,2) by (auto simp: sys_inv_def pool_ids_def)
  with assms(3,4) show ?thesis by (auto simp: thread_ok_def pc_role_def)
qed

lemma producer_pcs:
  assumes "sys_inv s" "p \<in> pool_ids (sy_tq s) Producer" "alive (th_pc (sy_thr s p))"
  shows "th_pc (sy_thr s p) = P_work \<or> cv_of (th_pc (sy_thr s p)) = Some Producer_resume"
proof -
  have "thread_ok (sy_tq s) p (th_pc (sy_thr s p))" "role_of (sy_tq s) p = Producer"
    using assms(1,2) by (auto simp: sys_inv_def pool_ids_def)
  with assms(3) show ?thesis by (auto simp: thread_ok_def pc_role_def alive_def cv_of_def)
qed

lemma pool_cons:
  "pool_ids q Consumer \<noteq> {} \<Longrightarrow> tq_cons_pool q \<noteq> None"
  by (auto simp: pool_ids_def role_of_def num_thrds_def num_prods_def split: if_splits option.splits)

lemma pool_idsD: "i \<in> pool_ids q r \<Longrightarrow> i < num_thrds q \<and> role_of q i = r"
  by (simp add: pool_ids_def)

lemma live_producer:
  assumes "sys_inv s" "\<not> tq_threads_terminated (sy_tq s) (tq_prod_pool (sy_tq s))"
  obtains p where "p \<in> pool_ids (sy_tq s) Producer" "alive (th_pc (sy_thr s p))"
  using no_producer_left [OF assms(1)] assms(2) by blast

text \<open>What the parts of the invariant need, each from the state in which a section ends.\<close>

lemma stirred_consumer:
  assumes inv: "sys_inv s" "\<not> cflag (sy_tq s) TQ_ABORT" and c: "c \<in> pool_ids (sy_tq s) Consumer"
    and "th_pc (sy_thr s c) \<noteq> T_exit" "th_pc (sy_thr s c) = C_wait \<longrightarrow> c \<in> sy_woken s"
  shows "stirred s c"
  using consumer_pcs [OF inv(1) c inv(2)] assms(4,5) by (auto simp: stirred_def waiting_def)

lemma end_awake_consumer:
  assumes inv: "sys_inv s" "sys_inv s'" and aw: "end_awake s"
    and i: "i \<in> pool_ids (sy_tq s) Consumer"
    and s': "s' = sys_thread s i ins (q', t, sg)"
    and ids: "\<And>r. pool_ids q' r = pool_ids (sy_tq s) r"
    and e: "ending q'" and old: "cflag (sy_tq s) TQ_ABORT \<longrightarrow> cflag q' TQ_ABORT"
    and td: "told Consumer (sy_tq s) q' (th_pc t) sg" and new: "th_pc t \<noteq> T_new"
  shows "end_awake s'"
proof -
  let ?q = "sy_tq s"
  have q': "sy_tq s' = q'" "sy_thr s' = (sy_thr s)(i := t)"
    "sy_woken s' = (sy_woken s \<union> reached (sy_thr s) sg) - {i}" by (simp_all add: s')
  have na: "\<not> cflag (sy_tq s') TQ_ABORT" using e q' by (simp add: ending_def)
  have i': "i \<in> pool_ids (sy_tq s') Consumer" using i q' ids by simp
  have notp: "p \<noteq> i" if "p \<in> pool_ids ?q Producer" for p using that i by (auto simp: pool_ids_def)
  have pcs: "th_pc t \<in> {T_exit, C_work, C_wait}"
    using consumer_pcs [OF inv(2) i' na] new q' by auto
  have work: "stirred s' i" if "th_pc t = C_work" using that q' by (simp add: stirred_def)
  have wait: "(\<exists>p. p \<in> pool_ids ?q Producer \<and> th_pc (sy_thr s p) \<noteq> T_exit \<and> stirred s' p) \<and>
      tq_qdepth q' = 0" if "th_pc t = C_wait"
  proof -
    have b: "Broadcast Producer_resume \<in> set sg" "tq_qdepth q' = 0"
      "\<not> tq_threads_terminated q' (tq_prod_pool q')"
      using td e that by (simp_all add: told_def)
    obtain p where p: "p \<in> pool_ids (sy_tq s') Producer" "alive (th_pc (sy_thr s' p))"
      using live_producer [OF inv(2)] b(3) q' by metis
    from producer_pcs [OF inv(2) p] p notp [of p] b(1) ids q' have "stirred s' p"
      by (auto simp: stirred_def reached_def cv_of_def waiting_def split: if_splits)
    with p notp [of p] ids q' b(2) show ?thesis by (intro conjI exI [of _ p]) (auto simp: alive_def)
  qed
  have exit: "0 < tq_qdepth q' \<longrightarrow> stirred s' i" if "th_pc t \<noteq> T_exit"
    using that pcs work wait by auto
  have some: "\<exists>j < num_thrds q'. stirred s' j" if "th_pc t \<noteq> T_exit"
  proof -
    have lt: "j < num_thrds q'" if "j \<in> pool_ids ?q r" for j r using that ids pool_idsD by metis
    show ?thesis using that pcs work wait lt [OF i] lt by blast
  qed
  have third: "c \<in> sy_woken s'"
    if ex: "\<forall>p \<in> pool_ids ?q Producer. th_pc (sy_thr s' p) = T_exit"
      and c: "c \<in> pool_ids ?q Consumer" "th_pc (sy_thr s' c) = C_wait" for c
  proof -
    have ex0: "\<forall>p \<in> pool_ids ?q Producer. th_pc (sy_thr s p) = T_exit"
      using ex notp q' by (metis fun_upd_apply)
    then have ci: "c \<noteq> i" using wait c q' by auto
    show ?thesis
    proof (cases "cflag ?q TQ_FINISHED")
      case True
      then have "ending ?q" using td e old by (auto simp: told_def ending_def)
      then show ?thesis using aw ex0 c ci q' by (auto simp: end_awake_def)
    next
      case False
      then have "Broadcast Consumer_resume \<in> set sg" using td e by (simp add: told_def)
      then show ?thesis using c ci q' by (auto simp: reached_def cv_of_def)
    qed
  qed
  show ?thesis
    unfolding end_awake_def q'(1) ids
    using exit some third i q'(2) by (metis fun_upd_same)
qed

lemma end_awake_producer:
  assumes inv: "sys_inv s" "sys_inv s'" and aw: "end_awake s"
    and i: "i \<in> pool_ids (sy_tq s) Producer" and ne: "pool_ids (sy_tq s) Consumer \<noteq> {}"
    and s': "s' = sys_thread s i ins (q', t, sg)"
    and ids: "\<And>r. pool_ids q' r = pool_ids (sy_tq s) r"
    and e: "ending q'" and old: "cflag (sy_tq s) TQ_ABORT \<longrightarrow> cflag q' TQ_ABORT"
    and td: "told Producer (sy_tq s) q' (th_pc t) sg" and new: "th_pc t \<noteq> T_new"
    and role: "pc_role Producer (th_pc t)" and nf: "th_pc t = T_failed \<longrightarrow> cflag q' TQ_ABORT"
  shows "end_awake s'"
proof -
  let ?q = "sy_tq s"
  have q': "sy_tq s' = q'" "sy_thr s' = (sy_thr s)(i := t)"
    "sy_woken s' = (sy_woken s \<union> reached (sy_thr s) sg) - {i}" by (simp_all add: s')
  have na: "\<not> cflag (sy_tq s') TQ_ABORT" using e q' by (simp add: ending_def)
  have notc: "c \<noteq> i" if "c \<in> pool_ids ?q Consumer" for c using that i by (auto simp: pool_ids_def)
  have lt: "j < num_thrds q'" if "j \<in> pool_ids ?q r" for j r using that ids pool_idsD by metis
  have pcs: "th_pc t \<in> {T_exit, P_work, P_wait}"
    using role new nf td e by (auto simp: pc_role_def told_def ending_def)
  have reach: "c \<in> sy_woken s'"
    if "Broadcast Consumer_resume \<in> set sg" "c \<in> pool_ids ?q Consumer" "th_pc (sy_thr s' c) = C_wait" for c
    using that notc [of c] q' by (auto simp: reached_def cv_of_def)
  have stir: "stirred s' c"
    if "Broadcast Consumer_resume \<in> set sg" "c \<in> pool_ids ?q Consumer" "th_pc (sy_thr s' c) \<noteq> T_exit" for c
  proof -
    have "c \<in> pool_ids (sy_tq s') Consumer" using that(2) ids q'(1) by simp
    from stirred_consumer [OF inv(2) na this that(3)] reach [OF that(1,2)] show ?thesis by blast
  qed
  obtain c0 where c0: "c0 \<in> pool_ids ?q Consumer" using ne by blast
  have first: "\<exists>c \<in> pool_ids ?q Consumer. stirred s' c"
    if ex: "\<forall>c \<in> pool_ids ?q Consumer. th_pc (sy_thr s' c) \<noteq> T_exit" and d: "0 < tq_qdepth q'"
  proof (cases "Broadcast Consumer_resume \<in> set sg")
    case True
    with stir c0 ex show ?thesis by blast
  next
    case False
    then have "tq_qdepth q' = tq_qdepth ?q" "cflag ?q TQ_FINISHED" "\<not> cflag ?q TQ_HALT"
      using td e by (auto simp: told_def)
    moreover have "\<forall>c \<in> pool_ids ?q Consumer. th_pc (sy_thr s c) \<noteq> T_exit"
      using ex notc q' by (metis fun_upd_apply)
    ultimately obtain c where "c \<in> pool_ids ?q Consumer" "stirred s c"
      using aw d e old by (auto simp: end_awake_def ending_def)
    moreover from this have "stirred s' c" using notc [of c] q' by (auto simp: stirred_def)
    ultimately show ?thesis by blast
  qed
  have second: "\<exists>j < num_thrds q'. stirred s' j"
    if ex: "\<forall>c \<in> pool_ids ?q Consumer. th_pc (sy_thr s' c) \<noteq> T_exit"
  proof -
    have max: "0 < tq_max_qdepth q'" using inv(2) q' by (simp add: sys_inv_def tq_inv_def)
    consider "th_pc t = P_work" | "th_pc t = P_wait" | "th_pc t = T_exit" using pcs by blast
    then show ?thesis
    proof cases
      case 1
      then have "stirred s' i" using q' by (simp add: stirred_def)
      with lt [OF i] show ?thesis by blast
    next
      case 2
      then have "0 < tq_qdepth q'" using td e max by (simp add: told_def)
      from first [OF ex this] lt show ?thesis by blast
    next
      case 3
      then have "Broadcast Consumer_resume \<in> set sg" using td e by (simp add: told_def)
      with stir [OF _ c0] ex c0 lt show ?thesis by blast
    qed
  qed
  have third: "c \<in> sy_woken s'"
    if ex: "\<forall>p \<in> pool_ids ?q Producer. th_pc (sy_thr s' p) = T_exit"
      and c: "c \<in> pool_ids ?q Consumer" "th_pc (sy_thr s' c) = C_wait" for c
  proof -
    have "th_pc t = T_exit" using ex i q' by (metis fun_upd_same)
    then have "Broadcast Consumer_resume \<in> set sg" using td e by (simp add: told_def)
    from reach [OF this c] show ?thesis .
  qed
  show ?thesis
    unfolding end_awake_def q'(1) ids using first second third by blast
qed

lemma end_awake_thread_step:
  assumes inv: "sys_inv s" and aw: "end_awake s" and ne: "pool_ids (sy_tq s) Consumer \<noteq> {}"
    and i: "i < num_thrds (sy_tq s)" and sec: "thread_section (sy_tq s) i (sy_thr s i) ins (q', t, sg)"
  shows "end_awake (sys_thread s i ins (q', t, sg))"
proof (cases "ending q'")
  case False
  then show ?thesis by (simp add: end_awake_def)
next
  case e: True
  let ?q = "sy_tq s" and ?s = "sys_thread s i ins (q', t, sg)"
  have ok: "sec_ok (role_of ?q i) i (counted (th_pc (sy_thr s i))) ?q q' (th_pc t)"
    by (rule thread_section_ok [OF inv i sec])
  then have "\<And>r. pool_shape r q' = pool_shape r ?q" by (simp add: sec_ok_def)
  note sz = shape_sizes [OF this]
  have ids: "pool_ids q' r = pool_ids ?q r" for r by (rule pool_ids_shape) (use sz in simp_all)
  have "pc_role (role_of ?q i) (th_pc (sy_thr s i))" using inv i by (simp add: sys_inv_def thread_ok_def)
  then have td: "told (role_of ?q i) ?q q' (th_pc t) sg"
    by (rule section_told [OF sec pool_cons [OF ne]])
  have inv': "sys_inv ?s" by (rule sys_inv_thread_step [OF inv i sec])
  have k: "cflag ?q TQ_ABORT \<longrightarrow> cflag q' TQ_ABORT" "th_pc t \<noteq> T_new"
    "th_pc t = T_failed \<longrightarrow> cflag q' TQ_ABORT" "pc_role (role_of ?q i) (th_pc t)"
    using ok by (simp_all add: sec_ok_def)
  show ?thesis
  proof (cases "role_of ?q i")
    case Consumer
    with i have "i \<in> pool_ids ?q Consumer" by (simp add: pool_ids_def)
    from end_awake_consumer [OF inv inv' aw this refl ids e k(1) _ k(2)] td Consumer show ?thesis by simp
  next
    case Producer
    with i have "i \<in> pool_ids ?q Producer" by (simp add: pool_ids_def)
    from end_awake_producer [OF inv inv' aw this ne refl ids e k(1) _ k(2) _ k(3)] td k(4) Producer
    show ?thesis by simp
  qed
qed

text \<open>A master that changes the flags broadcasts to all threads.\<close>

lemma master_told:
  assumes "master_call c q q' ins outs sg"
  shows "tq_con_flags q' = tq_con_flags q \<or> set wake_all \<subseteq> set sg"
  using assms
  by (cases rule: master_call.cases)
     (auto simp: tq_enqueue_def tq_dequeue_def tq_set_flags_def tq_unset_flags_def
       tq_next_thread_status_def Let_def ring_put_def ring_drop_def split: if_splits)

lemma end_awake_master_step:
  assumes inv: "sys_inv s" and aw: "end_awake s" and ne: "pool_ids (sy_tq s) Consumer \<noteq> {}"
    and call: "master_call c (sy_tq s) q' ins outs sg" "timely c"
  shows "end_awake (sys_master s q' ins outs sg)"
proof (cases "ending q'")
  case False
  then show ?thesis by (simp add: end_awake_def)
next
  case e: True
  let ?q = "sy_tq s" and ?s = "sys_master s q' ins outs sg"
  have i: "tq_inv ?q" using inv by (simp add: sys_inv_def)
  have ok: "master_ok ?q q'" by (rule master_call_ok [OF call(1) i])
  then have "\<And>r. pool_shape r q' = pool_shape r ?q" by (simp add: master_ok_def pool_shape_def)
  note sz = shape_sizes [OF this]
  have ids: "pool_ids q' r = pool_ids ?q r" for r by (rule pool_ids_shape) (use sz in simp_all)
  have inv': "sys_inv ?s" by (rule sys_inv_master_step [OF inv call(1)])
  have mono: "stirred s j \<Longrightarrow> stirred ?s j" for j by (auto simp: stirred_def)
  have na: "\<not> cflag (sy_tq ?s) TQ_ABORT" using e by (simp add: ending_def)
  show ?thesis
  proof (cases "tq_con_flags q' = tq_con_flags ?q")
    case True
    then have "ending ?q" using e by (simp add: ending_def cflag_def)
    moreover from this have "tq_qdepth q' \<le> tq_qdepth ?q"
      by (intro master_timely [OF call(1) i call(2)]) (simp add: ending_def)
    ultimately show ?thesis
      using aw ids sz mono e by (fastforce simp: end_awake_def)
  next
    case False
    then have b: "set wake_all \<subseteq> set sg" using master_told [OF call(1)] by blast
    have w: "c \<in> sy_woken ?s" if "th_pc (sy_thr s c) = C_wait" for c
      using that b by (auto simp: reached_def cv_of_def wake_all_def)
    have st: "stirred ?s c" if "c \<in> pool_ids ?q Consumer" "th_pc (sy_thr s c) \<noteq> T_exit" for c
      using stirred_consumer [OF inv' na, of c] w [of c] that ids by simp
    have lt: "j < num_thrds q'" if "j \<in> pool_ids ?q r" for j r using that ids pool_idsD by metis
    show ?thesis
      using st w lt ne ids unfolding end_awake_def by (simp add: Bex_def Ball_def) blast
  qed
qed

lemma end_awake_step:
  assumes "sys_inv s" "end_awake s" "pool_ids (sy_tq s) Consumer \<noteq> {}" "sys_step timely s s'"
  shows "end_awake s'"
  using assms(4)
proof (cases rule: sys_step.cases)
  case (thread i ins r)
  then show ?thesis using end_awake_thread_step [OF assms(1-3)] by (cases r) auto
next
  case (master c q' ins outs sg)
  then show ?thesis using end_awake_master_step [OF assms(1-3)] by simp
qed

lemma end_awake_start:
  assumes "sys_inv (sys_start q)" "pool_ids q Consumer \<noteq> {}"
  shows "end_awake (sys_start q)"
proof -
  have new: "stirred (sys_start q) j" "th_pc (sy_thr (sys_start q) j) = T_new" for j
    by (simp_all add: sys_start_def stirred_def)
  obtain c where c: "c \<in> pool_ids q Consumer" using assms(2) by blast
  then have "c < num_thrds q" by (simp add: pool_ids_def)
  moreover have "sy_tq (sys_start q) = q" by (simp add: sys_start_def)
  ultimately show ?thesis using c new by (auto simp: end_awake_def)
qed

lemma end_awake_reach:
  "sys_reach timely ops s \<Longrightarrow> opts_small ops \<Longrightarrow> pool_ids (sy_tq s) Consumer \<noteq> {} \<Longrightarrow> end_awake s"
proof (induction rule: sys_reach.induct)
  case (init q started)
  then show ?case using sys_inv_start [OF init(1,2)] end_awake_start [of q] by (simp add: sys_start_def)
next
  case (step s s')
  have inv: "sys_inv s" by (rule tq_reach_inv [OF step.hyps(1) step.prems(1)])
  show ?case
    using end_awake_step [OF inv _ _ step.hyps(2)] step.IH step.prems
      step_sizes [OF inv step.hyps(2), of Consumer] by simp
qed

lemma reach_steps: "(sys_step ok)\<^sup>*\<^sup>* s s' \<Longrightarrow> sys_reach ok ops s \<Longrightarrow> sys_reach ok ops s'"
  by (induction rule: rtranclp_induct) (auto intro: sys_reach.step)

lemma wait_call_steps: "wait_call loop step w s r s' \<Longrightarrow> step\<^sup>*\<^sup>* s s'"
  by (induction rule: wait_call.induct) auto

end
