(* ===== verification/TQRuns.thy ===== *)
theory TQRuns
  imports TQWake
begin

text \<open>
  The properties of the thread queue as a system of threads, with concrete runs as witnesses:
  order and conservation of the packages, exactness of the counters, pausing, completion, the end
  without deadlock, and the creation of the threads.
\<close>

section \<open>A run\<close>

text \<open>
  Two producers and one consumer without pause callbacks. Producer 0 produces the package 7 and
  declares the work finished; the consumer processes it.
\<close>

definition nop :: "nat \<Rightarrow> int \<times> nat" where "nop w = (0, w)"

definition run_ops :: tq_opts where
  "run_ops = \<lparr>op_init_flags = 0, op_max_qdepth = 4, op_num_threads = 3, op_num_prod_threads = 2,
              op_has_consumer = True, op_has_producer = True\<rparr>"

definition run_tq :: "u32 \<Rightarrow> u32 list \<Rightarrow> nat list \<Rightarrow> nat \<Rightarrow> nat \<Rightarrow> nat \<Rightarrow> nat \<Rightarrow> nat \<Rightarrow> tq" where
  "run_tq con fs pk d h t ap ac =
     \<lparr>tq_con_flags = con, tq_state_flags = fs, tq_workpkg = pk, tq_qdepth = d, tq_max_qdepth = 4,
      tq_head = h, tq_tail = t, tq_uncoll_thrds = 3,
      tq_prod_pool = Some \<lparr>wp_start = 0, wp_num = 2, wp_act = ap\<rparr>,
      tq_cons_pool = Some \<lparr>wp_start = 2, wp_num = 1, wp_act = ac\<rparr>\<rparr>"

definition run_sys ::
  "tq \<Rightarrow> tpc \<Rightarrow> tpc \<Rightarrow> tpc \<Rightarrow> nat \<Rightarrow> nat list \<Rightarrow> nat list \<Rightarrow> sys" where
  "run_sys q a b c w ins outs =
     \<lparr>sy_tq = q,
      sy_thr = (\<lambda>_. \<lparr>th_pc = T_new, th_work = 0\<rparr>)
        (0 := \<lparr>th_pc = a, th_work = 0\<rparr>, 1 := \<lparr>th_pc = b, th_work = 0\<rparr>, 2 := \<lparr>th_pc = c, th_work = w\<rparr>),
      sy_in = ins, sy_out = outs, sy_woken = {}\<rparr>"

lemmas run_defs = general_thread_init_behavior_def general_thread_pause_behavior_def
  general_thread_post_work_behavior_def general_thread_term_behavior_def thread_term_def
  consumer_waits_def consumer_act_def consumer_top_def consumer_start_def consumer_worked_def
  producer_waits_def producer_waits0_def producer_act_def producer_top_def producer_top0_def
  producer_start_def producer_worked_def tq_threads_terminated_def set_state_def clear_state_def
  set_con_def upd_act_def ring_put_def ring_drop_def ring_take_def ring_peek_def cflag_def has_def
  tq_flag_defs inc32_def dec32_def sub32_def run_tq_def nop_def put_signals_def take_signals_def

lemma run_init: "tq_init (\<lambda>_. True) run_ops =
   Inr (run_tq 0 [0, 0, 0] [0, 0, 0, 0] 0 0 0 2 1, [(Producer, 0), (Producer, 1), (Consumer, 2)])"
  by (simp add: tq_init_all run_ops_def tq_opts_abort_def tq_fresh_def run_tq_def
      numeral_2_eq_2 numeral_3_eq_3 numeral_eq_Suc)

lemma run_p0_start: "producer_start (run_tq 0 [0, 0, 0] [0, 0, 0, 0] 0 0 0 2 1) 0 0 nop =
   (run_tq 0 [1, 0, 0] [0, 0, 0, 0] 0 0 0 2 1, \<lparr>th_pc = P_work, th_work = 0\<rparr>, [Signal State_resume])"
  by (simp add: run_defs)

lemma run_p0_work: "producer_worked (run_tq 0 [1, 0, 0] [0, 0, 0, 0] 0 0 0 2 1) 0 1 nop 7 =
   (run_tq 2 [0, 0, 0] [7, 0, 0, 0] 1 0 1 1 1, \<lparr>th_pc = T_exit, th_work = 0\<rparr>,
    wake_all @ [Broadcast State_resume, Broadcast Consumer_resume])"
  by (simp add: run_defs)

lemma run_c_start: "consumer_start (run_tq 2 [0, 0, 0] [7, 0, 0, 0] 1 0 1 1 1) 2 0 nop =
   (run_tq 2 [0, 0, 1] [0, 0, 0, 0] 0 1 1 1 1, \<lparr>th_pc = C_work, th_work = 7\<rparr>,
    [Signal State_resume, Signal Producer_resume])"
  by (simp add: run_defs)

lemma run_c_work: "consumer_worked (run_tq 2 [0, 0, 1] [0, 0, 0, 0] 0 1 1 1 1) 2 0 nop =
   (run_tq 2 [0, 0, 0] [0, 0, 0, 0] 0 1 1 1 0, \<lparr>th_pc = T_exit, th_work = 0\<rparr>,
    [Broadcast State_resume])"
  by (simp add: run_defs numeral_2_eq_2)

lemma run_p1_start: "producer_start (run_tq 2 [0, 0, 0] [0, 0, 0, 0] 0 1 1 1 0) 1 0 nop =
   (run_tq 2 [0, 1, 0] [0, 0, 0, 0] 0 1 1 1 0, \<lparr>th_pc = P_work, th_work = 0\<rparr>, [Signal State_resume])"
  by (simp add: run_defs)

lemma run_p1_work: "producer_worked (run_tq 2 [0, 1, 0] [0, 0, 0, 0] 0 1 1 1 0) 1 0 nop 9 =
   (run_tq 2 [0, 0, 0] [0, 9, 0, 0] 1 1 2 0 0, \<lparr>th_pc = T_exit, th_work = 0\<rparr>,
    [Signal Consumer_resume, Broadcast State_resume, Broadcast Consumer_resume])"
  by (simp add: run_defs)

lemma run_sys_simps:
  "sys_start q = run_sys q T_new T_new T_new 0 [] []"
  "sy_tq (run_sys q a b c w ins outs) = q"
  "sy_thr (run_sys q a b c w ins outs) 0 = \<lparr>th_pc = a, th_work = 0\<rparr>"
  "sy_thr (run_sys q a b c w ins outs) 1 = \<lparr>th_pc = b, th_work = 0\<rparr>"
  "sy_thr (run_sys q a b c w ins outs) 2 = \<lparr>th_pc = c, th_work = w\<rparr>"
  "sy_in (run_sys q a b c w ins outs) = ins" "sy_out (run_sys q a b c w ins outs) = outs"
  by (auto simp: run_sys_def sys_start_def fun_eq_iff)

lemma run_sys_thread:
  assumes "cv_of a = None" "cv_of b = None" "cv_of c = None"
  shows
  "sys_thread (run_sys q a b c w ins outs) 0 ns (q', \<lparr>th_pc = pc, th_work = 0\<rparr>, sg) =
     run_sys q' pc b c w (ins @ ns) (outs @ received \<lparr>th_pc = pc, th_work = 0\<rparr>)"
  "sys_thread (run_sys q a b c w ins outs) 1 ns (q', \<lparr>th_pc = pc, th_work = 0\<rparr>, sg) =
     run_sys q' a pc c w (ins @ ns) (outs @ received \<lparr>th_pc = pc, th_work = 0\<rparr>)"
  "sys_thread (run_sys q a b c w ins outs) 2 ns (q', \<lparr>th_pc = pc, th_work = v\<rparr>, sg) =
     run_sys q' a b pc v (ins @ ns) (outs @ received \<lparr>th_pc = pc, th_work = v\<rparr>)"
proof -
  have "reached (sy_thr (run_sys q a b c w ins outs)) sg = {}"
    using assms by (auto simp: reached_def run_sys_def cv_of_def split: if_splits)
  then show
    "sys_thread (run_sys q a b c w ins outs) 0 ns (q', \<lparr>th_pc = pc, th_work = 0\<rparr>, sg) =
       run_sys q' pc b c w (ins @ ns) (outs @ received \<lparr>th_pc = pc, th_work = 0\<rparr>)"
    "sys_thread (run_sys q a b c w ins outs) 1 ns (q', \<lparr>th_pc = pc, th_work = 0\<rparr>, sg) =
       run_sys q' a pc c w (ins @ ns) (outs @ received \<lparr>th_pc = pc, th_work = 0\<rparr>)"
    "sys_thread (run_sys q a b c w ins outs) 2 ns (q', \<lparr>th_pc = pc, th_work = v\<rparr>, sg) =
       run_sys q' a b pc v (ins @ ns) (outs @ received \<lparr>th_pc = pc, th_work = v\<rparr>)"
    by (auto simp: sys_thread_def run_sys_def fun_eq_iff)
qed

lemma run_noabort:
  "cflag (run_tq 0 fs pk d h t ap ac) TQ_ABORT = False" "cflag (run_tq 2 fs pk d h t ap ac) TQ_ABORT = False"
  by (simp_all add: run_tq_def cflag_def has_def tq_flag_defs)

lemma run_sizes:
  "num_thrds (run_tq con fs pk d h t ap ac) = 3" "role_of (run_tq con fs pk d h t ap ac) 0 = Producer"
  "role_of (run_tq con fs pk d h t ap ac) 1 = Producer" "role_of (run_tq con fs pk d h t ap ac) 2 = Consumer"
  "tq_qdepth (run_tq con fs pk d h t ap ac) = d"
  "tq_items (run_tq con fs pk 1 h t ap ac) = [pk ! (h mod 4)]"
  by (simp_all add: run_tq_def num_thrds_def role_of_def num_prods_def tq_items_def)

text \<open>One step of thread \<open>i\<close> of the run.\<close>

lemma run_step:
  assumes "sys_reach ok ops s" "i < num_thrds (sy_tq s)" "thread_section (sy_tq s) i (sy_thr s i) ins r"
    and "s' = sys_thread s i ins r"
  shows "sys_reach ok ops s'"
  using sys_reach.step [OF assms(1) sys_step.thread [OF assms(2,3)]] assms(4) by simp

lemma run_states:
  "tq_reach run_ops (run_sys (run_tq 2 [0, 0, 0] [7, 0, 0, 0] 1 0 1 1 1) T_exit T_new T_new 0 [7] [])"
  "tq_reach run_ops (run_sys (run_tq 2 [0, 0, 0] [0, 0, 0, 0] 0 1 1 1 0) T_exit T_new T_exit 0 [7] [7])"
  "tq_reach run_ops (run_sys (run_tq 2 [0, 0, 0] [0, 9, 0, 0] 1 1 2 0 0) T_exit T_exit T_exit 0 [7, 9] [7])"
proof -
  have 0: "tq_reach run_ops (run_sys (run_tq 0 [0, 0, 0] [0, 0, 0, 0] 0 0 0 2 1) T_new T_new T_new 0 [] [])"
    using sys_reach.init [OF run_init] by (simp add: run_sys_simps)
  note rs = run_sys_simps run_sizes run_sys_thread cv_of_def received_def handed_def run_noabort
  have 1: "tq_reach run_ops (run_sys (run_tq 0 [1, 0, 0] [0, 0, 0, 0] 0 0 0 2 1) P_work T_new T_new 0 [] [])"
    by (rule run_step [OF 0 _ thread_section.start_prod [of _ 0 _ 0 nop]]) (simp_all add: rs run_p0_start del: One_nat_def)
  show 2: "tq_reach run_ops (run_sys (run_tq 2 [0, 0, 0] [7, 0, 0, 0] 1 0 1 1 1) T_exit T_new T_new 0 [7] [])"
    by (rule run_step [OF 1 _ thread_section.work_prod [of _ _ 0 1 nop 7
        "run_tq 2 [0, 0, 0] [7, 0, 0, 0] 1 0 1 1 1" "\<lparr>th_pc = T_exit, th_work = 0\<rparr>"
        "wake_all @ [Broadcast State_resume, Broadcast Consumer_resume]"]]) (simp_all add: rs run_p0_work del: One_nat_def)
  have 3: "tq_reach run_ops (run_sys (run_tq 2 [0, 0, 1] [0, 0, 0, 0] 0 1 1 1 1) T_exit T_new C_work 7 [7] [7])"
    by (rule run_step [OF 2 _ thread_section.start_cons [of _ 2 _ 0 nop]]) (simp_all add: rs run_c_start del: One_nat_def)
  show 4: "tq_reach run_ops (run_sys (run_tq 2 [0, 0, 0] [0, 0, 0, 0] 0 1 1 1 0) T_exit T_new T_exit 0 [7] [7])"
    by (rule run_step [OF 3 _ thread_section.work_cons [of _ _ 2 0 nop]]) (simp_all add: rs run_c_work del: One_nat_def)
  have 5: "tq_reach run_ops (run_sys (run_tq 2 [0, 1, 0] [0, 0, 0, 0] 0 1 1 1 0) T_exit P_work T_exit 0 [7] [7])"
    by (rule run_step [OF 4 _ thread_section.start_prod [of _ 1 _ 0 nop]]) (simp_all add: rs run_p1_start del: One_nat_def)
  show "tq_reach run_ops (run_sys (run_tq 2 [0, 0, 0] [0, 9, 0, 0] 1 1 2 0 0) T_exit T_exit T_exit 0 [7, 9] [7])"
    by (rule run_step [OF 5 _ thread_section.work_prod [of _ _ 1 0 nop 9
        "run_tq 2 [0, 0, 0] [0, 9, 0, 0] 1 1 2 0 0" "\<lparr>th_pc = T_exit, th_work = 0\<rparr>"
        "[Signal Consumer_resume, Broadcast State_resume, Broadcast Consumer_resume]"]]) (simp_all add: rs run_p1_work del: One_nat_def)
qed

section \<open>Properties\<close>

text \<open>
  C14. In every reachable state of the queue with its threads, and with masters that make any calls,
  the packages are received in the order in which they were handed over, none is lost and none is
  doubled: the packages that producers and masters handed over are those that work callbacks of
  consumers and calls of \<^verbatim>\<open>tq_dequeue\<close> received, followed by those in the ring; the ring never exceeds
  its maximal depth.\<close>

theorem tq_fifo:
  "tq_reach ops s \<Longrightarrow> opts_small ops \<Longrightarrow>
   sy_in s = sy_out s @ tq_items (sy_tq s) \<and> tq_inv (sy_tq s) \<and>
   length (tq_items (sy_tq s)) \<le> tq_max_qdepth (sy_tq s)"
  using tq_reach_inv [of "\<lambda>_. True" ops s] by (auto simp: sys_inv_def intro: tq_inv_depth)

lemma run_small: "opts_small run_ops"
  by (simp add: opts_small_def run_ops_def)

theorem tq_fifo_witness:
  "\<exists>s. tq_reach run_ops s \<and> sy_in s = [7, 9] \<and> sy_out s = [7] \<and> tq_items (sy_tq s) = [9]"
proof -
  let ?s = "run_sys (run_tq 2 [0, 0, 0] [0, 9, 0, 0] 1 1 2 0 0) T_exit T_exit T_exit 0 [7, 9] [7]"
  have "sy_in ?s = sy_out ?s @ tq_items (sy_tq ?s)"
    using tq_fifo [OF run_states(3) run_small] by blast
  then have "tq_items (sy_tq ?s) = [9]" by (simp add: run_sys_def)
  then show ?thesis using run_states(3) by (intro exI [of _ ?s]) (simp add: run_sys_def)
qed

text \<open>
  C18. The counters of active threads are exact in every reachable state: a pool counts its threads
  but for those that wait or that left their loop. The counters never wrap around.\<close>

theorem tq_act_exact:
  assumes "tq_reach ops s" "opts_small ops"
  shows "act_thrds r (sy_tq s) =
    card {i \<in> pool_ids (sy_tq s) r. \<not> waiting (th_pc (sy_thr s i)) \<and> th_pc (sy_thr s i) \<noteq> T_exit}"
proof -
  let ?A = "pool_ids (sy_tq s) r"
  let ?B = "{i \<in> ?A. \<not> waiting (th_pc (sy_thr s i)) \<and> th_pc (sy_thr s i) \<noteq> T_exit}"
  have "act_thrds r (sy_tq s) = (\<Sum>i \<in> ?A. counted (th_pc (sy_thr s i)))"
    using tq_reach_inv [OF assms] by (simp add: sys_inv_def counts_ok_def)
  also have "\<dots> = (\<Sum>i \<in> ?B. 1)"
    by (rule sum.mono_neutral_cong_right) (auto simp: counted_def)
  finally show ?thesis by simp
qed

theorem tq_act_exact_witness:
  "\<exists>s. tq_reach run_ops s \<and> act_thrds Consumer (sy_tq s) = 0 \<and>
       {i \<in> pool_ids (sy_tq s) Consumer. \<not> waiting (th_pc (sy_thr s i)) \<and> th_pc (sy_thr s i) \<noteq> T_exit} = {}"
proof -
  let ?s = "run_sys (run_tq 2 [0, 0, 0] [0, 0, 0, 0] 0 1 1 1 0) T_exit T_new T_exit 0 [7] [7]"
  have a: "act_thrds Consumer (sy_tq ?s) = 0"
    by (simp add: run_sys_simps act_thrds_def pool_of_def run_tq_def)
  let ?B = "{i \<in> pool_ids (sy_tq ?s) Consumer.
      \<not> waiting (th_pc (sy_thr ?s i)) \<and> th_pc (sy_thr ?s i) \<noteq> T_exit}"
  have "finite ?B" by (rule finite_subset [OF _ finite_pool_ids]) blast
  moreover have "card ?B = 0"
    using tq_act_exact [OF run_states(2) run_small, of Consumer] unfolding a by (rule sym)
  ultimately have "?B = {}" by (simp only: card_0_eq)
  with a run_states(2) show ?thesis by (intro exI [of _ ?s] conjI)
qed









section \<open>A second run\<close>

text \<open>One consumer waits; a master stores the package 7 and declares the work finished.\<close>

definition one_ops :: tq_opts where
  "one_ops = \<lparr>op_init_flags = 0, op_max_qdepth = 2, op_num_threads = 1, op_num_prod_threads = 0,
              op_has_consumer = True, op_has_producer = False\<rparr>"

definition one_tq :: "u32 \<Rightarrow> u32 \<Rightarrow> nat list \<Rightarrow> nat \<Rightarrow> nat \<Rightarrow> nat \<Rightarrow> nat \<Rightarrow> tq" where
  "one_tq con f pk d h t a =
     \<lparr>tq_con_flags = con, tq_state_flags = [f], tq_workpkg = pk, tq_qdepth = d,
      tq_max_qdepth = 2, tq_head = h, tq_tail = t, tq_uncoll_thrds = 1, tq_prod_pool = None,
      tq_cons_pool = Some \<lparr>wp_start = 0, wp_num = 1, wp_act = a\<rparr>\<rparr>"

definition one_sys :: "tq \<Rightarrow> tpc \<Rightarrow> nat \<Rightarrow> nat list \<Rightarrow> nat list \<Rightarrow> nat set \<Rightarrow> sys" where
  "one_sys q pc w ins outs wk =
     \<lparr>sy_tq = q,
      sy_thr = (\<lambda>_. \<lparr>th_pc = T_new, th_work = 0\<rparr>)(0 := \<lparr>th_pc = pc, th_work = w\<rparr>),
      sy_in = ins, sy_out = outs, sy_woken = wk\<rparr>"

lemmas one_defs = run_defs one_tq_def general_thread_resume_behavior_def consumer_wake_def

lemma one_init: "tq_init (\<lambda>_. True) one_ops = Inr (one_tq 0 0 [0, 0] 0 0 0 1, [(Consumer, 0)])"
  by (simp add: tq_init_all one_ops_def tq_opts_abort_def tq_fresh_def one_tq_def numeral_2_eq_2)

lemma one_steps:
  "consumer_start (one_tq 0 0 [0, 0] 0 0 0 1) 0 0 nop =
     (one_tq 0 1 [0, 0] 0 0 0 0, \<lparr>th_pc = C_wait, th_work = 0\<rparr>,
      [Signal State_resume, Broadcast Producer_resume])"
  "tq_enqueue (one_tq 0 1 [0, 0] 0 0 0 0) 0 7 = Ret 0 (one_tq 0 1 [7, 0] 1 0 1 0) [Signal Consumer_resume]"
  "tq_set_flags (one_tq 0 1 [7, 0] 1 0 1 0) TQ_FINISHED = Ret 0 (one_tq 2 1 [7, 0] 1 0 1 0) wake_all"
  "consumer_wake (one_tq 2 1 [7, 0] 1 0 1 0) 0 nop nop 0 =
     (one_tq 2 1 [0, 0] 0 1 1 1, \<lparr>th_pc = C_work, th_work = 7\<rparr>, [])"
  "consumer_worked (one_tq 2 1 [0, 0] 0 1 1 1) 0 0 nop =
     (one_tq 2 0 [0, 0] 0 1 1 0, \<lparr>th_pc = T_exit, th_work = 0\<rparr>, [Broadcast State_resume])"
  by (simp_all add: tq_enqueue_def tq_set_flags_def one_defs)

lemma one_sizes:
  "num_thrds (one_tq con f pk d h t a) = 1" "role_of (one_tq con f pk d h t a) 0 = Consumer"
  "tq_qdepth (one_tq con f pk d h t a) = d" "tq_items (one_tq con f pk 1 h t a) = [pk ! (h mod 2)]"
  "tq_cons_pool (one_tq con f pk d h t a) = Some \<lparr>wp_start = 0, wp_num = 1, wp_act = a\<rparr>"
  by (simp_all add: one_tq_def num_thrds_def role_of_def num_prods_def tq_items_def)

lemma one_sys_simps:
  "sys_start q = one_sys q T_new 0 [] [] {}"
  "sy_tq (one_sys q pc w ins outs wk) = q"
  "sy_thr (one_sys q pc w ins outs wk) 0 = \<lparr>th_pc = pc, th_work = w\<rparr>"
  "sy_in (one_sys q pc w ins outs wk) = ins" "sy_out (one_sys q pc w ins outs wk) = outs"
  "sy_woken (one_sys q pc w ins outs wk) = wk"
  "sys_thread (one_sys q pc w ins outs wk) 0 ns (q', \<lparr>th_pc = pc', th_work = w'\<rparr>, sg) =
     one_sys q' pc' w' (ins @ ns) (outs @ received \<lparr>th_pc = pc', th_work = w'\<rparr>) (wk - {0})"
  "sys_master (one_sys q pc w ins outs wk) q' ns os sg =
     one_sys q' pc w (ins @ ns) (outs @ os)
       (wk \<union> (case cv_of pc of None \<Rightarrow> {} | Some cv \<Rightarrow> if Broadcast cv \<in> set sg then {0} else {}))"
  by (auto simp: one_sys_def sys_start_def sys_thread_def sys_master_def reached_def fun_eq_iff
      cv_of_def split: if_splits)

lemma one_thread:
  assumes "i < num_thrds (sy_tq s)" "thread_section (sy_tq s) i (sy_thr s i) ins r"
    and "s' = sys_thread s i ins r"
  shows "sys_step ok s s'"
  using sys_step.thread [OF assms(1,2)] assms(3) by simp

lemma one_master:
  assumes "master_call c (sy_tq s) q' ins outs sg" "ok c" "s' = sys_master s q' ins outs sg"
  shows "sys_step ok s s'"
  using sys_step.master [of ok c s, OF assms(2,1)] assms(3) by simp

lemma one_run:
  "sys_reach timely one_ops (one_sys (one_tq 0 1 [0, 0] 0 0 0 0) C_wait 0 [] [] {})"
  "(sys_step timely)\<^sup>*\<^sup>* (one_sys (one_tq 0 1 [0, 0] 0 0 0 0) C_wait 0 [] [] {})
     (one_sys (one_tq 2 1 [7, 0] 1 0 1 0) C_wait 0 [7] [] {0})"
  "(sys_step timely)\<^sup>*\<^sup>* (one_sys (one_tq 2 1 [7, 0] 1 0 1 0) C_wait 0 [7] [] {0})
     (one_sys (one_tq 2 0 [0, 0] 0 1 1 0) T_exit 0 [7] [7] {})"
proof -
  note os = one_sys_simps one_sizes received_def cv_of_def timely_def wake_all_def
  have 0: "sys_reach timely one_ops (one_sys (one_tq 0 0 [0, 0] 0 0 0 1) T_new 0 [] [] {})"
    using sys_reach.init [OF one_init] by (simp add: one_sys_simps)
  show "sys_reach timely one_ops (one_sys (one_tq 0 1 [0, 0] 0 0 0 0) C_wait 0 [] [] {})"
    by (rule run_step [OF 0 _ thread_section.start_cons [of _ 0 _ 0 nop]])
       (simp_all add: os one_steps del: One_nat_def)
  have 1: "sys_step timely (one_sys (one_tq 0 1 [0, 0] 0 0 0 0) C_wait 0 [] [] {})
      (one_sys (one_tq 0 1 [7, 0] 1 0 1 0) C_wait 0 [7] [] {})"
    by (rule one_master [OF master_call.enqueue
          [of _ 0 7 0 "one_tq 0 1 [7, 0] 1 0 1 0" "[Signal Consumer_resume]"]])
       (simp_all add: os one_steps del: One_nat_def)
  have 2: "sys_step timely (one_sys (one_tq 0 1 [7, 0] 1 0 1 0) C_wait 0 [7] [] {})
      (one_sys (one_tq 2 1 [7, 0] 1 0 1 0) C_wait 0 [7] [] {0})"
    by (rule one_master [OF master_call.set_flags
          [of _ TQ_FINISHED 0 "one_tq 2 1 [7, 0] 1 0 1 0" wake_all]])
       (simp_all add: os one_steps del: One_nat_def)
  show "(sys_step timely)\<^sup>*\<^sup>* (one_sys (one_tq 0 1 [0, 0] 0 0 0 0) C_wait 0 [] [] {})
     (one_sys (one_tq 2 1 [7, 0] 1 0 1 0) C_wait 0 [7] [] {0})"
    using 1 2 by (meson rtranclp.rtrancl_into_rtrancl rtranclp.rtrancl_refl)
  have 3: "sys_step timely (one_sys (one_tq 2 1 [7, 0] 1 0 1 0) C_wait 0 [7] [] {0})
      (one_sys (one_tq 2 1 [0, 0] 0 1 1 1) C_work 7 [7] [7] {})"
    by (rule one_thread [OF _ thread_section.wake_cons [of _ _ 0 nop nop]])
       (simp_all add: os one_steps del: One_nat_def)
  have 4: "sys_step timely (one_sys (one_tq 2 1 [0, 0] 0 1 1 1) C_work 7 [7] [7] {})
      (one_sys (one_tq 2 0 [0, 0] 0 1 1 0) T_exit 0 [7] [7] {})"
    by (rule one_thread [OF _ thread_section.work_cons [of _ _ 0 0 nop]])
       (simp_all add: os one_steps del: One_nat_def)
  show "(sys_step timely)\<^sup>*\<^sup>* (one_sys (one_tq 2 1 [7, 0] 1 0 1 0) C_wait 0 [7] [] {0})
     (one_sys (one_tq 2 0 [0, 0] 0 1 1 0) T_exit 0 [7] [7] {})"
    using 3 4 by (meson rtranclp.rtrancl_into_rtrancl rtranclp.rtrancl_refl)
qed

lemma one_small: "opts_small one_ops"
  by (simp add: opts_small_def one_ops_def)

lemma one_check: "tq_check_init (one_tq 0 1 [0, 0] 0 0 0 0) 0 = Done 0"
  by (simp add: tq_check_init.simps one_sizes) (simp add: one_tq_def has_def tq_flag_defs)

lemma one_complete: "tq_wait_for_completion (one_tq 2 0 [0, 0] 0 1 1 0) = Done 0"
  by (simp add: tq_wait_for_completion_def wait_completion_loop.simps num_thrds_def one_tq_def cflag_def
      has_def tq_flag_defs)

lemma one_pool: "pool_ids (one_tq con f pk d h t a) Consumer \<noteq> {}"
  using one_sizes(1,2) [of con f pk d h t a] by (auto simp: pool_ids_def)

text \<open>
  C15. Completion is real on a queue with consumers: when \<^verbatim>\<open>tq_check_init\<close> returned 0 and later
  \<^verbatim>\<open>tq_wait_for_completion\<close> returns 0, with any steps of threads and masters in between and during the
  two calls in which no master stores a package with FINISHED or ABORT among the ignored flags or
  removes a flag but HALT, then every thread has left its loop and every package that was ever
  handed over was also received, in order; the queue is empty.\<close>

theorem tq_completion_drains:
  assumes "tq_reach ops s0" "opts_small ops"
    and "wait_call tq_check_init (sys_step timely) (tq_check_init (sy_tq s0) 0) s0 0 s1" "(sys_step timely)\<^sup>*\<^sup>* s1 s2"
    and "wait_call wait_completion_loop (sys_step timely) (tq_wait_for_completion (sy_tq s2)) s2 0 s"
    and "pool_ids (sy_tq s0) Consumer \<noteq> {}"
  shows "(\<forall>i < num_thrds (sy_tq s). th_pc (sy_thr s i) = T_exit) \<and> sy_out s = sy_in s \<and>
    tq_qdepth (sy_tq s) = 0"
proof -
  have i1: "initialised s1" by (rule check_init_initialised [OF tq_reach_inv [OF assms(1,2)] assms(3,6)])
  then have i2: "initialised s2" using initialised_steps [OF assms(4)] by simp
  then obtain c where c: "c \<in> pool_ids (sy_tq s2) Consumer" by (auto simp: initialised_def)
  have w: "tq_wait_for_completion (sy_tq s2) = wait_completion_loop (sy_tq s2) 0"
    using assms(5) by (auto simp: tq_wait_for_completion_def split: if_splits elim: wait_call.cases)
  have "completed_upto s2 0" using i2 by (simp add: completed_upto_def)
  from completion.wait_call_carries [OF assms(5) refl completed_upto_step completed_upto_pass _ w this] c
  have u: "completed_upto s (num_thrds (sy_tq s))" "completion_pass (sy_tq s) (num_thrds (sy_tq s) - 1)"
    by (auto simp: pool_ids_def)
  then have inv: "sys_inv s" "drain_inv s" "pool_ids (sy_tq s) Consumer \<noteq> {}"
    and na: "\<not> cflag (sy_tq s) TQ_ABORT"
    by (simp_all add: completed_upto_def initialised_def completion_pass_def)
  have ex: "th_pc (sy_thr s i) = T_exit" if "i < num_thrds (sy_tq s)" for i
  proof -
    have "th_pc (sy_thr s i) \<in> {T_exit, T_failed}" "thread_ok (sy_tq s) i (th_pc (sy_thr s i))"
      using u(1) inv(1) that by (auto simp: completed_upto_def sys_inv_def)
    with na show ?thesis by (auto simp: thread_ok_def)
  qed
  then have "drained s" using inv(2,3) na by (auto simp: drain_inv_def pool_ids_def)
  then have "tq_qdepth (sy_tq s) = 0" by (simp add: drained_def)
  moreover from this have "sy_in s = sy_out s" using inv(1) by (simp add: sys_inv_def)
  ultimately show ?thesis using ex by simp
qed

theorem tq_completion_drains_witness:
  "\<exists>s0 s. tq_reach one_ops s0 \<and> (sys_step timely)\<^sup>*\<^sup>* s0 s \<and> tq_check_init (sy_tq s0) 0 = Done 0 \<and>
     tq_wait_for_completion (sy_tq s) = Done 0 \<and> sy_in s = [7] \<and> sy_out s = [7]"
proof -
  let ?u = "one_sys (one_tq 0 1 [0, 0] 0 0 0 0) C_wait 0 [] [] {}"
  let ?s = "one_sys (one_tq 2 0 [0, 0] 0 1 1 0) T_exit 0 [7] [7] {}"
  have st: "(sys_step timely)\<^sup>*\<^sup>* ?u ?s" using one_run(2,3) by (rule rtranclp_trans)
  have c: "tq_check_init (sy_tq ?u) 0 = Done 0" "tq_wait_for_completion (sy_tq ?s) = Done 0"
    using one_check one_complete by (simp_all only: one_sys_simps)
  have w: "wait_call tq_check_init (sys_step timely) (tq_check_init (sy_tq ?u) 0) ?u 0 ?u"
    "wait_call wait_completion_loop (sys_step timely) (tq_wait_for_completion (sy_tq ?s)) ?s 0 ?s"
    by (simp_all only: c wait_call.finish)
  have "sy_out ?s = sy_in ?s"
    using tq_completion_drains [OF sys_reach_any [OF one_run(1)] one_small w(1) st w(2)] one_pool
    by (simp add: one_sys_simps)
  with st c sys_reach_any [OF one_run(1)] show ?thesis
    by (intro exI [of _ ?u] exI [of _ ?s] conjI) (simp_all add: one_sys_simps)
qed

text \<open>
  C20. Without that wait completion is not enough. Two producers and one consumer: the first
  producer finishes before the second one was initialised, the consumer takes the missing READY
  flag of the second one for its termination and leaves, then the second producer stores the
  package 9. \<^verbatim>\<open>tq_wait_for_completion\<close> returns 0 and the package 9 is still queued.\<close>

theorem tq_completion_race:
  "\<exists>s. tq_reach run_ops s \<and> tq_wait_for_completion (sy_tq s) = Done 0 \<and>
       tq_items (sy_tq s) = [9] \<and>
       map (\<lambda>i. th_pc (sy_thr s i)) [0..<num_thrds (sy_tq s)] = [T_exit, T_exit, T_exit]"
proof -
  let ?q = "run_tq 2 [0, 0, 0] [0, 9, 0, 0] 1 1 2 0 0"
  let ?s = "run_sys ?q T_exit T_exit T_exit 0 [7, 9] [7]"
  have f: "cflag ?q TQ_FINISHED" "\<not> cflag ?q TQ_ABORT"
    by (simp_all add: run_tq_def cflag_def has_def tq_flag_defs)
  have r: "\<not> has (tq_state_flags ?q ! i) TQ_READY" if "i < 3" for i
    using that by (auto simp: run_tq_def less_Suc_eq numeral_3_eq_3)
  have loop: "wait_completion_loop ?q i = Done 0" for i
  proof (induction "3 - i" arbitrary: i)
    case 0
    then show ?case by (subst wait_completion_loop.simps) (simp add: run_sizes)
  next
    case (Suc n)
    then have "wait_completion_loop ?q (Suc i) = Done 0" by simp
    with Suc(2) f r [of i] show ?case by (subst wait_completion_loop.simps) (simp add: run_sizes)
  qed
  have "map (\<lambda>i. th_pc (sy_thr ?s i)) [0..<3] = [T_exit, T_exit, T_exit]"
    by (simp add: run_sys_def numeral_3_eq_3)
  moreover have "tq_items ?q = [9]" by (simp add: run_tq_def tq_items_def)
  ultimately show ?thesis
    using run_states(3) loop f
    by (intro exI [of _ ?s]) (simp add: run_sys_simps(2) run_sizes(1) tq_wait_for_completion_def)
qed

lemma initialised_end:
  assumes "initialised s" "ending (sy_tq s)" "j < num_thrds (sy_tq s)"
  shows "th_pc (sy_thr s j) \<noteq> T_new" "thread_ok (sy_tq s) j (th_pc (sy_thr s j))"
    and "th_pc (sy_thr s j) \<in> {T_exit, C_wait, C_work, P_wait0, P_wait, P_work}"
proof -
  show n: "th_pc (sy_thr s j) \<noteq> T_new" and ok: "thread_ok (sy_tq s) j (th_pc (sy_thr s j))"
    using assms by (simp_all add: initialised_def sys_inv_def)
  show "th_pc (sy_thr s j) \<in> {T_exit, C_wait, C_work, P_wait0, P_wait, P_work}"
    using n ok assms(2) by (cases "th_pc (sy_thr s j)") (auto simp: thread_ok_def ending_def)
qed

text \<open>One of the threads that are left has been woken or works.\<close>

lemma end_woken:
  assumes ini: "initialised s" and aw: "end_awake s" and e: "ending (sy_tq s)"
    and i: "i < num_thrds (sy_tq s)" "th_pc (sy_thr s i) \<noteq> T_exit"
  shows "\<exists>j < num_thrds (sy_tq s). th_pc (sy_thr s j) \<in> {C_work, P_work} \<or>
    waiting (th_pc (sy_thr s j)) \<and> j \<in> sy_woken s"
proof (cases "\<forall>c \<in> pool_ids (sy_tq s) Consumer. th_pc (sy_thr s c) \<noteq> T_exit")
  case True
  then obtain j where "j < num_thrds (sy_tq s)" "stirred s j" using aw e by (auto simp: end_awake_def)
  with initialised_end(1) [OF ini e] show ?thesis by (auto simp: stirred_def)
next
  case False
  then have d: "drained s" using ini e by (auto simp: initialised_def drain_inv_def ending_def)
  have dead: "th_pc (sy_thr s p) = T_exit" if "p \<in> pool_ids (sy_tq s) Producer" for p
    using d that initialised_end(3) [OF ini e, of p] by (auto simp: drained_def alive_def pool_ids_def)
  have c: "i \<in> pool_ids (sy_tq s) Consumer"
    using i dead [of i] by (cases "role_of (sy_tq s) i") (auto simp: pool_ids_def)
  then have "th_pc (sy_thr s i) \<in> {C_wait, C_work}"
    using i initialised_end(2,3) [OF ini e i(1)] by (auto simp: thread_ok_def pc_role_def pool_ids_def)
  moreover have "th_pc (sy_thr s i) = C_wait \<longrightarrow> i \<in> sy_woken s"
    using aw e dead c by (simp add: end_awake_def)
  ultimately show ?thesis using i(1) by (auto simp: waiting_def)
qed

text \<open>One of them works or need not go on waiting.\<close>

lemma end_enabled:
  assumes ini: "initialised s" and e: "ending (sy_tq s)"
    and i: "i < num_thrds (sy_tq s)" "th_pc (sy_thr s i) \<noteq> T_exit"
  shows "\<exists>j < num_thrds (sy_tq s). th_pc (sy_thr s j) \<in> {C_work, P_work, P_wait0} \<or>
    th_pc (sy_thr s j) = C_wait \<and> \<not> consumer_waits (sy_tq s) \<or>
    th_pc (sy_thr s j) = P_wait \<and> \<not> producer_waits (sy_tq s)"
proof (rule ccontr)
  let ?q = "sy_tq s" and ?pc = "\<lambda>j. th_pc (sy_thr s j)"
  assume no: "\<not> ?thesis"
  have inv: "sys_inv s" "drain_inv s" "pool_ids ?q Consumer \<noteq> {}"
    using ini by (simp_all add: initialised_def)
  have st: "?pc j = T_exit \<or> ?pc j = C_wait \<and> consumer_waits ?q \<or> ?pc j = P_wait \<and> producer_waits ?q"
    if j: "j < num_thrds ?q" for j
    using no initialised_end(3) [OF ini e j] j by auto
  have max: "0 < tq_max_qdepth ?q" using inv(1) by (simp add: sys_inv_def tq_inv_def)
  show False
  proof (cases "consumer_waits ?q")
    case True
    then have "\<not> producer_waits ?q"
      using max e by (auto simp: ending_def consumer_waits_def producer_waits_def)
    have "\<not> alive (?pc j)" if "j \<in> pool_ids ?q Producer" for j
    proof -
      have j: "j < num_thrds ?q" "role_of ?q j = Producer" using that by (simp_all add: pool_ids_def)
      then have "pc_role Producer (?pc j)"
        using initialised_end(2) [OF ini e j(1)] by (simp add: thread_ok_def)
      then have "?pc j = T_exit"
        using st [OF j(1)] \<open>\<not> producer_waits ?q\<close> by (auto simp: pc_role_def)
      then show ?thesis by (simp add: alive_def)
    qed
    from no_producer_left [OF inv(1) this] True e show False by (simp add: consumer_waits_def ending_def)
  next
    case False
    obtain c where c: "c \<in> pool_ids ?q Consumer" using inv(3) by blast
    then have "?pc c = T_exit"
      using st [of c] initialised_end(2) [OF ini e, of c] False
      by (auto simp: pool_ids_def thread_ok_def pc_role_def)
    with c have "tq_qdepth ?q = 0" using inv(2) e by (auto simp: drain_inv_def drained_def ending_def)
    then have "\<not> producer_waits ?q" using max e by (simp add: producer_waits_def ending_def)
    with False st [OF i(1)] i(2) show False by simp
  qed
qed

text \<open>
  C17. No lost wake-up and no deadlock at the end. On a queue with consumers whose \<^verbatim>\<open>tq_check_init\<close>
  returned 0, with masters that never store a package with FINISHED or ABORT among the ignored
  flags and remove no flag but HALT: in every later state that is finished and neither halted nor
  aborted, as long as a thread is left, one of the threads is in its work callback or waits and has
  been reached by a broadcast since it began to wait; and one is in its work callback or stands in
  a wait whose condition holds no longer.\<close>

theorem tq_finish_progress:
  assumes "sys_reach timely ops s0" "opts_small ops"
    and "wait_call tq_check_init (sys_step timely) (tq_check_init (sy_tq s0) 0) s0 0 s1"
    and "(sys_step timely)\<^sup>*\<^sup>* s1 s" "pool_ids (sy_tq s0) Consumer \<noteq> {}"
    and "cflag (sy_tq s) TQ_FINISHED" "\<not> cflag (sy_tq s) TQ_HALT" "\<not> cflag (sy_tq s) TQ_ABORT"
    and "i < num_thrds (sy_tq s)" "th_pc (sy_thr s i) \<noteq> T_exit"
  shows "(\<exists>j < num_thrds (sy_tq s). th_pc (sy_thr s j) \<in> {C_work, P_work} \<or>
      th_pc (sy_thr s j) \<in> {C_wait, P_wait0, P_wait} \<and> j \<in> sy_woken s) \<and>
    (\<exists>j < num_thrds (sy_tq s). th_pc (sy_thr s j) \<in> {C_work, P_work, P_wait0} \<or>
      th_pc (sy_thr s j) = C_wait \<and> \<not> consumer_waits (sy_tq s) \<or>
      th_pc (sy_thr s j) = P_wait \<and> \<not> producer_waits (sy_tq s))"
proof -
  have i1: "initialised s1"
    by (rule check_init_initialised [OF tq_reach_inv [OF assms(1,2)] assms(3,5)])
  have ini: "initialised s" by (rule initialised_steps [OF assms(4) i1])
  have e: "ending (sy_tq s)" using assms(6-8) by (simp add: ending_def)
  have "sys_reach timely ops s"
    by (rule reach_steps [OF assms(4) reach_steps [OF wait_call_steps [OF assms(3)] assms(1)]])
  then have aw: "end_awake s" using end_awake_reach assms(2) ini by (simp add: initialised_def)
  show ?thesis
    using end_woken [OF ini aw e assms(9,10)] end_enabled [OF ini e assms(9,10)]
    by (simp add: waiting_def)
qed

theorem tq_finish_progress_witness:
  "\<exists>s. sys_reach timely one_ops s \<and> th_pc (sy_thr s 0) = C_wait \<and>
     cflag (sy_tq s) TQ_FINISHED \<and> 0 \<in> sy_woken s \<and> \<not> consumer_waits (sy_tq s)"
proof -
  let ?u = "one_sys (one_tq 0 1 [0, 0] 0 0 0 0) C_wait 0 [] [] {}"
  let ?s = "one_sys (one_tq 2 1 [7, 0] 1 0 1 0) C_wait 0 [7] [] {0}"
  have "tq_check_init (sy_tq ?u) 0 = Done 0" using one_check by (simp only: one_sys_simps)
  then have c: "wait_call tq_check_init (sys_step timely) (tq_check_init (sy_tq ?u) 0) ?u 0 ?u"
    by (simp only: wait_call.finish)
  have f: "cflag (sy_tq ?s) TQ_FINISHED" "\<not> cflag (sy_tq ?s) TQ_HALT" "\<not> cflag (sy_tq ?s) TQ_ABORT"
    by (simp_all add: one_sys_simps one_tq_def cflag_def has_def tq_flag_defs)
  have "\<not> consumer_waits (sy_tq ?s) \<and> 0 \<in> sy_woken ?s"
    using tq_finish_progress [OF one_run(1) one_small c one_run(2) _ f, of 0] one_pool
    by (simp add: one_sys_simps one_sizes)
  with f reach_steps [OF one_run(2,1)] show ?thesis
    by (intro exI [of _ ?s]) (simp add: one_sys_simps)
qed

text \<open>The creation of the threads when the \<open>k\<close>-th call of \<^verbatim>\<open>pthread_create\<close> fails.\<close>

lemma create_loop_fail:
  "tID \<le> k \<Longrightarrow> k < bound \<Longrightarrow>
   create_loop (\<lambda>j. j \<noteq> k) r bound tID tID started = (Suc k, k, started @ map (Pair r) [tID..<k])"
proof (induction "k - tID" arbitrary: tID started)
  case 0
  then show ?case by (simp add: create_loop.simps)
next
  case (Suc m)
  then have "[tID..<k] = tID # [Suc tID..<k]" by (intro upt_conv_Cons) simp
  with Suc show ?case by (subst create_loop.simps) simp
qed

text \<open>
  C22. A failure to create a producer goes unnoticed: when the creation of producer \<open>k\<close> fails and the
  later calls succeed, \<^verbatim>\<open>tq_init\<close> returns a queue, and the consumer body runs in place of all
  producers from \<open>k\<close> on, under their thread ids.\<close>

theorem tq_init_producer_failure:
  "\<not> tq_opts_abort ops \<Longrightarrow> k < op_num_prod_threads ops \<Longrightarrow>
   tq_init (\<lambda>j. j \<noteq> k) ops =
     Inr ((tq_fresh ops)\<lparr>tq_uncoll_thrds := op_num_threads ops\<rparr>,
          map (Pair Producer) [0..<k] @ map (Pair Consumer) [k..<op_num_threads ops])"
  using create_loop_fail [of 0 k "op_num_prod_threads ops" Producer "[]"]
    create_loop_later [of k "op_num_threads ops" "Suc k" "\<lambda>j. j \<noteq> k" Consumer "map (Pair Producer) [0..<k]"]
  by (auto simp: tq_init_def tq_opts_abort_def)

theorem tq_init_producer_failure_witness:
  "\<exists>q. tq_init (\<lambda>j. j \<noteq> 1) run_ops = Inr (q, [(Producer, 0), (Consumer, 1), (Consumer, 2)])"
proof -
  have "tq_init (\<lambda>j. j \<noteq> 1) run_ops =
     Inr ((tq_fresh run_ops)\<lparr>tq_uncoll_thrds := op_num_threads run_ops\<rparr>,
          map (Pair Producer) [0..<1] @ map (Pair Consumer) [1..<op_num_threads run_ops])"
    by (rule tq_init_producer_failure) (simp_all add: run_ops_def tq_opts_abort_def)
  moreover have "[1..<3] = [1, 2 :: nat]" by (simp add: numeral_3_eq_3 numeral_2_eq_2)
  ultimately show ?thesis by (simp add: run_ops_def)
qed

text \<open>
  Otherwise \<^verbatim>\<open>tq_init\<close> starts each thread once, the producers with the ids below their number
  and the consumers above, or refuses inconsistent options.\<close>

theorem tq_init_spec:
  "tq_init (\<lambda>_. True) ops =
     (if op_max_qdepth ops = 0 \<or> op_num_threads ops < op_num_prod_threads ops \<or> op_num_threads ops = 0 \<or>
         0 < op_num_prod_threads ops \<and> \<not> op_has_producer ops \<or>
         op_num_prod_threads ops < op_num_threads ops \<and> \<not> op_has_consumer ops \<or>
         \<not> op_has_producer ops \<and> \<not> op_has_consumer ops
      then Inl EFail
      else Inr ((tq_fresh ops)\<lparr>tq_uncoll_thrds := op_num_threads ops\<rparr>,
                map (\<lambda>i. (if i < op_num_prod_threads ops then Producer else Consumer, i))
                  [0..<op_num_threads ops]))"
proof -
  have "map (\<lambda>i. (if i < p then Producer else Consumer, i)) [0..<n] =
      map (Pair Producer) [0..<p] @ map (Pair Consumer) [p..<n]" if "p \<le> n" for p n
  proof -
    have "[0..<n] = [0..<p] @ [p..<n]" using upt_add_eq_append [of 0 p "n - p"] that by simp
    then show ?thesis by auto
  qed
  then show ?thesis by (auto simp: tq_init_all tq_opts_abort_def)
qed

end
