(* ===== verification/Recovery.thy ===== *)
theory Recovery
  imports Codec General
begin

text \<open>
  Recovery information (\<^verbatim>\<open>src/recovery/recovery.c\<close>): every data object starts with a header that
  names its stream, and every file stored in it is followed by a message with the file's
  attributes, so that the files can be recovered from the objects alone. This theory holds the
  two printers, the two parsers, the search for the start of a message from its end, and the
  operations on a recovery reference.

  A buffer is the list of the bytes from the position of a pointer to the end of the memory it
  points to, and a NUL behind them; the \<^verbatim>\<open>size_t\<close> next to the pointer is a natural number below
  \<open>2 ^ 64\<close>, and where the sources subtract from it without a check the wrap-around is written out. A
  pointer into the object is its offset.
\<close>

definition sub64 :: "nat \<Rightarrow> nat \<Rightarrow> nat" where
  "sub64 a b = (a + 2 ^ 64 - b mod 2 ^ 64) mod 2 ^ 64"

section \<open>Messages\<close>

definition RECOVERY_MSGHEAD :: string where
  "RECOVERY_MSGHEAD = CHR 0x0A # ''RECOV(''"

definition RECOVERY_MSGTAIL :: string where
  "RECOVERY_MSGTAIL = [CHR '')'', CHR 0x0A]"

definition RECOVERY_HEADER_TYPE :: string where
  "RECOVERY_HEADER_TYPE = ''HEADER||''"

definition RECOVERY_FINFO_TYPE :: string where
  "RECOVERY_FINFO_TYPE = ''FINFO||''"

lemmas recov_literals = RECOVERY_MSGHEAD_def RECOVERY_MSGTAIL_def RECOVERY_HEADER_TYPE_def
  RECOVERY_FINFO_TYPE_def

abbreviation taillen :: nat where
  "taillen \<equiv> length RECOVERY_MSGTAIL"

record recovery_header =
  rh_major :: u32
  rh_minor :: u32
  rh_ctag :: string
  rh_streamid :: string

record recovery_finfo =
  fi_inode :: u64
  fi_mode :: u32
  fi_owner :: u32
  fi_group :: u32
  fi_size :: u64
  fi_sec :: u64
  fi_nsec :: u64
  fi_eof :: u8
  fi_path :: string

subsection \<open>Printing\<close>

definition header_text :: "recovery_header \<Rightarrow> string" where
  "header_text h =
     RECOVERY_MSGHEAD @ RECOVERY_HEADER_TYPE @
     show_prec UINT_DIGITS (unat (rh_major h)) @ ''.'' @
     show_prec UINT_DIGITS (unat (rh_minor h)) @ ''|'' @
     rh_ctag h @ ''|'' @ rh_streamid h @ RECOVERY_MSGTAIL"

definition finfo_text :: "recovery_finfo \<Rightarrow> string" where
  "finfo_text f =
     RECOVERY_MSGHEAD @ RECOVERY_FINFO_TYPE @
     ''i'' @ show_nat (unat (fi_inode f)) @ ''|m0'' @ show_oct (unat (fi_mode f)) @
     ''|o'' @ show_nat (unat (fi_owner f)) @ ''|g'' @ show_nat (unat (fi_group f)) @
     ''|s'' @ show_prec SIZE_DIGITS (unat (fi_size f)) @
     ''|t'' @ show_prec SIZE_DIGITS (unat (fi_sec f)) @
     ''.'' @ show_prec SIZE_DIGITS (unat (fi_nsec f)) @
     ''|e'' @ show_int (sint (fi_eof f)) @
     ''|p'' @ show_nat (length (fi_path f)) @ '':'' @ fi_path f @ RECOVERY_MSGTAIL"

text \<open>
  The two printers: the length they return and the text they leave in the buffer. The flag says
  that the target string is not NULL.
\<close>

definition print_result :: "string \<Rightarrow> nat \<Rightarrow> nat \<times> string" where
  "print_result out0 len =
     (if snprintf_ret out0 < 0 then 0 else nat (snprintf_ret out0), snprintf_buf len out0)"

definition recovery_headertostr :: "recovery_header option \<Rightarrow> bool \<Rightarrow> nat \<Rightarrow> nat \<times> string" where
  "recovery_headertostr header tgt len =
     (case header of
        None \<Rightarrow> (0, [])
      | Some h \<Rightarrow> if \<not> tgt \<and> len \<noteq> 0 then (0, []) else print_result (header_text h) len)"

definition recovery_finfotostr :: "recovery_finfo option \<Rightarrow> bool \<Rightarrow> nat \<Rightarrow> nat \<times> string" where
  "recovery_finfotostr finfo tgt len =
     (case finfo of
        None \<Rightarrow> (0, [])
      | Some f \<Rightarrow> if \<not> tgt \<and> len \<noteq> 0 then (0, []) else print_result (finfo_text f) len)"

subsection \<open>Parsing the header\<close>

definition match_lit :: "string \<Rightarrow> string \<Rightarrow> nat \<Rightarrow> c_error + string \<times> nat" where
  "match_lit lit s n =
     (if n < length lit then Inl EINVAL
      else (case after_lit lit s of None \<Rightarrow> Inl EINVAL | Some t \<Rightarrow> Inr (t, n - length lit)))"

definition parse_recov_version :: "char \<Rightarrow> string \<Rightarrow> nat \<Rightarrow> c_error + u32 \<times> string \<times> nat" where
  "parse_recov_version sep s n =
     (if n < UINT_DIGITS + 1 then Inl EINVAL
      else
        (case strtoull 10 s of (v, t) \<Rightarrow>
           if peek t \<noteq> sep \<or> v > UINT_MAX then Inl EINVAL
           else Inr (ucast v, tl t, sub64 n (length s - length t + 1))))"

text \<open>The loop over the client tag: what it passed, the rest, the remaining size.\<close>

function scan_ctag :: "string \<Rightarrow> nat \<Rightarrow> string \<times> string \<times> nat" where
  "scan_ctag s n =
     (if peek s \<noteq> NUL \<and> peek s \<noteq> CHR ''|'' \<and> n \<noteq> 0
      then (case scan_ctag (tl s) (n - 1) of (a, t, k) \<Rightarrow> (peek s # a, t, k))
      else ([], s, n))"
  by pat_completeness auto
termination
  by (relation "measure (\<lambda>(s, n). n)") auto

declare scan_ctag.simps [simp del]

text \<open>The loop over the stream identifier up to the tail of the message.\<close>

function scan_streamid :: "string \<Rightarrow> nat \<Rightarrow> c_error + string \<times> string \<times> nat" where
  "scan_streamid s n =
     (if peek s \<noteq> NUL \<and> n \<noteq> 0 then
        (if peek s = hd RECOVERY_MSGTAIL \<and> n < taillen then Inl EINVAL
         else if peek s = hd RECOVERY_MSGTAIL \<and> after_lit RECOVERY_MSGTAIL s \<noteq> None then Inr ([], s, n)
         else
           (case scan_streamid (tl s) (n - 1) of
              Inl e \<Rightarrow> Inl e
            | Inr (a, t, k) \<Rightarrow> Inr (peek s # a, t, k)))
      else Inr ([], s, n))"
  by pat_completeness auto
termination
  by (relation "measure (\<lambda>(s, n). n)") auto

declare scan_streamid.simps [simp del]

text \<open>
  The copy of \<open>len\<close> characters with \<^verbatim>\<open>snprintf(dest, len+1, "%.*s", (int)len, src)\<close>, which stops at a
  NUL; a shorter copy is an error. \<open>ok\<close> says that the allocation succeeds.
\<close>

definition copy_str :: "bool \<Rightarrow> nat \<Rightarrow> string \<Rightarrow> c_error + string" where
  "copy_str ok len s =
     (if \<not> ok then Inl EFail
      else
        (let c = takeWhile (\<lambda>x. x \<noteq> NUL) (take len s) in
         if int len \<le> INT_MAX \<and> length c = len then Inr c else Inl EFAULT))"

text \<open>The parser of the header; its result is the header and the number of bytes it takes.\<close>

definition parse_recov_header ::
  "mem \<Rightarrow> nat \<Rightarrow> string \<Rightarrow> nat \<Rightarrow> c_error + recovery_header \<times> nat" where
  "parse_recov_header m al s n =
     bindE (match_lit RECOVERY_MSGHEAD s n) (\<lambda>(s1, n1).
     bindE (match_lit RECOVERY_HEADER_TYPE s1 n1) (\<lambda>(s2, n2).
     bindE (parse_recov_version CHR ''.'' s2 n2) (\<lambda>(major, s3, n3).
     bindE (parse_recov_version CHR ''|'' s3 n3) (\<lambda>(minor, s4, n4).
     case scan_ctag s4 n4 of (a, s5, n5) \<Rightarrow>
     if n5 = 0 \<or> peek s5 = NUL then Inl EINVAL
     else if int (length a) > INT_MAX then Inl ERANGE
     else
       bindE (copy_str (m al) (length a) s4) (\<lambda>ctag.
       bindE (scan_streamid (tl s5) (n5 - 1)) (\<lambda>(b, s6, n6).
       if n6 = 0 \<or> peek s6 = NUL then Inl EINVAL
       else if int (length b) > INT_MAX then Inl ERANGE
       else
         bindE (if m (al + 1) then copy_str True (length b) (tl s5) else Inl EINVAL) (\<lambda>stid.
         Inr (\<lparr>rh_major = major, rh_minor = minor, rh_ctag = ctag, rh_streamid = stid\<rparr>,
              length s - length s6 + taillen))))))))"

subsection \<open>Parsing the attributes of a file\<close>

text \<open>The values seen so far; a value that was seen must not be seen again.\<close>

record finfo_acc =
  fa_inode :: "u64 option"
  fa_mode :: "u32 option"
  fa_owner :: "u32 option"
  fa_group :: "u32 option"
  fa_size :: "u64 option"
  fa_time :: "(u64 \<times> u64) option"
  fa_eof :: "u8 option"
  fa_path :: "string option"

definition finfo_acc_init :: finfo_acc where
  "finfo_acc_init =
     \<lparr>fa_inode = None, fa_mode = None, fa_owner = None, fa_group = None, fa_size = None,
      fa_time = None, fa_eof = None, fa_path = None\<rparr>"

text \<open>The number behind the initial character of a value, and \<^verbatim>\<open>endptr\<close>.\<close>

definition finfo_num :: "string \<Rightarrow> nat \<Rightarrow> c_error + u64 \<times> string" where
  "finfo_num s n =
     (case strtoull (if peek s = CHR ''m'' then 8 else 10) (tl s) of (v, t) \<Rightarrow>
        let e = (if peek t = CHR ''|'' then tl t else t) in
        if peek t \<noteq> CHR ''|'' \<and> peek t \<noteq> hd RECOVERY_MSGTAIL \<and> peek t \<noteq> CHR '':'' \<and> peek t \<noteq> CHR ''.''
        then Inl EINVAL
        else if length s - length e > sub64 n taillen then Inl EINVAL
        else Inr (v, e))"

text \<open>The two numbers of a time stamp; the size loses only the length of the second one.\<close>

definition finfo_time :: "u64 \<Rightarrow> string \<Rightarrow> nat \<Rightarrow> c_error + (u64 \<times> u64) \<times> string \<times> nat" where
  "finfo_time v e n =
     (if peek e \<noteq> CHR ''.'' then Inl EINVAL
      else
        (case strtoull 10 (tl e) of (v2, t) \<Rightarrow>
           let e2 = (if peek t = CHR ''|'' then tl t else t) in
           if peek t \<noteq> CHR ''|'' \<and> peek t \<noteq> hd RECOVERY_MSGTAIL then Inl EINVAL
           else if v2 > SSIZE_MAX then Inl ERANGE
           else Inr ((v, v2), e2, sub64 n (length e - length e2))))"

definition finfo_path :: "bool \<Rightarrow> u64 \<Rightarrow> string \<Rightarrow> string \<Rightarrow> nat \<Rightarrow> c_error + string \<times> string \<times> nat" where
  "finfo_path ok v s e n =
     (if peek e \<noteq> CHR '':'' then Inl EINVAL
      else
        (let s1 = tl e; n1 = sub64 n (length s - length s1) in
         if sub64 n1 taillen < unat v then Inl EINVAL
         else
           bindE (copy_str ok (unat v) s1) (\<lambda>p.
           let s2 = drop (unat v) s1; n2 = sub64 n1 (unat v) in
           if peek s2 = CHR ''|'' then Inr (p, tl s2, sub64 n2 1) else Inr (p, s2, n2))))"

text \<open>One round of the loop.\<close>

definition finfo_item ::
  "bool \<Rightarrow> string \<Rightarrow> nat \<Rightarrow> finfo_acc \<Rightarrow> c_error + string \<times> nat \<times> finfo_acc" where
  "finfo_item ok s n a =
     bindE (finfo_num s n) (\<lambda>(v, e).
     let n' = sub64 n (length s - length e); c = peek s in
     if c = CHR ''i'' then
       (if fa_inode a \<noteq> None then Inl EINVAL
        else Inr (e, n', a\<lparr>fa_inode := Some v\<rparr>))
     else if c = CHR ''m'' then
       (if fa_mode a \<noteq> None then Inl EINVAL
        else if v > UINT_MAX then Inl ERANGE
        else Inr (e, n', a\<lparr>fa_mode := Some (ucast v)\<rparr>))
     else if c = CHR ''o'' then
       (if fa_owner a \<noteq> None then Inl EINVAL
        else if v > UINT_MAX then Inl ERANGE
        else Inr (e, n', a\<lparr>fa_owner := Some (ucast v)\<rparr>))
     else if c = CHR ''g'' then
       (if fa_group a \<noteq> None then Inl EINVAL
        else if v > UINT_MAX then Inl ERANGE
        else Inr (e, n', a\<lparr>fa_group := Some (ucast v)\<rparr>))
     else if c = CHR ''s'' then
       (if fa_size a \<noteq> None then Inl EINVAL
        else Inr (e, n', a\<lparr>fa_size := Some v\<rparr>))
     else if c = CHR ''t'' then
       (if fa_time a \<noteq> None then Inl EINVAL
        else bindE (finfo_time v e n) (\<lambda>(t, e2, n2). Inr (e2, n2, a\<lparr>fa_time := Some t\<rparr>)))
     else if c = CHR ''e'' then
       (if fa_eof a \<noteq> None then Inl EINVAL
        else if v \<noteq> 0 \<and> v \<noteq> 1 then Inl ERANGE
        else Inr (e, n', a\<lparr>fa_eof := Some (ucast v)\<rparr>))
     else if c = CHR ''p'' then
       (if fa_path a \<noteq> None then Inl EINVAL
        else bindE (finfo_path ok v s e n) (\<lambda>(p, e2, n2). Inr (e2, n2, a\<lparr>fa_path := Some p\<rparr>)))
     else Inl EINVAL)"

text \<open>Every round moves on, so the loop ends.\<close>

lemma strtoull_le: "length (snd (strtoull b s)) \<le> length s"
  by (rule length_strtoull)

lemma finfo_num_shrinks:
  assumes "finfo_num s n = Inr (v, e)" "s \<noteq> []"
  shows "length e < length s"
proof -
  obtain w t where t: "strtoull (if peek s = CHR ''m'' then 8 else 10) (tl s) = (w, t)" by fastforce
  then have "length t \<le> length (tl s)" by (rule length_strtoull_eq)
  then have "length t < length s" using assms(2) by (cases s) auto
  moreover have "e = t \<or> e = tl t"
    using assms(1) t by (auto simp: finfo_num_def Let_def split: if_splits)
  ultimately show ?thesis by auto
qed

lemma finfo_time_shrinks: "finfo_time v e n = Inr (t, e2, n2) \<Longrightarrow> length e2 \<le> length e"
  using length_strtoull_eq [of 10 "tl e"]
  by (fastforce simp: finfo_time_def Let_def split: if_splits prod.splits)

lemma finfo_path_shrinks: "finfo_path ok v s e n = Inr (p, e2, n2) \<Longrightarrow> length e2 \<le> length e"
  by (auto simp: finfo_path_def Let_def bindE_eq_Inr split: if_splits)

lemma finfo_item_shrinks:
  assumes "finfo_item ok s n a = Inr (s', n', a')" "s \<noteq> []"
  shows "length s' < length s"
proof -
  obtain v e where e: "finfo_num s n = Inr (v, e)"
    using assms(1) by (cases "finfo_num s n") (auto simp: finfo_item_def)
  have "length s' \<le> length e"
    using assms(1) e
    by (auto simp: finfo_item_def Let_def bindE_eq_Inr
        dest: finfo_time_shrinks finfo_path_shrinks split: if_splits)
  with finfo_num_shrinks [OF e assms(2)] show ?thesis by simp
qed

function finfo_loop :: "bool \<Rightarrow> string \<Rightarrow> nat \<Rightarrow> finfo_acc \<Rightarrow> c_error + string \<times> nat \<times> finfo_acc" where
  "finfo_loop ok s n a =
     (if taillen \<le> n \<and> after_lit RECOVERY_MSGTAIL s = None \<and> peek s \<noteq> NUL
      then
        (case finfo_item ok s n a of
           Inl e \<Rightarrow> Inl e
         | Inr (s', n', a') \<Rightarrow> finfo_loop ok s' n' a')
      else Inr (s, n, a))"
  by pat_completeness auto
termination
  by (relation "measure (\<lambda>(ok, s, n, a). length s)") (auto dest: finfo_item_shrinks)

declare finfo_loop.simps [simp del]

definition finfo_of_acc :: "finfo_acc \<Rightarrow> recovery_finfo option" where
  "finfo_of_acc a =
     (case (fa_inode a, fa_mode a, fa_owner a, fa_group a) of
        (Some i, Some m, Some ow, Some g) \<Rightarrow>
          (case (fa_size a, fa_time a, fa_eof a, fa_path a) of
             (Some sz, Some (sec, nsec), Some e, Some p) \<Rightarrow>
               Some \<lparr>fi_inode = i, fi_mode = m, fi_owner = ow, fi_group = g, fi_size = sz,
                     fi_sec = sec, fi_nsec = nsec, fi_eof = e, fi_path = p\<rparr>
           | _ \<Rightarrow> None)
      | _ \<Rightarrow> None)"

definition parse_recov_finfo :: "bool \<Rightarrow> string \<Rightarrow> nat \<Rightarrow> c_error + recovery_finfo \<times> nat" where
  "parse_recov_finfo ok s n =
     bindE (match_lit RECOVERY_MSGHEAD s n) (\<lambda>(s1, n1).
     bindE (match_lit RECOVERY_FINFO_TYPE s1 n1) (\<lambda>(s2, n2).
     bindE (finfo_loop ok s2 n2 finfo_acc_init) (\<lambda>(s3, n3, a).
     if n3 < taillen then Inl EINVAL
     else
       (case finfo_of_acc a of
          None \<Rightarrow> Inl EINVAL
        | Some f \<Rightarrow> Inr (f, length s - length s3 + taillen)))))"

definition recovery_finfofromstr :: "bool \<Rightarrow> bool \<Rightarrow> string option \<Rightarrow> nat \<Rightarrow> c_error + recovery_finfo" where
  "recovery_finfofromstr ok fref srcstr len =
     (if \<not> fref then Inl EFail
      else
        (case srcstr of
           None \<Rightarrow> Inl EFail
         | Some s \<Rightarrow>
             if len < 1 then Inl EFail
             else
               (case parse_recov_finfo ok s len of
                  Inl e \<Rightarrow> Inl e
                | Inr (f, k) \<Rightarrow> if k < len then Inl EFail else Inr f)))"

section \<open>Recovery of an object\<close>

text \<open>
  The search for the start of a message, in reverse from its last byte. \<open>sec\<close> is the section, \<open>cmp\<close>
  the part of the comparison string that is left, in reverse, \<open>rs\<close> the bytes in reverse, \<open>k\<close> the
  number of bytes passed. The result is the number of bytes passed at the start of the message.
\<close>

fun section_str :: "nat \<Rightarrow> string" where
  "section_str sec =
     (if sec = 0 then RECOVERY_MSGTAIL else if sec = 1 then RECOVERY_FINFO_TYPE else RECOVERY_MSGHEAD)"

fun locate_loop :: "nat \<Rightarrow> nat \<Rightarrow> string \<Rightarrow> string \<Rightarrow> nat \<Rightarrow> c_error + nat" where
  "locate_loop bufsize sec cmp [] k = (if k < bufsize then Inl UB else Inl EINVAL)"
| "locate_loop bufsize sec cmp (c # rs) k =
     (if \<not> k < bufsize then Inl EINVAL
      else if c = hd cmp then
        (if tl cmp \<noteq> [] then locate_loop bufsize sec (tl cmp) rs (Suc k)
         else if sec = 2 then Inr k
         else locate_loop bufsize (Suc sec) (rev (section_str (Suc sec))) rs (Suc k))
      else if sec \<noteq> 1 then Inl EINVAL
      else locate_loop bufsize sec (rev (section_str sec)) rs (Suc k))"

definition locate_finfo_start :: "string \<Rightarrow> nat \<Rightarrow> nat \<Rightarrow> c_error + nat" where
  "locate_finfo_start obj pos bufsize =
     (if bufsize = 0 then Inl EINVAL
      else if length obj \<le> pos then Inl UB
      else
        (case locate_loop bufsize 0 (rev (section_str 0)) (rev (take (Suc pos) obj)) 0 of
           Inl e \<Rightarrow> Inl e
         | Inr k \<Rightarrow> Inr (pos - k)))"

text \<open>
  A recovery reference. \<open>rc_files\<close> are the files found, the last one of the object first, with offset
  and size of their data; their number is \<^verbatim>\<open>curfile\<close>. \<open>rc_caps\<close> are the real lengths of the three
  arrays, \<open>rc_filecount\<close> the length the program believes in.
\<close>

record recovery =
  rc_header :: recovery_header
  rc_filecount :: nat
  rc_caps :: "nat \<times> nat \<times> nat"
  rc_files :: "(recovery_finfo \<times> nat \<times> nat) list"

definition recov_grow :: "mem \<Rightarrow> nat \<Rightarrow> recovery \<Rightarrow> bool \<times> recovery" where
  "recov_grow m al rc =
     (if rc_filecount rc \<le> length (rc_files rc)
      then
        (let n = length (rc_files rc) + 1024; rc1 = rc\<lparr>rc_filecount := n\<rparr> in
         case rc_caps rc of (c1, c2, c3) \<Rightarrow>
           if \<not> m al then (False, rc1)
           else if \<not> m (al + 1) then (False, rc1\<lparr>rc_caps := (n, c2, c3)\<rparr>)
           else if \<not> m (al + 2) then (False, rc1\<lparr>rc_caps := (n, n, c3)\<rparr>)
           else (True, rc1\<lparr>rc_caps := (n, n, n)\<rparr>))
      else (True, rc))"

text \<open>The error exit: the paths are freed, the arrays stay.\<close>

definition recov_fail :: "c_error \<Rightarrow> recovery \<Rightarrow> c_error option \<times> recovery" where
  "recov_fail e rc = (Some e, rc\<lparr>rc_files := []\<rparr>)"

text \<open>The file whose message ends at \<open>pos\<close>: the start of the message, its attributes, the size of its data.\<close>

definition recov_file :: "bool \<Rightarrow> string \<Rightarrow> nat \<Rightarrow> nat \<Rightarrow> c_error + nat \<times> recovery_finfo \<times> nat" where
  "recov_file ok obj pos objsize =
     bindE (locate_finfo_start obj pos objsize) (\<lambda>start.
     let len = pos - start + 1; rest = objsize - len in
     bindE (parse_recov_finfo ok (drop start obj) len) (\<lambda>(f, k).
     if start + k \<noteq> Suc pos then Inl EINVAL
     else Inr (start, f, if unat (fi_size f) > rest then rest else unat (fi_size f))))"

lemma locate_loop_bounds:
  "locate_loop bufsize sec cmp rs k = Inr j \<Longrightarrow> k \<le> j \<and> j < bufsize \<and> j < k + length rs"
  by (induction bufsize sec cmp rs k rule: locate_loop.induct) (fastforce split: if_splits)+

lemma locate_bounds:
  "locate_finfo_start obj pos n = Inr start \<Longrightarrow> start \<le> pos \<and> pos - start < n"
  by (auto simp: locate_finfo_start_def split: if_splits sum.splits dest: locate_loop_bounds)

function populate_loop ::
  "mem \<Rightarrow> nat \<Rightarrow> string \<Rightarrow> nat \<Rightarrow> nat \<Rightarrow> recovery \<Rightarrow> c_error option \<times> recovery" where
  "populate_loop m al obj pos objsize rc =
     (if objsize = 0 then (None, rc)
      else
        (case recov_grow m al rc of (grown, rc1) \<Rightarrow>
           if \<not> grown then recov_fail EFail rc1
           else
             (case recov_file (m (al + 3)) obj pos objsize of
                Inl e \<Rightarrow> recov_fail e rc1
              | Inr (start, f, d) \<Rightarrow>
                  (case rc_caps rc1 of (c1, c2, c3) \<Rightarrow>
                     if \<not> (length (rc_files rc1) < c1 \<and> length (rc_files rc1) < c2 \<and>
                           length (rc_files rc1) < c3)
                     then recov_fail UB rc1
                     else
                       populate_loop m (al + 4) obj (start - d - 1) (objsize - (pos - start + 1) - d)
                         (rc1\<lparr>rc_files := rc_files rc1 @ [(f, start - d, d)]\<rparr>)))))"
  by pat_completeness auto
termination
  by (relation "measure (\<lambda>(m, al, obj, pos, objsize, rc). objsize)") auto

declare populate_loop.simps [simp del]

definition populate_recovery ::
  "mem \<Rightarrow> nat \<Rightarrow> string \<Rightarrow> nat \<Rightarrow> nat \<Rightarrow> recovery \<Rightarrow> c_error option \<times> recovery" where
  "populate_recovery m al obj headerend objsize rc =
     populate_loop m al obj (headerend + objsize) objsize (rc\<lparr>rc_files := []\<rparr>)"

definition recovery_init ::
  "mem \<Rightarrow> string option \<Rightarrow> nat \<Rightarrow> bool \<Rightarrow> c_error + recovery \<times> recovery_header option" where
  "recovery_init m objbuffer objsize want =
     (case objbuffer of
        None \<Rightarrow> Inl EFail
      | Some obj \<Rightarrow>
          if \<not> m 0 then Inl EFail
          else
            bindE (parse_recov_header m 1 obj objsize) (\<lambda>(h, k).
            if want \<and> \<not> (m 3 \<and> m 4) then Inl EFail
            else
              (case populate_recovery m 5 obj (k - 1) (sub64 objsize k)
                      \<lparr>rc_header = h, rc_filecount = 0, rc_caps = (0, 0, 0), rc_files = []\<rparr> of
                 (Some e, rc) \<Rightarrow> Inl e
               | (None, rc) \<Rightarrow> Inr (rc, if want then Some h else None))))"

definition recovery_cont :: "mem \<Rightarrow> recovery option \<Rightarrow> string option \<Rightarrow> nat \<Rightarrow> c_error option \<times> recovery option" where
  "recovery_cont m recov objbuffer objsize =
     (case objbuffer of
        None \<Rightarrow> (Some EFail, recov)
      | Some obj \<Rightarrow>
          (case recov of
             None \<Rightarrow> (Some EFail, None)
           | Some rc \<Rightarrow>
               (case parse_recov_header m 0 obj objsize of
                  Inl e \<Rightarrow> (Some e, recov)
                | Inr (h, k) \<Rightarrow>
                    if rh_major h \<noteq> rh_major (rc_header rc) \<or> rh_minor h \<noteq> rh_minor (rc_header rc) \<or>
                       rh_ctag h \<noteq> rh_ctag (rc_header rc) \<or> rh_streamid h \<noteq> rh_streamid (rc_header rc)
                    then (Some EFail, recov)
                    else
                      (case populate_recovery m 2 obj (k - 1) (sub64 objsize k) (rc\<lparr>rc_files := []\<rparr>) of
                         (e, rc2) \<Rightarrow> (e, Some rc2)))))"

text \<open>\<open>ok\<close>: the copy of the path succeeds.\<close>

definition recovery_nextfile ::
  "bool \<Rightarrow> bool \<Rightarrow> recovery option \<Rightarrow> int \<times> (recovery_finfo \<times> nat \<times> nat) option \<times> recovery option" where
  "recovery_nextfile ok want recov =
     (case recov of
        None \<Rightarrow> (- 1, None, None)
      | Some rc \<Rightarrow>
          if rc_files rc = [] then (0, None, recov)
          else if want \<and> \<not> ok then (- 1, None, recov)
          else (1, Some (last (rc_files rc)), Some (rc\<lparr>rc_files := butlast (rc_files rc)\<rparr>)))"

definition recovery_close :: "recovery option \<Rightarrow> int" where
  "recovery_close recov = (case recov of None \<Rightarrow> - 1 | Some rc \<Rightarrow> 0)"

section \<open>Printing and parsing\<close>

lemma sub64_le [simp]: "b \<le> a \<Longrightarrow> a < 2 ^ 64 \<Longrightarrow> sub64 a b = a - b"
proof -
  assume "b \<le> a" "a < 2 ^ 64"
  then have "a + 2 ^ 64 - b mod 2 ^ 64 = (a - b) + 2 ^ 64" "a - b < 2 ^ 64" by simp_all
  then show ?thesis by (simp only: sub64_def mod_add_self2 mod_less)
qed

lemma tail_simps [simp]: "taillen = 2" "hd RECOVERY_MSGTAIL = CHR '')''"
  by (simp_all add: RECOVERY_MSGTAIL_def)

lemma match_lit_append [simp]:
  "length lit \<le> n \<Longrightarrow> match_lit lit (lit @ s) n = Inr (s, n - length lit)"
  by (simp add: match_lit_def)

lemma copy_str_append:
  "cstr p \<Longrightarrow> int (length p) \<le> INT_MAX \<Longrightarrow> copy_str True (length p) (p @ t) = Inr p"
proof -
  assume a: "cstr p" "int (length p) \<le> INT_MAX"
  have t: "takeWhile (\<lambda>x. x \<noteq> NUL) p = p" using a(1) by (auto simp: cstr_def)
  show ?thesis using a(2) by (simp add: copy_str_def t)
qed

text \<open>One round of the loop on a value that ends in a bar.\<close>

lemma finfo_loop_step:
  assumes "finfo_item ok (c # s) n a = Inr (s', n', a')" "c \<noteq> CHR '')''" "c \<noteq> NUL" "2 \<le> n"
  shows "finfo_loop ok (c # s) n a = finfo_loop ok s' n' a'"
proof -
  have "after_lit RECOVERY_MSGTAIL (c # s) = None" using assms(2) by (simp add: RECOVERY_MSGTAIL_def)
  then show ?thesis using assms by (subst finfo_loop.simps) simp
qed

lemma finfo_num_bar:
  assumes "strtoull (if c = CHR ''m'' then 8 else 10) (ds @ CHR ''|'' # t) = (v, CHR ''|'' # t)"
    and "length ds + 4 \<le> n" "n < 2 ^ 64"
  shows "finfo_num (c # ds @ CHR ''|'' # t) n = Inr (v, t)"
  using assms by (simp add: finfo_num_def)

text \<open>The values in the order in which they are printed.\<close>

lemma finfo_inode_step:
  assumes "fa_inode a = None" "n = k + length (show_nat (unat w)) + 2" "2 \<le> k" "n < 2 ^ 64"
  shows "finfo_loop ok (CHR ''i'' # show_nat (unat (w :: u64)) @ CHR ''|'' # t) n a =
    finfo_loop ok t k (a\<lparr>fa_inode := Some w\<rparr>)"
proof (rule finfo_loop_step)
  have "finfo_num (CHR ''i'' # show_nat (unat w) @ CHR ''|'' # t) n = Inr (w, t)"
    using assms by (intro finfo_num_bar) (simp_all add: strtoull_u64 no_digit_Cons)
  then show "finfo_item ok (CHR ''i'' # show_nat (unat w) @ CHR ''|'' # t) n a =
      Inr (t, k, a\<lparr>fa_inode := Some w\<rparr>)"
    using assms by (simp add: finfo_item_def)
qed (use assms in \<open>simp_all add: NUL_def\<close>)

lemma u32_in_u64 [simp]:
  "\<not> UINT_MAX < (ucast (w :: u32) :: u64)" "ucast (ucast (w :: u32) :: u64) = w"
proof -
  have "unat w < 2 ^ 32" using unsigned_less [of w, where ?'a = nat] by simp
  then show "\<not> UINT_MAX < (ucast w :: u64)"
    by (simp add: UINT_MAX_def word_less_nat_alt unsigned_ucast_eq take_bit_nat_eq_self)
  show "ucast (ucast w :: u64) = w" by transfer (simp add: take_bit_take_bit)
qed

lemma of_nat_unat_u32 [simp]: "(of_nat (unat (w :: u32)) :: u64) = ucast w"
  by simp

lemma finfo_mode_step:
  assumes "fa_mode a = None" "n = k + length (show_oct (unat w)) + 3" "2 \<le> k" "n < 2 ^ 64"
  shows "finfo_loop ok (CHR ''m'' # CHR ''0'' # show_oct (unat (w :: u32)) @ CHR ''|'' # t) n a =
    finfo_loop ok t k (a\<lparr>fa_mode := Some w\<rparr>)"
proof (rule finfo_loop_step)
  have "finfo_num (CHR ''m'' # (CHR ''0'' # show_oct (unat w)) @ CHR ''|'' # t) n = Inr (ucast w, t)"
    using assms by (intro finfo_num_bar) (simp_all add: strtoull_show_oct no_digit_Cons)
  then show "finfo_item ok (CHR ''m'' # CHR ''0'' # show_oct (unat w) @ CHR ''|'' # t) n a =
      Inr (t, k, a\<lparr>fa_mode := Some w\<rparr>)"
    using assms by (simp add: finfo_item_def)
qed (use assms in \<open>simp_all add: NUL_def\<close>)

lemma finfo_num_u32:
  assumes "n = k + length (show_nat (unat w)) + 2" "2 \<le> k" "n < 2 ^ 64" "c \<noteq> CHR ''m''"
  shows "finfo_num (c # show_nat (unat (w :: u32)) @ CHR ''|'' # t) n = Inr (ucast w, t)"
  using assms by (intro finfo_num_bar) (simp_all add: strtoull_show_nat no_digit_Cons)

lemma finfo_owner_step:
  assumes "fa_owner a = None" "n = k + length (show_nat (unat w)) + 2" "2 \<le> k" "n < 2 ^ 64"
  shows "finfo_loop ok (CHR ''o'' # show_nat (unat (w :: u32)) @ CHR ''|'' # t) n a =
    finfo_loop ok t k (a\<lparr>fa_owner := Some w\<rparr>)"
  by (rule finfo_loop_step) (use assms in \<open>simp_all add: NUL_def finfo_item_def finfo_num_u32\<close>)

lemma finfo_group_step:
  assumes "fa_group a = None" "n = k + length (show_nat (unat w)) + 2" "2 \<le> k" "n < 2 ^ 64"
  shows "finfo_loop ok (CHR ''g'' # show_nat (unat (w :: u32)) @ CHR ''|'' # t) n a =
    finfo_loop ok t k (a\<lparr>fa_group := Some w\<rparr>)"
  by (rule finfo_loop_step) (use assms in \<open>simp_all add: NUL_def finfo_item_def finfo_num_u32\<close>)

lemma length_show_prec_u64 [simp]: "length (show_prec 20 (unat (w :: u64))) = 20"
  using length_show_u64 [of w] by (simp add: length_show_prec)

lemma finfo_size_step:
  assumes "fa_size a = None" "n = k + 22" "2 \<le> k" "n < 2 ^ 64"
  shows "finfo_loop ok (CHR ''s'' # show_prec 20 (unat (w :: u64)) @ CHR ''|'' # t) n a =
    finfo_loop ok t k (a\<lparr>fa_size := Some w\<rparr>)"
proof (rule finfo_loop_step)
  have "finfo_num (CHR ''s'' # show_prec 20 (unat w) @ CHR ''|'' # t) n = Inr (w, t)"
    using assms by (intro finfo_num_bar) (simp_all add: strtoull_show_prec no_digit_Cons)
  then show "finfo_item ok (CHR ''s'' # show_prec 20 (unat w) @ CHR ''|'' # t) n a =
      Inr (t, k, a\<lparr>fa_size := Some w\<rparr>)"
    using assms by (simp add: finfo_item_def)
qed (use assms in \<open>simp_all add: NUL_def\<close>)

text \<open>The time stamp: the size that is left is too large by the length of the seconds.\<close>

lemma finfo_time_step:
  assumes "fa_time a = None" "n = k + 22" "2 \<le> k" "n < 2 ^ 64" "nsec \<le> SSIZE_MAX"
  shows "finfo_loop ok (CHR ''t'' # show_prec 20 (unat (sec :: u64)) @ CHR ''.'' #
      show_prec 20 (unat nsec) @ CHR ''|'' # t) n a =
    finfo_loop ok t k (a\<lparr>fa_time := Some (sec, nsec)\<rparr>)"
proof (rule finfo_loop_step)
  let ?e = "CHR ''.'' # show_prec 20 (unat nsec) @ CHR ''|'' # t"
  have "finfo_num (CHR ''t'' # show_prec 20 (unat sec) @ ?e) n = Inr (sec, ?e)"
    using assms by (simp add: finfo_num_def strtoull_show_prec no_digit_Cons)
  moreover have "finfo_time sec ?e n = Inr ((sec, nsec), t, k)"
    using assms by (simp add: finfo_time_def strtoull_show_prec no_digit_Cons not_less)
  ultimately show "finfo_item ok (CHR ''t'' # show_prec 20 (unat sec) @ ?e) n a =
      Inr (t, k, a\<lparr>fa_time := Some (sec, nsec)\<rparr>)"
    using assms by (simp add: finfo_item_def)
qed (use assms in \<open>simp_all add: NUL_def\<close>)

lemma finfo_eof_step:
  assumes "fa_eof a = None" "n = k + 3" "2 \<le> k" "n < 2 ^ 64" "w = 0 \<or> w = 1"
  shows "finfo_loop ok (CHR ''e'' # show_int (sint (w :: u8)) @ CHR ''|'' # t) n a =
    finfo_loop ok t k (a\<lparr>fa_eof := Some w\<rparr>)"
proof (rule finfo_loop_step)
  have w: "show_int (sint w) = show_nat (unat w)" "unat w < 10" "of_nat (unat w) = (ucast w :: u64)"
    using assms(5) by (auto simp: show_int_def)
  have l: "length (show_nat (unat w)) = 1" using assms(5) by (auto simp: show_nat_01)
  have "finfo_num (CHR ''e'' # show_nat (unat w) @ CHR ''|'' # t) n = Inr (ucast w, t)"
    using assms w l by (intro finfo_num_bar) (simp_all add: strtoull_show_nat no_digit_Cons)
  then show "finfo_item ok (CHR ''e'' # show_int (sint w) @ CHR ''|'' # t) n a =
      Inr (t, k, a\<lparr>fa_eof := Some w\<rparr>)"
    using assms w(1) l by (auto simp: finfo_item_def)
qed (use assms in \<open>simp_all add: NUL_def\<close>)

lemma finfo_path_step:
  assumes "fa_path a = None" "n = length (show_nat (length p)) + length p + 4 + j" "n < 2 ^ 64"
    and "cstr p" "int (length p) \<le> INT_MAX"
  shows "finfo_loop True (CHR ''p'' # show_nat (length p) @ CHR '':'' # p @ RECOVERY_MSGTAIL @ rest) n a =
    Inr (RECOVERY_MSGTAIL @ rest, 2 + j, a\<lparr>fa_path := Some p\<rparr>)"
proof -
  let ?s1 = "p @ RECOVERY_MSGTAIL @ rest"
  let ?e = "CHR '':'' # ?s1"
  let ?s = "CHR ''p'' # show_nat (length p) @ ?e"
  have l: "length p < 2 ^ 64" using assms(5) by (simp add: INT_MAX_def)
  then have v: "unat (of_nat (length p) :: u64) = length p" by (simp add: unsigned_of_nat take_bit_nat_eq_self)
  have num: "finfo_num ?s n = Inr (of_nat (length p), ?e)"
    using assms l by (simp add: finfo_num_def strtoull_show_nat no_digit_Cons)
  have pk: "peek (RECOVERY_MSGTAIL @ rest) = CHR '')''" by (simp add: RECOVERY_MSGTAIL_def)
  have "finfo_path True (of_nat (length p)) ?s ?e n = Inr (p, RECOVERY_MSGTAIL @ rest, 2 + j)"
    using assms v pk copy_str_append [OF assms(4,5), of "RECOVERY_MSGTAIL @ rest"]
    by (simp add: finfo_path_def Let_def)
  then have "finfo_item True ?s n a = Inr (RECOVERY_MSGTAIL @ rest, 2 + j, a\<lparr>fa_path := Some p\<rparr>)"
    using assms(1) num by (simp add: finfo_item_def)
  then have "finfo_loop True ?s n a = finfo_loop True (RECOVERY_MSGTAIL @ rest) (2 + j) (a\<lparr>fa_path := Some p\<rparr>)"
    using assms(2) by (intro finfo_loop_step) (simp_all add: NUL_def)
  also have "\<dots> = Inr (RECOVERY_MSGTAIL @ rest, 2 + j, a\<lparr>fa_path := Some p\<rparr>)"
    by (subst finfo_loop.simps) simp
  finally show ?thesis .
qed

definition valid_finfo :: "recovery_finfo \<Rightarrow> bool" where
  "valid_finfo f \<longleftrightarrow>
     cstr (fi_path f) \<and> (fi_eof f = 0 \<or> fi_eof f = 1) \<and> fi_nsec f \<le> SSIZE_MAX \<and>
     int (length (finfo_text f)) \<le> INT_MAX"

lemma valid_finfo_path: "valid_finfo f \<Longrightarrow> int (length (fi_path f)) \<le> INT_MAX"
  by (simp add: valid_finfo_def finfo_text_def)

lemma length_eof: "fi_eof f = 0 \<or> fi_eof f = 1 \<Longrightarrow> length (show_int (sint (fi_eof f))) = 1"
  by (auto simp: show_int_def show_nat_01)

text \<open>The values of a message, from their last one to the first.\<close>

definition text_p :: "recovery_finfo \<Rightarrow> string" where
  "text_p f = CHR ''p'' # show_nat (length (fi_path f)) @ CHR '':'' # fi_path f @ RECOVERY_MSGTAIL"
definition text_e :: "recovery_finfo \<Rightarrow> string" where
  "text_e f = CHR ''e'' # show_int (sint (fi_eof f)) @ CHR ''|'' # text_p f"
definition text_t :: "recovery_finfo \<Rightarrow> string" where
  "text_t f = CHR ''t'' # show_prec 20 (unat (fi_sec f)) @ CHR ''.'' #
     show_prec 20 (unat (fi_nsec f)) @ CHR ''|'' # text_e f"
definition text_s :: "recovery_finfo \<Rightarrow> string" where
  "text_s f = CHR ''s'' # show_prec 20 (unat (fi_size f)) @ CHR ''|'' # text_t f"
definition text_g :: "recovery_finfo \<Rightarrow> string" where
  "text_g f = CHR ''g'' # show_nat (unat (fi_group f)) @ CHR ''|'' # text_s f"
definition text_o :: "recovery_finfo \<Rightarrow> string" where
  "text_o f = CHR ''o'' # show_nat (unat (fi_owner f)) @ CHR ''|'' # text_g f"
definition text_m :: "recovery_finfo \<Rightarrow> string" where
  "text_m f = CHR ''m'' # CHR ''0'' # show_oct (unat (fi_mode f)) @ CHR ''|'' # text_o f"
definition text_i :: "recovery_finfo \<Rightarrow> string" where
  "text_i f = CHR ''i'' # show_nat (unat (fi_inode f)) @ CHR ''|'' # text_m f"

lemmas finfo_text_parts = text_p_def text_e_def text_t_def text_s_def text_g_def text_o_def text_m_def
  text_i_def

lemma finfo_text_eq: "finfo_text f = RECOVERY_MSGHEAD @ RECOVERY_FINFO_TYPE @ text_i f"
  by (simp add: finfo_text_def finfo_text_parts)

text \<open>
  The loop also succeeds with a size that is up to 21 bytes too small: the seconds of the time
  stamp are not subtracted from the size.
\<close>

lemma finfo_loop_text:
  assumes "valid_finfo f" "n + d = length (text_i f)" "d \<le> 21"
  shows "\<exists>a. finfo_loop True (text_i f @ rest) n finfo_acc_init =
    Inr (RECOVERY_MSGTAIL @ rest, 23 - d, a) \<and> finfo_of_acc a = Some f"
proof -
  have e: "fi_eof f = 0 \<or> fi_eof f = 1" and nsec: "fi_nsec f \<le> SSIZE_MAX" and p: "cstr (fi_path f)"
    using assms(1) by (simp_all add: valid_finfo_def)
  let ?j = "21 - d"
  define np ne nt ns ng no nm where "np = length (text_p f) + ?j"
    and "ne = length (text_e f) + ?j" and "nt = ne + 22" and "ns = nt + 22"
    and "ng = ns + length (show_nat (unat (fi_group f))) + 2"
    and "no = ng + length (show_nat (unat (fi_owner f))) + 2"
    and "nm = no + length (show_oct (unat (fi_mode f))) + 3"
  note nd = np_def ne_def nt_def ns_def ng_def no_def nm_def
  have n: "n = nm + length (show_nat (unat (fi_inode f))) + 2"
    using assms(2,3) by (simp add: nd text_i_def text_m_def text_o_def text_g_def text_s_def text_t_def)
  have b: "n < 2 ^ 64" "nm < 2 ^ 64" "no < 2 ^ 64" "ng < 2 ^ 64" "ns < 2 ^ 64" "nt < 2 ^ 64" "ne < 2 ^ 64"
    using assms(1) n assms(2) by (simp_all add: valid_finfo_def finfo_text_eq INT_MAX_def nd)
  have two: "2 \<le> np" "2 \<le> ne" "2 \<le> nt" "2 \<le> ns" "2 \<le> ng" "2 \<le> no" "2 \<le> nm"
    by (simp_all add: nd text_p_def text_e_def)
  have bp: "np < 2 ^ 64" "ne = np + 3" using b(7) length_eof [OF e] by (simp_all add: nd text_e_def)
  let ?a0 = finfo_acc_init
  let ?a1 = "?a0\<lparr>fa_inode := Some (fi_inode f)\<rparr>"
  let ?a2 = "?a1\<lparr>fa_mode := Some (fi_mode f)\<rparr>"
  let ?a3 = "?a2\<lparr>fa_owner := Some (fi_owner f)\<rparr>"
  let ?a4 = "?a3\<lparr>fa_group := Some (fi_group f)\<rparr>"
  let ?a5 = "?a4\<lparr>fa_size := Some (fi_size f)\<rparr>"
  let ?a6 = "?a5\<lparr>fa_time := Some (fi_sec f, fi_nsec f)\<rparr>"
  let ?a7 = "?a6\<lparr>fa_eof := Some (fi_eof f)\<rparr>"
  let ?a8 = "?a7\<lparr>fa_path := Some (fi_path f)\<rparr>"
  have "finfo_loop True (text_i f @ rest) n ?a0 = finfo_loop True (text_m f @ rest) nm ?a1"
    using finfo_inode_step [of ?a0 n nm "fi_inode f" True "text_m f @ rest"] n b two
    by (simp add: text_i_def finfo_acc_init_def)
  also have "\<dots> = finfo_loop True (text_o f @ rest) no ?a2"
    using finfo_mode_step [of ?a1 nm no "fi_mode f" True "text_o f @ rest"] nm_def b two
    by (simp add: text_m_def finfo_acc_init_def)
  also have "\<dots> = finfo_loop True (text_g f @ rest) ng ?a3"
    using finfo_owner_step [of ?a2 no ng "fi_owner f" True "text_g f @ rest"] no_def b two
    by (simp add: text_o_def finfo_acc_init_def)
  also have "\<dots> = finfo_loop True (text_s f @ rest) ns ?a4"
    using finfo_group_step [of ?a3 ng ns "fi_group f" True "text_s f @ rest"] ng_def b two
    by (simp add: text_g_def finfo_acc_init_def)
  also have "\<dots> = finfo_loop True (text_t f @ rest) nt ?a5"
    using finfo_size_step [of ?a4 ns nt True "fi_size f" "text_t f @ rest"] ns_def b two
    by (simp add: text_s_def finfo_acc_init_def)
  also have "\<dots> = finfo_loop True (text_e f @ rest) ne ?a6"
    using finfo_time_step [of ?a5 nt ne "fi_nsec f" True "fi_sec f" "text_e f @ rest"] nt_def b two nsec
    by (simp add: text_t_def finfo_acc_init_def)
  also have "\<dots> = finfo_loop True (text_p f @ rest) np ?a7"
    using finfo_eof_step [of ?a6 ne np "fi_eof f" True "text_p f @ rest"] bp b two e
    by (simp add: text_e_def finfo_acc_init_def)
  also have "\<dots> = Inr (RECOVERY_MSGTAIL @ rest, 2 + ?j, ?a8)"
    using finfo_path_step [of ?a7 np "fi_path f" ?j rest] np_def bp p valid_finfo_path [OF assms(1)]
    by (simp add: text_p_def finfo_acc_init_def)
  also have "2 + ?j = 23 - d" using assms(3) by simp
  finally show ?thesis by (intro exI [of _ ?a8]) (simp add: finfo_of_acc_def finfo_acc_init_def)
qed

lemma parse_finfo_short:
  assumes "valid_finfo f" "n + d = length (finfo_text f)" "d \<le> 21"
  shows "parse_recov_finfo True (finfo_text f @ rest) n = Inr (f, length (finfo_text f))"
proof -
  have big: "21 \<le> length (text_i f)" by (simp add: finfo_text_parts)
  define n2 where "n2 = n - length RECOVERY_MSGHEAD - length RECOVERY_FINFO_TYPE"
  have n: "n = length RECOVERY_MSGHEAD + (length RECOVERY_FINFO_TYPE + n2)" "n2 + d = length (text_i f)"
    using assms(2,3) big by (simp_all add: n2_def finfo_text_eq)
  obtain a where a: "finfo_loop True (text_i f @ rest) n2 finfo_acc_init =
      Inr (RECOVERY_MSGTAIL @ rest, 23 - d, a)" "finfo_of_acc a = Some f"
    using finfo_loop_text [OF assms(1) n(2) assms(3)] by blast
  show ?thesis
    unfolding n(1) using a assms(3) big
    by (simp add: parse_recov_finfo_def finfo_text_eq) linarith
qed

lemma parse_finfo_text:
  assumes "valid_finfo f"
  shows "parse_recov_finfo True (finfo_text f @ rest) (length (finfo_text f)) =
    Inr (f, length (finfo_text f))"
  by (rule parse_finfo_short [OF assms, of _ 0]) simp_all

subsection \<open>The header\<close>

fun occurs :: "string \<Rightarrow> string \<Rightarrow> bool" where
  "occurs p [] = (after_lit p [] \<noteq> None)"
| "occurs p (c # s) = (after_lit p (c # s) \<noteq> None \<or> occurs p s)"

definition valid_header :: "recovery_header \<Rightarrow> bool" where
  "valid_header h \<longleftrightarrow>
     cstr (rh_ctag h) \<and> CHR ''|'' \<notin> set (rh_ctag h) \<and> cstr (rh_streamid h) \<and>
     \<not> occurs RECOVERY_MSGTAIL (rh_streamid h) \<and> int (length (header_text h)) \<le> INT_MAX"

lemma scan_ctag_append:
  "cstr a \<Longrightarrow> CHR ''|'' \<notin> set a \<Longrightarrow> length a \<le> n \<Longrightarrow>
   scan_ctag (a @ CHR ''|'' # t) n = (a, CHR ''|'' # t, n - length a)"
proof (induction a arbitrary: n)
  case Nil
  then show ?case by (subst scan_ctag.simps) simp
next
  case (Cons c a)
  then show ?case by (subst scan_ctag.simps) auto
qed

lemma scan_streamid_append:
  "cstr b \<Longrightarrow> \<not> occurs RECOVERY_MSGTAIL b \<Longrightarrow> length b + 2 \<le> n \<Longrightarrow>
   scan_streamid (b @ RECOVERY_MSGTAIL @ t) n = Inr (b, RECOVERY_MSGTAIL @ t, n - length b)"
proof (induction b arbitrary: n)
  case Nil
  have "peek (RECOVERY_MSGTAIL @ t) = CHR '')''" by (simp add: RECOVERY_MSGTAIL_def)
  with Nil show ?case by (subst scan_streamid.simps) (simp add: NUL_def)
next
  case (Cons c b)
  have "after_lit RECOVERY_MSGTAIL (c # b @ RECOVERY_MSGTAIL @ t) = None"
    using Cons.prems(2) by (cases b) (auto simp: RECOVERY_MSGTAIL_def split: if_splits)
  with Cons show ?case by (subst scan_streamid.simps) auto
qed

lemma parse_version_text:
  assumes "n = k + 11" "n < 2 ^ 64" "sep \<in> {CHR ''.'', CHR ''|''}"
  shows "parse_recov_version sep (show_prec 10 (unat (w :: u32)) @ sep # t) n = Inr (w, t, k)"
proof -
  have "length (show_prec 10 (unat w)) = 10"
    using length_show_u32 [of w] by (simp add: length_show_prec)
  moreover have "strtoull 10 (show_prec 10 (unat w) @ sep # t) = (ucast w, sep # t)"
    using assms(3) by (auto simp: strtoull_show_prec no_digit_Cons)
  ultimately show ?thesis
    using assms by (simp add: parse_recov_version_def)
qed

lemma parse_header_text:
  assumes "valid_header h" "length (header_text h) \<le> n" "n < 2 ^ 64"
  shows "parse_recov_header all_mem al (header_text h @ rest) n = Inr (h, length (header_text h))"
proof -
  let ?c = "rh_ctag h" and ?b = "rh_streamid h" and ?M = "show_prec 10 (unat (rh_major h))"
    and ?m = "show_prec 10 (unat (rh_minor h))"
  have v: "cstr ?c" "CHR ''|'' \<notin> set ?c" "cstr ?b" "\<not> occurs RECOVERY_MSGTAIL ?b"
    and int: "int (length ?c) \<le> INT_MAX" "int (length ?b) \<le> INT_MAX"
    using assms(1) by (simp_all add: valid_header_def header_text_def)
  have l10: "length ?M = 10" "length ?m = 10"
    using length_show_u32 [of "rh_major h"] length_show_u32 [of "rh_minor h"]
    by (simp_all add: length_show_prec)
  define k where "k = n - length (header_text h)"
  let ?t1 = "?b @ RECOVERY_MSGTAIL @ rest"
  let ?t2 = "?c @ CHR ''|'' # ?t1"
  let ?t3 = "?m @ CHR ''|'' # ?t2"
  have n: "n = k + length RECOVERY_MSGHEAD + length RECOVERY_HEADER_TYPE + 11 + 11 + length ?c + 1 + length ?b + 2"
    using assms(2) l10 by (simp add: k_def header_text_def)
  have p1: "parse_recov_version CHR ''.'' (?M @ CHR ''.'' # ?t3) (k + 11 + 11 + length ?c + 1 + length ?b + 2) =
      Inr (rh_major h, ?t3, k + 11 + length ?c + 1 + length ?b + 2)"
    using n assms(3) by (intro parse_version_text) simp_all
  have p2: "parse_recov_version CHR ''|'' ?t3 (k + 11 + length ?c + 1 + length ?b + 2) =
      Inr (rh_minor h, ?t2, k + length ?c + 1 + length ?b + 2)"
    using n assms(3) by (intro parse_version_text) simp_all
  have p3: "scan_ctag ?t2 (k + length ?c + 1 + length ?b + 2) = (?c, CHR ''|'' # ?t1, k + 1 + length ?b + 2)"
    using scan_ctag_append [OF v(1,2)] by simp
  have p4: "scan_streamid ?t1 (k + length ?b + 2) = Inr (?b, RECOVERY_MSGTAIL @ rest, k + 2)"
    using scan_streamid_append [OF v(3,4)] by simp
  have pk: "peek (RECOVERY_MSGTAIL @ rest) = CHR '')''" by (simp add: RECOVERY_MSGTAIL_def)
  have t: "header_text h @ rest = RECOVERY_MSGHEAD @ RECOVERY_HEADER_TYPE @ ?M @ CHR ''.'' # ?t3"
    by (simp add: header_text_def)
  show ?thesis
    using p1 p2 p3 p4 pk copy_str_append [OF v(1) int(1)] copy_str_append [OF v(3) int(2)] int l10
    unfolding parse_recov_header_def t n
    by (simp add: NUL_def header_text_def)
qed

section \<open>Finding the start of a message\<close>

lemma locate_match:
  assumes "cmp \<noteq> []" "k + length cmp \<le> n"
  shows "locate_loop n sec cmp (cmp @ rs) k =
    (if sec = 2 then Inr (k + length cmp - 1)
     else locate_loop n (Suc sec) (rev (section_str (Suc sec))) rs (k + length cmp))"
  using assms
proof (induction cmp arbitrary: k)
  case (Cons c cmp)
  show ?case
  proof (cases "cmp = []")
    case True
    with Cons.prems show ?thesis by simp
  next
    case False
    with Cons.IH [of "Suc k"] Cons.prems show ?thesis by simp
  qed
qed simp

text \<open>The search passes over a text without two adjacent bars.\<close>

definition no_double_bar :: "string \<Rightarrow> bool" where
  "no_double_bar = successively (\<lambda>x y. x \<noteq> CHR ''|'' \<or> y \<noteq> CHR ''|'')"

lemma nb_simps [simp]:
  "no_double_bar []" "c \<noteq> CHR ''|'' \<Longrightarrow> no_double_bar (c # t) = no_double_bar t"
  "no_double_bar (CHR ''|'' # c # t) = (c \<noteq> CHR ''|'' \<and> no_double_bar (c # t))"
  by (auto simp: no_double_bar_def successively_Cons)

lemma nb_skip: "CHR ''|'' \<notin> set ds \<Longrightarrow> no_double_bar (ds @ t) = no_double_bar t"
  by (induction ds) auto

lemma nb_rev: "no_double_bar (rev s) = no_double_bar s"
proof -
  have "(\<lambda>x y. y \<noteq> CHR ''|'' \<or> x \<noteq> CHR ''|'') = (\<lambda>x y. x \<noteq> CHR ''|'' \<or> y \<noteq> CHR ''|'')"
    by (intro ext) blast
  then show ?thesis by (simp only: no_double_bar_def successively_rev)
qed

lemma locate_skip:
  "no_double_bar b \<Longrightarrow> (b \<noteq> [] \<Longrightarrow> last b \<noteq> CHR ''|'') \<Longrightarrow> k + length b \<le> n \<Longrightarrow>
   locate_loop n 1 (rev RECOVERY_FINFO_TYPE) (b @ rs) k =
   locate_loop n 1 (rev RECOVERY_FINFO_TYPE) rs (k + length b)"
proof (induction b arbitrary: k rule: induct_list012)
  case (2 c)
  then show ?case by (simp add: RECOVERY_FINFO_TYPE_def)
next
  case (3 c d b)
  show ?case
  proof (cases "c = CHR ''|''")
    case False
    with 3 show ?thesis by (simp add: RECOVERY_FINFO_TYPE_def)
  next
    case True
    with 3 have "d \<noteq> CHR ''|''" by simp
    moreover have "no_double_bar b" "b \<noteq> [] \<longrightarrow> last b \<noteq> CHR ''|''"
      using 3(3,4) True \<open>d \<noteq> CHR ''|''\<close> by auto
    ultimately show ?thesis
      using True 3(1) [of "k + 2"] 3(5) by (simp add: RECOVERY_FINFO_TYPE_def)
  qed
qed simp

definition finfo_body :: "recovery_finfo \<Rightarrow> string" where
  "finfo_body f = butlast (butlast (text_i f))"

lemma finfo_body_tail: "text_i f = finfo_body f @ RECOVERY_MSGTAIL"
proof -
  have "\<exists>b. text_i f = b @ [CHR '')'', CHR 0x0A]"
    by (simp add: finfo_text_parts RECOVERY_MSGTAIL_def)
  then show ?thesis by (auto simp: finfo_body_def RECOVERY_MSGTAIL_def butlast_append)
qed

lemma bar_not_digits [simp]:
  "CHR ''|'' \<notin> set (show_nat n)" "CHR ''|'' \<notin> set (show_prec p n)" "CHR ''|'' \<notin> set (show_oct n)"
  "CHR ''|'' \<notin> set (show_int i)"
proof -
  show n: "CHR ''|'' \<notin> set (show_nat n)" for n using show_nat_digits [of n] by (auto simp: is_digit_def)
  then show "CHR ''|'' \<notin> set (show_prec p n)" "CHR ''|'' \<notin> set (show_int i)"
    by (auto simp: show_prec_def show_int_def)
  show "CHR ''|'' \<notin> set (show_oct n)"
    using show_base_digits [of 8 n] by (auto simp: show_oct_def is_digit_def)
qed

lemma nb_text:
  assumes "no_double_bar (fi_path f)"
  shows "no_double_bar (text_i f)"
proof -
  have "no_double_bar (fi_path f @ RECOVERY_MSGTAIL)"
    using assms by (auto simp: no_double_bar_def successively_append_iff RECOVERY_MSGTAIL_def successively_Cons)
  then show ?thesis by (simp add: finfo_text_parts nb_skip)
qed

lemma locate_finfo:
  assumes "no_double_bar (fi_path f)" "length (finfo_text f) \<le> n"
  shows "locate_finfo_start (pre @ finfo_text f @ post) (length pre + length (finfo_text f) - 1) n =
    Inr (length pre)"
proof -
  let ?b = "finfo_body f" and ?T = RECOVERY_MSGTAIL and ?F = RECOVERY_FINFO_TYPE and ?H = RECOVERY_MSGHEAD
  have tx: "finfo_text f = ?H @ ?F @ ?b @ ?T" by (simp add: finfo_text_eq finfo_body_tail)
  have nb: "no_double_bar ?b"
    using nb_text [OF assms(1)] by (simp add: finfo_body_tail no_double_bar_def successively_append_iff)
  obtain b' where b: "?b = CHR ''i'' # b'"
    using finfo_body_tail [of f] by (cases ?b) (auto simp: text_i_def RECOVERY_MSGTAIL_def)
  have nr: "no_double_bar (rev ?b)" using nb by (simp only: nb_rev)
  have lst: "last (rev ?b) \<noteq> CHR ''|''" if "rev ?b \<noteq> []" using b by simp
  have lens: "length (finfo_text f) = length ?H + length ?F + length ?b + length ?T" by (simp add: tx)
  have pos: "0 < length (finfo_text f)" by (simp add: tx)
  have rs: "rev (take (Suc (length pre + length (finfo_text f) - 1)) (pre @ finfo_text f @ post)) =
      rev ?T @ rev ?b @ rev ?F @ rev ?H @ rev pre"
    using pos by (simp add: tx)
  have "locate_loop n 0 (rev ?T) (rev ?T @ rev ?b @ rev ?F @ rev ?H @ rev pre) 0 =
      locate_loop n 1 (rev ?F) (rev ?b @ rev ?F @ rev ?H @ rev pre) (length ?T)"
    using locate_match [of "rev ?T" 0 n 0] assms(2) lens by (simp add: RECOVERY_MSGTAIL_def)
  also have "\<dots> = locate_loop n 1 (rev ?F) (rev ?F @ rev ?H @ rev pre) (length ?T + length ?b)"
    using locate_skip [OF nr lst, of "length ?T" n] assms(2) lens by simp
  also have "\<dots> = locate_loop n 2 (rev ?H) (rev ?H @ rev pre) (length ?T + length ?b + length ?F)"
    using locate_match [of "rev ?F" "length ?T + length ?b" n 1] assms(2) lens
    by (simp add: RECOVERY_FINFO_TYPE_def numeral_2_eq_2)
  also have "\<dots> = Inr (length ?T + length ?b + length ?F + length ?H - 1)"
    using locate_match [of "rev ?H" "length ?T + length ?b + length ?F" n 2] assms(2) lens
    by (simp add: RECOVERY_MSGHEAD_def)
  finally have l: "locate_loop n 0 (rev ?T) (rev ?T @ rev ?b @ rev ?F @ rev ?H @ rev pre) 0 =
      Inr (length (finfo_text f) - 1)"
    using lens by (simp add: ac_simps)
  have "0 < n" using pos assms(2) by linarith
  moreover have "length pre + length (finfo_text f) - 1 < length (pre @ finfo_text f @ post)"
    unfolding length_append using pos by linarith
  moreover have "length pre + length (finfo_text f) - 1 - (length (finfo_text f) - 1) = length pre"
    using pos by linarith
  ultimately show ?thesis
    unfolding locate_finfo_start_def rs by (simp only: section_str.simps not_le [symmetric]) (simp add: l)
qed

section \<open>Recovering the files of an object\<close>

text \<open>
  The object as the data stream writes it: the header, then for each file its data in this object
  and its message. Only the first file may have started in an earlier object.
\<close>

definition file_text :: "string \<times> recovery_finfo \<Rightarrow> string" where
  "file_text x = fst x @ finfo_text (snd x)"

definition object_text :: "recovery_header \<Rightarrow> (string \<times> recovery_finfo) list \<Rightarrow> string" where
  "object_text h fs = header_text h @ concat (map file_text fs)"

definition file_ok :: "recovery_finfo \<Rightarrow> bool" where
  "file_ok f \<longleftrightarrow> valid_finfo f \<and> no_double_bar (fi_path f)"

definition files_ok :: "(string \<times> recovery_finfo) list \<Rightarrow> bool" where
  "files_ok fs \<longleftrightarrow>
     (\<forall>x \<in> set fs. file_ok (snd x)) \<and> (\<forall>x \<in> set (tl fs). unat (fi_size (snd x)) = length (fst x)) \<and>
     (fs \<noteq> [] \<longrightarrow> length (fst (hd fs)) \<le> unat (fi_size (snd (hd fs))))"

fun file_layout :: "nat \<Rightarrow> (string \<times> recovery_finfo) list \<Rightarrow> (recovery_finfo \<times> nat \<times> nat) list" where
  "file_layout base [] = []"
| "file_layout base (x # fs) = (snd x, base, length (fst x)) # file_layout (base + length (file_text x)) fs"

lemma file_layout_append:
  "file_layout base (fs @ gs) =
   file_layout base fs @ file_layout (base + length (concat (map file_text fs))) gs"
  by (induction fs arbitrary: base) (simp_all add: add.assoc)

lemma files_ok_snoc:
  assumes "files_ok (fs @ [(d, f)])"
  shows "files_ok fs" "file_ok f" "fs \<noteq> [] \<Longrightarrow> unat (fi_size f) = length d"
    "fs = [] \<Longrightarrow> length d \<le> unat (fi_size f)"
  using assms by (cases fs; auto simp: files_ok_def)+

lemma recov_file_text:
  assumes "file_ok f" "fs = [] \<and> length d \<le> unat (fi_size f) \<or> unat (fi_size f) = length d"
    and "pre = H @ concat (map file_text fs) @ d" "n = length pre - length H + length (finfo_text f)"
    and "Suc pos = length pre + length (finfo_text f)"
  shows "recov_file True (pre @ finfo_text f @ post) pos n = Inr (length pre, f, length d)"
proof -
  have v: "valid_finfo f" "no_double_bar (fi_path f)" using assms(1) by (simp_all add: file_ok_def)
  have pos: "pos = length pre + length (finfo_text f) - 1" using assms(5) by simp
  have l: "locate_finfo_start (pre @ finfo_text f @ post) pos n = Inr (length pre)"
    unfolding pos using locate_finfo [OF v(2)] assms(4) by simp
  have "0 < length (finfo_text f)" by (simp add: finfo_text_def RECOVERY_MSGHEAD_def)
  then have len: "pos - length pre + 1 = length (finfo_text f)" using assms(5) by linarith
  have "n - length (finfo_text f) = length (concat (map file_text fs)) + length d"
    using assms(3,4) by simp
  then have "(if unat (fi_size f) > n - length (finfo_text f) then n - length (finfo_text f)
      else unat (fi_size f)) = length d"
    using assms(2) by auto
  then show ?thesis
    unfolding recov_file_def l bindE_simps Let_def len
    using parse_finfo_text [OF v(1), of post] assms(5) by simp
qed

text \<open>The arrays are at least as long as the program believes.\<close>

definition caps_ok :: "recovery \<Rightarrow> bool" where
  "caps_ok rc \<longleftrightarrow>
     (case rc_caps rc of (c1, c2, c3) \<Rightarrow> rc_filecount rc \<le> c1 \<and> rc_filecount rc \<le> c2 \<and> rc_filecount rc \<le> c3)"

lemma recov_grow_ok:
  assumes "caps_ok rc"
  shows "\<exists>rc1 c1 c2 c3. recov_grow all_mem al rc = (True, rc1) \<and> rc_caps rc1 = (c1, c2, c3) \<and>
    length (rc_files rc) < c1 \<and> length (rc_files rc) < c2 \<and> length (rc_files rc) < c3 \<and>
    caps_ok rc1 \<and> rc_files rc1 = rc_files rc \<and> rc_header rc1 = rc_header rc"
  using assms by (cases "rc_caps rc") (auto simp: recov_grow_def caps_ok_def Let_def)

lemma populate_text:
  assumes "files_ok fs" "caps_ok rc"
  shows "\<exists>rc'. populate_loop all_mem al (H @ concat (map file_text fs) @ post)
      (length H + length (concat (map file_text fs)) - 1) (length (concat (map file_text fs))) rc =
      (None, rc') \<and> rc_files rc' = rc_files rc @ rev (file_layout (length H) fs) \<and>
      rc_header rc' = rc_header rc \<and> caps_ok rc'"
  using assms
proof (induction fs arbitrary: rc al post rule: rev_induct)
  case Nil
  then show ?case by (simp add: populate_loop.simps)
next
  case (snoc x fs)
  obtain d f where x: "x = (d, f)" by (cases x)
  note ok = files_ok_snoc [OF snoc.prems(1) [unfolded x]]
  let ?C = "concat (map file_text fs)" and ?F = "finfo_text f"
  let ?pre = "H @ ?C @ d"
  let ?n = "length ?pre - length H + length ?F"
  have pos: "0 < length ?F" by (simp add: finfo_text_def RECOVERY_MSGHEAD_def)
  obtain rc1 c1 c2 c3 where g: "recov_grow all_mem al rc = (True, rc1)" "rc_caps rc1 = (c1, c2, c3)"
    "length (rc_files rc1) < c1" "length (rc_files rc1) < c2" "length (rc_files rc1) < c3"
    "caps_ok rc1" "rc_files rc1 = rc_files rc" "rc_header rc1 = rc_header rc"
    using recov_grow_ok [OF snoc.prems(2), of al] by auto
  have fl: "recov_file True (?pre @ ?F @ post) (length ?pre + length ?F - 1) ?n =
      Inr (length ?pre, f, length d)"
    by (rule recov_file_text [OF ok(2) _ refl refl]) (use ok(3,4) pos in auto)
  let ?rc2 = "rc1\<lparr>rc_files := rc_files rc1 @ [(f, length H + length ?C, length d)]\<rparr>"
  have "caps_ok ?rc2" using g(6) by (simp add: caps_ok_def)
  from snoc.IH [OF ok(1) this, of "al + 4" "d @ ?F @ post"] obtain rc' where
    rec: "populate_loop all_mem (al + 4) (H @ ?C @ d @ ?F @ post) (length H + length ?C - 1) (length ?C) ?rc2 = (None, rc')"
    and res: "rc_files rc' = rc_files ?rc2 @ rev (file_layout (length H) fs)" "rc_header rc' = rc_header rc"
      "caps_ok rc'"
    using g(8) by auto
  have p: "length ?pre - length d = length H + length ?C"
    "?n - (length ?pre + length ?F - 1 - length ?pre + 1) - length d = length ?C" "?n \<noteq> 0"
    using pos by simp_all
  have "populate_loop all_mem al (?pre @ ?F @ post) (length ?pre + length ?F - 1) ?n rc = (None, rc')"
    by (subst populate_loop.simps, simp only: g(1) fl p if_False not_True_eq_False prod.case sum.case)
      (use g rec in simp)
  moreover have "H @ concat (map file_text (fs @ [x])) @ post = ?pre @ ?F @ post"
    "length H + length (concat (map file_text (fs @ [x]))) - 1 = length ?pre + length ?F - 1"
    "length (concat (map file_text (fs @ [x]))) = ?n"
    by (simp_all add: x file_text_def)
  ultimately have "populate_loop all_mem al (H @ concat (map file_text (fs @ [x])) @ post)
      (length H + length (concat (map file_text (fs @ [x]))) - 1)
      (length (concat (map file_text (fs @ [x])))) rc = (None, rc')"
    by (simp only:)
  moreover have "rc_files rc' = rc_files rc @ rev (file_layout (length H) (fs @ [x]))"
    using res(1) g(7) by (simp add: file_layout_append x)
  ultimately show ?case using res(2,3) by (intro exI [of _ rc'] conjI)
qed

text \<open>A client that asks for the next file until there is none.\<close>

function recov_iterate :: "recovery \<Rightarrow> (recovery_finfo \<times> nat \<times> nat) list" where
  "recov_iterate rc =
     (case recovery_nextfile True True (Some rc) of
        (r, Some x, Some rc') \<Rightarrow> if r = 1 then x # recov_iterate rc' else []
      | _ \<Rightarrow> [])"
  by pat_completeness auto
termination
  by (relation "measure (\<lambda>rc. length (rc_files rc))")
     (auto simp: recovery_nextfile_def split: if_splits)

declare recov_iterate.simps [simp del]

lemma recov_iterate_files: "recov_iterate rc = rev (rc_files rc)"
proof (induction "length (rc_files rc)" arbitrary: rc)
  case 0
  then show ?case by (subst recov_iterate.simps) (simp add: recovery_nextfile_def)
next
  case (Suc n)
  let ?rc = "rc\<lparr>rc_files := butlast (rc_files rc)\<rparr>"
  have ne: "rc_files rc \<noteq> []" using Suc(2) by auto
  then have "recov_iterate ?rc = rev (rc_files ?rc)" using Suc(2) by (intro Suc(1)) simp
  then have a: "recov_iterate ?rc = rev (butlast (rc_files rc))" by simp
  have b: "recov_iterate rc = last (rc_files rc) # recov_iterate ?rc"
    using ne by (subst recov_iterate.simps) (simp add: recovery_nextfile_def)
  have "rev (rc_files rc) = last (rc_files rc) # rev (butlast (rc_files rc))"
    using ne by (cases "rc_files rc" rule: rev_cases) simp_all
  then show ?case unfolding b a by (rule sym)
qed

lemma layout_content:
  "map (\<lambda>(f, off, len). (take len (drop off (H @ concat (map file_text fs) @ post)), f))
     (file_layout (length H) fs) = fs"
proof (induction fs arbitrary: H)
  case (Cons x fs)
  from Cons [of "H @ file_text x"] show ?case by (cases x) (simp add: file_text_def)
qed simp

lemma recovery_init_text:
  assumes "valid_header h" "files_ok fs" "length (object_text h fs) < 2 ^ 64"
  shows "\<exists>rc. recovery_init all_mem (Some (object_text h fs @ post)) (length (object_text h fs)) want =
      Inr (rc, if want then Some h else None) \<and> rc_header rc = h \<and> caps_ok rc \<and>
      rc_files rc = rev (file_layout (length (header_text h)) fs)"
proof -
  let ?H = "header_text h" and ?C = "concat (map file_text fs)"
  let ?rc = "\<lparr>rc_header = h, rc_filecount = 0, rc_caps = (0, 0, 0), rc_files = []\<rparr>"
  have pos: "0 < length ?H" by (simp add: header_text_def RECOVERY_MSGHEAD_def)
  have h: "parse_recov_header all_mem 1 (?H @ ?C @ post) (length ?H + length ?C) = Inr (h, length ?H)"
    using parse_header_text [OF assms(1)] assms(3) by (simp add: object_text_def)
  have "caps_ok ?rc" by (simp add: caps_ok_def)
  from populate_text [OF assms(2) this, of 5 ?H post] obtain rc where
    rc: "populate_loop all_mem 5 (?H @ ?C @ post) (length ?H + length ?C - 1) (length ?C) ?rc = (None, rc)"
      "rc_files rc = rev (file_layout (length ?H) fs)" "rc_header rc = h" "caps_ok rc" by auto
  have "length ?H - 1 + length ?C = length ?H + length ?C - 1" using pos by linarith
  moreover have "sub64 (length ?H + length ?C) (length ?H) = length ?C"
    using assms(3) by (simp add: object_text_def)
  ultimately show ?thesis
    using h rc by (intro exI [of _ rc]) (simp add: recovery_init_def object_text_def populate_recovery_def)
qed

section \<open>Properties\<close>

text \<open>
  C23. Recovery of an object: for a header and files as the data stream writes them (no bar in the
  client tag, no tail marker in the stream identifier, paths without two adjacent bars, only the
  first file with data in an earlier object, no NUL byte in names, messages that fit an int,
  end-of-file flags 0 or 1, nanoseconds that fit \<^verbatim>\<open>ssize_t\<close>, all allocations successful, less than
  2^64 bytes) \<^verbatim>\<open>recovery_init\<close> finds the header, and
  \<^verbatim>\<open>recovery_nextfile\<close> hands out every file in its order with its attributes and exactly its data,
  whatever bytes the data holds and whatever follows the object in memory.\<close>

theorem recovery_roundtrip:
  assumes "valid_header h" "files_ok fs" "length (object_text h fs) < 2 ^ 64"
  shows "\<exists>rc. recovery_init all_mem (Some (object_text h fs @ post)) (length (object_text h fs)) True =
      Inr (rc, Some h) \<and>
    map (\<lambda>(f, off, len). (take len (drop off (object_text h fs @ post)), f)) (recov_iterate rc) = fs"
proof -
  from recovery_init_text [OF assms, of post True] obtain rc where
    rc: "recovery_init all_mem (Some (object_text h fs @ post)) (length (object_text h fs)) True = Inr (rc, Some h)"
      "rc_files rc = rev (file_layout (length (header_text h)) fs)" by auto
  have "map (\<lambda>(f, off, len). (take len (drop off (object_text h fs @ post)), f)) (recov_iterate rc) = fs"
    using layout_content [of "header_text h" fs post]
    by (simp add: recov_iterate_files rc(2) object_text_def)
  with rc(1) show ?thesis by blast
qed

definition recov_example_header :: recovery_header where
  "recov_example_header = \<lparr>rh_major = 0, rh_minor = 1, rh_ctag = ''c'', rh_streamid = ''s''\<rparr>"

definition recov_example_finfo :: "u64 \<Rightarrow> string \<Rightarrow> recovery_finfo" where
  "recov_example_finfo n p =
     \<lparr>fi_inode = 7, fi_mode = 420, fi_owner = 1, fi_group = 2, fi_size = n, fi_sec = 9, fi_nsec = 5,
      fi_eof = 1, fi_path = p\<rparr>"

lemma show_oct_length: "length (show_oct (unat (w :: u32))) \<le> 11"
  using length_show_base_le [of 8 11 "unat w"] unsigned_less [of w, where ?'a = nat]
  by (simp add: show_oct_def)

lemma recov_example_length: "length (finfo_text (recov_example_finfo n p)) \<le> length p + length (show_nat (length p)) + 200"
proof -
  have l: "length (show_nat (unat (7 :: u64))) \<le> 20" "length (show_oct (unat (420 :: u32))) \<le> 11"
    "length (show_nat (unat (1 :: u32))) \<le> 10" "length (show_nat (unat (2 :: u32))) \<le> 10"
    "length (show_int (sint (1 :: u8))) \<le> 4"
    by (rule length_show_u64 show_oct_length length_show_u32 length_show_i8)+
  have "length RECOVERY_MSGHEAD = 7" "length RECOVERY_FINFO_TYPE = 7"
    by (simp_all add: RECOVERY_MSGHEAD_def RECOVERY_FINFO_TYPE_def)
  then show ?thesis
    using l length_show_prec_u64 [of n] length_show_prec_u64 [of 9] length_show_prec_u64 [of 5]
    unfolding finfo_text_eq finfo_text_parts recov_example_finfo_def by simp
qed

lemma recov_example_ok:
  "valid_header recov_example_header" "file_ok (recov_example_finfo n ''a'')"
  "length (header_text recov_example_header) \<le> 100" "length (finfo_text (recov_example_finfo n ''a'')) \<le> 300"
proof -
  have "length (show_prec 10 (unat (0 :: u32))) = 10" "length (show_prec 10 (unat (1 :: u32))) = 10"
    using length_show_u32 [of 0] length_show_u32 [of 1] by (simp_all only: length_show_prec)
  then show h: "length (header_text recov_example_header) \<le> 100"
    by (simp add: header_text_def recov_example_header_def recov_literals)
  then show "valid_header recov_example_header"
    by (simp add: valid_header_def) (simp add: recov_example_header_def NUL_def RECOVERY_MSGTAIL_def INT_MAX_def)
  show f: "length (finfo_text (recov_example_finfo n ''a'')) \<le> 300"
    using recov_example_length [of n "''a''"] by (simp add: show_nat_01)
  then show "file_ok (recov_example_finfo n ''a'')"
    by (simp add: file_ok_def valid_finfo_def INT_MAX_def)
       (simp add: recov_example_finfo_def NUL_def SSIZE_MAX_def)
qed

theorem recovery_roundtrip_witness:
  "\<exists>rc. recovery_init all_mem
      (Some (object_text recov_example_header [(''xy'', recov_example_finfo 2 ''a''), ([], recov_example_finfo 0 ''a'')]))
      (length (object_text recov_example_header [(''xy'', recov_example_finfo 2 ''a''), ([], recov_example_finfo 0 ''a'')]))
      True = Inr (rc, Some recov_example_header) \<and> length (recov_iterate rc) = 2"
proof -
  let ?fs = "[(''xy'', recov_example_finfo 2 ''a''), ([], recov_example_finfo 0 ''a'')]"
  have fs: "files_ok ?fs" using recov_example_ok(2) by (simp add: files_ok_def) (simp add: recov_example_finfo_def)
  have "length (object_text recov_example_header ?fs) \<le> 100 + (2 + 300 + 300)"
    using recov_example_ok(3) recov_example_ok(4) [of 2] recov_example_ok(4) [of 0]
    by (simp add: object_text_def file_text_def)
  then have "length (object_text recov_example_header ?fs) < 2 ^ 64" by simp
  from recovery_roundtrip [OF recov_example_ok(1) fs this, of "[]"] obtain rc where
    r: "recovery_init all_mem (Some (object_text recov_example_header ?fs))
      (length (object_text recov_example_header ?fs)) True = Inr (rc, Some recov_example_header)"
    and m: "map (\<lambda>(f, off, len). (take len (drop off (object_text recov_example_header ?fs @ [])), f))
      (recov_iterate rc) = ?fs" by auto
  from arg_cong [OF m, of length] have "length (recov_iterate rc) = 2" by simp
  with r show ?thesis by blast
qed

text \<open>The printer and the parser of the attributes fulfil the contract of a codec.\<close>

definition finfo_print :: "recovery_finfo \<Rightarrow> nat \<Rightarrow> outbuf option" where
  "finfo_print f len =
     (case recovery_finfotostr (Some f) True len of (r, b) \<Rightarrow>
        Some \<lparr>ob_text = b, ob_len = len - r, ob_tot = r\<rparr>)"

definition finfo_read :: "string \<Rightarrow> c_error + recovery_finfo" where
  "finfo_read s = recovery_finfofromstr True True (Some s) (length s)"

interpretation finfo: tag_codec finfo_print finfo_read finfo_text valid_finfo
proof
  fix f len assume v: "valid_finfo f"
  then show "finfo_print f len = Some (printed len (finfo_text f))"
    by (simp add: finfo_print_def recovery_finfotostr_def print_result_def snprintf_ret_def printed_def
        snprintf_buf_def valid_finfo_def)
  have "0 < length (finfo_text f)" by (simp add: finfo_text_def RECOVERY_MSGHEAD_def)
  then show "finfo_read (finfo_text f) = Inr f"
    using parse_finfo_text [OF v, of "[]"] by (simp add: finfo_read_def recovery_finfofromstr_def)
qed

text \<open>
  C24. The attributes of a file survive: a caller that asks \<^verbatim>\<open>recovery_finfotostr\<close> for the length, prints
  into a buffer of that length plus one and parses the text with \<^verbatim>\<open>recovery_finfofromstr\<close> gets the
  same attributes.\<close>

theorem finfo_roundtrip:
  assumes "valid_finfo f"
  shows "\<exists>n s. recovery_finfotostr (Some f) False 0 = (n, []) \<and> 0 < n \<and>
    recovery_finfotostr (Some f) True (n + 1) = (n, s) \<and> length s = n \<and>
    recovery_finfofromstr True True (Some s) n = Inr f"
proof -
  have l: "0 < length (finfo_text f)" by (simp add: finfo_text_def RECOVERY_MSGHEAD_def)
  show ?thesis
    using finfo.initstr_enc [OF assms] assms l
    by (intro exI [of _ "length (finfo_text f)"] exI [of _ "finfo_text f"])
       (simp add: finfo_read_def recovery_finfotostr_def print_result_def snprintf_ret_def snprintf_buf_def
          valid_finfo_def)
qed

theorem finfo_roundtrip_witness:
  "\<exists>n s. recovery_finfotostr (Some (recov_example_finfo 3 ''a'')) True (n + 1) = (n, s) \<and>
     recovery_finfofromstr True True (Some s) n = Inr (recov_example_finfo 3 ''a'')"
proof -
  have "valid_finfo (recov_example_finfo 3 ''a'')" using recov_example_ok(2) by (simp add: file_ok_def)
  from finfo_roundtrip [OF this] show ?thesis by blast
qed

text \<open>
  C25. The length of the message does not depend on size and time, as the data stream requires: it
  reserves the space for the message before it knows them.\<close>

theorem finfo_length_stable:
  "fst (recovery_finfotostr (Some (f\<lparr>fi_size := sz, fi_sec := sec, fi_nsec := nsec\<rparr>)) tgt len) =
   fst (recovery_finfotostr (Some f) tgt len)"
proof -
  have "length (finfo_text (f\<lparr>fi_size := sz, fi_sec := sec, fi_nsec := nsec\<rparr>)) = length (finfo_text f)"
    by (simp add: finfo_text_def)
  then show ?thesis by (simp add: recovery_finfotostr_def print_result_def snprintf_ret_def)
qed

text \<open>
  \<^verbatim>\<open>recovery_cont\<close> moves a reference to the next object of its stream: all files of that object are
  found; an object with another header is refused and leaves the reference as it was.\<close>

theorem recovery_cont_spec:
  assumes "valid_header h" "files_ok fs" "length (object_text h fs) < 2 ^ 64" "caps_ok rc"
  shows "if h = rc_header rc
    then \<exists>rc'. recovery_cont all_mem (Some rc) (Some (object_text h fs @ post)) (length (object_text h fs)) =
        (None, Some rc') \<and> rc_header rc' = rc_header rc \<and> caps_ok rc' \<and>
        map (\<lambda>(f, off, len). (take len (drop off (object_text h fs @ post)), f)) (recov_iterate rc') = fs
    else recovery_cont all_mem (Some rc) (Some (object_text h fs @ post)) (length (object_text h fs)) =
      (Some EFail, Some rc)"
proof -
  let ?H = "header_text h" and ?C = "concat (map file_text fs)"
  have pos: "0 < length ?H" by (simp add: header_text_def RECOVERY_MSGHEAD_def)
  have h: "parse_recov_header all_mem 0 (?H @ ?C @ post) (length ?H + length ?C) = Inr (h, length ?H)"
    using parse_header_text [OF assms(1)] assms(3) by (simp add: object_text_def)
  show ?thesis
  proof (cases "h = rc_header rc")
    case False
    then have "rh_major h \<noteq> rh_major (rc_header rc) \<or> rh_minor h \<noteq> rh_minor (rc_header rc) \<or>
        rh_ctag h \<noteq> rh_ctag (rc_header rc) \<or> rh_streamid h \<noteq> rh_streamid (rc_header rc)"
      by (metis recovery_header.equality old.unit.exhaust)
    then show ?thesis using False h by (auto simp: recovery_cont_def object_text_def)
  next
    case True
    have "caps_ok (rc\<lparr>rc_files := []\<rparr>)" using assms(4) by (simp add: caps_ok_def)
    from populate_text [OF assms(2) this, of 2 ?H post] obtain rc' where
      rc: "populate_loop all_mem 2 (?H @ ?C @ post) (length ?H + length ?C - 1) (length ?C) (rc\<lparr>rc_files := []\<rparr>) = (None, rc')"
        "rc_files rc' = rev (file_layout (length ?H) fs)" "rc_header rc' = rc_header rc" "caps_ok rc'" by auto
    have "length ?H - 1 + length ?C = length ?H + length ?C - 1" using pos by linarith
    moreover have "sub64 (length ?H + length ?C) (length ?H) = length ?C"
      using assms(3) by (simp add: object_text_def)
    ultimately have "recovery_cont all_mem (Some rc) (Some (object_text h fs @ post)) (length (object_text h fs)) =
        (None, Some rc')"
      using h rc(1) True by (simp add: recovery_cont_def object_text_def populate_recovery_def)
    moreover have "map (\<lambda>(f, off, len). (take len (drop off (object_text h fs @ post)), f)) (recov_iterate rc') = fs"
      using layout_content [of ?H fs post] by (simp add: recov_iterate_files rc(2) object_text_def)
    ultimately show ?thesis using rc True by auto
  qed
qed

theorem recovery_cont_spec_witness:
  "recovery_cont all_mem
     (Some \<lparr>rc_header = recov_example_header\<lparr>rh_ctag := ''d''\<rparr>, rc_filecount = 0, rc_caps = (0, 0, 0), rc_files = []\<rparr>)
     (Some (object_text recov_example_header [])) (length (object_text recov_example_header [])) =
   (Some EFail,
    Some \<lparr>rc_header = recov_example_header\<lparr>rh_ctag := ''d''\<rparr>, rc_filecount = 0, rc_caps = (0, 0, 0), rc_files = []\<rparr>)"
proof -
  let ?rc = "\<lparr>rc_header = recov_example_header\<lparr>rh_ctag := ''d''\<rparr>, rc_filecount = 0, rc_caps = (0, 0, 0), rc_files = []\<rparr>"
  have "length (object_text recov_example_header []) < 2 ^ 64"
    using recov_example_ok(3) by (simp add: object_text_def)
  moreover have "files_ok []" "caps_ok ?rc" by (simp_all add: files_ok_def caps_ok_def)
  moreover have "recov_example_header \<noteq> rc_header ?rc" by (simp add: recov_example_header_def)
  ultimately show ?thesis
    using recovery_cont_spec [OF recov_example_ok(1), of "[]" ?rc "[]"] by simp
qed

text \<open>
  C26. The parser of the attributes overruns its buffer: with a size that is up to 21 bytes too small
  it still accepts the message and reports an end behind the buffer, because the seconds of the
  time stamp are never subtracted from the size.\<close>

theorem finfo_overrun:
  assumes "valid_finfo f" "1 \<le> d" "d \<le> 21"
  shows "\<exists>k. parse_recov_finfo True (finfo_text f) (length (finfo_text f) - d) = Inr (f, k) \<and>
    length (finfo_text f) - d < k"
proof -
  have "21 \<le> length (finfo_text f)" by (simp add: finfo_text_eq finfo_text_parts)
  then show ?thesis
    using parse_finfo_short [OF assms(1), of "length (finfo_text f) - d" d "[]"] assms(2,3) by simp
qed

theorem finfo_overrun_witness:
  "\<exists>k. parse_recov_finfo True (finfo_text (recov_example_finfo 3 ''a''))
      (length (finfo_text (recov_example_finfo 3 ''a'')) - 21) = Inr (recov_example_finfo 3 ''a'', k)"
proof -
  have "valid_finfo (recov_example_finfo 3 ''a'')" using recov_example_ok(2) by (simp add: file_ok_def)
  from finfo_overrun [OF this, of 21] show ?thesis by auto
qed




end
