(* ===== verification/Metainfo.thy ===== *)
theory Metainfo
  imports Prelude
begin

text \<open>
  The metadata of a block, \<^verbatim>\<open>src/dal/metainfo.c\<close>: the structure \<^verbatim>\<open>meta_info\<close> of \<^verbatim>\<open>src/dal/dal.h\<close>, the
  line of text that a data abstraction stores for it (\<^verbatim>\<open>dal_set_meta_helper\<close>) and its parser with
  the two formats it knows (\<^verbatim>\<open>dal_get_meta_helper\<close>), copy and comparison.

  The fields are integers of their C types; every conversion to a C type is written out
  (\<open>to_i32\<close>, \<open>to_i64\<close>). The function pointers of the two helpers are arguments of the definitions and act on
  the state \<open>'w\<close> of the storage behind them.
\<close>

section \<open>The C library functions the parser uses\<close>

definition to_i32 :: "int \<Rightarrow> int" where
  "to_i32 i = signed_take_bit 31 i"

definition to_i64 :: "int \<Rightarrow> int" where
  "to_i64 i = signed_take_bit 63 i"

text \<open>
  \<^verbatim>\<open>strtol\<close> and \<^verbatim>\<open>strtoll\<close> with base 10: as \<^verbatim>\<open>strtoull\<close>, with the value clamped to the range of the type.
\<close>

definition strtol :: "string \<Rightarrow> int \<times> string" where
  "strtol s =
     (let s1 = dropWhile c_isspace s;
          neg = (peek s1 = CHR ''-'');
          s2 = (if peek s1 = CHR ''-'' \<or> peek s1 = CHR ''+'' then tl s1 else s1);
          ds = takeWhile (is_digit 10) s2;
          v = (if neg then - int (digits_val 10 ds) else int (digits_val 10 ds))
      in if ds = [] then (0, s)
         else (max (- (2 ^ 63)) (min (2 ^ 63 - 1) v), dropWhile (is_digit 10) s2))"

text \<open>
  The conversions of \<^verbatim>\<open>sscanf\<close> in the sources. \<^verbatim>\<open>%4s\<close>: skip white space, take at most that many
  characters up to the next white space; \<open>None\<close> when the string ends first. A format is the list of
  its conversions, with \<open>False\<close> for a suppressed one (\<^verbatim>\<open>%*19s\<close>); the white space between the
  conversions is what every \<^verbatim>\<open>%s\<close> skips anyway. The result is the list of the strings it assigned.
\<close>

definition scan_tok :: "nat \<Rightarrow> string \<Rightarrow> (string \<times> string) option" where
  "scan_tok w s =
     (let s1 = dropWhile c_isspace s; t = takeWhile (\<lambda>c. \<not> c_isspace c) (take w s1) in
      if s1 = [] then None else Some (t, drop (length t) s1))"

fun sscanf_strs :: "(nat \<times> bool) list \<Rightarrow> string \<Rightarrow> string list" where
  "sscanf_strs [] s = []"
| "sscanf_strs ((w, assign) # fs) s =
     (case scan_tok w s of
        None \<Rightarrow> []
      | Some (t, s') \<Rightarrow> (if assign then t # sscanf_strs fs s' else sscanf_strs fs s'))"

text \<open>
  \<^verbatim>\<open>sscanf(parse, "v%d ", &vertag)\<close> on a string that begins with \<^verbatim>\<open>v\<close>: the return value (1, 0 for
  characters that are no number, -1 at the end of the string) and the number.
\<close>

definition sscanf_ver :: "string \<Rightarrow> int \<times> int" where
  "sscanf_ver s =
     (let s1 = dropWhile c_isspace (tl s) in
      if s1 = [] then (-1, 0)
      else if snd (strtol s1) = s1 then (0, 0)
      else (1, to_i32 (fst (strtol s1))))"

section \<open>The structure and its text\<close>

record meta_info =
  mi_N :: int
  mi_E :: int
  mi_O :: int
  mi_partsz :: int
  mi_versz :: int
  mi_blocksz :: int
  mi_crcsum :: int
  mi_totsz :: int

definition MINFO_VER :: int where
  "MINFO_VER = 1"

text \<open>\<^verbatim>\<open>sizeof(struct meta_info_struct)\<close> is 56 under LP64: three ints, four bytes of padding, five words.\<close>

definition get_minfo_strlen :: nat where
  "get_minfo_strlen = 56 * 8 div 3 + 13"

definition minfo_text :: "meta_info \<Rightarrow> string" where
  "minfo_text mi =
     ''v'' @ show_int MINFO_VER @ '' '' @ show_int (mi_N mi) @ '' '' @ show_int (mi_E mi) @ '' '' @
     show_int (mi_O mi) @ '' '' @ show_int (mi_partsz mi) @ '' '' @ show_int (mi_versz mi) @ '' '' @
     show_int (mi_blocksz mi) @ '' '' @ show_nat (nat (mi_crcsum mi mod 2 ^ 64)) @ '' '' @
     show_int (mi_totsz mi) @ [CHR 0x0A]"

text \<open>
  \<open>writer str w\<close> is the call of \<^verbatim>\<open>meta_writer\<close> with the string and its NUL: the return value and the
  new state. \<open>ok\<close> says that the allocation succeeds.
\<close>

definition dal_set_meta_helper ::
  "bool \<Rightarrow> (string \<Rightarrow> 'w \<Rightarrow> int \<times> 'w) \<Rightarrow> meta_info \<Rightarrow> 'w \<Rightarrow> int \<times> 'w" where
  "dal_set_meta_helper ok writer mi w =
     (if \<not> ok then (-1, w)
      else if snprintf_ret (minfo_text mi) < 0 then (-1, w)
      else
        (case writer (snprintf_buf get_minfo_strlen (minfo_text mi) @ [NUL]) w of
           (r, w') \<Rightarrow> (if r \<noteq> 0 then -1 else 0, w')))"

section \<open>The parser\<close>

definition minfo_standin :: meta_info where
  "minfo_standin =
     \<lparr>mi_N = 0, mi_E = -1, mi_O = -1, mi_partsz = -1, mi_versz = -1, mi_blocksz = -1, mi_crcsum = -1,
      mi_totsz = -1\<rparr>"

text \<open>
  The version tag: the value of \<^verbatim>\<open>vertag\<close> and the string behind the tag. A failed conversion (0)
  keeps \<^verbatim>\<open>parse\<close> at the tag; the end of the string (-1) is taken for a success.
\<close>

definition minfo_version :: "string \<Rightarrow> int \<times> string" where
  "minfo_version s =
     (if peek s = CHR ''v'' then
        (case sscanf_ver s of (r, v) \<Rightarrow>
           let vertag = (if r = 1 then v else MINFO_VER) in
           if r \<noteq> 0 then
             (let p = dropWhile (\<lambda>c. c \<noteq> CHR '' '') s in (vertag, if peek p = CHR '' '' then tl p else p))
           else (vertag, s))
      else (0, s))"

text \<open>The eight strings, and how many \<^verbatim>\<open>sscanf\<close> says it has assigned.\<close>

definition minfo_strings :: "int \<Rightarrow> string \<Rightarrow> nat \<times> string list" where
  "minfo_strings vertag s =
     (if vertag \<noteq> 0 then
        (let ts = sscanf_strs
           [(4, True), (4, True), (4, True), (19, True), (19, True), (19, True), (19, True), (19, True)] s
         in (length ts, ts))
      else
        (let ts = sscanf_strs
           [(4, True), (4, True), (4, True), (19, True), (19, False), (19, True), (19, True), (19, True)] s
         in (length ts, take 4 ts @ (if length ts > 3 then [ts ! 3] else []) @ drop 4 ts)))"

text \<open>\<^verbatim>\<open>PARSE_VALUE\<close>: the new value and the change of \<^verbatim>\<open>status\<close>.\<close>

definition parse_value :: "(int \<Rightarrow> int) \<Rightarrow> nat \<times> string list \<Rightarrow> nat \<Rightarrow> int \<Rightarrow> int \<times> int" where
  "parse_value cast toks i val =
     (if fst toks > i then
        (case strtol (snd toks ! i) of (v, e) \<Rightarrow>
           if e = [] \<and> cast v > val then (cast v, 0) else (val, -1))
      else (val, 0))"

definition minfo_values :: "nat \<times> string list \<Rightarrow> meta_info \<times> int" where
  "minfo_values t =
     (let (n, s0) = parse_value to_i32 t 0 0;
          (e, s1) = parse_value to_i32 t 1 (-1);
          (p, s2) = parse_value to_i32 t 2 (-1);
          (ps, s3) = parse_value to_i64 t 3 (-1);
          (vs, s4) = parse_value to_i64 t 4 (-1);
          (bs, s5) = parse_value to_i64 t 5 (-1);
          (cs, s6) = parse_value to_i64 t 6 (-1);
          (ts, s7) = parse_value to_i64 t 7 (-1)
      in (\<lparr>mi_N = n, mi_E = e, mi_O = p, mi_partsz = ps, mi_versz = vs, mi_blocksz = bs,
           mi_crcsum = cs, mi_totsz = ts\<rparr>,
          s0 + s1 + s2 + s3 + s4 + s5 + s6 + s7))"

text \<open>What follows a successful read of \<open>bytes\<close>: the last byte becomes the NUL of the string.\<close>

definition minfo_parse :: "string \<Rightarrow> int \<times> meta_info" where
  "minfo_parse bytes =
     (let valid_suffix = (length bytes \<ge> 2 \<and> bytes ! (length bytes - 2) = CHR 0x0A);
          s = takeWhile (\<lambda>c. c \<noteq> NUL) (butlast bytes);
          (vertag, p) = minfo_version s;
          toks = minfo_strings vertag p
      in if fst toks < 1 then (-1, minfo_standin)
         else
           (let (mi, d) = minfo_values toks; status = int (fst toks) + d in
            (if valid_suffix \<and> status = 8 then 0 else status, mi)))"

text \<open>
  \<open>filler n w\<close> is the call of \<^verbatim>\<open>meta_filler\<close> with a buffer of \<open>n\<close> bytes: the return value and the
  bytes it left there.
\<close>

definition dal_get_meta_helper ::
  "bool \<Rightarrow> (nat \<Rightarrow> 'w \<Rightarrow> (int \<times> string) \<times> 'w) \<Rightarrow> meta_info \<Rightarrow> 'w \<Rightarrow> (int \<times> meta_info) \<times> 'w" where
  "dal_get_meta_helper ok filler mi w =
     (if \<not> ok then ((-1, mi), w)
      else
        (case filler get_minfo_strlen w of ((r, bytes), w') \<Rightarrow>
           if r \<le> 0 \<or> r > int get_minfo_strlen then ((-1, minfo_standin), w')
           else (minfo_parse (take (nat r) bytes), w')))"

section \<open>Copy and comparison\<close>

definition cpy_minfo :: "meta_info \<Rightarrow> meta_info \<Rightarrow> meta_info" where
  "cpy_minfo target source =
     target\<lparr>mi_N := mi_N source, mi_E := mi_E source, mi_O := mi_O source, mi_partsz := mi_partsz source,
       mi_versz := mi_versz source, mi_blocksz := mi_blocksz source, mi_totsz := mi_totsz source\<rparr>"

definition cmp_minfo :: "meta_info \<Rightarrow> meta_info \<Rightarrow> int" where
  "cmp_minfo a b =
     (if mi_N a \<noteq> mi_N b then -1
      else if mi_E a \<noteq> mi_E b then -1
      else if mi_O a \<noteq> mi_O b then -1
      else if mi_partsz a \<noteq> mi_partsz b then -1
      else if mi_versz a \<noteq> mi_versz b then -1
      else if mi_blocksz a \<noteq> mi_blocksz b then -1
      else if mi_totsz a \<noteq> mi_totsz b then -1
      else 0)"

section \<open>Reading back the text\<close>

named_theorems minfo_simps "evaluation of the parser of the metadata text"

lemma c_isspace_blank [simp]: "c_isspace CHR '' ''" "c_isspace CHR 0x0A"
  by (simp_all add: c_isspace_def)

text \<open>A token: printable without white space.\<close>

definition token :: "nat \<Rightarrow> string \<Rightarrow> bool" where
  "token w t \<longleftrightarrow> t \<noteq> [] \<and> length t \<le> w \<and> (\<forall>c \<in> set t. \<not> c_isspace c)"

lemma scan_tok_blank [minfo_simps]: "c_isspace c \<Longrightarrow> scan_tok w (c # s) = scan_tok w s"
  by (simp add: scan_tok_def)

lemma takeWhile_take_token:
  assumes "\<forall>c \<in> set t. \<not> c_isspace c" "length t \<le> w" "c_isspace c"
  shows "takeWhile (\<lambda>c. \<not> c_isspace c) (take w (t @ c # s)) = t"
proof (cases "w - length t")
  case 0
  then have "take w (t @ c # s) = t" using assms(2) by simp
  then show ?thesis using assms(1) by simp
next
  case (Suc n)
  then have "take w (t @ c # s) = t @ c # take n s" using assms(2) by simp
  then show ?thesis using assms(1,3) by (simp add: takeWhile_append)
qed

lemma scan_tok_token [minfo_simps]:
  assumes "token w t" "c_isspace c"
  shows "scan_tok w (t @ c # s) = Some (t, c # s)"
proof -
  obtain a u where "t = a # u" "\<not> c_isspace a" using assms by (cases t) (auto simp: token_def)
  then have "dropWhile c_isspace (t @ c # s) = t @ c # s" by simp
  then show ?thesis
    using assms takeWhile_take_token [of t w c s] by (simp add: scan_tok_def token_def)
qed

lemma show_int_chars: "c \<in> set (show_int i) \<Longrightarrow> is_digit 10 c \<or> c = CHR ''-''"
  using show_nat_digits by (auto simp: show_int_def split: if_splits)

lemma show_int_nonempty [simp]: "show_int i \<noteq> []"
  by (simp add: show_int_def)

lemma not_space_digit: "is_digit 10 c \<or> c = CHR ''-'' \<Longrightarrow> \<not> c_isspace c"
  using is_digit_not_space [of 10 c] by (auto simp: c_isspace_def)

lemma token_show_int [minfo_simps]:
  assumes "0 \<le> i" "i < 10 ^ w" "0 < w"
  shows "token w (show_int i)"
proof -
  have "length (show_int i) \<le> w"
    using assms length_show_nat_le [of w "nat i"] by (simp add: show_int_def nat_less_iff)
  then show ?thesis
    using show_int_chars not_space_digit by (simp add: token_def)
qed

lemma strtol_digits:
  assumes "\<forall>c \<in> set ds. is_digit 10 c" "ds \<noteq> []" "no_digit 10 t" "digits_val 10 ds < 2 ^ 63"
  shows "strtol (ds @ t) = (int (digits_val 10 ds), t)"
proof -
  obtain c cs where c: "ds = c # cs" and dc: "is_digit 10 c" using assms by (cases ds) auto
  have sp: "\<not> c_isspace c" "c \<noteq> CHR ''-''" "c \<noteq> CHR ''+''"
    using is_digit_not_space [of 10 c] is_digit_not_sign [of 10 c] dc by auto
  have dr: "dropWhile c_isspace (ds @ t) = ds @ t" and pk: "peek (ds @ t) = c" using c sp by simp_all
  have le: "int (digits_val 10 ds) \<le> 9223372036854775807" using assms(4) by simp
  show ?thesis
    using sp dr pk takeWhile_digits [OF assms(1,3)] assms(2) le
    by (simp add: strtol_def Let_def)
qed

lemma strtol_show_int [minfo_simps]:
  assumes "0 \<le> i" "i < 2 ^ 63" "no_digit 10 t"
  shows "strtol (show_int i @ t) = (i, t)"
proof -
  have v: "digits_val 10 (show_nat (nat i)) = nat i" by (simp add: show_nat_def digits_val_show_base)
  have b: "digits_val 10 (show_nat (nat i)) < 2 ^ 63" unfolding v using assms(1,2) by simp
  have "strtol (show_nat (nat i) @ t) = (int (digits_val 10 (show_nat (nat i))), t)"
    using strtol_digits [OF _ _ assms(3) b] show_nat_digits by simp
  then show ?thesis using assms(1) v by (simp add: show_int_def)
qed

lemma strtol_show_int_end [minfo_simps]:
  assumes "0 \<le> i" "i < 2 ^ 63"
  shows "strtol (show_int i) = (i, [])"
  using strtol_show_int [OF assms, of "[]"] by (simp add: no_digit_Nil)

lemma to_i32_id [minfo_simps]: "0 \<le> i \<Longrightarrow> i < 2 ^ 31 \<Longrightarrow> to_i32 i = i"
  by (simp add: to_i32_def signed_take_bit_int_eq_self)

lemma to_i64_id [minfo_simps]: "0 \<le> i \<Longrightarrow> i < 2 ^ 63 \<Longrightarrow> to_i64 i = i"
  by (simp add: to_i64_def signed_take_bit_int_eq_self)

text \<open>
  Metadata of a block as the erasure layer makes it: at least one data part, counts of at most four
  digits, sizes that are not negative.
\<close>

definition valid_minfo :: "meta_info \<Rightarrow> bool" where
  "valid_minfo mi \<longleftrightarrow>
     0 < mi_N mi \<and> mi_N mi < 10000 \<and> 0 \<le> mi_E mi \<and> mi_E mi < 10000 \<and> 0 \<le> mi_O mi \<and> mi_O mi < 10000 \<and>
     0 \<le> mi_partsz mi \<and> mi_partsz mi < 2 ^ 63 \<and> 0 \<le> mi_versz mi \<and> mi_versz mi < 2 ^ 63 \<and>
     0 \<le> mi_blocksz mi \<and> mi_blocksz mi < 2 ^ 63 \<and> 0 \<le> mi_crcsum mi \<and> mi_crcsum mi < 2 ^ 63 \<and>
     0 \<le> mi_totsz mi \<and> mi_totsz mi < 2 ^ 63"

text \<open>The fields as the text lists them, behind the version.\<close>

definition minfo_fields :: "meta_info \<Rightarrow> int list" where
  "minfo_fields mi =
     [mi_N mi, mi_E mi, mi_O mi, mi_partsz mi, mi_versz mi, mi_blocksz mi, mi_crcsum mi, mi_totsz mi]"

fun fields_text :: "int list \<Rightarrow> string" where
  "fields_text [] = []"
| "fields_text [i] = show_int i @ [CHR 0x0A]"
| "fields_text (i # is) = show_int i @ CHR '' '' # fields_text is"

lemma minfo_text_fields:
  assumes "valid_minfo mi"
  shows "minfo_text mi = ''v1 '' @ fields_text (minfo_fields mi)"
proof -
  have "show_int 1 = ''1''" by (simp add: show_int_def show_nat_01)
  moreover have "show_nat (nat (mi_crcsum mi mod 2 ^ 64)) = show_int (mi_crcsum mi)"
    using assms by (simp add: valid_minfo_def show_int_def)
  ultimately show ?thesis by (simp add: minfo_text_def MINFO_VER_def minfo_fields_def)
qed

text \<open>\<^verbatim>\<open>sscanf\<close> finds the numbers again, whatever the white space between them.\<close>

lemma sscanf_fields:
  assumes "list_all2 (\<lambda>(w, a) i. a \<and> 0 < w \<and> 0 \<le> i \<and> i < 10 ^ w) fs is" "c_isspace b"
  shows "sscanf_strs fs (fields_text is) = map show_int is"
    and "sscanf_strs fs (b # fields_text is) = map show_int is"
proof -
  have "sscanf_strs fs (fields_text is) = map show_int is \<and> sscanf_strs fs (CHR '' '' # fields_text is) = map show_int is"
    using assms(1)
  proof (induction "is" arbitrary: fs rule: fields_text.induct)
    case (2 i)
    then show ?case by (cases fs) (auto simp: minfo_simps split: prod.splits)
  next
    case (3 i j "is")
    then obtain w gs where "fs = (w, True) # gs" "0 < w" "0 \<le> i" "i < 10 ^ w"
        "list_all2 (\<lambda>(w, a) i. a \<and> 0 < w \<and> 0 \<le> i \<and> i < 10 ^ w) gs (j # is)"
      by (cases fs) auto
    with 3(1) show ?case by (auto simp: minfo_simps)
  qed simp
  moreover have "sscanf_strs fs (b # s) = sscanf_strs fs (CHR '' '' # s)" for s
    using assms(2) by (cases fs) (auto simp: minfo_simps)
  ultimately show "sscanf_strs fs (fields_text is) = map show_int is"
    "sscanf_strs fs (b # fields_text is) = map show_int is" by auto
qed

lemma valid_fields:
  assumes "valid_minfo mi"
  shows "list_all2 (\<lambda>(w, a) i. a \<and> 0 < w \<and> 0 \<le> i \<and> i < 10 ^ w)
    [(4, True), (4, True), (4, True), (19, True), (19, True), (19, True), (19, True), (19, True)]
    (minfo_fields mi)"
  using assms by (simp add: valid_minfo_def minfo_fields_def)

lemma minfo_values_fields:
  assumes "valid_minfo mi"
  shows "minfo_values (8, map show_int (minfo_fields mi)) = (mi, 0)"
  using assms
  by (simp add: minfo_values_def parse_value_def minfo_fields_def valid_minfo_def minfo_simps)

lemma fields_text_chars: "c \<in> set (fields_text is) \<Longrightarrow> is_digit 10 c \<or> c \<in> {CHR ''-'', CHR '' '', CHR 0x0A}"
  by (induction "is" rule: fields_text.induct) (use show_int_chars in fastforce)+

lemma fields_text_last: "is \<noteq> [] \<Longrightarrow> \<exists>s. fields_text is = s @ [CHR 0x0A]"
proof (induction "is" rule: fields_text.induct)
  case (3 i j "is")
  then obtain s where "fields_text (j # is) = s @ [CHR 0x0A]" by auto
  then show ?case by simp
qed auto

lemma cstr_minfo_text:
  assumes "valid_minfo mi"
  shows "cstr (minfo_text mi)"
  using fields_text_chars [of NUL] not_digit_NUL [of 10]
  by (auto simp: minfo_text_fields [OF assms] cstr_def NUL_def)

text \<open>The text has at most 120 characters and fits the buffer of both helpers.\<close>

lemma length_minfo_text:
  assumes "valid_minfo mi"
  shows "length (minfo_text mi) \<le> 120"
proof -
  have l: "length (show_int i) \<le> k" if "0 < k" "0 \<le> i" "i < 10 ^ k" for i k
    using that length_show_nat_le [of k "nat i"] by (simp add: show_int_def nat_less_iff)
  have a: "\<forall>i \<in> {mi_N mi, mi_E mi, mi_O mi}. length (show_int i) \<le> 4"
    using assms by (auto simp: valid_minfo_def intro!: l)
  have b: "\<forall>i \<in> {mi_partsz mi, mi_versz mi, mi_blocksz mi, mi_crcsum mi, mi_totsz mi}. length (show_int i) \<le> 19"
    using assms by (auto simp: valid_minfo_def intro!: l)
  show ?thesis using a b by (simp add: minfo_text_fields [OF assms] minfo_fields_def)
qed

lemma minfo_parse_text:
  assumes "valid_minfo mi"
  shows "minfo_parse (minfo_text mi @ [NUL]) = (0, mi)"
proof -
  let ?F = "fields_text (minfo_fields mi)"
  obtain s where s: "?F = s @ [CHR 0x0A]" using fields_text_last [of "minfo_fields mi"] by (auto simp: minfo_fields_def)
  have tw: "takeWhile (\<lambda>c. c \<noteq> NUL) (minfo_text mi) = minfo_text mi"
    using cstr_minfo_text [OF assms] by (auto simp: cstr_def)
  have suffix: "(minfo_text mi @ [NUL]) ! (length (minfo_text mi @ [NUL]) - 2) = CHR 0x0A"
    by (simp add: minfo_text_fields [OF assms] s nth_append)
  have n1: "no_digit 10 (CHR '' '' # ?F)" by (simp add: no_digit_Cons is_digit_def)
  have st: "strtol (''1 '' @ ?F) = (1, CHR '' '' # ?F)"
    using strtol_show_int [OF _ _ n1, of 1] by (simp add: show_int_def show_nat_01)
  have sp: "\<not> c_isspace CHR ''1''" by (simp add: c_isspace_def)
  have "sscanf_ver (minfo_text mi) = (1, 1)"
    using st sp by (simp add: sscanf_ver_def minfo_text_fields [OF assms] minfo_simps)
  then have v: "minfo_version (minfo_text mi) = (1, ?F)"
    by (simp add: minfo_version_def minfo_text_fields [OF assms])
  have "minfo_strings 1 ?F = (8, map show_int (minfo_fields mi))"
    using sscanf_fields(1) [OF valid_fields [OF assms], of "CHR '' ''"]
    by (simp add: minfo_strings_def) (simp add: minfo_fields_def)
  then show ?thesis
    using tw suffix v minfo_values_fields [OF assms]
    by (simp add: minfo_parse_def minfo_text_fields [OF assms])
qed

text \<open>
  What \<^verbatim>\<open>dal_set_meta_helper\<close> hands to the storage is the whole text with its NUL, and it fits the
  buffer of both helpers; \<^verbatim>\<open>dal_get_meta_helper\<close>, given these bytes, returns 0 with the same values,
  the checksum included.\<close>

lemma dal_set_meta_valid:
  assumes "valid_minfo mi"
  shows "dal_set_meta_helper True writer mi w =
    (case writer (minfo_text mi @ [NUL]) w of (r, w') \<Rightarrow> (if r \<noteq> 0 then -1 else 0, w'))"
    and "length (minfo_text mi @ [NUL]) \<le> get_minfo_strlen"
  using length_minfo_text [OF assms]
  by (simp_all add: dal_set_meta_helper_def get_minfo_strlen_def snprintf_ret_def INT_MAX_def snprintf_buf_def)

lemma dal_get_meta_valid:
  assumes "valid_minfo mi" "filler get_minfo_strlen w = ((int (length (minfo_text mi) + 1), minfo_text mi @ NUL # x), w')"
  shows "dal_get_meta_helper True filler any w = ((0, mi), w')"
proof -
  have "take (nat (int (length (minfo_text mi) + 1))) (minfo_text mi @ NUL # x) = minfo_text mi @ [NUL]"
    by (simp only: nat_int) simp
  then show ?thesis
    using assms dal_set_meta_valid(2) [OF assms(1)] minfo_parse_text [OF assms(1)]
    by (simp add: dal_get_meta_helper_def)
qed

subsection \<open>Texts that are no metadata\<close>

lemma sscanf_strs_bound: "length (sscanf_strs fs s) \<le> length (filter snd fs)"
  by (induction fs s rule: sscanf_strs.induct) (auto split: option.splits intro: le_SucI)

lemma scan_tok_chars:
  assumes "scan_tok w s = Some (t, s')" "0 < w"
  shows "t \<noteq> [] \<and> set t \<subseteq> set s \<and> set s' \<subseteq> set s"
proof -
  let ?d = "dropWhile c_isspace s"
  have d: "?d \<noteq> []" "t = takeWhile (\<lambda>c. \<not> c_isspace c) (take w ?d)" "s' = drop (length t) ?d"
    using assms(1) by (auto simp: scan_tok_def Let_def split: if_splits)
  then obtain c u v where "?d = c # u" "\<not> c_isspace c" "w = Suc v"
    using hd_dropWhile [of c_isspace s] assms(2) by (cases ?d; cases w) auto
  then have "t \<noteq> []" using d(2) by simp
  moreover have "set ?d \<subseteq> set s" by (auto dest: set_dropWhileD)
  ultimately show ?thesis
    using d by (auto dest!: set_takeWhileD in_set_takeD in_set_dropD)
qed

lemma sscanf_strs_chars:
  assumes "list_all (\<lambda>(w, a). 0 < w) fs" "t \<in> set (sscanf_strs fs s)"
  shows "t \<noteq> [] \<and> set t \<subseteq> set s"
  using assms
proof (induction fs s rule: sscanf_strs.induct)
  case (2 w a fs s)
  then obtain u s' where u: "scan_tok w s = Some (u, s')" by (cases "scan_tok w s") auto
  have c: "u \<noteq> [] \<and> set u \<subseteq> set s \<and> set s' \<subseteq> set s" using scan_tok_chars [OF u] 2(3) by simp
  have "t \<in> set (sscanf_strs fs s') \<Longrightarrow> t \<noteq> [] \<and> set t \<subseteq> set s'"
    using 2 u by (cases a) auto
  then show ?case using 2(4) u c by (cases a) auto
qed simp

lemma strtol_no_digit: "\<forall>c \<in> set s. \<not> is_digit 10 c \<Longrightarrow> strtol s = (0, s)"
proof -
  assume a: "\<forall>c \<in> set s. \<not> is_digit 10 c"
  have d: "set (dropWhile c_isspace s) \<subseteq> set s" by (auto dest: set_dropWhileD)
  have "set (tl t) \<subseteq> set t" for t :: string by (cases t) auto
  then have "set (tl (dropWhile c_isspace s)) \<subseteq> set s" using d by blast
  then have "takeWhile (is_digit 10) (dropWhile c_isspace s) = []"
    "takeWhile (is_digit 10) (tl (dropWhile c_isspace s)) = []"
    using a d by (metis list.set_sel(1) subsetD takeWhile_eq_Nil_iff)+
  then show ?thesis by (simp add: strtol_def Let_def)
qed

lemma parse_value_no_digit:
  assumes "\<forall>t \<in> set ts. t \<noteq> [] \<and> (\<forall>c \<in> set t. \<not> is_digit 10 c)" "n \<le> length ts"
  shows "parse_value cast (n, ts) i val = (val, if i < n then -1 else 0)"
proof -
  have "strtol (ts ! i) = (0, ts ! i) \<and> ts ! i \<noteq> []" if "i < n"
    using assms that strtol_no_digit [of "ts ! i"] nth_mem [of i ts] by (meson less_le_trans)
  then show ?thesis by (auto simp: parse_value_def)
qed

lemma minfo_values_no_digit:
  assumes "\<forall>t \<in> set ts. t \<noteq> [] \<and> (\<forall>c \<in> set t. \<not> is_digit 10 c)" "n \<le> length ts" "n \<le> 8"
  shows "minfo_values (n, ts) = (minfo_standin, - int n)"
proof -
  have "n \<in> {0, 1, 2, 3, 4, 5, 6, 7, 8}" using assms(3) by auto
  then show ?thesis
    using parse_value_no_digit [OF assms(1,2)] by (auto simp: minfo_values_def minfo_standin_def)
qed

text \<open>The strings of the format without the tag all come from the text.\<close>

lemma untagged_strings:
  assumes "ts = sscanf_strs
    [(4, True), (4, True), (4, True), (19, True), (19, False), (19, True), (19, True), (19, True)] s"
  obtains L where "minfo_strings 0 s = (length ts, L)" "set L \<subseteq> set ts" "length ts \<le> length L"
proof
  let ?L = "take 4 ts @ (if length ts > 3 then [ts ! 3] else []) @ drop 4 ts"
  show "minfo_strings 0 s = (length ts, ?L)"
    unfolding minfo_strings_def Let_def assms by (simp del: sscanf_strs.simps)
  show "set ?L \<subseteq> set ts" using set_take_subset [of 4 ts] set_drop_subset [of 4 ts] by auto
  show "length ts \<le> length ?L" by simp
qed

text \<open>
  Garbage is taken for metadata: a text without a single digit, not blank and without the version
  tag, makes the parser return 0, the value for success, with all fields at their stand-ins: each
  string that fails to parse lowers the status, down to 0.\<close>

theorem minfo_garbage_accepted:
  assumes "peek s \<noteq> CHR ''v''" "\<forall>c \<in> set s. \<not> is_digit 10 c \<and> c \<noteq> NUL" "\<not> list_all c_isspace s"
  shows "minfo_parse (s @ [CHR 0x0A, NUL]) = (0, minfo_standin)"
proof -
  let ?t = "s @ [CHR 0x0A]"
  define fs where "fs = [(4, True), (4, True), (4, True), (19, True), (19, False), (19, True), (19, True), (19 :: nat, True)]"
  define ts where "ts = sscanf_strs fs ?t"
  have tw: "takeWhile (\<lambda>c. c \<noteq> NUL) ?t = ?t" using assms(2) by (auto simp: takeWhile_eq_all_conv NUL_def)
  have "peek ?t \<noteq> CHR ''v''" using assms(1) by (cases s) auto
  then have v: "minfo_version ?t = (0, ?t)" by (simp add: minfo_version_def)
  have d: "\<forall>t \<in> set ts. t \<noteq> [] \<and> (\<forall>c \<in> set t. \<not> is_digit 10 c)"
  proof
    fix t
    assume "t \<in> set ts"
    moreover have "list_all (\<lambda>(w, a). 0 < w) fs" by (simp add: fs_def)
    ultimately have "t \<noteq> []" "set t \<subseteq> set ?t"
      using sscanf_strs_chars [of fs t ?t] unfolding ts_def by blast+
    moreover have "\<forall>c \<in> set ?t. \<not> is_digit 10 c" using assms(2) by (auto simp: is_digit_def)
    ultimately show "t \<noteq> [] \<and> (\<forall>c \<in> set t. \<not> is_digit 10 c)" by blast
  qed
  have "dropWhile c_isspace ?t \<noteq> []" using assms(3) by (auto simp: list_all_iff)
  then have "scan_tok 4 ?t \<noteq> None" by (simp add: scan_tok_def Let_def)
  then have pos: "0 < length ts" by (auto simp: ts_def fs_def sscanf_strs.simps(2) [of 4 True] simp del: sscanf_strs.simps)
  have le: "length ts \<le> 7" using sscanf_strs_bound [of fs ?t] unfolding ts_def [symmetric] by (simp add: fs_def)
  obtain L where L: "minfo_strings 0 ?t = (length ts, L)" "set L \<subseteq> set ts" "length ts \<le> length L"
    by (rule untagged_strings [OF ts_def [unfolded fs_def]])
  have "minfo_values (length ts, L) = (minfo_standin, - int (length ts))"
  proof (rule minfo_values_no_digit)
    show "\<forall>t \<in> set L. t \<noteq> [] \<and> (\<forall>c \<in> set t. \<not> is_digit 10 c)" using d L(2) by blast
  qed (use L(3) le in simp_all)
  moreover have "butlast (s @ [CHR 0x0A, NUL]) = ?t" "(s @ [CHR 0x0A, NUL]) ! length s = CHR 0x0A"
    by (simp_all add: butlast_append)
  moreover have "\<not> length ts < 1" using pos by simp
  ultimately show ?thesis by (simp add: minfo_parse_def tw v L(1) del: One_nat_def)
qed

theorem minfo_garbage_accepted_witness: "minfo_parse (''lost data'' @ [CHR 0x0A, NUL]) = (0, minfo_standin)"
  by (rule minfo_garbage_accepted) (simp_all add: is_digit_def NUL_def c_isspace_def)

text \<open>The format without the tag: the total size, a value behind the one that is skipped, is never read.\<close>

lemma minfo_untagged_totsz:
  assumes "fst toks \<le> 7"
  shows "mi_totsz (fst (minfo_values toks)) = -1"
  using assms by (simp add: minfo_values_def parse_value_def split: prod.splits)

subsection \<open>Truncated texts\<close>

lemma fields_text_split: "is \<noteq> [] \<Longrightarrow> \<exists>s. fields_text is = s @ [CHR 0x0A] \<and> CHR 0x0A \<notin> set s"
proof (induction "is" rule: fields_text.induct)
  case (2 i)
  have "CHR 0x0A \<notin> set (show_int i)" using show_int_chars [of "CHR 0x0A" i] by (auto simp: is_digit_def)
  then show ?case by auto
next
  case (3 i j "is")
  have "CHR 0x0A \<notin> set (show_int i)" using show_int_chars [of "CHR 0x0A" i] by (auto simp: is_digit_def)
  moreover obtain s where "fields_text (j # is) = s @ [CHR 0x0A]" "CHR 0x0A \<notin> set s" using 3 by auto
  ultimately show ?case by (intro exI [of _ "show_int i @ CHR '' '' # s"]) simp
qed simp

lemma sscanf_strs_Nil [simp]: "sscanf_strs fs [] = []"
  by (cases fs) (auto simp: scan_tok_def)

lemma parse_value_status: "snd (parse_value cast t i val) \<in> {-1, 0}"
  by (auto simp: parse_value_def split: prod.splits)

lemma minfo_values_status:
  assumes "snd (parse_value to_i32 t 0 0) = 0"
  shows "- int (fst t - 1) \<le> snd (minfo_values t)"
proof -
  have z: "snd (parse_value cast t i val) = 0" if "fst t \<le> i" for cast i val
    using that by (simp add: parse_value_def)
  have p: "- 1 \<le> snd (parse_value cast t i val)" for cast i val
    using parse_value_status [of cast t i val] by auto
  have le: "(if fst t \<le> i then 0 else -1) \<le> snd (parse_value cast t i val)" for cast i val
    using z p by simp
  note l = le [of 1 to_i32 "-1"] le [of 2 to_i32 "-1"] le [of 3 to_i64 "-1"] le [of 4 to_i64 "-1"]
    le [of 5 to_i64 "-1"] le [of 6 to_i64 "-1"] le [of 7 to_i64 "-1"]
  have "snd (minfo_values t) = snd (parse_value to_i32 t 0 0) + snd (parse_value to_i32 t 1 (-1)) +
      snd (parse_value to_i32 t 2 (-1)) + snd (parse_value to_i64 t 3 (-1)) + snd (parse_value to_i64 t 4 (-1)) +
      snd (parse_value to_i64 t 5 (-1)) + snd (parse_value to_i64 t 6 (-1)) + snd (parse_value to_i64 t 7 (-1))"
    by (simp add: minfo_values_def split_def Let_def)
  then show ?thesis using l assms by (auto split: if_splits)
qed

text \<open>A prefix of a positive number is a positive number.\<close>

lemma prefix_positive:
  assumes "0 < n" "take j (show_nat n) \<noteq> []"
  shows "0 < digits_val 10 (take j (show_nat n)) \<and> digits_val 10 (take j (show_nat n)) \<le> n"
  using assms unfolding show_nat_def
proof (induction n rule: less_induct)
  case (less n)
  have full: "digits_val 10 (show_base 10 n) = n" by (simp add: digits_val_show_base)
  show ?case
  proof (cases "length (show_base 10 n) \<le> j")
    case True
    then show ?thesis using full less.prems by simp
  next
    case False
    show ?thesis
    proof (cases "n < 10")
      case True
      then show ?thesis using False less.prems by (simp add: show_base.simps [of 10 n])
    next
      case big: False
      then have sb: "show_base 10 n = show_base 10 (n div 10) @ [digit_char (n mod 10)]"
        by (simp add: show_base.simps [of 10 n])
      then have tk: "take j (show_base 10 n) = take j (show_base 10 (n div 10))" using False by simp
      have "n div 10 \<le> n" "n div 10 < n" "0 < n div 10" using big by auto
      then show ?thesis using less.IH [of "n div 10"] less.prems unfolding tk by (meson le_trans)
    qed
  qed
qed

lemma scan_tok_all: "token w t \<Longrightarrow> scan_tok w t = Some (t, [])"
proof -
  assume t: "token w t"
  then obtain c u where "t = c # u" "\<not> c_isspace c" by (cases t) (auto simp: token_def)
  then have "dropWhile c_isspace t = t" by simp
  moreover have "take w t = t" and tw: "takeWhile (\<lambda>c. \<not> c_isspace c) t = t"
    using t by (auto simp: token_def takeWhile_eq_all_conv)
  ultimately show ?thesis using t by (simp add: scan_tok_def token_def tw)
qed

lemma minfo_version_short: "minfo_version [] = (0, [])" "minfo_version ''v'' = (1, [])" "minfo_version ''v1'' = (1, [])"
  by code_simp+

lemma minfo_version_tag: "minfo_version (''v1 '' @ x) = (1, x)"
proof -
  have n1: "no_digit 10 (CHR '' '' # x)" by (simp add: no_digit_Cons is_digit_def)
  have "strtol (''1 '' @ x) = (1, CHR '' '' # x)"
    using strtol_show_int [OF _ _ n1, of 1] by (simp add: show_int_def show_nat_01)
  moreover have "\<not> c_isspace CHR ''1''" by (simp add: c_isspace_def)
  ultimately have "sscanf_ver (''v1 '' @ x) = (1, 1)" by (simp add: sscanf_ver_def minfo_simps)
  then show ?thesis by (simp add: minfo_version_def)
qed

text \<open>The first number of a text that was cut off behind it or inside it.\<close>

lemma first_number_truncated:
  assumes "0 < n" "n < 10000" "0 < j"
  shows "\<exists>t r. scan_tok 4 (take j (show_int (int n) @ CHR '' '' # x)) = Some (t, r) \<and>
    (\<exists>v. strtol t = (v, []) \<and> 0 < v \<and> v < 10000)"
proof -
  define t where "t = take j (show_nat n)"
  have len: "length (show_nat n) \<le> 4" using assms(2) length_show_nat_le [of 4 n] by simp
  have dig: "\<forall>c \<in> set t. is_digit 10 c" using show_nat_digits [of n] by (auto simp: t_def dest: in_set_takeD)
  have ne: "t \<noteq> []" using assms(3) by (simp add: t_def)
  then have tok: "token 4 t" using len dig not_space_digit by (auto simp: token_def t_def)
  have v: "0 < digits_val 10 t" "digits_val 10 t \<le> n" using prefix_positive [OF assms(1), of j] ne by (auto simp: t_def)
  have st: "strtol t = (int (digits_val 10 t), [])"
    using strtol_digits [OF dig ne, of "[]"] v assms(2) by (simp add: no_digit_Nil)
  have "\<exists>r. scan_tok 4 (take j (show_nat n @ CHR '' '' # x)) = Some (t, r)"
  proof (cases "j - length (show_nat n)")
    case 0
    then show ?thesis using scan_tok_all [OF tok] by (simp add: t_def)
  next
    case (Suc m)
    then have "take j (show_nat n @ CHR '' '' # x) = t @ CHR '' '' # take m x" by (simp add: t_def)
    then show ?thesis using scan_tok_token [OF tok, of "CHR '' ''"] by simp
  qed
  then show ?thesis using st v assms(2) by (auto simp: show_int_def)
qed

lemma minfo_parse_no_suffix:
  assumes "\<not> (length bytes \<ge> 2 \<and> bytes ! (length bytes - 2) = CHR 0x0A)"
    and "minfo_version (takeWhile (\<lambda>c. c \<noteq> NUL) (butlast bytes)) = (v, p)"
    and "minfo_strings v p = (n, ts)" "0 < n" "0 < int n + snd (minfo_values (n, ts))"
  shows "fst (minfo_parse bytes) \<noteq> 0"
  using assms by (auto simp: minfo_parse_def split_def Let_def)

text \<open>
  A text that was cut off is never taken for complete metadata: the trailing newline is missing, and
  at least one number has been read when the status is counted down.\<close>

lemma minfo_parse_truncated:
  assumes "valid_minfo mi" "k \<le> length (minfo_text mi)"
  shows "fst (minfo_parse (take k (minfo_text mi @ [NUL]))) \<noteq> 0"
proof -
  let ?F = "fields_text (minfo_fields mi)"
  let ?bytes = "take k (minfo_text mi @ [NUL])" and ?s = "take (k - 1) (minfo_text mi)"
  obtain u where u: "?F = u @ [CHR 0x0A]" "CHR 0x0A \<notin> set u"
    using fields_text_split [of "minfo_fields mi"] by (auto simp: minfo_fields_def)
  have T: "minfo_text mi = (''v1 '' @ u) @ [CHR 0x0A]" using minfo_text_fields [OF assms(1)] u(1) by simp
  have bytes: "?bytes = take k (minfo_text mi)" using assms(2) by simp
  have nosuffix: "\<not> (length ?bytes \<ge> 2 \<and> ?bytes ! (length ?bytes - 2) = CHR 0x0A)"
  proof
    assume a: "length ?bytes \<ge> 2 \<and> ?bytes ! (length ?bytes - 2) = CHR 0x0A"
    then have k: "2 \<le> k" "length ?bytes = k" using assms(2) by auto
    have lt: "k - 2 < length (''v1 '' @ u)" using assms(2) k(1) unfolding T by simp
    have "?bytes ! (k - 2) = minfo_text mi ! (k - 2)" using k(1) unfolding bytes by simp
    also have "\<dots> = (''v1 '' @ u) ! (k - 2)" unfolding T nth_append using lt by simp
    finally have "(''v1 '' @ u) ! (k - 2) = CHR 0x0A" using a unfolding k(2) by metis
    then have "CHR 0x0A \<in> set (''v1 '' @ u)" using lt nth_mem by metis
    with u(2) show False by simp
  qed
  have "butlast ?bytes = ?s" using assms(2) by (simp add: butlast_take)
  moreover have "takeWhile (\<lambda>c. c \<noteq> NUL) ?s = ?s"
    using cstr_minfo_text [OF assms(1)] by (auto simp: cstr_def takeWhile_eq_all_conv dest: in_set_takeD)
  ultimately have s: "takeWhile (\<lambda>c. c \<noteq> NUL) (butlast ?bytes) = ?s" by simp
  show ?thesis
  proof (cases "k \<le> 4")
    case True
    then have "k - 1 \<in> {0, 1, 2, 3}" by auto
    then have "?s \<in> {[], ''v'', ''v1'', ''v1 ''}" unfolding T by auto
    then have "snd (minfo_version ?s) = []"
      using minfo_version_short minfo_version_tag [of "[]"] by (elim insertE) auto
    then have "fst (minfo_strings v (snd (minfo_version ?s))) = 0" for v by (simp add: minfo_strings_def)
    then show ?thesis using s by (simp add: minfo_parse_def split_def)
  next
    case False
    define j where "j = k - 4"
    have j: "0 < j" "?s = ''v1 '' @ take j ?F"
      using False minfo_text_fields [OF assms(1)] by (simp_all add: j_def take_Cons' eval_nat_numeral)
    let ?fs = "[(4, True), (4, True), (19, True), (19, True), (19, True), (19, True), (19 :: nat, True)]"
    obtain x where F: "?F = show_int (mi_N mi) @ CHR '' '' # x" by (simp add: minfo_fields_def)
    have N: "0 < nat (mi_N mi)" "nat (mi_N mi) < 10000" "int (nat (mi_N mi)) = mi_N mi"
      using assms(1) by (auto simp: valid_minfo_def)
    obtain t r v where t: "scan_tok 4 (take j ?F) = Some (t, r)" "strtol t = (v, [])" "0 < v" "v < 10000"
      using first_number_truncated [OF N(1,2) j(1), of x] unfolding N(3) F by blast
    define ts where "ts = t # sscanf_strs ?fs r"
    have st: "minfo_strings 1 (take j ?F) = (length ts, ts)"
      using t(1) by (simp add: minfo_strings_def Let_def ts_def sscanf_strs.simps(2) [of 4 True] del: sscanf_strs.simps)
    have "snd (parse_value to_i32 (length ts, ts) 0 0) = 0"
      using t by (simp add: parse_value_def ts_def to_i32_id del: sscanf_strs.simps)
    then have "- int (length ts - 1) \<le> snd (minfo_values (length ts, ts))"
      using minfo_values_status [of "(length ts, ts)"] by simp
    then have pos: "0 < int (length ts) + snd (minfo_values (length ts, ts))" by (simp add: ts_def del: sscanf_strs.simps)
    have "0 < length ts" by (simp add: ts_def)
    moreover have "minfo_version (takeWhile (\<lambda>c. c \<noteq> NUL) (butlast ?bytes)) = (1, take j ?F)"
      unfolding s j(2) by (rule minfo_version_tag)
    ultimately show ?thesis using minfo_parse_no_suffix [OF nosuffix _ st _ pos] by blast
  qed
qed

end
