(* ===== verification/Dal.thy ===== *)
theory Dal
  imports Metainfo
begin

text \<open>
  The interface of the data abstractions, \<^verbatim>\<open>src/dal/dal.h\<close>: locations, modes and the table of operations
  on block handles. The locale states what its users rely on; the POSIX abstraction implements it
  (\<^verbatim>\<open>PosixDal\<close>), the threads of the erasure layer use it (\<^verbatim>\<open>IOThreads\<close>).
\<close>

record dal_location =
  l_pod :: int
  l_block :: int
  l_cap :: int
  l_scatter :: int

datatype dal_mode = DAL_READ | DAL_WRITE | DAL_REBUILD | DAL_METAREAD

text \<open>
  \<^verbatim>\<open>DAL_struct\<close>: the operations on block handles as a record of functions over the state \<open>'w\<close> of the
  storage. A NULL handle is \<open>None\<close>. The entries \<^verbatim>\<open>verify\<close>, \<^verbatim>\<open>migrate\<close> and \<^verbatim>\<open>cleanup\<close>, which no modelled
  function calls, are left out.
\<close>

record ('w, 'h) dal =
  dal_open :: "dal_mode \<Rightarrow> dal_location \<Rightarrow> string \<Rightarrow> 'w \<Rightarrow> 'h option \<times> 'w"
  dal_set_meta :: "'h option \<Rightarrow> meta_info \<Rightarrow> 'w \<Rightarrow> int \<times> 'w"
  dal_get_meta :: "'h option \<Rightarrow> meta_info \<Rightarrow> 'w \<Rightarrow> (int \<times> meta_info) \<times> 'w"
  dal_put :: "'h option \<Rightarrow> string \<Rightarrow> 'w \<Rightarrow> int \<times> 'w"
  dal_get :: "'h option \<Rightarrow> nat \<Rightarrow> nat \<Rightarrow> 'w \<Rightarrow> (int \<times> string) \<times> 'w"
  dal_abort :: "'h option \<Rightarrow> 'w \<Rightarrow> int \<times> 'w"
  dal_close :: "'h option \<Rightarrow> 'w \<Rightarrow> int \<times> 'w"
  dal_del :: "dal_location \<Rightarrow> string \<Rightarrow> 'w \<Rightarrow> int \<times> 'w"
  dal_stat :: "dal_location \<Rightarrow> string \<Rightarrow> 'w \<Rightarrow> int \<times> 'w"

text \<open>A sequence of buffers written to a handle, as far as it succeeds.\<close>

primrec dal_put_all :: "('w, 'h) dal \<Rightarrow> 'h option \<Rightarrow> string list \<Rightarrow> 'w \<Rightarrow> int \<times> 'w" where
  "dal_put_all d h [] w = (0, w)"
| "dal_put_all d h (b # bs) w =
     (case dal_put d h b w of (r, w1) \<Rightarrow> if r \<noteq> 0 then (-1, w1) else dal_put_all d h bs w1)"

text \<open>
  The contract. \<open>good\<close> delimits the locations and identifiers the storage can hold; \<open>writing\<close> says
  what a handle has stored so far and which metadata, \<open>object\<close> what the storage holds at a location
  once the handle was closed, \<open>reading\<close> what a read handle sees. Only successful calls promise
  anything, so an implementation is free to fail at any time.
\<close>

locale block_dal =
  fixes d :: "('w, 'h) dal"
    and inv :: "'w \<Rightarrow> bool"
    and good :: "dal_location \<Rightarrow> string \<Rightarrow> bool"
    and writing :: "dal_location \<Rightarrow> string \<Rightarrow> 'h \<Rightarrow> string \<Rightarrow> meta_info option \<Rightarrow> 'w \<Rightarrow> bool"
    and object :: "dal_location \<Rightarrow> string \<Rightarrow> string \<Rightarrow> meta_info \<Rightarrow> 'w \<Rightarrow> bool"
    and reading :: "'h \<Rightarrow> string \<Rightarrow> meta_info \<Rightarrow> 'w \<Rightarrow> bool"
  assumes open_write:
      "inv w \<Longrightarrow> good loc i \<Longrightarrow> dal_open d DAL_WRITE loc i w = (Some h, w') \<Longrightarrow>
       inv w' \<and> writing loc i h [] None w'"
    and put:
      "inv w \<Longrightarrow> writing loc i h x m w \<Longrightarrow> dal_put d (Some h) b w = (0, w') \<Longrightarrow>
       inv w' \<and> writing loc i h (x @ b) m w'"
    and set_meta:
      "inv w \<Longrightarrow> writing loc i h x None w \<Longrightarrow> valid_minfo mi \<Longrightarrow>
       dal_set_meta d (Some h) mi w = (0, w') \<Longrightarrow> inv w' \<and> writing loc i h x (Some mi) w'"
    and close:
      "inv w \<Longrightarrow> writing loc i h x (Some mi) w \<Longrightarrow> dal_close d (Some h) w = (0, w') \<Longrightarrow>
       inv w' \<and> object loc i x mi w'"
    and open_read:
      "inv w \<Longrightarrow> object loc i x mi w \<Longrightarrow> dal_open d DAL_READ loc i w = (Some h, w') \<Longrightarrow>
       inv w' \<and> reading h x mi w'"
    and get:
      "inv w \<Longrightarrow> reading h x mi w \<Longrightarrow> dal_get d (Some h) n off w = ((r, b), w') \<Longrightarrow>
       inv w' \<and> reading h x mi w' \<and> r \<le> int n \<and> (0 \<le> r \<longrightarrow> b = take (nat r) (drop off x) \<and> int (length b) = r)"
    and get_meta:
      "inv w \<Longrightarrow> reading h x mi w \<Longrightarrow> dal_get_meta d (Some h) m0 w = ((r, mr), w') \<Longrightarrow>
       inv w' \<and> reading h x mi w' \<and> (r = 0 \<longrightarrow> mr = mi)"
begin

lemma put_all_writing:
  assumes "inv w" "writing loc i h x m w" "dal_put_all d (Some h) bs w = (0, w')"
  shows "inv w' \<and> writing loc i h (x @ concat bs) m w'"
  using assms
proof (induction bs arbitrary: x w)
  case (Cons b bs)
  obtain w1 where w1: "dal_put d (Some h) b w = (0, w1)" "dal_put_all d (Some h) bs w1 = (0, w')"
    using Cons.prems(3) by (auto split: prod.splits if_splits)
  show ?case
    using Cons.IH [of w1 "x @ b"] put [OF Cons.prems(1,2) w1(1)] w1(2) by simp
qed simp

text \<open>A block that was written in pieces and closed is what a reader gets, wherever it starts.\<close>

lemma store_fetch:
  assumes "inv w0" "good loc i" "valid_minfo mi"
    and "dal_open d DAL_WRITE loc i w0 = (Some h, w1)" "dal_put_all d (Some h) bs w1 = (0, w2)"
    and "dal_set_meta d (Some h) mi w2 = (0, w3)" "dal_close d (Some h) w3 = (0, w4)"
    and "dal_open d DAL_READ loc i w4 = (Some g, w5)"
  shows "inv w5" "reading g (concat bs) mi w5"
proof -
  have 1: "inv w1" "writing loc i h [] None w1" using open_write [OF assms(1,2,4)] by simp_all
  have 2: "inv w2" "writing loc i h (concat bs) None w2" using put_all_writing [OF 1 assms(5)] by simp_all
  have 3: "inv w3" "writing loc i h (concat bs) (Some mi) w3" using set_meta [OF 2 assms(3,6)] by simp_all
  have 4: "inv w4" "object loc i (concat bs) mi w4" using close [OF 3 assms(7)] by simp_all
  show "inv w5" "reading g (concat bs) mi w5" using open_read [OF 4 assms(8)] by simp_all
qed

end

text \<open>A storage whose reads do not fail: within the block, they return all bytes asked for.\<close>

locale exact_dal = block_dal +
  assumes get_exact:
    "inv w \<Longrightarrow> reading h x mi w \<Longrightarrow> off + n \<le> length x \<Longrightarrow> fst (dal_get d (Some h) n off w) = (int n, take n (drop off x))"
begin

lemma get_within:
  assumes "inv w" "reading h x mi w" "off + n \<le> length x"
  shows "\<exists>w'. dal_get d (Some h) n off w = ((int n, take n (drop off x)), w') \<and> inv w' \<and> reading h x mi w'"
proof -
  obtain r b w' where g: "dal_get d (Some h) n off w = ((r, b), w')" by (metis surj_pair)
  then have "r = int n" "b = take n (drop off x)" using get_exact [OF assms] by simp_all
  moreover have "inv w'" "reading h x mi w'" using get [OF assms(1,2) g] by simp_all
  ultimately show ?thesis using g by (intro exI [of _ w']) simp
qed

end

end
