(* ===== verification/IOQueue.thy ===== *)
theory IOQueue
  imports Dal
begin

text \<open>
  The queue of I/O buffers between the erasure code and the thread of one block,
  \<^verbatim>\<open>src/io/ioqueue.c\<close>: four buffers in a ring, filled by one side and released by the other. A buffer
  is referred to by its index in the ring (\<open>None\<close> for NULL). Sizes are natural numbers; where the code
  computes them in \<^verbatim>\<open>size_t\<close> or \<^verbatim>\<open>int\<close> the wrap-around is written out.

  \<open>lk\<close> says that the lock of the queue can be taken. A call that has to wait for a free buffer is
  \<open>Waits\<close>: it continues where it is once the other side has released one.
\<close>

section \<open>Data\<close>

definition SUPER_BLOCK_CNT :: nat where
  "SUPER_BLOCK_CNT = 4"

definition CRC_BYTES :: nat where
  "CRC_BYTES = 4"

record ioblock =
  ib_data_size :: nat
  ib_error_end :: nat
  ib_buff :: string

record ioqueue =
  iq_head :: nat
  iq_depth :: nat
  iq_blocks :: "ioblock list"
  iq_split :: nat
  iq_partsz :: nat
  iq_iosz :: nat
  iq_partcnt :: int
  iq_blocksz :: nat

section \<open>Operations\<close>

text \<open>
  \<open>m i\<close> says that the \<open>i\<close>-th of the three initialisations (structure, lock, condition) succeeds; \<open>al i\<close>
  is the memory that \<^verbatim>\<open>posix_memalign\<close> returns for the \<open>i\<close>-th buffer, with whatever it holds, or \<open>None\<close>.
\<close>

definition ioq_partcnt :: "nat \<Rightarrow> nat \<Rightarrow> int" where
  "ioq_partcnt iosz partsz =
     (if partsz > iosz - CRC_BYTES then 1 else to_i32 (int ((iosz - CRC_BYTES) div partsz)))"

definition ioq_split :: "nat \<Rightarrow> nat \<Rightarrow> dal_mode \<Rightarrow> nat" where
  "ioq_split iosz partsz mode =
     (if mode = DAL_READ then nat (ioq_partcnt iosz partsz mod 2 ^ 64) * partsz mod 2 ^ 64 else iosz - CRC_BYTES)"

definition create_ioqueue :: "mem \<Rightarrow> (nat \<Rightarrow> (nat \<Rightarrow> char) option) \<Rightarrow> nat \<Rightarrow> nat \<Rightarrow> dal_mode \<Rightarrow> ioqueue option" where
  "create_ioqueue m al iosz partsz mode =
     (if iosz \<le> CRC_BYTES then None
      else if partsz = 0 then None
      else
        (let subsz = (if mode = DAL_READ then iosz - CRC_BYTES else partsz);
             split = ioq_split iosz partsz mode;
             blocksz = ((split + CRC_BYTES) mod 2 ^ 64 + subsz) mod 2 ^ 64
         in if \<not> m 0 \<or> \<not> m 1 \<or> \<not> m 2 then None
            else if \<exists>i \<in> set [0..<SUPER_BLOCK_CNT]. al i = None then None
            else Some \<lparr>iq_head = 0, iq_depth = SUPER_BLOCK_CNT,
              iq_blocks = map (\<lambda>i. \<lparr>ib_data_size = 0, ib_error_end = 0, ib_buff = map (the (al i)) [0..<blocksz]\<rparr>)
                [0..<SUPER_BLOCK_CNT],
              iq_split = split, iq_partsz = partsz, iq_iosz = iosz, iq_partcnt = ioq_partcnt iosz partsz,
              iq_blocksz = blocksz\<rparr>))"

definition destroy_ioqueue :: "bool \<Rightarrow> ioqueue option \<Rightarrow> int" where
  "destroy_ioqueue lk q =
     (case q of
        None \<Rightarrow> -1
      | Some q \<Rightarrow> if \<not> lk then -1 else if iq_depth q \<noteq> SUPER_BLOCK_CNT then -1 else 0)"

definition ioqueue_maxdata :: "ioqueue option \<Rightarrow> int" where
  "ioqueue_maxdata q =
     (case q of None \<Rightarrow> -1 | Some q \<Rightarrow> to_i64 (int (SUPER_BLOCK_CNT * iq_split q mod 2 ^ 64)))"

definition set_block :: "nat \<Rightarrow> (ioblock \<Rightarrow> ioblock) \<Rightarrow> ioqueue \<Rightarrow> ioqueue" where
  "set_block i f q = q\<lparr>iq_blocks := (iq_blocks q)[i := f (iq_blocks q ! i)]\<rparr>"

text \<open>A split threshold of 0 is a division by zero.\<close>

definition align_ioblock :: "nat option \<Rightarrow> nat \<Rightarrow> ioqueue option \<Rightarrow> c_error + int \<times> ioqueue option" where
  "align_ioblock cur trim ioq =
     (case (ioq, cur) of
        (Some q, Some i) \<Rightarrow>
          if iq_split q = 0 then Inl UB
          else
            (let junk = to_i32 (int (trim div iq_split q)) + 1;
                 trim' = nat ((int trim - (junk - 1) * int (iq_split q)) mod 2 ^ 64);
                 falsefill = nat ((int (iq_split q) - int trim') mod 2 ^ 64)
             in Inr (junk, Some (set_block i (\<lambda>b. b\<lparr>ib_data_size := falsefill, ib_error_end := falsefill\<rparr>) q)))
      | _ \<Rightarrow> Inr (-1, ioq))"

text \<open>\<^verbatim>\<open>memcpy\<close> of \<open>src\<close> to the start of a buffer.\<close>

definition buf_store :: "nat \<Rightarrow> string \<Rightarrow> string \<Rightarrow> string" where
  "buf_store off src buf = take off buf @ src @ drop (off + length src) buf"

datatype reserved = Waits | Rsv int "nat option" "nat option" "ioqueue option"

text \<open>
  A new block for the data behind \<open>prev\<close>; \<open>cpy\<close> is the number of bytes to move, \<open>None\<close> when there are
  none.
\<close>

definition take_block :: "nat option \<Rightarrow> nat option \<Rightarrow> ioqueue \<Rightarrow> nat \<times> ioqueue" where
  "take_block prev cpy q =
     (let j = iq_head q;
          q1 = q\<lparr>iq_depth := iq_depth q - 1, iq_head := (if iq_head q + 1 = SUPER_BLOCK_CNT then 0 else iq_head q + 1)\<rparr>;
          q2 = set_block j (\<lambda>b. b\<lparr>ib_data_size := 0, ib_error_end := 0\<rparr>) q1
      in (case (prev, cpy) of
            (Some i, Some n) \<Rightarrow>
              (let q3 = set_block j (\<lambda>b. b\<lparr>ib_data_size := n\<rparr>) q2;
                   p = iq_blocks q3 ! i;
                   q4 = (if ib_error_end p > iq_split q then set_block j (\<lambda>b. b\<lparr>ib_error_end := n\<rparr>) q3
                         else set_block j (\<lambda>b. b\<lparr>ib_buff := buf_store 0 (take n (drop (iq_split q) (ib_buff p))) (ib_buff b)\<rparr>) q3)
               in (j, set_block i (\<lambda>b. b\<lparr>ib_data_size := iq_split q\<rparr>) q4))
          | _ \<Rightarrow> (j, q2)))"

definition reserve_ioblock :: "bool \<Rightarrow> nat option \<Rightarrow> nat option \<Rightarrow> ioqueue option \<Rightarrow> reserved" where
  "reserve_ioblock lk cur push ioq =
     (case ioq of
        None \<Rightarrow> Rsv (-1) cur push None
      | Some q \<Rightarrow>
          (case cur of
             Some i \<Rightarrow>
               (let ds = ib_data_size (iq_blocks q ! i) in
                if ds < iq_split q then Rsv 0 cur push ioq
                else if ds > iq_split q \<and> ds > iq_blocksz q then Rsv (-1) cur push ioq
                else if \<not> lk then Rsv (-1) cur cur ioq
                else if iq_depth q = 0 then Waits
                else
                  (case take_block cur (if ds > iq_split q then Some (ds - iq_split q) else None) q of
                     (j, q') \<Rightarrow> Rsv 1 (Some j) cur (Some q')))
           | None \<Rightarrow>
               (if \<not> lk then Rsv (-1) None push ioq
                else if iq_depth q = 0 then Waits
                else (case take_block None None q of (j, q') \<Rightarrow> Rsv 0 (Some j) push (Some q')))))"

definition ioblock_write_target :: "nat \<Rightarrow> ioqueue \<Rightarrow> nat" where
  "ioblock_write_target i q = ib_data_size (iq_blocks q ! i)"

definition ioblock_read_target :: "nat \<Rightarrow> ioqueue \<Rightarrow> string \<times> nat \<times> nat" where
  "ioblock_read_target i q =
     (let b = iq_blocks q ! i in (ib_buff b, ib_data_size b, ib_error_end b))"

definition ioblock_update_fill :: "nat \<Rightarrow> nat \<Rightarrow> bool \<Rightarrow> ioqueue \<Rightarrow> ioqueue" where
  "ioblock_update_fill i bytes bad q =
     set_block i (\<lambda>b. let ds = (ib_data_size b + bytes) mod 2 ^ 64 in
       b\<lparr>ib_data_size := ds, ib_error_end := (if bad then ds else ib_error_end b)\<rparr>) q"

definition ioblock_overwrite_fill :: "nat \<Rightarrow> nat \<Rightarrow> nat \<Rightarrow> ioqueue \<Rightarrow> ioqueue" where
  "ioblock_overwrite_fill i bytes error_end q =
     set_block i (\<lambda>b. b\<lparr>ib_data_size := bytes, ib_error_end := error_end\<rparr>) q"

definition ioblock_get_fill :: "nat \<Rightarrow> ioqueue \<Rightarrow> nat" where
  "ioblock_get_fill i q = ib_data_size (iq_blocks q ! i)"

definition release_ioblock :: "bool \<Rightarrow> ioqueue \<Rightarrow> int \<times> ioqueue" where
  "release_ioblock lk q =
     (if \<not> lk then (-1, q)
      else if iq_depth q = SUPER_BLOCK_CNT then (-1, q)
      else (0, q\<lparr>iq_depth := iq_depth q + 1\<rparr>))"

section \<open>The ring\<close>

text \<open>
  Sizes that make sense: a buffer holds one split of data and one more read (\<open>room\<close> bytes); the fills
  stay below \<open>2 ^ 64\<close>.
\<close>

definition ioq_wf :: "nat \<Rightarrow> ioqueue \<Rightarrow> bool" where
  "ioq_wf room q \<longleftrightarrow>
     iq_head q < SUPER_BLOCK_CNT \<and> iq_depth q \<le> SUPER_BLOCK_CNT \<and> length (iq_blocks q) = SUPER_BLOCK_CNT \<and>
     (\<forall>b \<in> set (iq_blocks q). length (ib_buff b) = iq_blocksz q) \<and>
     0 < iq_split q \<and> iq_blocksz q = iq_split q + room \<and> iq_blocksz q < 2 ^ 64"

text \<open>The buffers in use, the oldest first: a release makes that one free.\<close>

definition outstanding :: "ioqueue \<Rightarrow> nat list" where
  "outstanding q = map (\<lambda>k. (iq_head q + iq_depth q + k) mod SUPER_BLOCK_CNT) [0..<SUPER_BLOCK_CNT - iq_depth q]"

definition contents :: "ioqueue \<Rightarrow> nat \<Rightarrow> string" where
  "contents q i = take (ib_data_size (iq_blocks q ! i)) (ib_buff (iq_blocks q ! i))"

lemma super4 [simp]: "SUPER_BLOCK_CNT = 4"
  by (simp add: SUPER_BLOCK_CNT_def)

lemma crc4 [simp]: "CRC_BYTES = 4"
  by (simp add: CRC_BYTES_def)

lemma set_block_simps [simp]:
  "iq_head (set_block i f q) = iq_head q" "iq_depth (set_block i f q) = iq_depth q"
  "iq_split (set_block i f q) = iq_split q" "iq_blocksz (set_block i f q) = iq_blocksz q"
  "iq_iosz (set_block i f q) = iq_iosz q" "iq_partsz (set_block i f q) = iq_partsz q"
  "length (iq_blocks (set_block i f q)) = length (iq_blocks q)"
  "outstanding (set_block i f q) = outstanding q"
  by (simp_all add: set_block_def outstanding_def)

lemma set_block_nth:
  "i < length (iq_blocks q) \<Longrightarrow> iq_blocks (set_block i f q) ! i = f (iq_blocks q ! i)"
  "i \<noteq> j \<Longrightarrow> iq_blocks (set_block i f q) ! j = iq_blocks q ! j"
  by (simp_all add: set_block_def)

lemma set_block_wf:
  assumes "ioq_wf room q" "i < 4" "length (ib_buff (f (iq_blocks q ! i))) = iq_blocksz q"
  shows "ioq_wf room (set_block i f q)"
  using assms by (auto simp: ioq_wf_def set_block_def dest!: subsetD [OF set_update_subset_insert])

lemma ioq_wf_buff: "ioq_wf room q \<Longrightarrow> i < 4 \<Longrightarrow> length (ib_buff (iq_blocks q ! i)) = iq_blocksz q"
  by (simp add: ioq_wf_def)

lemma outstanding_upd:
  "outstanding (q\<lparr>iq_depth := d, iq_head := h\<rparr>) = map (\<lambda>k. (h + d + k) mod 4) [0..<4 - d]"
  by (simp add: outstanding_def)

lemma outstanding_lt: "i \<in> set (outstanding q) \<Longrightarrow> i < 4"
  by (auto simp: outstanding_def)

text \<open>A new block is not in use; it becomes the youngest.\<close>

lemma take_head:
  assumes "ioq_wf room q" "0 < iq_depth q"
  shows "iq_head q \<notin> set (outstanding q)"
    and "outstanding (q\<lparr>iq_depth := iq_depth q - 1, iq_head := (if iq_head q + 1 = SUPER_BLOCK_CNT then 0 else iq_head q + 1)\<rparr>) =
      outstanding q @ [iq_head q]"
proof -
  have h: "iq_head q < 4" "iq_depth q \<le> 4" using assms(1) by (auto simp: ioq_wf_def)
  have "(iq_head q + iq_depth q + k) mod 4 \<noteq> iq_head q" if "k < 4 - iq_depth q" for k
    using h assms(2) that by presburger
  then show "iq_head q \<notin> set (outstanding q)" by (fastforce simp: outstanding_def)
  have s: "4 - (iq_depth q - 1) = Suc (4 - iq_depth q)" using h assms(2) by simp
  have m: "((if iq_head q + 1 = 4 then 0 else iq_head q + 1) + (iq_depth q - 1) + k) mod 4 = (iq_head q + iq_depth q + k) mod 4" for k
  proof (cases "iq_head q + 1 = 4")
    case True
    then have "iq_head q + iq_depth q + k = (0 + (iq_depth q - 1) + k) + 4" using assms(2) by simp
    then show ?thesis using True by (simp only: if_True mod_add_self2 refl)
  next
    case False
    have "iq_head q + 1 + (iq_depth q - 1) + k = iq_head q + iq_depth q + k" using assms(2) by simp
    then show ?thesis using False by (simp only: if_False)
  qed
  have "(iq_head q + iq_depth q + (4 - iq_depth q)) mod 4 = iq_head q" using h by simp
  note n = this
  let ?h = "if iq_head q + 1 = 4 then 0 else iq_head q + 1" and ?d = "iq_depth q - 1"
  have "outstanding (q\<lparr>iq_depth := ?d, iq_head := ?h\<rparr>) = map (\<lambda>k. (?h + ?d + k) mod 4) [0..<4 - ?d]"
    by (rule outstanding_upd)
  also have "\<dots> = map (\<lambda>k. (iq_head q + iq_depth q + k) mod 4) [0..<4 - iq_depth q] @ [iq_head q]"
    by (simp only: s m upt_Suc zero_le if_True map_append list.map n)
  finally show "outstanding (q\<lparr>iq_depth := iq_depth q - 1, iq_head := (if iq_head q + 1 = SUPER_BLOCK_CNT then 0 else iq_head q + 1)\<rparr>) =
      outstanding q @ [iq_head q]" by (simp only: outstanding_def super4)
qed

lemma release_head:
  assumes "ioq_wf room q" "iq_depth q < 4"
  shows "\<exists>i. outstanding q = i # outstanding (q\<lparr>iq_depth := iq_depth q + 1\<rparr>)"
proof -
  have s: "4 - iq_depth q = Suc (4 - (iq_depth q + 1))" using assms(2) by simp
  have "outstanding q = (iq_head q + iq_depth q) mod 4 # outstanding (q\<lparr>iq_depth := iq_depth q + 1\<rparr>)"
    unfolding outstanding_def super4 s map_upt_Suc by (simp add: add.assoc)
  then show ?thesis by blast
qed

text \<open>
  A release gives the oldest buffer in use back, and it fails only when none is in use or the lock
  cannot be taken; a queue can be destroyed exactly when all are back.\<close>

theorem release_ioblock_spec:
  assumes "ioq_wf room q"
  shows "(case release_ioblock lk q of (r, q') \<Rightarrow>
      ioq_wf room q' \<and>
      (if lk \<and> outstanding q \<noteq> [] then r = 0 \<and> outstanding q' = tl (outstanding q) else r = -1 \<and> q' = q) \<and>
      (destroy_ioqueue True (Some q') = 0) = (outstanding q' = []))"
proof -
  have e: "outstanding q = [] \<longleftrightarrow> iq_depth q = 4" if "ioq_wf room q" for q
    using that by (auto simp: outstanding_def ioq_wf_def)
  have w: "ioq_wf room (q\<lparr>iq_depth := iq_depth q + 1\<rparr>)" if "iq_depth q \<noteq> 4"
    using assms that by (auto simp: ioq_wf_def)
  show ?thesis
  proof (cases "lk \<and> iq_depth q \<noteq> 4")
    case True
    then have d: "iq_depth q < 4" using assms by (auto simp: ioq_wf_def)
    obtain i where "outstanding q = i # outstanding (q\<lparr>iq_depth := iq_depth q + 1\<rparr>)" using release_head [OF assms d] by blast
    then show ?thesis
      using True w e [OF assms] e [OF w] by (auto simp: release_ioblock_def destroy_ioqueue_def)
  next
    case False
    then show ?thesis
      using e [OF assms] assms by (auto simp: release_ioblock_def destroy_ioqueue_def)
  qed
qed

lemma length_buf_store [simp]: "off + length src \<le> length buf \<Longrightarrow> length (buf_store off src buf) = length buf"
  by (simp add: buf_store_def)

lemma take_buf_store: "off + length src \<le> length buf \<Longrightarrow> take (off + length src) (buf_store off src buf) = take off buf @ src"
  by (simp add: buf_store_def)

text \<open>Reserving the first block of a stream, and a new block for a full one.\<close>

lemma take_block_fresh:
  assumes "ioq_wf room q" "0 < iq_depth q" "take_block None None q = (j, q')"
  shows "j = iq_head q" "ioq_wf room q'" "outstanding q' = outstanding q @ [j]"
    "iq_split q' = iq_split q" "iq_blocksz q' = iq_blocksz q"
    "ib_data_size (iq_blocks q' ! j) = 0" "ib_error_end (iq_blocks q' ! j) = 0"
    "\<And>k. k \<noteq> j \<Longrightarrow> iq_blocks q' ! k = iq_blocks q ! k"
proof -
  let ?q1 = "q\<lparr>iq_depth := iq_depth q - 1, iq_head := (if iq_head q + 1 = SUPER_BLOCK_CNT then 0 else iq_head q + 1)\<rparr>"
  have h: "iq_head q < 4" using assms(1) by (simp add: ioq_wf_def)
  have w1: "ioq_wf room ?q1" using assms(1) by (auto simp: ioq_wf_def)
  have b: "iq_head q < length (iq_blocks ?q1)" using assms(1) by (simp add: ioq_wf_def)
  have q': "j = iq_head q" "q' = set_block (iq_head q) (\<lambda>b. b\<lparr>ib_data_size := 0, ib_error_end := 0\<rparr>) ?q1"
    using assms(3) by (auto simp: take_block_def Let_def)
  show "j = iq_head q" by (rule q'(1))
  show "ioq_wf room q'" unfolding q'(2) by (rule set_block_wf [OF w1 h]) (use ioq_wf_buff [OF w1 h] in simp)
  show "outstanding q' = outstanding q @ [j]" unfolding q' using take_head(2) [OF assms(1,2)] by simp
  show "iq_split q' = iq_split q" "iq_blocksz q' = iq_blocksz q" unfolding q'(2) by simp_all
  show "ib_data_size (iq_blocks q' ! j) = 0" "ib_error_end (iq_blocks q' ! j) = 0"
    unfolding q' set_block_nth(1) [OF b] by simp_all
  show "iq_blocks q' ! k = iq_blocks q ! k" if "k \<noteq> j" for k
    using that unfolding q' by (simp add: set_block_nth(2))
qed

lemma take_block_no_copy: "take_block prev None q = take_block None None q"
  by (cases prev) (simp_all add: take_block_def Let_def)

lemma take_block_copy:
  assumes "ioq_wf room q" "0 < iq_depth q" "i \<in> set (outstanding q)" "n \<le> room"
    and "take_block (Some i) (Some n) q = (j, q')" "take_block None None q = (j0, q0)"
  defines "p \<equiv> iq_blocks q ! i" and "b \<equiv> iq_blocks q ! iq_head q"
  shows "j = iq_head q" "ioq_wf room q'" "outstanding q' = outstanding q @ [j]"
    "iq_split q' = iq_split q" "iq_blocksz q' = iq_blocksz q"
    "iq_blocks q' ! i = p\<lparr>ib_data_size := iq_split q\<rparr>"
    "iq_blocks q' ! j = b\<lparr>ib_data_size := n, ib_error_end := (if ib_error_end p > iq_split q then n else 0),
       ib_buff := (if ib_error_end p > iq_split q then ib_buff b
         else buf_store 0 (take n (drop (iq_split q) (ib_buff p))) (ib_buff b))\<rparr>"
    "\<And>k. k \<noteq> j \<Longrightarrow> k \<noteq> i \<Longrightarrow> iq_blocks q' ! k = iq_blocks q ! k"
proof -
  note f = take_block_fresh [OF assms(1,2,6)]
  have i4: "i < 4" by (rule outstanding_lt [OF assms(3)])
  have ij: "i \<noteq> iq_head q" using take_head(1) [OF assms(1,2)] assms(3) by blast
  have j4: "iq_head q < 4" using assms(1) by (simp add: ioq_wf_def)
  let ?h = "iq_head q"
  define f4 where "f4 = (\<lambda>c :: ioblock. if ib_error_end p > iq_split q then c\<lparr>ib_error_end := n\<rparr>
    else c\<lparr>ib_buff := buf_store 0 (take n (drop (iq_split q) (ib_buff p))) (ib_buff c)\<rparr>)"
  define q3 where "q3 = set_block ?h (\<lambda>c. c\<lparr>ib_data_size := n\<rparr>) q0"
  define q4 where "q4 = set_block ?h f4 q3"
  have p3: "iq_blocks q3 ! i = p" unfolding q3_def p_def using ij f(1,8) by (simp add: set_block_nth(2))
  have q': "j = ?h" "q' = set_block i (\<lambda>c. c\<lparr>ib_data_size := iq_split q\<rparr>) q4"
    using assms(5,6) p3 by (auto simp: take_block_def Let_def q4_def f4_def q3_def split: if_splits)
  show j: "j = ?h" by (rule q'(1))
  have len: "length (iq_blocks q0) = 4" using f(2) by (simp add: ioq_wf_def)
  have b0: "iq_blocks q0 ! ?h = b\<lparr>ib_data_size := 0, ib_error_end := 0\<rparr>"
    using assms(6) j4 assms(1) by (auto simp: take_block_def Let_def set_block_def b_def ioq_wf_def)
  have bl: "length (ib_buff b) = iq_blocksz q" "length (ib_buff p) = iq_blocksz q"
    using ioq_wf_buff [OF assms(1)] j4 i4 by (simp_all add: b_def p_def)
  have room: "iq_blocksz q = iq_split q + room" using assms(1) by (simp add: ioq_wf_def)
  have fb: "length (ib_buff (f4 (b\<lparr>ib_data_size := n, ib_error_end := 0\<rparr>))) = iq_blocksz q"
    using bl room assms(4) by (simp add: f4_def)
  have n3: "iq_blocks q3 ! ?h = b\<lparr>ib_data_size := n, ib_error_end := 0\<rparr>"
    unfolding q3_def using len j4 b0 by (simp add: set_block_nth(1))
  have n4: "iq_blocks q4 ! ?h = f4 (b\<lparr>ib_data_size := n, ib_error_end := 0\<rparr>)"
    unfolding q4_def using len j4 n3 by (simp add: set_block_nth(1) q3_def)
  have i4': "iq_blocks q4 ! i = p" unfolding q4_def using ij p3 by (simp add: set_block_nth(2))
  have w3: "ioq_wf room q3" unfolding q3_def by (rule set_block_wf [OF f(2) j4]) (use b0 bl f(5) in simp)
  have w4: "ioq_wf room q4" unfolding q4_def by (rule set_block_wf [OF w3 j4]) (use n3 fb f(5) in \<open>simp add: q3_def\<close>)
  show "ioq_wf room q'" unfolding q' by (rule set_block_wf [OF w4 i4]) (use i4' bl f(5) in \<open>simp add: q4_def q3_def\<close>)
  show "outstanding q' = outstanding q @ [j]" unfolding q' q4_def q3_def using f(1,3) by simp
  show "iq_split q' = iq_split q" "iq_blocksz q' = iq_blocksz q" unfolding q' q4_def q3_def using f(4,5) by simp_all
  show "iq_blocks q' ! i = p\<lparr>ib_data_size := iq_split q\<rparr>"
    unfolding q' using len i4 i4' by (simp add: set_block_nth(1) q4_def q3_def)
  show "iq_blocks q' ! j = b\<lparr>ib_data_size := n, ib_error_end := (if ib_error_end p > iq_split q then n else 0),
       ib_buff := (if ib_error_end p > iq_split q then ib_buff b
         else buf_store 0 (take n (drop (iq_split q) (ib_buff p))) (ib_buff b))\<rparr>"
    unfolding q' set_block_nth(2) [OF ij] n4 by (simp add: f4_def)
  show "iq_blocks q' ! k = iq_blocks q ! k" if "k \<noteq> j" "k \<noteq> i" for k
    using that f(1,8) unfolding q' q4_def q3_def by (simp add: set_block_nth(2))
qed

text \<open>A buffer at or above the split threshold, with a free one behind it.\<close>

lemma reserve_full_block:
  assumes "ioq_wf room q" "i \<in> set (outstanding q)" "ib_data_size (iq_blocks q ! i) \<le> iq_blocksz q"
    and "iq_split q \<le> ib_data_size (iq_blocks q ! i)" "iq_depth q \<noteq> 0"
  shows "\<exists>j q'. reserve_ioblock True (Some i) push (Some q) = Rsv 1 (Some j) (Some i) (Some q') \<and>
      ioq_wf room q' \<and> j \<notin> set (outstanding q) \<and> outstanding q' = outstanding q @ [j] \<and> iq_split q' = iq_split q \<and>
      length (contents q' i) = iq_split q \<and> contents q' i = take (iq_split q) (contents q i) \<and>
      ib_error_end (iq_blocks q' ! i) = ib_error_end (iq_blocks q ! i) \<and>
      ib_data_size (iq_blocks q' ! j) + iq_split q = ib_data_size (iq_blocks q ! i) \<and>
      (if ib_error_end (iq_blocks q ! i) \<le> iq_split q
       then contents q' i @ contents q' j = contents q i \<and> ib_error_end (iq_blocks q' ! j) = 0
       else ib_error_end (iq_blocks q' ! j) = ib_data_size (iq_blocks q' ! j))"
proof -
  let ?p = "iq_blocks q ! i" and ?r = "reserve_ioblock True (Some i) push (Some q)"
  let ?ds = "ib_data_size ?p" and ?sp = "iq_split q"
  have i4: "i < 4" by (rule outstanding_lt [OF assms(2)])
  have bl: "length (ib_buff ?p) = iq_blocksz q" by (rule ioq_wf_buff [OF assms(1) i4])
  have room: "iq_blocksz q = ?sp + room" using assms(1) by (simp add: ioq_wf_def)
  have d: "0 < iq_depth q" using assms(5) by simp
  obtain j0 q0 where 0: "take_block None None q = (j0, q0)" by fastforce
  note f = take_block_fresh [OF assms(1) d 0]
  have nin: "iq_head q \<notin> set (outstanding q)" by (rule take_head(1) [OF assms(1) d])
  then have ij: "i \<noteq> iq_head q" using assms(2) by blast
  show ?thesis
  proof (cases "?ds = ?sp")
    case True
    then have r: "?r = Rsv 1 (Some j0) (Some i) (Some q0)"
      using assms(5) 0 by (simp add: reserve_ioblock_def take_block_no_copy [of "Some i"] Let_def)
    have i0: "iq_blocks q0 ! i = ?p" using f(8) ij f(1) by simp
    have "contents q0 j0 = []" using f(6) by (simp add: contents_def)
    then show ?thesis using r f nin i0 True bl room by (intro exI [of _ j0] exI [of _ q0]) (simp add: contents_def)
  next
    case False
    then have gt: "?ds > ?sp" using assms(4) by simp
    obtain j q' where t: "take_block (Some i) (Some (?ds - ?sp)) q = (j, q')" by fastforce
    have n: "?ds - ?sp \<le> room" using assms(3) room by simp
    note k = take_block_copy [OF assms(1) d assms(2) n t 0]
    have r: "?r = Rsv 1 (Some j) (Some i) (Some q')"
      using assms(5) gt assms(3) t by (simp add: reserve_ioblock_def Let_def)
    have ci: "contents q' i = take ?sp (ib_buff ?p)" using k(6) by (simp add: contents_def)
    have cq: "contents q i = take ?ds (ib_buff ?p)" by (simp add: contents_def)
    have len: "length (contents q' i) = ?sp" using ci bl room by simp
    have cj: "contents q' j = take (?ds - ?sp) (drop ?sp (ib_buff ?p))" if "ib_error_end ?p \<le> ?sp"
    proof -
      have "length (ib_buff (iq_blocks q ! iq_head q)) = iq_blocksz q"
        using ioq_wf_buff [OF assms(1)] assms(1) by (simp add: ioq_wf_def)
      then show ?thesis
        using k(7) that bl room assms(3) by (simp add: contents_def buf_store_def)
    qed
    have "take ?sp (ib_buff ?p) @ take (?ds - ?sp) (drop ?sp (ib_buff ?p)) = take ?ds (ib_buff ?p)"
      using gt by (metis add_diff_inverse_nat not_less_iff_gr_or_eq take_add)
    moreover have "min ?ds ?sp = ?sp" using gt by simp
    ultimately show ?thesis
      using r k nin len ci cq cj gt by (intro exI [of _ j] exI [of _ q']) (auto simp: min.commute)
  qed
qed

text \<open>
  C39. \<^verbatim>\<open>reserve_ioblock\<close> on a queue in order, for the current buffer of the caller: a buffer below the
  split threshold stays current; a full one is pushed with exactly one split of data, a buffer that
  was free becomes the youngest in use and takes over the bytes behind the split, so that no byte is
  lost or doubled; bytes known to be bad are not copied but marked; with no free buffer the
  caller waits.\<close>

theorem reserve_ioblock_spec:
  assumes "ioq_wf room q" "i \<in> set (outstanding q)" "ib_data_size (iq_blocks q ! i) \<le> iq_blocksz q"
  shows "if ib_data_size (iq_blocks q ! i) < iq_split q then
      reserve_ioblock lk (Some i) push (Some q) = Rsv 0 (Some i) push (Some q)
    else if lk \<and> iq_depth q = 0 then reserve_ioblock lk (Some i) push (Some q) = Waits
    else if lk then \<exists>j q'. reserve_ioblock lk (Some i) push (Some q) = Rsv 1 (Some j) (Some i) (Some q') \<and>
      ioq_wf room q' \<and> j \<notin> set (outstanding q) \<and> outstanding q' = outstanding q @ [j] \<and> iq_split q' = iq_split q \<and>
      length (contents q' i) = iq_split q \<and> contents q' i = take (iq_split q) (contents q i) \<and>
      ib_error_end (iq_blocks q' ! i) = ib_error_end (iq_blocks q ! i) \<and>
      ib_data_size (iq_blocks q' ! j) + iq_split q = ib_data_size (iq_blocks q ! i) \<and>
      (if ib_error_end (iq_blocks q ! i) \<le> iq_split q
       then contents q' i @ contents q' j = contents q i \<and> ib_error_end (iq_blocks q' ! j) = 0
       else ib_error_end (iq_blocks q' ! j) = ib_data_size (iq_blocks q' ! j))
    else reserve_ioblock lk (Some i) push (Some q) = Rsv (-1) (Some i) (Some i) (Some q)"
proof -
  let ?ds = "ib_data_size (iq_blocks q ! i)" and ?r = "reserve_ioblock lk (Some i) push (Some q)"
  have "?ds < iq_split q \<Longrightarrow> ?r = Rsv 0 (Some i) push (Some q)"
    "\<not> ?ds < iq_split q \<Longrightarrow> lk \<Longrightarrow> iq_depth q = 0 \<Longrightarrow> ?r = Waits"
    "\<not> ?ds < iq_split q \<Longrightarrow> \<not> lk \<Longrightarrow> ?r = Rsv (-1) (Some i) (Some i) (Some q)"
    using assms(3) by (simp_all add: reserve_ioblock_def Let_def)
  then show ?thesis using reserve_full_block [OF assms, of push] by (auto simp: not_less split: if_splits)
qed

lemma ioq_split_read:
  assumes "4 < iosz" "0 < partsz" "(iosz - 4) div partsz < 2 ^ 31" "iosz + partsz < 2 ^ 63"
  shows "ioq_split iosz partsz DAL_READ = (if partsz > iosz - 4 then partsz else (iosz - 4) div partsz * partsz)"
    and "0 < ioq_split iosz partsz DAL_READ" "ioq_split iosz partsz DAL_READ < iosz + partsz"
proof -
  let ?k = "(iosz - 4) div partsz"
  have le: "?k * partsz \<le> iosz - 4" by simp
  have p: "ioq_partcnt iosz partsz = (if partsz > iosz - 4 then 1 else int ?k)"
    using assms(3) by (simp add: ioq_partcnt_def to_i32_id)
  have k: "nat (int ?k mod 2 ^ 64) = ?k" using assms(3) by simp
  have md: "?k * partsz mod 18446744073709551616 = ?k * partsz"
  proof (rule mod_less)
    have "?k * partsz \<le> iosz" using le diff_le_self le_trans by blast
    also have "iosz < 18446744073709551616" using assms(4) by simp
    finally show "?k * partsz < 18446744073709551616" .
  qed
  show eq: "ioq_split iosz partsz DAL_READ = (if partsz > iosz - 4 then partsz else ?k * partsz)"
    using assms(4) p k by (simp add: ioq_split_def md)
  have "\<not> partsz > iosz - 4 \<Longrightarrow> 0 < ?k" using assms(2) by (simp add: div_greater_zero_iff)
  then show "0 < ioq_split iosz partsz DAL_READ" using eq assms(2) by simp
  show "ioq_split iosz partsz DAL_READ < iosz + partsz" unfolding eq using le_less_trans [OF le, of "iosz + partsz"] assms(1,2) by simp
qed

text \<open>
  C40. The buffers are large enough. For sizes whose sum fits an \<^verbatim>\<open>off_t\<close> and whose quotient fits an
  \<^verbatim>\<open>int\<close>, \<^verbatim>\<open>create_ioqueue\<close> makes a queue in order with all buffers free, and in any state of such a
  queue a buffer that \<^verbatim>\<open>reserve_ioblock\<close> leaves current (its fill is below the split) has room for one
  more read of a whole I/O, or for one more part and the checksum when it is written.\<close>

theorem create_ioqueue_fits:
  assumes "4 < iosz" "0 < partsz" "(iosz - 4) div partsz < 2 ^ 31" "iosz + iosz + partsz < 2 ^ 63"
    and "m 0" "m 1" "m 2" "\<forall>i < 4. al i \<noteq> None"
  shows "\<exists>q. create_ioqueue m al iosz partsz mode = Some q \<and> outstanding q = [] \<and>
    ioq_wf (if mode = DAL_READ then iosz else partsz + 4) q \<and>
    (\<forall>b. ib_data_size b < iq_split q \<longrightarrow>
      (if mode = DAL_READ then ib_data_size b + iosz \<le> iq_blocksz q
       else ib_data_size b + partsz \<le> iq_blocksz q \<and> iq_split q + 4 \<le> iq_blocksz q \<and> iq_split q + 4 = iosz))"
proof -
  let ?sp = "ioq_split iosz partsz mode" and ?sub = "if mode = DAL_READ then iosz - 4 else partsz"
  have s: "iosz + partsz < 2 ^ 63" using assms(4) by linarith
  have w: "?sp = iosz - 4" if "mode \<noteq> DAL_READ" using that by (simp add: ioq_split_def)
  have sp: "0 < ?sp \<and> ?sp < iosz + partsz"
  proof (cases "mode = DAL_READ")
    case True
    then show ?thesis using ioq_split_read(2,3) [OF assms(1-3) s] by simp
  next
    case False
    then show ?thesis using w assms(1,2) by simp
  qed
  have bs: "((?sp + 4) mod 2 ^ 64 + ?sub) mod 2 ^ 64 = ?sp + (if mode = DAL_READ then iosz else partsz + 4)"
    using sp assms(1,4) by (cases "mode = DAL_READ") simp_all
  have small: "?sp + (if mode = DAL_READ then iosz else partsz + 4) < 2 ^ 64"
    using sp assms(1,4) by (cases "mode = DAL_READ") simp_all
  let ?q = "\<lparr>iq_head = 0, iq_depth = 4,
      iq_blocks = map (\<lambda>i. \<lparr>ib_data_size = 0, ib_error_end = 0,
        ib_buff = map (the (al i)) [0..<?sp + (if mode = DAL_READ then iosz else partsz + 4)]\<rparr>) [0..<4],
      iq_split = ?sp, iq_partsz = partsz, iq_iosz = iosz, iq_partcnt = ioq_partcnt iosz partsz,
      iq_blocksz = ?sp + (if mode = DAL_READ then iosz else partsz + 4)\<rparr>"
  have "create_ioqueue m al iosz partsz mode = Some ?q"
    using assms bs by (auto simp: create_ioqueue_def Let_def add.assoc add.commute [of 4 partsz])
  moreover have "outstanding ?q = []" by (simp add: outstanding_def)
  moreover have "ioq_wf (if mode = DAL_READ then iosz else partsz + 4) ?q"
    using sp small by (auto simp: ioq_wf_def)
  ultimately show ?thesis using sp w assms(1) by (intro exI [of _ ?q]) auto
qed

definition ioq_example :: ioqueue where
  "ioq_example =
     \<lparr>iq_head = 2, iq_depth = 3,
      iq_blocks = [\<lparr>ib_data_size = 0, ib_error_end = 0, ib_buff = ''--------''\<rparr>,
        \<lparr>ib_data_size = 5, ib_error_end = 0, ib_buff = ''abcde---''\<rparr>,
        \<lparr>ib_data_size = 0, ib_error_end = 0, ib_buff = ''--------''\<rparr>,
        \<lparr>ib_data_size = 0, ib_error_end = 0, ib_buff = ''--------''\<rparr>],
      iq_split = 3, iq_partsz = 3, iq_iosz = 5, iq_partcnt = 1, iq_blocksz = 8\<rparr>"

lemma ioq_example_ok: "ioq_wf 5 ioq_example" "outstanding ioq_example = [1]"
  by (simp_all add: ioq_wf_def ioq_example_def outstanding_def)

theorem release_ioblock_spec_witness:
  "(case release_ioblock True ioq_example of (r, q') \<Rightarrow> r = 0 \<and> outstanding q' = [])"
  using release_ioblock_spec [OF ioq_example_ok(1), of True] ioq_example_ok(2) by (auto split: prod.splits)

theorem reserve_ioblock_spec_witness:
  "\<exists>j q'. reserve_ioblock True (Some 1) None (Some ioq_example) = Rsv 1 (Some j) (Some 1) (Some q') \<and>
     outstanding q' = [1, j] \<and> contents q' 1 @ contents q' j = ''abcde'' \<and> length (contents q' 1) = 3"
proof -
  have "ib_data_size (iq_blocks ioq_example ! 1) = 5" "iq_split ioq_example = 3" "iq_depth ioq_example = 3"
    "iq_blocksz ioq_example = 8" "ib_error_end (iq_blocks ioq_example ! 1) = 0" "contents ioq_example 1 = ''abcde''"
    by (simp_all add: ioq_example_def contents_def)
  then show ?thesis
    using reserve_ioblock_spec [OF ioq_example_ok(1), of 1 True None] ioq_example_ok(2) by (auto simp del: One_nat_def)
qed

theorem create_ioqueue_fits_witness:
  "\<exists>q. create_ioqueue all_mem (\<lambda>_. Some (\<lambda>_. NUL)) 12 3 DAL_READ = Some q \<and> ioq_wf 12 q"
  using create_ioqueue_fits [of 12 3 all_mem "\<lambda>_. Some (\<lambda>_. NUL)" DAL_READ] by auto

end
