(* ===== verification/PosixFs.thy ===== *)
theory PosixFs
  imports Prelude "HOL-Library.Sublist"
begin

text \<open>
  The part of POSIX that the storage code calls: files below one root directory, names for them, open
  file descriptions with a position, and the calls \<^verbatim>\<open>openat\<close>, \<^verbatim>\<open>read\<close>, \<^verbatim>\<open>write\<close>, \<^verbatim>\<open>lseek\<close>, \<^verbatim>\<open>close\<close>,
  \<^verbatim>\<open>renameat\<close>, \<^verbatim>\<open>unlinkat\<close>, \<^verbatim>\<open>fstatat\<close>. A name is a path relative to the root, written as one string; it
  refers to a file (an inode), so a renamed or unlinked file stays reachable through its descriptors.

  Every call and every allocation can fail. The argument \<open>F\<close> decides it: \<open>F t\<close> is \<open>None\<close> when the \<open>t\<close>-th
  call of the run succeeds, and \<open>Some k\<close> when it does not; a failing \<open>write\<close> stores only \<open>k\<close> of its bytes
  (fewer than all), a failing \<open>read\<close> returns \<open>k - 1\<close> bytes, or the error for \<open>k = 0\<close>. A theorem that
  holds for every \<open>F\<close> holds whatever the system does.
\<close>

type_synonym faults = "nat \<Rightarrow> nat option"

abbreviation no_faults :: faults where
  "no_faults \<equiv> \<lambda>_. None"

datatype serr = EEXIST | ENOENT | EOther

record openfile =
  of_ino :: nat
  of_pos :: nat
  of_wr :: bool

record pfs =
  fs_names :: "string \<Rightarrow> nat option"
  fs_data :: "nat \<Rightarrow> string"
  fs_fds :: "nat \<Rightarrow> openfile option"
  fs_ino :: nat
  fs_fd :: nat
  fs_tick :: nat

definition fs_init :: pfs where
  "fs_init = \<lparr>fs_names = Map.empty, fs_data = (\<lambda>_. []), fs_fds = Map.empty, fs_ino = 0, fs_fd = 0, fs_tick = 0\<rparr>"

text \<open>The start of a call: does it fail, and the state with the call counted.\<close>

definition call :: "faults \<Rightarrow> pfs \<Rightarrow> nat option \<times> pfs" where
  "call F w = (F (fs_tick w), w\<lparr>fs_tick := Suc (fs_tick w)\<rparr>)"

definition sys_alloc :: "faults \<Rightarrow> pfs \<Rightarrow> bool \<times> pfs" where
  "sys_alloc F w = (case call F w of (f, w') \<Rightarrow> (f = None, w'))"

definition new_fd :: "nat \<Rightarrow> bool \<Rightarrow> pfs \<Rightarrow> nat \<times> pfs" where
  "new_fd i wr w =
     (fs_fd w, w\<lparr>fs_fds := (fs_fds w)(fs_fd w \<mapsto> \<lparr>of_ino = i, of_pos = 0, of_wr = wr\<rparr>), fs_fd := Suc (fs_fd w)\<rparr>)"

text \<open>\<^verbatim>\<open>open(path, O_RDONLY)\<close> and \<^verbatim>\<open>open(path, O_WRONLY|O_CREAT|O_EXCL)\<close>.\<close>

definition sys_open :: "faults \<Rightarrow> bool \<Rightarrow> string \<Rightarrow> pfs \<Rightarrow> (serr + nat) \<times> pfs" where
  "sys_open F wr p w =
     (case call F w of (f, w') \<Rightarrow>
        if f \<noteq> None then (Inl EOther, w')
        else
          (case fs_names w' p of
             None \<Rightarrow>
               (if wr then
                  (case new_fd (fs_ino w') True
                     (w'\<lparr>fs_names := (fs_names w')(p \<mapsto> fs_ino w'), fs_data := (fs_data w')(fs_ino w' := []),
                         fs_ino := Suc (fs_ino w')\<rparr>) of
                     (fd, w2) \<Rightarrow> (Inr fd, w2))
                else (Inl ENOENT, w'))
           | Some i \<Rightarrow>
               (if wr then (Inl EEXIST, w') else (case new_fd i False w' of (fd, w2) \<Rightarrow> (Inr fd, w2)))))"

text \<open>The bytes of a file after \<open>buf\<close> was written at \<open>pos\<close>; a gap is filled with zeros.\<close>

definition overwrite :: "nat \<Rightarrow> string \<Rightarrow> string \<Rightarrow> string" where
  "overwrite pos buf x = take pos (x @ replicate (pos - length x) NUL) @ buf @ drop (pos + length buf) x"

definition set_pos :: "nat \<Rightarrow> nat \<Rightarrow> pfs \<Rightarrow> pfs" where
  "set_pos fd p w =
     (case fs_fds w fd of
        None \<Rightarrow> w
      | Some a \<Rightarrow> w\<lparr>fs_fds := (fs_fds w)(fd \<mapsto> a\<lparr>of_pos := p\<rparr>)\<rparr>)"

text \<open>A descriptor of \<^verbatim>\<open>-1\<close> is \<open>None\<close>; every call on it, or on one that is not open, fails.\<close>

definition fd_file :: "nat option \<Rightarrow> pfs \<Rightarrow> openfile option" where
  "fd_file fd w = (case fd of None \<Rightarrow> None | Some n \<Rightarrow> fs_fds w n)"

definition sys_write :: "faults \<Rightarrow> nat option \<Rightarrow> string \<Rightarrow> pfs \<Rightarrow> int \<times> pfs" where
  "sys_write F fd buf w =
     (case call F w of (f, w') \<Rightarrow>
        (case fd_file fd w' of
           None \<Rightarrow> (-1, w')
         | Some a \<Rightarrow>
             if \<not> of_wr a then (-1, w')
             else
               (let b = (case f of None \<Rightarrow> buf | Some k \<Rightarrow> take (min k (length buf - 1)) buf) in
                (if f \<noteq> None \<and> b = [] then -1 else int (length b),
                 set_pos (the fd) (of_pos a + length b)
                   (w'\<lparr>fs_data := (fs_data w')(of_ino a := overwrite (of_pos a) b (fs_data w' (of_ino a)))\<rparr>)))))"

definition sys_lseek :: "faults \<Rightarrow> nat option \<Rightarrow> nat \<Rightarrow> pfs \<Rightarrow> int \<times> pfs" where
  "sys_lseek F fd off w =
     (case call F w of (f, w') \<Rightarrow>
        if f \<noteq> None \<or> fd_file fd w' = None then (-1, w') else (int off, set_pos (the fd) off w'))"

text \<open>The return value of \<^verbatim>\<open>read\<close> and the bytes that are now in the buffer.\<close>

definition sys_read :: "faults \<Rightarrow> nat option \<Rightarrow> nat \<Rightarrow> pfs \<Rightarrow> (int \<times> string) \<times> pfs" where
  "sys_read F fd n w =
     (case call F w of (f, w') \<Rightarrow>
        (case fd_file fd w' of
           None \<Rightarrow> ((-1, []), w')
         | Some a \<Rightarrow>
             if of_wr a \<or> f = Some 0 then ((-1, []), w')
             else
               (let b = take (case f of None \<Rightarrow> n | Some k \<Rightarrow> min n (k - 1)) (drop (of_pos a) (fs_data w' (of_ino a))) in
                ((int (length b), b), set_pos (the fd) (of_pos a + length b) w'))))"

text \<open>\<^verbatim>\<open>close\<close> gives the descriptor up even when it reports an error.\<close>

definition sys_close :: "faults \<Rightarrow> nat option \<Rightarrow> pfs \<Rightarrow> int \<times> pfs" where
  "sys_close F fd w =
     (case call F w of (f, w') \<Rightarrow>
        if fd_file fd w' = None then (-1, w')
        else (if f = None then 0 else -1, w'\<lparr>fs_fds := (fs_fds w')(the fd := None)\<rparr>))"

definition sys_rename :: "faults \<Rightarrow> string \<Rightarrow> string \<Rightarrow> pfs \<Rightarrow> int \<times> pfs" where
  "sys_rename F a b w =
     (case call F w of (f, w') \<Rightarrow>
        (case (f, fs_names w' a) of
           (None, Some i) \<Rightarrow> (0, w'\<lparr>fs_names := (if a = b then fs_names w' else (fs_names w')(a := None, b \<mapsto> i))\<rparr>)
         | _ \<Rightarrow> (-1, w')))"

definition sys_unlink :: "faults \<Rightarrow> string \<Rightarrow> pfs \<Rightarrow> serr option \<times> pfs" where
  "sys_unlink F p w =
     (case call F w of (f, w') \<Rightarrow>
        if f \<noteq> None then (Some EOther, w')
        else if fs_names w' p = None then (Some ENOENT, w')
        else (None, w'\<lparr>fs_names := (fs_names w')(p := None)\<rparr>))"

definition sys_stat :: "faults \<Rightarrow> string \<Rightarrow> pfs \<Rightarrow> int \<times> pfs" where
  "sys_stat F p w =
     (case call F w of (f, w') \<Rightarrow> (if f = None \<and> fs_names w' p \<noteq> None then 0 else -1, w'))"

text \<open>The length of an open file, as \<^verbatim>\<open>fstat\<close> reports it.\<close>

definition sys_fstat_size :: "faults \<Rightarrow> nat option \<Rightarrow> pfs \<Rightarrow> nat option \<times> pfs" where
  "sys_fstat_size F fd w =
     (case call F w of (f, w') \<Rightarrow>
        (case (f, fd_file fd w') of
           (None, Some a) \<Rightarrow> (Some (length (fs_data w' (of_ino a))), w')
         | _ \<Rightarrow> (None, w')))"

section \<open>The file system invariant\<close>

text \<open>
  Names and descriptors refer to existing files, a file has at most one name (the code makes no hard
  links on the paths modelled here).
\<close>

definition fs_wf :: "pfs \<Rightarrow> bool" where
  "fs_wf w \<longleftrightarrow>
     (\<forall>p i. fs_names w p = Some i \<longrightarrow> i < fs_ino w) \<and>
     (\<forall>n a. fs_fds w n = Some a \<longrightarrow> n < fs_fd w \<and> of_ino a < fs_ino w) \<and>
     (\<forall>p q i. fs_names w p = Some i \<longrightarrow> fs_names w q = Some i \<longrightarrow> p = q)"

text \<open>The bytes of the file with a name.\<close>

definition stored :: "pfs \<Rightarrow> string \<Rightarrow> string option" where
  "stored w p = map_option (fs_data w) (fs_names w p)"

lemma fs_wf_init [simp]: "fs_wf fs_init"
  by (simp add: fs_wf_def fs_init_def)

named_theorems sys_defs "the system calls"

lemmas [sys_defs] = call_def sys_alloc_def sys_open_def new_fd_def sys_write_def sys_lseek_def sys_read_def
  sys_close_def sys_rename_def sys_unlink_def sys_stat_def sys_fstat_size_def set_pos_def fd_file_def Let_def

lemma fs_wfD:
  assumes "fs_wf w"
  shows "fs_names w p = Some i \<Longrightarrow> i < fs_ino w"
    and "fs_fds w n = Some a \<Longrightarrow> n < fs_fd w"
    and "fs_fds w n = Some a \<Longrightarrow> of_ino a < fs_ino w"
    and "fs_names w p = Some i \<Longrightarrow> fs_names w q = Some i \<Longrightarrow> p = q"
  using assms unfolding fs_wf_def by blast+

lemma fs_wf_call [simp]: "fs_wf (w\<lparr>fs_tick := t\<rparr>) \<longleftrightarrow> fs_wf w"
  by (simp add: fs_wf_def)

lemma fs_wf_data [simp]: "fs_wf (w\<lparr>fs_data := d\<rparr>) \<longleftrightarrow> fs_wf w"
  by (simp add: fs_wf_def)

lemma fs_wf_unname: "fs_wf w \<Longrightarrow> fs_wf (w\<lparr>fs_names := (fs_names w)(p := None)\<rparr>)"
  unfolding fs_wf_def by auto

lemma fs_wf_close: "fs_wf w \<Longrightarrow> fs_wf (w\<lparr>fs_fds := (fs_fds w)(n := None)\<rparr>)"
  unfolding fs_wf_def by auto

lemma fs_wf_set_pos: "fs_wf w \<Longrightarrow> fs_wf (set_pos n p w)"
  unfolding fs_wf_def set_pos_def by (auto split: option.splits)

lemma fs_wf_new_fd: "fs_wf w \<Longrightarrow> i < fs_ino w \<Longrightarrow> fs_wf (snd (new_fd i b w))"
  unfolding fs_wf_def new_fd_def by (auto split: if_splits intro: less_SucI)

lemma fs_wf_create:
  "fs_wf w \<Longrightarrow> fs_names w p = None \<Longrightarrow>
   fs_wf (w\<lparr>fs_names := (fs_names w)(p \<mapsto> fs_ino w), fs_data := d, fs_ino := Suc (fs_ino w)\<rparr>)"
  unfolding fs_wf_def by (auto split: if_splits intro: less_SucI)

lemma fs_wf_rename:
  "fs_wf w \<Longrightarrow> fs_names w a = Some i \<Longrightarrow> a \<noteq> b \<Longrightarrow> fs_wf (w\<lparr>fs_names := (fs_names w)(a := None, b \<mapsto> i)\<rparr>)"
  unfolding fs_wf_def by (auto split: if_splits)

lemma sys_wf:
  assumes "fs_wf w"
  shows "fs_wf (snd (sys_alloc F w))" "fs_wf (snd (sys_open F b p w))" "fs_wf (snd (sys_write F fd buf w))"
    "fs_wf (snd (sys_lseek F fd off w))" "fs_wf (snd (sys_read F fd n w))" "fs_wf (snd (sys_close F fd w))"
    "fs_wf (snd (sys_rename F p q w))" "fs_wf (snd (sys_unlink F p w))" "fs_wf (snd (sys_stat F p w))"
    "fs_wf (snd (sys_fstat_size F fd w))"
proof -
  let ?w = "w\<lparr>fs_tick := Suc (fs_tick w)\<rparr>"
  have w: "fs_wf ?w" using assms by simp
  show "fs_wf (snd (sys_alloc F w))" "fs_wf (snd (sys_stat F p w))"
    using w by (simp_all add: sys_alloc_def sys_stat_def call_def)
  show "fs_wf (snd (sys_open F b p w))"
  proof (cases "fs_names ?w p")
    case None
    then have c: "fs_wf (?w\<lparr>fs_names := (fs_names ?w)(p \<mapsto> fs_ino ?w), fs_data := (fs_data ?w)(fs_ino ?w := []),
        fs_ino := Suc (fs_ino ?w)\<rparr>)" (is "fs_wf ?v")
      using fs_wf_create [OF w] by simp
    have "fs_wf (snd (new_fd (fs_ino ?w) True ?v))" by (rule fs_wf_new_fd [OF c]) simp
    then show ?thesis using w None by (auto simp: sys_open_def call_def split: prod.splits)
  next
    case (Some i)
    then have "fs_wf (snd (new_fd i False ?w))" using fs_wf_new_fd [OF w] fs_wfD(1) [OF w] by blast
    then show ?thesis using w Some by (auto simp: sys_open_def call_def split: prod.splits)
  qed
  show "fs_wf (snd (sys_write F fd buf w))" "fs_wf (snd (sys_lseek F fd off w))" "fs_wf (snd (sys_read F fd n w))"
    using w fs_wf_set_pos by (auto simp: sys_write_def sys_lseek_def sys_read_def call_def Let_def split: option.splits)
  show "fs_wf (snd (sys_close F fd w))"
    using w fs_wf_close [OF w] by (auto simp: sys_close_def call_def)
  show "fs_wf (snd (sys_rename F p q w))"
    using w fs_wf_rename [OF w, of p] by (auto simp: sys_rename_def call_def split: option.splits)
  show "fs_wf (snd (sys_unlink F p w))"
    using w fs_wf_unname [OF w] by (auto simp: sys_unlink_def call_def)
  show "fs_wf (snd (sys_fstat_size F fd w))"
    using w by (auto simp: sys_fstat_size_def call_def split: option.splits)
qed

section \<open>Files being written and read\<close>

text \<open>
  \<open>wfile w fd p x\<close>: the descriptor writes at the end of the file with the name \<open>p\<close>, which holds \<open>x\<close>.
  \<open>rfile w fd x\<close>: the descriptor reads a file that holds \<open>x\<close>. \<open>frame S w w'\<close>: outside the names in \<open>S\<close>
  no file and no writer has changed.
\<close>

definition wfile :: "pfs \<Rightarrow> nat option \<Rightarrow> string \<Rightarrow> string \<Rightarrow> bool" where
  "wfile w fd p x \<longleftrightarrow>
     (case fd_file fd w of
        None \<Rightarrow> False
      | Some a \<Rightarrow> of_wr a \<and> of_pos a = length x \<and> fs_names w p = Some (of_ino a) \<and> fs_data w (of_ino a) = x)"

definition rfile :: "pfs \<Rightarrow> nat option \<Rightarrow> string \<Rightarrow> bool" where
  "rfile w fd x \<longleftrightarrow>
     (case fd_file fd w of None \<Rightarrow> False | Some a \<Rightarrow> \<not> of_wr a \<and> fs_data w (of_ino a) = x)"

definition frame :: "string set \<Rightarrow> pfs \<Rightarrow> pfs \<Rightarrow> bool" where
  "frame S w w' \<longleftrightarrow>
     (\<forall>q. q \<notin> S \<longrightarrow> stored w' q = stored w q \<and> (\<forall>fd y. wfile w fd q y \<longrightarrow> wfile w' fd q y))"

lemma frame_refl [simp]: "frame S w w"
  by (simp add: frame_def)

lemma fs_frame_trans [trans]: "frame S w v \<Longrightarrow> frame S v u \<Longrightarrow> frame S w u"
  by (simp add: frame_def)

lemma frame_mono: "frame S w v \<Longrightarrow> S \<subseteq> T \<Longrightarrow> frame T w v"
  unfolding frame_def by blast

lemma frame_stored: "frame S w v \<Longrightarrow> p \<notin> S \<Longrightarrow> stored v p = stored w p"
  by (simp add: frame_def)

lemma frame_wfile: "frame S w v \<Longrightarrow> wfile w fd p x \<Longrightarrow> p \<notin> S \<Longrightarrow> wfile v fd p x"
  by (simp add: frame_def)

lemma wfile_stored: "wfile w fd p x \<Longrightarrow> stored w p = Some x"
  by (auto simp: wfile_def stored_def split: option.splits)

text \<open>States that agree in all but the counter of calls.\<close>

lemma tick_simps [simp]:
  "stored (w\<lparr>fs_tick := t\<rparr>) p = stored w p"
  "wfile (w\<lparr>fs_tick := t\<rparr>) fd p x = wfile w fd p x"
  "rfile (w\<lparr>fs_tick := t\<rparr>) fd x = rfile w fd x"
  "frame S w (w\<lparr>fs_tick := t\<rparr>)"
  by (auto simp: stored_def wfile_def rfile_def frame_def fd_file_def split: option.splits)

lemma sys_alloc_frame: "frame {} w (snd (sys_alloc F w))"
  "wfile w fd p x \<Longrightarrow> wfile (snd (sys_alloc F w)) fd p x"
  "rfile w fd x \<Longrightarrow> rfile (snd (sys_alloc F w)) fd x"
  by (simp_all add: sys_alloc_def call_def)

lemma sys_open_read:
  assumes "fs_wf w"
  shows "frame {} w (snd (sys_open F False p w))"
    and "rfile w fd x \<Longrightarrow> rfile (snd (sys_open F False p w)) fd x"
    and "sys_open F False p w = (Inr n, w') \<Longrightarrow> stored w p = Some x \<Longrightarrow> rfile w' (Some n) x"
    and "sys_open F False p w = (Inr n, w') \<Longrightarrow> \<exists>x. stored w p = Some x"
proof -
  have fresh: "fs_fds w (fs_fd w) = None" using fs_wfD(2) [OF assms] by (metis less_irrefl not_None_eq)
  show "frame {} w (snd (sys_open F False p w))" "rfile w fd x \<Longrightarrow> rfile (snd (sys_open F False p w)) fd x"
    using fresh by (auto simp: sys_open_def call_def new_fd_def frame_def stored_def wfile_def rfile_def fd_file_def split: option.splits)
  show "sys_open F False p w = (Inr n, w') \<Longrightarrow> stored w p = Some x \<Longrightarrow> rfile w' (Some n) x"
    "sys_open F False p w = (Inr n, w') \<Longrightarrow> \<exists>x. stored w p = Some x"
    by (auto simp: sys_open_def call_def new_fd_def stored_def rfile_def fd_file_def split: option.splits if_splits)
qed

lemma sys_open_write:
  assumes "fs_wf w"
  shows "frame {p} w (snd (sys_open F True p w))"
    and "sys_open F True p w = (Inr n, w') \<Longrightarrow> wfile w' (Some n) p []"
proof -
  have fresh: "fs_fds w (fs_fd w) = None" using fs_wfD(2) [OF assms] by (metis less_irrefl not_None_eq)
  have ino: "fs_names w q \<noteq> Some (fs_ino w)" for q using fs_wfD(1) [OF assms, of q] by blast
  show "frame {p} w (snd (sys_open F True p w))"
  proof (cases "F (fs_tick w) = None \<and> fs_names w p = None")
    case True
    show ?thesis
      unfolding frame_def
    proof (intro allI impI conjI)
      fix q fd y
      assume q: "q \<notin> {p}"
      show "stored (snd (sys_open F True p w)) q = stored w q"
        using True q ino [of q] by (cases "fs_names w q") (auto simp: sys_open_def call_def new_fd_def stored_def)
      assume "wfile w fd q y"
      then show "wfile (snd (sys_open F True p w)) fd q y"
        using True q ino [of q] fresh by (auto simp: sys_open_def call_def new_fd_def wfile_def fd_file_def split: option.splits)
    qed
  next
    case False
    then show ?thesis by (auto simp: sys_open_def call_def split: option.splits)
  qed
  show "sys_open F True p w = (Inr n, w') \<Longrightarrow> wfile w' (Some n) p []"
    by (auto simp: sys_open_def call_def new_fd_def wfile_def fd_file_def split: option.splits if_splits)
qed


lemma overwrite_end [simp]: "overwrite (length x) b x = x @ b"
  by (simp add: overwrite_def)

text \<open>Two writers of different names have different descriptors and files.\<close>

lemma wfile_other:
  assumes "fs_wf w" "wfile w fd p x" "wfile w fd' q y" "p \<noteq> q"
  shows "fd \<noteq> fd'" "map_option of_ino (fd_file fd w) \<noteq> map_option of_ino (fd_file fd' w)"
proof -
  obtain a b where a: "fd_file fd w = Some a" "fs_names w p = Some (of_ino a)"
    and b: "fd_file fd' w = Some b" "fs_names w q = Some (of_ino b)"
    using assms(2,3) by (auto simp: wfile_def split: option.splits)
  have "of_ino a \<noteq> of_ino b"
  proof
    assume "of_ino a = of_ino b"
    then have "p = q" using fs_wfD(4) [OF assms(1) a(2)] b(2) by simp
    with assms(4) show False by simp
  qed
  then show "fd \<noteq> fd'" "map_option of_ino (fd_file fd w) \<noteq> map_option of_ino (fd_file fd' w)"
    using a(1) b(1) by auto
qed

lemma sys_write_append:
  assumes "fs_wf w" "wfile w fd p x" "sys_write F fd buf w = (r, w')"
  shows "frame {p} w w'" "\<exists>c. wfile w' fd p (x @ c) \<and> (r = int (length buf) \<longrightarrow> c = buf) \<and> prefix c buf"
proof -
  obtain n a where n: "fd = Some n" "fs_fds w n = Some a" "of_wr a" "of_pos a = length x"
      "fs_names w p = Some (of_ino a)" "fs_data w (of_ino a) = x"
    using assms(2) by (auto simp: wfile_def fd_file_def split: option.splits)
  define c where "c = (case F (fs_tick w) of None \<Rightarrow> buf | Some k \<Rightarrow> take (min k (length buf - 1)) buf)"
  have w': "w' = w\<lparr>fs_tick := Suc (fs_tick w), fs_data := (fs_data w)(of_ino a := x @ c),
      fs_fds := (fs_fds w)(n \<mapsto> a\<lparr>of_pos := length x + length c\<rparr>)\<rparr>"
    and r: "r = (if F (fs_tick w) \<noteq> None \<and> c = [] then -1 else int (length c))"
    using assms(3) n by (auto simp: sys_write_def call_def fd_file_def set_pos_def c_def Let_def)
  have "r = int (length buf) \<longrightarrow> c = buf"
    using r by (cases "F (fs_tick w)") (auto simp: c_def split: if_splits)
  moreover have "prefix c buf" by (cases "F (fs_tick w)") (simp_all add: c_def take_is_prefix)
  moreover have "wfile w' fd p (x @ c)" using n w' by (simp add: wfile_def fd_file_def)
  ultimately show "\<exists>c. wfile w' fd p (x @ c) \<and> (r = int (length buf) \<longrightarrow> c = buf) \<and> prefix c buf" by blast
  show "frame {p} w w'"
    unfolding frame_def
  proof (intro allI impI conjI)
    fix q fd' y
    assume q: "q \<notin> {p}"
    have "fs_names w q \<noteq> Some (of_ino a)" using fs_wfD(4) [OF assms(1) n(5)] q by blast
    then show "stored w' q = stored w q" using w' by (cases "fs_names w q") (auto simp: stored_def)
    assume y: "wfile w fd' q y"
    note o = wfile_other [OF assms(1,2) y] q
    show "wfile w' fd' q y"
      using y o n(1,2) w' by (auto simp: wfile_def fd_file_def split: option.splits)
  qed
qed

lemma sys_lseek_start:
  assumes "fs_wf w" "wfile w fd p []" "sys_lseek F fd 0 w = (r, w')"
  shows "frame {p} w w'" "wfile w' fd p []"
proof -
  obtain n a where n: "fd = Some n" "fs_fds w n = Some a" "of_pos a = 0"
    using assms(2) by (auto simp: wfile_def fd_file_def split: option.splits)
  have "(fs_fds w)(n \<mapsto> a\<lparr>of_pos := 0\<rparr>) = fs_fds w" using n by auto
  then have "w' = w\<lparr>fs_tick := Suc (fs_tick w)\<rparr>"
    using assms(3) n by (auto simp: sys_lseek_def call_def fd_file_def set_pos_def split: if_splits)
  then show "frame {p} w w'" "wfile w' fd p []" using assms(2) by simp_all
qed

text \<open>A descriptor that is not open: nothing happens.\<close>

lemma sys_not_open:
  assumes "fd_file fd w = None"
  shows "sys_lseek F fd off w = (-1, w\<lparr>fs_tick := Suc (fs_tick w)\<rparr>)"
    and "sys_write F fd buf w = (-1, w\<lparr>fs_tick := Suc (fs_tick w)\<rparr>)"
    and "sys_close F fd w = (-1, w\<lparr>fs_tick := Suc (fs_tick w)\<rparr>)"
  using assms by (auto simp: sys_lseek_def sys_write_def sys_close_def call_def fd_file_def split: option.splits)

lemma sys_close_frame:
  assumes "fs_wf w" "wfile w fd p x"
  shows "frame {p} w (snd (sys_close F fd w))" "stored (snd (sys_close F fd w)) q = stored w q"
proof -
  obtain n a where n: "fd = Some n" "fs_fds w n = Some a"
    using assms(2) by (auto simp: wfile_def fd_file_def split: option.splits)
  then have w': "snd (sys_close F fd w) = w\<lparr>fs_tick := Suc (fs_tick w), fs_fds := (fs_fds w)(n := None)\<rparr>"
    by (simp add: sys_close_def call_def fd_file_def)
  then show "stored (snd (sys_close F fd w)) q = stored w q" by (simp add: stored_def)
  show "frame {p} w (snd (sys_close F fd w))"
    unfolding frame_def
  proof (intro allI impI conjI)
    fix q fd' y
    assume q: "q \<notin> {p}"
    show "stored (snd (sys_close F fd w)) q = stored w q" using w' by (simp add: stored_def)
    assume y: "wfile w fd' q y"
    have "fd \<noteq> fd'" using wfile_other [OF assms y] q by blast
    then show "wfile (snd (sys_close F fd w)) fd' q y"
      using y n w' by (auto simp: wfile_def fd_file_def split: option.splits)
  qed
qed

lemma sys_unlink_frame: "frame {p} w (snd (sys_unlink F p w))"
  by (auto simp: sys_unlink_def call_def frame_def stored_def wfile_def fd_file_def split: option.splits)

lemma sys_rename_frame: "frame {p, q} w (snd (sys_rename F p q w))"
  by (auto simp: sys_rename_def call_def frame_def stored_def wfile_def fd_file_def split: option.splits)

text \<open>A rename moves the file, or does nothing.\<close>

lemma sys_rename_result:
  assumes "sys_rename F p q w = (r, w')" "stored w p = Some x" "p \<noteq> q"
  shows "if r = 0 then stored w' q = Some x \<and> stored w' p = None
    else stored w' q = stored w q \<and> stored w' p = Some x"
  using assms by (auto simp: sys_rename_def call_def stored_def split: option.splits)

lemma sys_rfile:
  assumes "rfile w fd x"
  shows "rfile (snd (sys_lseek F fd off w)) fd x" "rfile (snd (sys_read F fd n w)) fd x"
    "rfile (snd (sys_fstat_size F fd w)) fd x"
    "stored (snd (sys_lseek F fd off w)) = stored w" "stored (snd (sys_read F fd n w)) = stored w"
    "stored (snd (sys_fstat_size F fd w)) = stored w"
proof -
  obtain k a where k: "fd = Some k" "fs_fds w k = Some a" "\<not> of_wr a" "fs_data w (of_ino a) = x"
    using assms by (auto simp: rfile_def fd_file_def split: option.splits)
  then show "rfile (snd (sys_lseek F fd off w)) fd x" "rfile (snd (sys_read F fd n w)) fd x"
    "rfile (snd (sys_fstat_size F fd w)) fd x"
    "stored (snd (sys_lseek F fd off w)) = stored w" "stored (snd (sys_read F fd n w)) = stored w"
    "stored (snd (sys_fstat_size F fd w)) = stored w"
    by (auto simp: rfile_def stored_def fun_eq_iff sys_defs split: option.splits)
qed

end
