(* ===== verification/PosixDal.thy ===== *)
theory PosixDal
  imports Dal PosixFs
begin

text \<open>
  The POSIX data abstraction, \<^verbatim>\<open>src/dal/posix_dal.c\<close>: the expansion of the path template of an object, the files that hold a block and its metadata while
  it is written and afterwards, and the operations on block handles. The system calls are those of
  \<^verbatim>\<open>PosixFs\<close>; all paths are relative to the secure root.

  A buffer with a path is the list of the bytes written to it, up to its recorded length; the system
  calls see the string in front of the first NUL.
\<close>

section \<open>Locations and templates\<close>

definition SFX_PADDING :: nat where
  "SFX_PADDING = 14"

definition WRITE_SFX :: string where
  "WRITE_SFX = ''.partial''"

definition REBUILD_SFX :: string where
  "REBUILD_SFX = ''.rebuild''"

definition META_SFX :: string where
  "META_SFX = ''.meta''"

definition check_loc_limits :: "dal_location \<Rightarrow> dal_location \<Rightarrow> int" where
  "check_loc_limits loc mx =
     (if l_pod loc > l_pod mx then -1
      else if l_cap loc > l_cap mx then -1
      else if l_block loc > l_block mx then -1
      else if l_scatter loc > l_scatter mx then -1
      else 0)"

definition num_digits :: "int \<Rightarrow> int" where
  "num_digits v =
     (if v < 0 then -1
      else if v < 10 then 1
      else if v < 100 then 2
      else if v < 1000 then 3
      else if v < 10000 then 4
      else if v < 100000 then 5
      else -1)"

text \<open>The flags of the substitutions a template holds, in the order of the fields of a location.\<close>

record loc_flags =
  f_pod :: bool
  f_block :: bool
  f_cap :: bool
  f_scatter :: bool

definition subst_val :: "dal_location \<Rightarrow> char \<Rightarrow> int option" where
  "subst_val loc c =
     (if c = CHR ''p'' then Some (l_pod loc)
      else if c = CHR ''b'' then Some (l_block loc)
      else if c = CHR ''c'' then Some (l_cap loc)
      else if c = CHR ''s'' then Some (l_scatter loc)
      else None)"

definition subst_flag :: "char \<Rightarrow> loc_flags \<Rightarrow> loc_flags" where
  "subst_flag c fl =
     (if c = CHR ''p'' then fl\<lparr>f_pod := True\<rparr>
      else if c = CHR ''b'' then fl\<lparr>f_block := True\<rparr>
      else if c = CHR ''c'' then fl\<lparr>f_cap := True\<rparr>
      else if c = CHR ''s'' then fl\<lparr>f_scatter := True\<rparr>
      else fl)"

text \<open>
  \<^verbatim>\<open>fillval = snprintf(fill, 5, "%d", fillval); fill += fillval\<close>: at most four characters and a NUL
  are written, but \<^verbatim>\<open>fill\<close> moves by the full length of the number. Bytes behind the NUL that nothing
  writes are NUL here.
\<close>

definition fill5 :: "int \<Rightarrow> string" where
  "fill5 v = take 4 (show_int v) @ replicate (length (show_int v) - 4) NUL"

text \<open>
  The loop of \<^verbatim>\<open>expand_path\<close>: the rest of the template, \<^verbatim>\<open>escp\<close>, the bytes written, \<^verbatim>\<open>end\<close> as an
  offset, the flags.
\<close>

function expand_loop ::
  "dal_location \<Rightarrow> string \<Rightarrow> bool \<Rightarrow> string \<Rightarrow> nat \<Rightarrow> loc_flags \<Rightarrow> string \<times> nat \<times> loc_flags" where
  "expand_loop loc p escp out e fl =
     (case p of
        [] \<Rightarrow> (out, e, fl)
      | c # s \<Rightarrow>
          if c = CHR 0x5C then
            (if escp then expand_loop loc s False (out @ [c]) e fl else expand_loop loc s True out e fl)
          else if c = CHR ''{'' then
            (if escp then expand_loop loc s False (out @ ''{'') e fl
             else
               (case subst_val loc (peek s) of
                  None \<Rightarrow> expand_loop loc s escp (out @ ''{'') e fl
                | Some v \<Rightarrow>
                    if peek (tl s) \<noteq> CHR ''}'' then expand_loop loc s escp (out @ ''{'') e (subst_flag (peek s) fl)
                    else expand_loop loc (tl (tl s)) escp (out @ fill5 v) e (subst_flag (peek s) fl)))
          else if c = CHR ''/'' then expand_loop loc s escp (out @ [c]) (length out + 1) fl
          else expand_loop loc s False (out @ [c]) e fl)"
  by pat_completeness auto
termination
  by (relation "measure (\<lambda>(loc, p, escp, out, e, fl). length p)") auto

declare expand_loop.simps [simp del]

text \<open>The bytes in the buffer and \<^verbatim>\<open>fill\<close>; with \<open>dir\<close> the string ends behind the last slash.\<close>

definition expand_path :: "string \<Rightarrow> dal_location \<Rightarrow> bool \<Rightarrow> (string \<times> nat) \<times> loc_flags" where
  "expand_path tmp loc dir =
     (case expand_loop loc tmp False [] 0 \<lparr>f_pod = False, f_block = False, f_cap = False, f_scatter = False\<rparr> of
        (out, e, fl) \<Rightarrow> ((if dir then out[e := NUL] else out, length out), fl))"

text \<open>The growth of a template by its substitutions, as \<^verbatim>\<open>posix_dal_init\<close> counts it.\<close>

definition subst_increase :: "dal_location \<Rightarrow> char \<Rightarrow> int" where
  "subst_increase mx c = (case subst_val mx c of None \<Rightarrow> 0 | Some v \<Rightarrow> num_digits v)"

fun dirpad_of :: "dal_location \<Rightarrow> string \<Rightarrow> int" where
  "dirpad_of mx [] = 0"
| "dirpad_of mx (c # s) =
     (if c = CHR ''{'' \<and> subst_increase mx (peek s) > 0 \<and> peek (tl s) = CHR ''}''
      then subst_increase mx (peek s) - 3 else 0) + dirpad_of mx s"

record dal_ctxt =
  dc_dirtmp :: string
  dc_tmplen :: int
  dc_max_loc :: dal_location
  dc_dirpad :: int

text \<open>The part of \<^verbatim>\<open>posix_dal_init\<close> that makes the context from the template and the limits.\<close>

definition posix_ctxt :: "string \<Rightarrow> dal_location \<Rightarrow> dal_ctxt option" where
  "posix_ctxt tmp mx =
     (if num_digits (l_pod mx) < 1 \<or> num_digits (l_cap mx) < 1 \<or> num_digits (l_block mx) < 1 \<or>
         num_digits (l_scatter mx) < 1 then None
      else Some \<lparr>dc_dirtmp = tmp, dc_tmplen = int (length tmp), dc_max_loc = mx, dc_dirpad = dirpad_of mx tmp\<rparr>)"

section \<open>Block handles\<close>

record bctxt =
  bc_fd :: "nat option"
  bc_mfd :: "nat option"
  bc_path :: string
  bc_mode :: dal_mode

text \<open>A slash in an object identifier becomes a hash sign.\<close>

definition objid_char :: "char \<Rightarrow> char" where
  "objid_char c = (if c = CHR ''/'' then CHR ''#'' else c)"

definition expand_dir_template ::
  "faults \<Rightarrow> dal_ctxt \<Rightarrow> dal_location \<Rightarrow> string \<Rightarrow> pfs \<Rightarrow> string option \<times> pfs" where
  "expand_dir_template F dc loc objID w =
     (if check_loc_limits loc (dc_max_loc dc) \<noteq> 0 then (None, w)
      else
        (case sys_alloc F w of (ok, w1) \<Rightarrow>
           if \<not> ok then (None, w1)
           else (Some (fst (fst (expand_path (dc_dirtmp dc) loc False)) @ map objid_char objID), w1)))"

text \<open>The size of the buffer that \<^verbatim>\<open>expand_dir_template\<close> allocates for a path.\<close>

definition path_space :: "dal_ctxt \<Rightarrow> string \<Rightarrow> int" where
  "path_space dc objID = dc_tmplen dc + dc_dirpad dc + int (length objID) + int SFX_PADDING + 1"

text \<open>What the system sees of a path with a suffix.\<close>

definition c_path :: "string \<Rightarrow> string \<Rightarrow> string" where
  "c_path path sfx = takeWhile (\<lambda>c. c \<noteq> NUL) (path @ sfx)"

definition working_sfx :: "dal_mode \<Rightarrow> string" where
  "working_sfx mode = (if mode = DAL_REBUILD then REBUILD_SFX else WRITE_SFX)"

text \<open>\<^verbatim>\<open>unlinkat\<close> where only a missing file is acceptable as a failure.\<close>

definition unlink_any :: "faults \<Rightarrow> string \<Rightarrow> pfs \<Rightarrow> bool \<times> pfs" where
  "unlink_any F p w = (case sys_unlink F p w of (r, w') \<Rightarrow> (r = None \<or> r = Some ENOENT, w'))"

definition block_delete :: "faults \<Rightarrow> bctxt \<Rightarrow> bool \<Rightarrow> pfs \<Rightarrow> int \<times> pfs" where
  "block_delete F bc components w =
     (let path = bc_path bc; sfx = working_sfx (bc_mode bc) in
      case unlink_any F (c_path path (META_SFX @ sfx)) w of (ok1, w1) \<Rightarrow>
      if \<not> ok1 then (-1, w1)
      else
        (case (if components then unlink_any F (c_path path META_SFX) w1 else (True, w1)) of (ok2, w2) \<Rightarrow>
         if \<not> ok2 then (-1, w2)
         else
           (case unlink_any F (c_path path sfx) w2 of (ok3, w3) \<Rightarrow>
            if \<not> ok3 then (-1, w3)
            else
              (case (if components then unlink_any F (c_path path []) w3 else (True, w3)) of (ok4, w4) \<Rightarrow>
               if \<not> ok4 then (-1, w4) else (0, w4)))))"

definition posix_del :: "faults \<Rightarrow> dal_ctxt option \<Rightarrow> dal_location \<Rightarrow> string \<Rightarrow> pfs \<Rightarrow> int \<times> pfs" where
  "posix_del F ctxt loc objID w =
     (case ctxt of
        None \<Rightarrow> (-1, w)
      | Some dc \<Rightarrow>
          (case sys_alloc F w of (ok, w1) \<Rightarrow>
           if \<not> ok then (-1, w1)
           else
             (case expand_dir_template F dc loc objID w1 of
                (None, w2) \<Rightarrow> (-1, w2)
              | (Some path, w2) \<Rightarrow>
                  block_delete F \<lparr>bc_fd = None, bc_mfd = None, bc_path = path, bc_mode = DAL_WRITE\<rparr> True w2)))"

definition posix_stat :: "faults \<Rightarrow> dal_ctxt option \<Rightarrow> dal_location \<Rightarrow> string \<Rightarrow> pfs \<Rightarrow> int \<times> pfs" where
  "posix_stat F ctxt loc objID w =
     (case ctxt of
        None \<Rightarrow> (-1, w)
      | Some dc \<Rightarrow>
          (case sys_alloc F w of (ok, w1) \<Rightarrow>
           if \<not> ok then (-1, w1)
           else
             (case expand_dir_template F dc loc objID w1 of
                (None, w2) \<Rightarrow> (-1, w2)
              | (Some path, w2) \<Rightarrow> sys_stat F (c_path path []) w2)))"

text \<open>
  The open of one of the two files: for a write that finds the file in place, unlink it and try once
  more.
\<close>

definition open_retry :: "faults \<Rightarrow> bool \<Rightarrow> string \<Rightarrow> pfs \<Rightarrow> nat option \<times> pfs" where
  "open_retry F wr p w =
     (case sys_open F wr p w of
        (Inr fd, w1) \<Rightarrow> (Some fd, w1)
      | (Inl e, w1) \<Rightarrow>
          if e = EEXIST \<and> wr then
            (case sys_unlink F p w1 of (r, w2) \<Rightarrow>
               (case sys_open F wr p w2 of (Inr fd, w3) \<Rightarrow> (Some fd, w3) | (Inl e, w3) \<Rightarrow> (None, w3)))
          else (None, w1))"

text \<open>
  \<^verbatim>\<open>posix_open\<close>. A metadata file that cannot be opened is fatal only for a metadata handle; for the
  other modes the descriptor stays at \<^verbatim>\<open>-1\<close>.
\<close>

definition posix_open ::
  "faults \<Rightarrow> dal_ctxt option \<Rightarrow> dal_mode \<Rightarrow> dal_location \<Rightarrow> string \<Rightarrow> pfs \<Rightarrow> bctxt option \<times> pfs" where
  "posix_open F ctxt mode loc objID w =
     (case ctxt of
        None \<Rightarrow> (None, w)
      | Some dc \<Rightarrow>
          (case sys_alloc F w of (ok, w1) \<Rightarrow>
           if \<not> ok then (None, w1)
           else
             (case expand_dir_template F dc loc objID w1 of
                (None, w2) \<Rightarrow> (None, w2)
              | (Some path, w2) \<Rightarrow>
                  (let wr = (mode \<noteq> DAL_READ \<and> mode \<noteq> DAL_METAREAD);
                       sfx = (if wr then working_sfx mode else [])
                   in
                   case open_retry F wr (c_path path (META_SFX @ sfx)) w2 of (mfd, w3) \<Rightarrow>
                   if mode = DAL_METAREAD then
                     (case mfd of
                        None \<Rightarrow> (None, w3)
                      | Some _ \<Rightarrow> (Some \<lparr>bc_fd = None, bc_mfd = mfd, bc_path = path, bc_mode = mode\<rparr>, w3))
                   else
                     (case open_retry F wr (c_path path sfx) w3 of
                        (None, w4) \<Rightarrow> (None, snd (sys_close F mfd w4))
                      | (Some fd, w4) \<Rightarrow>
                          (Some \<lparr>bc_fd = Some fd, bc_mfd = mfd, bc_path = path, bc_mode = mode\<rparr>, w4))))))"

definition posix_put :: "faults \<Rightarrow> bctxt option \<Rightarrow> string \<Rightarrow> pfs \<Rightarrow> int \<times> pfs" where
  "posix_put F ctxt buf w =
     (case ctxt of
        None \<Rightarrow> (-1, w)
      | Some bc \<Rightarrow>
          (case sys_write F (bc_fd bc) buf w of (r, w') \<Rightarrow>
             (if r \<noteq> int (length buf) then -1 else 0, w')))"

definition posix_get :: "faults \<Rightarrow> bctxt option \<Rightarrow> nat \<Rightarrow> nat \<Rightarrow> pfs \<Rightarrow> (int \<times> string) \<times> pfs" where
  "posix_get F ctxt n off w =
     (case ctxt of
        None \<Rightarrow> ((-1, []), w)
      | Some bc \<Rightarrow>
          if bc_mode bc \<noteq> DAL_READ then ((-1, []), w)
          else
            (case sys_lseek F (bc_fd bc) off w of (r, w1) \<Rightarrow>
               if r \<noteq> int off then ((-1, []), w1) else sys_read F (bc_fd bc) n w1))"

definition posix_set_meta_internal :: "faults \<Rightarrow> bctxt option \<Rightarrow> string \<Rightarrow> pfs \<Rightarrow> int \<times> pfs" where
  "posix_set_meta_internal F ctxt buf w =
     (case ctxt of
        None \<Rightarrow> (-1, w)
      | Some bc \<Rightarrow>
          (case sys_lseek F (bc_mfd bc) 0 w of (r, w1) \<Rightarrow>
             if r \<noteq> 0 then (-1, w1)
             else
               (case sys_write F (bc_mfd bc) buf w1 of (n, w2) \<Rightarrow>
                  (if n \<noteq> int (length buf) then -1 else 0, w2))))"

definition posix_get_meta_internal :: "faults \<Rightarrow> bctxt option \<Rightarrow> nat \<Rightarrow> pfs \<Rightarrow> (int \<times> string) \<times> pfs" where
  "posix_get_meta_internal F ctxt n w =
     (case ctxt of
        None \<Rightarrow> ((-1, []), w)
      | Some bc \<Rightarrow>
          (case sys_lseek F (bc_mfd bc) 0 w of (r, w1) \<Rightarrow>
             if r \<noteq> 0 then ((-1, []), w1)
             else
               (case sys_read F (bc_mfd bc) n w1 of ((k, b), w2) \<Rightarrow>
                  if k = int n then
                    (case sys_fstat_size F (bc_mfd bc) w2 of
                       (None, w3) \<Rightarrow> ((-1, b), w3)
                     | (Some len, w3) \<Rightarrow> ((if k < int len then int len else k, b), w3))
                  else ((k, b), w2))))"

definition posix_set_meta :: "faults \<Rightarrow> bctxt option \<Rightarrow> meta_info \<Rightarrow> pfs \<Rightarrow> int \<times> pfs" where
  "posix_set_meta F ctxt mi w =
     (case sys_alloc F w of (ok, w1) \<Rightarrow> dal_set_meta_helper ok (posix_set_meta_internal F ctxt) mi w1)"

definition posix_get_meta :: "faults \<Rightarrow> bctxt option \<Rightarrow> meta_info \<Rightarrow> pfs \<Rightarrow> (int \<times> meta_info) \<times> pfs" where
  "posix_get_meta F ctxt mi w =
     (case sys_alloc F w of (ok, w1) \<Rightarrow> dal_get_meta_helper ok (posix_get_meta_internal F ctxt) mi w1)"

definition posix_abort :: "faults \<Rightarrow> bctxt option \<Rightarrow> pfs \<Rightarrow> int \<times> pfs" where
  "posix_abort F ctxt w =
     (case ctxt of
        None \<Rightarrow> (-1, w)
      | Some bc \<Rightarrow> (0, snd (sys_close F (bc_mfd bc) (snd (sys_close F (bc_fd bc) w)))))"

text \<open>A rename to the path without its suffix; the name is duplicated first.\<close>

definition commit_file :: "faults \<Rightarrow> string \<Rightarrow> string \<Rightarrow> pfs \<Rightarrow> int \<times> pfs" where
  "commit_file F src dst w =
     (case sys_alloc F w of (ok, w1) \<Rightarrow> if \<not> ok then (-1, w1) else sys_rename F src dst w1)"

definition posix_close :: "faults \<Rightarrow> bctxt option \<Rightarrow> pfs \<Rightarrow> int \<times> pfs" where
  "posix_close F ctxt w =
     (case ctxt of
        None \<Rightarrow> (-1, w)
      | Some bc \<Rightarrow>
          (case (if bc_mode bc \<noteq> DAL_METAREAD then sys_close F (bc_fd bc) w else (0, w)) of (r1, w1) \<Rightarrow>
           if r1 \<noteq> 0 then (-1, w1)
           else
             (case sys_close F (bc_mfd bc) w1 of (r2, w2) \<Rightarrow>
              if r2 \<noteq> 0 then (-1, w2)
              else if bc_mode bc = DAL_WRITE \<or> bc_mode bc = DAL_REBUILD then
                (let path = bc_path bc; sfx = working_sfx (bc_mode bc) in
                 case commit_file F (c_path path sfx) (c_path path []) w2 of (r3, w3) \<Rightarrow>
                 if r3 \<noteq> 0 then (-1, w3)
                 else
                   (case commit_file F (c_path path (META_SFX @ sfx)) (c_path path META_SFX) w3 of (r4, w4) \<Rightarrow>
                    if r4 \<noteq> 0 then (-1, w4) else (0, w4)))
              else (0, w2))))"

section \<open>The interface\<close>

text \<open>The table that \<^verbatim>\<open>posix_dal_init\<close> fills.\<close>

definition posix_dal :: "faults \<Rightarrow> dal_ctxt \<Rightarrow> (pfs, bctxt) dal" where
  "posix_dal F dc =
     \<lparr>dal_open = posix_open F (Some dc), dal_set_meta = posix_set_meta F, dal_get_meta = posix_get_meta F,
      dal_put = posix_put F, dal_get = posix_get F, dal_abort = posix_abort F, dal_close = posix_close F,
      dal_del = posix_del F (Some dc), dal_stat = posix_stat F (Some dc)\<rparr>"

section \<open>Handles and objects\<close>

definition obj_path :: "dal_ctxt \<Rightarrow> dal_location \<Rightarrow> string \<Rightarrow> string" where
  "obj_path dc loc i = fst (fst (expand_path (dc_dirtmp dc) loc False)) @ map objid_char i"

lemmas sfx_defs = WRITE_SFX_def REBUILD_SFX_def META_SFX_def working_sfx_def

lemma cstr_sfx [simp]: "cstr WRITE_SFX" "cstr META_SFX" "cstr (working_sfx m)"
  by (simp_all add: sfx_defs NUL_def)

lemma c_path_cstr [simp]: "cstr path \<Longrightarrow> cstr sfx \<Longrightarrow> c_path path sfx = path @ sfx"
  unfolding c_path_def by (auto simp: cstr_def takeWhile_eq_all_conv)

text \<open>The two working files of a handle.\<close>

abbreviation wpath :: "bctxt \<Rightarrow> string" where
  "wpath bc \<equiv> bc_path bc @ working_sfx (bc_mode bc)"

abbreviation mpath :: "bctxt \<Rightarrow> string" where
  "mpath bc \<equiv> bc_path bc @ META_SFX @ working_sfx (bc_mode bc)"

lemma paths_differ [simp]:
  "wpath bc \<noteq> mpath bc" "mpath bc \<noteq> wpath bc"
  "bc_path bc \<noteq> wpath bc" "bc_path bc \<noteq> mpath bc" "wpath bc \<noteq> bc_path bc" "mpath bc \<noteq> bc_path bc"
  "bc_path bc @ META_SFX \<noteq> wpath bc" "bc_path bc @ META_SFX \<noteq> mpath bc" "bc_path bc @ META_SFX \<noteq> bc_path bc"
  "bc_path bc \<noteq> bc_path bc @ META_SFX" "wpath bc \<noteq> bc_path bc @ META_SFX" "mpath bc \<noteq> bc_path bc @ META_SFX"
  by (simp_all add: sfx_defs)

text \<open>
  A handle that writes: its data so far and the bytes of its metadata file; without a metadata file
  (its open failed) only the data.
\<close>

definition whandle :: "bctxt \<Rightarrow> string \<Rightarrow> string \<Rightarrow> pfs \<Rightarrow> bool" where
  "whandle bc x y w \<longleftrightarrow>
     cstr (bc_path bc) \<and> (bc_mode bc = DAL_WRITE \<or> bc_mode bc = DAL_REBUILD) \<and> wfile w (bc_fd bc) (wpath bc) x \<and>
     (bc_mfd bc = None \<and> y = [] \<or> wfile w (bc_mfd bc) (mpath bc) y)"

definition rhandle :: "bctxt \<Rightarrow> string \<Rightarrow> string \<Rightarrow> pfs \<Rightarrow> bool" where
  "rhandle bc x y w \<longleftrightarrow>
     bc_mode bc = DAL_READ \<and> rfile w (bc_fd bc) x \<and> (bc_mfd bc = None \<or> rfile w (bc_mfd bc) y)"

lemma open_retry_write:
  assumes "fs_wf w" "open_retry F True p w = (r, w')"
  shows "fs_wf w'" "frame {p} w w'" "r = Some n \<Longrightarrow> wfile w' (Some n) p []"
proof -
  obtain a w1 where 1: "sys_open F True p w = (a, w1)" by fastforce
  have w1: "fs_wf w1" "frame {p} w w1" "\<And>n. a = Inr n \<Longrightarrow> wfile w1 (Some n) p []"
    using sys_wf(2) [OF assms(1), of F True p] sys_open_write [OF assms(1), where F = F and p = p] 1 by auto
  obtain b w2 where 2: "sys_unlink F p w1 = (b, w2)" by fastforce
  have w2: "fs_wf w2" "frame {p} w1 w2"
    using sys_wf(8) [OF w1(1), of F p] sys_unlink_frame [of p w1 F] 2 by simp_all
  obtain c w3 where 3: "sys_open F True p w2 = (c, w3)" by fastforce
  have w3: "fs_wf w3" "frame {p} w2 w3" "\<And>n. c = Inr n \<Longrightarrow> wfile w3 (Some n) p []"
    using sys_wf(2) [OF w2(1), of F True p] sys_open_write [OF w2(1), where F = F and p = p] 3 by auto
  have "frame {p} w w3" using w1(2) w2(2) w3(2) fs_frame_trans by blast
  then show "fs_wf w'" "frame {p} w w'" "r = Some n \<Longrightarrow> wfile w' (Some n) p []"
    using assms(2) w1 w3 by (auto simp: open_retry_def 1 2 3 split: sum.splits if_splits)
qed

lemma open_retry_read:
  assumes "fs_wf w" "open_retry F False p w = (r, w')"
  shows "fs_wf w'" "frame {} w w'" "rfile w fd x \<Longrightarrow> rfile w' fd x"
    and "r = Some n \<Longrightarrow> stored w p = Some x \<Longrightarrow> rfile w' (Some n) x"
proof -
  obtain a w1 where 1: "sys_open F False p w = (a, w1)" by fastforce
  then have "w' = w1" and a: "r = Some n \<Longrightarrow> a = Inr n"
    using assms(2) by (auto simp: open_retry_def split: sum.splits)
  then show "fs_wf w'" "frame {} w w'" "rfile w fd x \<Longrightarrow> rfile w' fd x"
    using sys_wf(2) [OF assms(1), of F False p] sys_open_read(1,2) [OF assms(1), where F = F and p = p] 1 by auto
  show "r = Some n \<Longrightarrow> stored w p = Some x \<Longrightarrow> rfile w' (Some n) x"
    using a 1 sys_open_read(3) [OF assms(1)] \<open>w' = w1\<close> by blast
qed

text \<open>The first two steps of every open: an allocation and the path.\<close>

lemma expand_dir_template_eq:
  "expand_dir_template F dc loc i w =
     (if check_loc_limits loc (dc_max_loc dc) \<noteq> 0 then (None, w)
      else (if fst (sys_alloc F w) then Some (obj_path dc loc i) else None, snd (sys_alloc F w)))"
  by (simp add: expand_dir_template_def obj_path_def split_def)

lemma expand_dir_template_frame:
  assumes "fs_wf w" "expand_dir_template F dc loc i w = (r, w')"
  shows "fs_wf w'" "frame {} w w'" "r = Some path \<Longrightarrow> path = obj_path dc loc i"
    and "stored w' = stored w"
proof -
  have "w' = w \<or> w' = snd (sys_alloc F w)" using assms(2) by (auto simp: expand_dir_template_eq split: if_splits)
  then show "fs_wf w'" "frame {} w w'" "stored w' = stored w"
    using sys_wf(1) [OF assms(1), of F] sys_alloc_frame(1) [of w F] assms(1)
    by (auto simp: frame_def fun_eq_iff)
  show "r = Some path \<Longrightarrow> path = obj_path dc loc i"
    using assms(2) by (auto simp: expand_dir_template_eq split: if_splits)
qed

lemma frame_empty: "frame {} w v \<Longrightarrow> frame S w v"
  by (erule frame_mono) simp

lemma sys_close_opt:
  assumes "fs_wf w" "fd = None \<or> wfile w fd p x" "sys_close F fd w = (r, w')"
  shows "fs_wf w'" "frame {p} w w'" "stored w' = stored w"
proof -
  have w': "w' = snd (sys_close F fd w)" using assms(3) by simp
  show "fs_wf w'" unfolding w' by (rule sys_wf(6) [OF assms(1)])
  have "frame {p} w w' \<and> stored w' = stored w"
  proof (cases "fd = None")
    case True
    then have "sys_close F fd w = (-1, w\<lparr>fs_tick := Suc (fs_tick w)\<rparr>)"
      by (intro sys_not_open(3)) (simp add: fd_file_def)
    then show ?thesis by (simp add: w' fun_eq_iff)
  next
    case False
    then show ?thesis using assms(1,2) sys_close_frame [OF assms(1)] by (auto simp: w' fun_eq_iff)
  qed
  then show "frame {p} w w'" "stored w' = stored w" by simp_all
qed

lemma posix_open_write:
  assumes "fs_wf w" "cstr (obj_path dc loc i)" "mode = DAL_WRITE \<or> mode = DAL_REBUILD"
    and "posix_open F (Some dc) mode loc i w = (h, w')"
  shows "fs_wf w'"
    and "frame {obj_path dc loc i @ working_sfx mode, obj_path dc loc i @ META_SFX @ working_sfx mode} w w'"
    and "h = Some bc \<Longrightarrow> whandle bc [] [] w' \<and> bc_path bc = obj_path dc loc i \<and> bc_mode bc = mode"
proof -
  let ?p = "obj_path dc loc i" and ?sfx = "working_sfx mode"
  let ?S = "{?p @ ?sfx, ?p @ META_SFX @ ?sfx}"
  obtain ok w1 where 1: "sys_alloc F w = (ok, w1)" by fastforce
  have w1: "fs_wf w1" "frame ?S w w1"
    using sys_wf(1) [OF assms(1), of F] frame_empty [OF sys_alloc_frame(1) [of w F], of ?S] 1 by simp_all
  obtain e w2 where 2: "expand_dir_template F dc loc i w1 = (e, w2)" by fastforce
  have w2: "fs_wf w2" "frame ?S w w2" "\<And>path. e = Some path \<Longrightarrow> path = ?p"
    using expand_dir_template_frame [OF w1(1) 2] frame_mono fs_frame_trans [OF w1(2)] by blast+
  obtain mfd w3 where 3: "open_retry F True (?p @ META_SFX @ ?sfx) w2 = (mfd, w3)" by fastforce
  note o3 = open_retry_write [OF w2(1) 3]
  have w3: "frame ?S w w3" using fs_frame_trans [OF w2(2) frame_mono [OF o3(2)]] by simp
  obtain fd w4 where 4: "open_retry F True (?p @ ?sfx) w3 = (fd, w4)" by fastforce
  note o4 = open_retry_write [OF o3(1) 4]
  have w4: "frame ?S w w4" using fs_frame_trans [OF w3 frame_mono [OF o4(2)]] by simp
  have m: "mfd = None \<or> wfile w4 mfd (?p @ META_SFX @ ?sfx) []"
    using o3(3) frame_wfile [OF o4(2)] by (cases mfd) (auto simp: sfx_defs)
  obtain r w5 where 5: "sys_close F mfd w4 = (r, w5)" by fastforce
  note c5 = sys_close_opt [OF o4(1) m 5]
  have w5: "frame ?S w w5" using fs_frame_trans [OF w4 frame_mono [OF c5(2)]] by simp
  have op: "posix_open F (Some dc) mode loc i w =
      (if \<not> ok then (None, w1)
       else (case e of
          None \<Rightarrow> (None, w2)
        | Some _ \<Rightarrow>
            (case fd of
               None \<Rightarrow> (None, w5)
             | Some n \<Rightarrow> (Some \<lparr>bc_fd = Some n, bc_mfd = mfd, bc_path = ?p, bc_mode = mode\<rparr>, w4))))"
  proof (cases e)
    case None
    then show ?thesis by (simp add: posix_open_def 1 2)
  next
    case (Some path)
    then have "e = Some ?p" using w2(3) by simp
    then show ?thesis using assms(2,3) 3 4 5 by (elim disjE) (simp_all add: posix_open_def 1 2 split: option.splits)
  qed
  have "w' \<in> {w1, w2, w4, w5}" using assms(4) unfolding op by (simp split: if_splits option.splits)
  then show "fs_wf w'" "frame ?S w w'" using w1 w2 w4 w5 o4(1) c5(1) by blast+
  show "h = Some bc \<Longrightarrow> whandle bc [] [] w' \<and> bc_path bc = ?p \<and> bc_mode bc = mode"
    using assms(2-4) o4(3) m unfolding op by (auto simp: whandle_def split: if_splits option.splits)
qed

lemma posix_open_read:
  assumes "fs_wf w" "cstr (obj_path dc loc i)" "posix_open F (Some dc) DAL_READ loc i w = (Some bc, w')"
    and "stored w (obj_path dc loc i) = Some x" "stored w (obj_path dc loc i @ META_SFX) = Some y"
  shows "fs_wf w'" "rhandle bc x y w'"
proof -
  let ?p = "obj_path dc loc i"
  obtain ok w1 where 1: "sys_alloc F w = (ok, w1)" by fastforce
  have w1: "fs_wf w1" "frame {} w w1" using sys_wf(1) [OF assms(1), of F] sys_alloc_frame(1) [of w F] 1 by simp_all
  obtain e w2 where 2: "expand_dir_template F dc loc i w1 = (e, w2)" by fastforce
  have w2: "fs_wf w2" "frame {} w1 w2" "\<And>path. e = Some path \<Longrightarrow> path = ?p"
    using expand_dir_template_frame [OF w1(1) 2] by blast+
  obtain mfd w3 where 3: "open_retry F False (?p @ META_SFX) w2 = (mfd, w3)" by fastforce
  note o3 = open_retry_read [OF w2(1) 3]
  obtain fd w4 where 4: "open_retry F False ?p w3 = (fd, w4)" by fastforce
  note o4 = open_retry_read [OF o3(1) 4]
  have fr: "frame {} w w2" "frame {} w w3" using w1 w2 o3(2) fs_frame_trans by blast+
  have st: "stored w2 (?p @ META_SFX) = Some y" "stored w3 ?p = Some x"
    using frame_stored [OF fr(1)] frame_stored [OF fr(2)] assms(4,5) by auto
  have m: "mfd = None \<or> rfile w4 mfd y" using o3(4) [OF _ st(1)] o4(3) by (cases mfd) auto
  have e: "e = None \<or> e = Some ?p" using w2(3) by (cases e) auto
  have ok: ok "e = Some ?p" "fd = bc_fd bc" "bc_fd bc \<noteq> None" "w' = w4" "bc_mfd bc = mfd" "bc_mode bc = DAL_READ"
    using e assms(2,3) 3 4 by (auto simp: posix_open_def 1 2 split: option.splits if_splits)
  show "fs_wf w'" using o4(1) ok by simp
  show "rhandle bc x y w'" using ok m o4(4) [OF _ st(2)] by (auto simp: rhandle_def)
qed

lemma sfx_differ [simp]:
  "META_SFX @ s \<noteq> working_sfx m" "working_sfx m \<noteq> META_SFX @ s" "META_SFX \<noteq> working_sfx m" "working_sfx m \<noteq> META_SFX"
  "working_sfx m \<noteq> []" "META_SFX \<noteq> []"
  by (simp_all add: sfx_defs)

text \<open>A change of one of the two files of a handle leaves the other.\<close>

lemma whandle_data:
  assumes "whandle bc x y w" "frame {wpath bc} w w'" "wfile w' (bc_fd bc) (wpath bc) x'"
  shows "whandle bc x' y w'"
proof -
  have "wfile w' (bc_mfd bc) (mpath bc) y" if "wfile w (bc_mfd bc) (mpath bc) y"
    using frame_wfile [OF assms(2) that] by simp
  then show ?thesis using assms(1,3) by (auto simp: whandle_def)
qed

lemma whandle_meta:
  assumes "whandle bc x y w" "frame {mpath bc} w w'" "wfile w' (bc_mfd bc) (mpath bc) y'"
  shows "whandle bc x y' w'"
proof -
  have "wfile w' (bc_fd bc) (wpath bc) x"
    using frame_wfile [OF assms(2), of "bc_fd bc" "wpath bc" x] assms(1) by (simp add: whandle_def)
  then show ?thesis using assms(1,3) by (auto simp: whandle_def)
qed

text \<open>The names a writing handle may touch before it is closed.\<close>

abbreviation wset :: "bctxt \<Rightarrow> string set" where
  "wset bc \<equiv> {wpath bc, mpath bc}"

lemma posix_put_handle:
  assumes "fs_wf w" "whandle bc x y w" "posix_put F (Some bc) b w = (r, w')"
  shows "fs_wf w'" "frame (wset bc) w w'" "\<exists>c. whandle bc (x @ c) y w' \<and> (r = 0 \<longrightarrow> c = b) \<and> prefix c b"
proof -
  obtain n where n: "sys_write F (bc_fd bc) b w = (n, w')" "r = (if n \<noteq> int (length b) then -1 else 0)"
    using assms(3) by (auto simp: posix_put_def split: prod.splits)
  have wf: "wfile w (bc_fd bc) (wpath bc) x" using assms(2) by (simp add: whandle_def)
  note a = sys_write_append [OF assms(1) wf n(1)]
  show "fs_wf w'" using sys_wf(3) [OF assms(1), of F "bc_fd bc" b] n(1) by simp
  show "frame (wset bc) w w'" using frame_mono [OF a(1)] by simp
  obtain c where c: "wfile w' (bc_fd bc) (wpath bc) (x @ c)" "n = int (length b) \<longrightarrow> c = b"
    "prefix c b" using a(2) by blast
  have "whandle bc (x @ c) y w'" by (rule whandle_data [OF assms(2) a(1) c(1)])
  then show "\<exists>c. whandle bc (x @ c) y w' \<and> (r = 0 \<longrightarrow> c = b) \<and> prefix c b"
    using c(2,3) n(2) by (auto split: if_splits)
qed

lemma posix_set_meta_internal_handle:
  assumes "fs_wf w" "whandle bc x [] w" "posix_set_meta_internal F (Some bc) b w = (r, w')"
  shows "fs_wf w'" "frame (wset bc) w w'" "\<exists>c. whandle bc x c w' \<and> (r = 0 \<longrightarrow> c = b \<and> bc_mfd bc \<noteq> None)"
proof -
  obtain k w1 where 1: "sys_lseek F (bc_mfd bc) 0 w = (k, w1)" by fastforce
  obtain n w2 where 2: "sys_write F (bc_mfd bc) b w1 = (n, w2)" by fastforce
  have eq: "(r, w') = (if k \<noteq> 0 then (-1, w1) else (if n \<noteq> int (length b) then -1 else 0, w2))"
    using assms(3) 2 by (auto simp: posix_set_meta_internal_def 1 split: if_splits)
  have "fs_wf w' \<and> frame (wset bc) w w' \<and> (\<exists>c. whandle bc x c w' \<and> (r = 0 \<longrightarrow> c = b \<and> bc_mfd bc \<noteq> None))"
  proof (cases "bc_mfd bc")
    case None
    then have "fd_file (bc_mfd bc) w = None" by (simp add: fd_file_def)
    then have "k = -1" "w1 = w\<lparr>fs_tick := Suc (fs_tick w)\<rparr>" using 1 sys_not_open(1) by auto
    then have "r = -1" "w' = w\<lparr>fs_tick := Suc (fs_tick w)\<rparr>" using eq by simp_all
    then show ?thesis using assms(1,2) by (auto simp: whandle_def)
  next
    case (Some m)
    then have wm: "wfile w (bc_mfd bc) (mpath bc) []" using assms(2) by (simp add: whandle_def)
    note s = sys_lseek_start [OF assms(1) wm 1]
    have wf1: "fs_wf w1" using sys_wf(4) [OF assms(1), of F "bc_mfd bc" 0] 1 by simp
    note a = sys_write_append [OF wf1 s(2) 2]
    have wf2: "fs_wf w2" using sys_wf(3) [OF wf1, of F "bc_mfd bc" b] 2 by simp
    have f: "frame {mpath bc} w w2" using fs_frame_trans [OF s(1) a(1)] .
    obtain c where c: "wfile w2 (bc_mfd bc) (mpath bc) c" "n = int (length b) \<longrightarrow> c = b" using a(2) by auto
    have "whandle bc x [] w1" "whandle bc x c w2"
      using whandle_meta [OF assms(2) s(1,2)] whandle_meta [OF assms(2) f c(1)] by blast+
    moreover have "frame (wset bc) w w1" "frame (wset bc) w w2" using frame_mono [OF s(1)] frame_mono [OF f] by simp_all
    ultimately show ?thesis
      using eq wf1 wf2 c(2) Some by (cases "k = 0"; cases "n = int (length b)") auto
  qed
  then show "fs_wf w'" "frame (wset bc) w w'" "\<exists>c. whandle bc x c w' \<and> (r = 0 \<longrightarrow> c = b \<and> bc_mfd bc \<noteq> None)" by simp_all
qed

lemma whandle_alloc: "whandle bc x y w \<Longrightarrow> whandle bc x y (snd (sys_alloc F w))"
  using sys_alloc_frame(2) by (auto simp: whandle_def)

lemma posix_set_meta_handle:
  assumes "fs_wf w" "whandle bc x [] w" "valid_minfo mi" "posix_set_meta F (Some bc) mi w = (r, w')"
  shows "fs_wf w'" "frame (wset bc) w w'"
    "\<exists>c. whandle bc x c w' \<and> (r = 0 \<longrightarrow> c = minfo_text mi @ [NUL] \<and> bc_mfd bc \<noteq> None)"
proof -
  obtain ok w1 where 1: "sys_alloc F w = (ok, w1)" by fastforce
  have w1: "fs_wf w1" "frame (wset bc) w w1" "whandle bc x [] w1"
    using sys_wf(1) [OF assms(1), of F] frame_empty [OF sys_alloc_frame(1) [of w F]] whandle_alloc [OF assms(2), of F] 1
    by simp_all
  obtain n w2 where 2: "posix_set_meta_internal F (Some bc) (minfo_text mi @ [NUL]) w1 = (n, w2)" by fastforce
  note s = posix_set_meta_internal_handle [OF w1(1,3) 2]
  have eq: "(r, w') = (if ok then (if n \<noteq> 0 then -1 else 0, w2) else (-1, w1))"
    using assms(4) dal_set_meta_valid(1) [OF assms(3), of "posix_set_meta_internal F (Some bc)" w1]
    by (cases ok) (simp_all add: posix_set_meta_def 1 2 dal_set_meta_helper_def)
  have f: "frame (wset bc) w w2" using fs_frame_trans [OF w1(2) s(2)] .
  show "fs_wf w'" "frame (wset bc) w w'"
    "\<exists>c. whandle bc x c w' \<and> (r = 0 \<longrightarrow> c = minfo_text mi @ [NUL] \<and> bc_mfd bc \<noteq> None)"
    using eq w1 s f by (auto split: if_splits)
qed

lemma posix_abort_handle:
  assumes "fs_wf w" "whandle bc x y w" "posix_abort F (Some bc) w = (r, w')"
  shows "fs_wf w'" "frame (wset bc) w w'" "stored w' = stored w" "r = 0"
proof -
  obtain k w1 where 1: "sys_close F (bc_fd bc) w = (k, w1)" by fastforce
  have d: "bc_fd bc = None \<or> wfile w (bc_fd bc) (wpath bc) x" using assms(2) by (simp add: whandle_def)
  note c1 = sys_close_opt [OF assms(1) d 1]
  have m: "bc_mfd bc = None \<or> wfile w1 (bc_mfd bc) (mpath bc) y"
    using assms(2) frame_wfile [OF c1(2), of "bc_mfd bc" "mpath bc" y] by (auto simp: whandle_def)
  obtain j w2 where 2: "sys_close F (bc_mfd bc) w1 = (j, w2)" by fastforce
  note c2 = sys_close_opt [OF c1(1) m 2]
  have "r = 0" "w' = w2" using assms(3) by (simp_all add: posix_abort_def 1 2)
  then show "fs_wf w'" "frame (wset bc) w w'" "stored w' = stored w" "r = 0"
    using c2 c1(3) fs_frame_trans [OF frame_mono [OF c1(2)] frame_mono [OF c2(2)], of "wset bc"] by simp_all
qed

lemma frame_step: "frame S w v \<Longrightarrow> frame T v u \<Longrightarrow> T \<subseteq> S \<Longrightarrow> frame S w u"
  using fs_frame_trans frame_mono by blast

lemma commit_file_result:
  assumes "fs_wf w" "commit_file F p q w = (r, w')" "stored w p = Some x" "p \<noteq> q"
  shows "fs_wf w'" "frame {p, q} w w'"
    "if r = 0 then stored w' q = Some x else stored w' q = stored w q \<and> stored w' p = Some x"
proof -
  obtain ok w1 where 1: "sys_alloc F w = (ok, w1)" by fastforce
  have w1: "fs_wf w1" "frame {p, q} w w1" "\<And>s. stored w1 s = stored w s"
    using sys_wf(1) [OF assms(1), of F] frame_empty [OF sys_alloc_frame(1) [of w F]]
      frame_stored [OF sys_alloc_frame(1) [of w F]] 1 by simp_all
  have "fs_wf w' \<and> frame {p, q} w w' \<and>
      (if r = 0 then stored w' q = Some x else stored w' q = stored w q \<and> stored w' p = Some x)"
  proof (cases ok)
    case True
    then have ren: "sys_rename F p q w1 = (r, w')" using assms(2) by (simp add: commit_file_def 1)
    have "fs_wf w'" "frame {p, q} w1 w'"
      using sys_wf(7) [OF w1(1), of F p q] sys_rename_frame [of p q w1 F] ren by simp_all
    then show ?thesis
      using sys_rename_result [OF ren _ assms(4), of x] w1 assms(3) fs_frame_trans by (auto split: if_splits)
  next
    case False
    then show ?thesis using assms(2,3) w1 by (simp add: commit_file_def 1)
  qed
  then show "fs_wf w'" "frame {p, q} w w'"
    "if r = 0 then stored w' q = Some x else stored w' q = stored w q \<and> stored w' p = Some x" by simp_all
qed

text \<open>The names a handle touches when it is closed.\<close>

abbreviation cset :: "bctxt \<Rightarrow> string set" where
  "cset bc \<equiv> {wpath bc, mpath bc, bc_path bc, bc_path bc @ META_SFX}"

text \<open>
  A close leaves the old block, or the new data with the old metadata, or both new; only the last is
  a success.
\<close>

lemma posix_close_handle:
  assumes "fs_wf w" "whandle bc x y w" "posix_close F (Some bc) w = (r, w')"
  shows "fs_wf w'" "frame (cset bc) w w'"
    "(if r = 0 then stored w' (bc_path bc) = Some x \<and> stored w' (bc_path bc @ META_SFX) = Some y
      else stored w' (bc_path bc @ META_SFX) = stored w (bc_path bc @ META_SFX) \<and>
        stored w' (bc_path bc) \<in> {stored w (bc_path bc), Some x})"
proof -
  let ?D = "bc_path bc" and ?M = "bc_path bc @ META_SFX"
  have mode: "bc_mode bc \<noteq> DAL_METAREAD" "bc_mode bc = DAL_WRITE \<or> bc_mode bc = DAL_REBUILD" "cstr ?D"
    using assms(2) by (auto simp: whandle_def)
  have d: "bc_fd bc = None \<or> wfile w (bc_fd bc) (wpath bc) x" using assms(2) by (simp add: whandle_def)
  obtain r1 w1 where 1: "sys_close F (bc_fd bc) w = (r1, w1)" by fastforce
  note c1 = sys_close_opt [OF assms(1) d 1]
  have m: "bc_mfd bc = None \<or> wfile w1 (bc_mfd bc) (mpath bc) y"
    using assms(2) frame_wfile [OF c1(2), of "bc_mfd bc" "mpath bc" y] by (auto simp: whandle_def)
  obtain r2 w2 where 2: "sys_close F (bc_mfd bc) w1 = (r2, w2)" by fastforce
  note c2 = sys_close_opt [OF c1(1) m 2]
  have st: "stored w2 = stored w" "stored w1 = stored w" using c1(3) c2(3) by simp_all
  have f1: "frame (cset bc) w w1" using frame_mono [OF c1(2)] by simp
  have f2: "frame (cset bc) w w2" by (rule frame_step [OF f1 c2(2)]) simp
  have dx: "stored w2 (wpath bc) = Some x" using assms(2) wfile_stored by (auto simp: whandle_def st)
  obtain r3 w3 where 3: "commit_file F (wpath bc) ?D w2 = (r3, w3)" by fastforce
  note k3 = commit_file_result [OF c2(1) 3 dx]
  obtain r4 w4 where 4: "commit_file F (mpath bc) ?M w3 = (r4, w4)" by fastforce
  have op: "(r, w') = (if r1 \<noteq> 0 then (-1, w1) else if r2 \<noteq> 0 then (-1, w2) else if r3 \<noteq> 0 then (-1, w3)
      else if r4 \<noteq> 0 then (-1, w4) else (0, w4))"
    using assms(3) mode 2 3 4 by (elim disjE) (auto simp: posix_close_def 1 Let_def split: if_splits)
  have f3: "frame (cset bc) w w3" by (rule frame_step [OF f2 k3(2)]) simp_all
  have s3: "stored w3 ?M = stored w ?M" "stored w3 ?D \<in> {stored w ?D, Some x}" "r3 = 0 \<longrightarrow> stored w3 ?D = Some x"
    using frame_stored [OF k3(2), of ?M] k3(3) st(1) by (auto split: if_splits)
  have "fs_wf w' \<and> frame (cset bc) w w' \<and>
    (if r = 0 then stored w' ?D = Some x \<and> stored w' ?M = Some y
     else stored w' ?M = stored w ?M \<and> stored w' ?D \<in> {stored w ?D, Some x})"
  proof (cases "r1 = 0 \<and> r2 = 0 \<and> r3 = 0")
    case True
    have "bc_mfd bc \<noteq> None"
    proof
      assume "bc_mfd bc = None"
      then have "r2 = -1" using 2 sys_not_open(3) [of "bc_mfd bc" w1 F] by (simp add: fd_file_def)
      with True show False by simp
    qed
    with m have "wfile w1 (bc_mfd bc) (mpath bc) y" by blast
    then have "stored w1 (mpath bc) = Some y" by (rule wfile_stored)
    then have my: "stored w3 (mpath bc) = Some y" using frame_stored [OF k3(2), of "mpath bc"] st by simp
    note k4 = commit_file_result [OF k3(1) 4 my]
    have f4: "frame (cset bc) w w4" by (rule frame_step [OF f3 k4(2)]) simp_all
    have "stored w4 ?D = stored w3 ?D" using frame_stored [OF k4(2), of ?D] by simp
    then show ?thesis using op True k4 f4 s3 by (auto split: if_splits)
  next
    case False
    then have "r = -1" "w' \<in> {w1, w2, w3}" using op by (auto split: if_splits)
    then show ?thesis using c1(1) c2(1) k3(1) f1 f2 f3 s3 st by auto
  qed
  then show "fs_wf w'" "frame (cset bc) w w'"
    "(if r = 0 then stored w' ?D = Some x \<and> stored w' ?M = Some y
      else stored w' ?M = stored w ?M \<and> stored w' ?D \<in> {stored w ?D, Some x})" by blast+
qed

text \<open>Reading handles.\<close>

lemma sys_lseek_rfile:
  assumes "rfile w fd x" "sys_lseek F fd off w = (r, w')" "r = int off"
  shows "fd_file fd w' = map_option (of_pos_update (\<lambda>_. off)) (fd_file fd w)"
  using assms by (auto simp: rfile_def sys_lseek_def call_def fd_file_def set_pos_def split: option.splits if_splits)

lemma sys_read_result:
  assumes "rfile w fd x" "fd_file fd w = Some a" "sys_read F fd n w = ((r, b), w')"
  shows "r = -1 \<or> (\<exists>k \<le> n. b = take k (drop (of_pos a) x) \<and> r = int (length b) \<and>
    (F (fs_tick w) = None \<longrightarrow> k = n))"
proof (cases "F (fs_tick w) = Some 0")
  case True
  then show ?thesis
    using assms by (simp add: sys_read_def call_def fd_file_def split: option.splits if_splits)
next
  case False
  define k where "k = (case F (fs_tick w) of None \<Rightarrow> n | Some k \<Rightarrow> min n (k - 1))"
  have a: "\<not> of_wr a" "fs_data w (of_ino a) = x" using assms(1,2) by (simp_all add: rfile_def)
  have "fd_file fd (w\<lparr>fs_tick := t\<rparr>) = Some a" for t using assms(2) by (simp add: fd_file_def split: option.splits)
  then have "b = take k (drop (of_pos a) x)" "r = int (length b)"
    using assms(3) a False by (auto simp: sys_read_def call_def k_def Let_def)
  moreover have "k \<le> n" "F (fs_tick w) = None \<longrightarrow> k = n" by (auto simp: k_def split: option.splits)
  ultimately show ?thesis by (intro disjI2 exI [of _ k]) simp
qed

text \<open>A reader sees the same bytes wherever any descriptor stands.\<close>

lemma rfile_set_pos: "rfile (set_pos m p w) fd x = rfile w fd x"
  by (auto simp: rfile_def set_pos_def fd_file_def split: option.splits)

lemma rfile_lseek: "rfile w fd x \<Longrightarrow> rfile (snd (sys_lseek F g off w)) fd x"
  by (simp add: sys_lseek_def call_def rfile_set_pos)

lemma rfile_read: "rfile w fd x \<Longrightarrow> rfile (snd (sys_read F g n w)) fd x"
  by (simp add: sys_read_def call_def rfile_set_pos Let_def split: option.splits)

lemma rfile_fstat: "rfile w fd x \<Longrightarrow> rfile (snd (sys_fstat_size F g w)) fd x"
  by (auto simp: sys_fstat_size_def call_def split: option.splits)

lemma tick_lseek: "fs_tick (snd (sys_lseek F g off w)) = Suc (fs_tick w)"
  by (simp add: sys_lseek_def call_def set_pos_def split: option.splits)

lemma take_min_length: "take (min (length d) k) d = take k d"
  by (simp add: min_def)

text \<open>A seek followed by a read.\<close>

lemma seek_read:
  assumes "fs_wf w" "rfile w fd x" "sys_lseek F fd off w = (k, w1)" "k = int off" "sys_read F fd n w1 = ((r, b), w2)"
  shows "r \<le> int n" "0 \<le> r \<longrightarrow> b = take (nat r) (drop off x) \<and> int (length b) = r"
    "F (Suc (fs_tick w)) = None \<Longrightarrow> b = take n (drop off x) \<and> r = int (length b)"
proof -
  obtain a where a: "fd_file fd w = Some a" using assms(2) by (auto simp: rfile_def split: option.splits)
  have r1: "rfile w1 fd x" using rfile_lseek [OF assms(2), of F fd off] assms(3) by simp
  have t1: "fs_tick w1 = Suc (fs_tick w)" using tick_lseek [of F fd off w] assms(3) by simp
  have f1: "fd_file fd w1 = Some (a\<lparr>of_pos := off\<rparr>)" using sys_lseek_rfile [OF assms(2-4)] a by simp
  note rr = sys_read_result [OF r1 f1 assms(5)]
  show "r \<le> int n" using rr by auto
  show "0 \<le> r \<longrightarrow> b = take (nat r) (drop off x) \<and> int (length b) = r"
    using rr take_min_length [of "drop off x"] by auto
  show "b = take n (drop off x) \<and> r = int (length b)" if "F (Suc (fs_tick w)) = None"
  proof -
    have "r \<noteq> -1" using assms(5) f1 r1 that t1 by (auto simp: sys_read_def call_def rfile_def fd_file_def Let_def split: option.splits)
    then show ?thesis using rr that t1 by auto
  qed
qed

lemma posix_get_handle:
  assumes "fs_wf w" "rhandle bc x y w" "posix_get F (Some bc) n off w = ((r, b), w')"
  shows "fs_wf w'" "rhandle bc x y w'" "r \<le> int n"
    "0 \<le> r \<longrightarrow> b = take (nat r) (drop off x) \<and> int (length b) = r"
    "F (fs_tick w) = None \<Longrightarrow> F (Suc (fs_tick w)) = None \<Longrightarrow> b = take n (drop off x)"
proof -
  have m: "bc_mode bc = DAL_READ" "rfile w (bc_fd bc) x" using assms(2) by (simp_all add: rhandle_def)
  obtain k w1 where 1: "sys_lseek F (bc_fd bc) off w = (k, w1)" by fastforce
  obtain q c w2 where 2: "sys_read F (bc_fd bc) n w1 = ((q, c), w2)" by (metis surj_pair)
  have w1: "fs_wf w1" "rhandle bc x y w1"
    using sys_wf(4) [OF assms(1), of F "bc_fd bc" off] rfile_lseek [of w _ _ F "bc_fd bc" off] assms(2) 1
    by (auto simp: rhandle_def)
  have w2: "fs_wf w2" "rhandle bc x y w2"
    using sys_wf(5) [OF w1(1), of F "bc_fd bc" n] rfile_read [of w1 _ _ F "bc_fd bc" n] w1(2) 2
    by (auto simp: rhandle_def)
  have op: "((r, b), w') = (if k \<noteq> int off then ((-1, []), w1) else ((q, c), w2))"
    using assms(3) m(1) 2 by (auto simp: posix_get_def 1)
  show "fs_wf w'" "rhandle bc x y w'" using op w1 w2 by (auto split: if_splits)
  note sr = seek_read [OF assms(1) m(2) 1 _ 2]
  show "r \<le> int n" "0 \<le> r \<longrightarrow> b = take (nat r) (drop off x) \<and> int (length b) = r"
    using op sr by (auto split: if_splits)
  show "b = take n (drop off x)" if "F (fs_tick w) = None" "F (Suc (fs_tick w)) = None"
  proof -
    have "k = int off" using 1 m(2) that(1) by (auto simp: sys_lseek_def call_def rfile_def fd_file_def split: option.splits)
    then show ?thesis using op sr(3) that(2) by simp
  qed
qed

lemma posix_get_meta_handle:
  assumes "fs_wf w" "rhandle bc x (minfo_text mi @ [NUL]) w" "valid_minfo mi"
    and "posix_get_meta F (Some bc) m0 w = ((r, m), w')"
  shows "fs_wf w'" "rhandle bc x (minfo_text mi @ [NUL]) w'" "r = 0 \<longrightarrow> m = mi"
proof -
  let ?y = "minfo_text mi @ [NUL]"
  obtain ok w1 where 1: "sys_alloc F w = (ok, w1)" by fastforce
  have w1: "fs_wf w1" "rhandle bc x ?y w1"
    using sys_wf(1) [OF assms(1), of F] sys_alloc_frame(3) [of w _ _ F] assms(2) 1 by (auto simp: rhandle_def)
  obtain k w2 where 2: "sys_lseek F (bc_mfd bc) 0 w1 = (k, w2)" by fastforce
  have w2: "fs_wf w2" "rhandle bc x ?y w2"
    using sys_wf(4) [OF w1(1), of F "bc_mfd bc" 0] rfile_lseek [of w1 _ _ F "bc_mfd bc" 0] w1(2) 2
    by (auto simp: rhandle_def)
  obtain q c w3 where 3: "sys_read F (bc_mfd bc) get_minfo_strlen w2 = ((q, c), w3)" by (metis surj_pair)
  have w3: "fs_wf w3" "rhandle bc x ?y w3"
    using sys_wf(5) [OF w2(1), of F "bc_mfd bc" get_minfo_strlen] rfile_read [of w2 _ _ F "bc_mfd bc" get_minfo_strlen] w2(2) 3
    by (auto simp: rhandle_def)
  have len: "length ?y < get_minfo_strlen"
    using length_minfo_text [OF assms(3)] by (simp add: get_minfo_strlen_def)
  have read: "k = 0 \<Longrightarrow> q \<le> int (length ?y) \<and> (0 \<le> q \<longrightarrow> c = take (nat q) ?y)"
  proof -
    assume k: "k = 0"
    have "bc_mfd bc \<noteq> None" using 2 k by (cases "bc_mfd bc") (simp_all add: sys_lseek_def call_def fd_file_def)
    then have rf: "rfile w1 (bc_mfd bc) ?y" using w1(2) by (cases "bc_mfd bc") (simp_all add: rhandle_def)
    note sr = seek_read [OF w1(1) rf 2 _ 3]
    show ?thesis using sr(2) k by auto
  qed
  let ?f = "posix_get_meta_internal F (Some bc)"
  have fill: "?f get_minfo_strlen w1 = (if k \<noteq> 0 then ((-1, []), w2) else ((q, c), w3))"
    using read len 3 by (auto simp: posix_get_meta_internal_def 2)
  have parse: "fst (minfo_parse (take (nat q) c)) = 0 \<Longrightarrow> snd (minfo_parse (take (nat q) c)) = mi" if "k = 0" "0 < q"
  proof -
    assume z: "fst (minfo_parse (take (nat q) c)) = 0"
    have q: "q \<le> int (length ?y)" "c = take (nat q) ?y" using read that by simp_all
    have c: "take (nat q) c = take (nat q) ?y" unfolding q(2) by (simp only: take_take min.idem)
    have lq: "nat q \<le> length ?y" using q(1) by linarith
    have "\<not> nat q \<le> length (minfo_text mi)" using minfo_parse_truncated [OF assms(3), of "nat q"] z c by argo
    then have "length ?y \<le> nat q" by simp
    then have "take (nat q) c = ?y" using c lq by simp
    then show ?thesis using minfo_parse_text [OF assms(3)] by simp
  qed
  have op: "((r, m), w') =
      (if \<not> ok then ((-1, m0), w1)
       else if k \<noteq> 0 then ((-1, minfo_standin), w2)
       else if q \<le> 0 then ((-1, minfo_standin), w3)
       else (minfo_parse (take (nat q) c), w3))"
    using assms(4) read len by (auto simp: posix_get_meta_def 1 dal_get_meta_helper_def fill split: if_splits)
  then show "fs_wf w'" "rhandle bc x ?y w'" using w1 w2 w3 by (auto split: if_splits)
  show "r = 0 \<longrightarrow> m = mi" using op parse by (auto split: if_splits simp: prod_eq_iff)
qed

section \<open>The contract of the interface\<close>

definition posix_writing :: "dal_ctxt \<Rightarrow> dal_location \<Rightarrow> string \<Rightarrow> bctxt \<Rightarrow> string \<Rightarrow> meta_info option \<Rightarrow> pfs \<Rightarrow> bool" where
  "posix_writing dc loc i bc x m w \<longleftrightarrow>
     bc_path bc = obj_path dc loc i \<and>
     (case m of None \<Rightarrow> whandle bc x [] w | Some mi \<Rightarrow> valid_minfo mi \<and> whandle bc x (minfo_text mi @ [NUL]) w)"

definition posix_object :: "dal_ctxt \<Rightarrow> dal_location \<Rightarrow> string \<Rightarrow> string \<Rightarrow> meta_info \<Rightarrow> pfs \<Rightarrow> bool" where
  "posix_object dc loc i x mi w \<longleftrightarrow>
     cstr (obj_path dc loc i) \<and> valid_minfo mi \<and> stored w (obj_path dc loc i) = Some x \<and>
     stored w (obj_path dc loc i @ META_SFX) = Some (minfo_text mi @ [NUL])"

definition posix_reading :: "bctxt \<Rightarrow> string \<Rightarrow> meta_info \<Rightarrow> pfs \<Rightarrow> bool" where
  "posix_reading bc x mi w \<longleftrightarrow> valid_minfo mi \<and> rhandle bc x (minfo_text mi @ [NUL]) w"

lemma posix_dal_simps [simp]:
  "dal_open (posix_dal F dc) = posix_open F (Some dc)"
  "dal_set_meta (posix_dal F dc) = posix_set_meta F" "dal_get_meta (posix_dal F dc) = posix_get_meta F"
  "dal_put (posix_dal F dc) = posix_put F" "dal_get (posix_dal F dc) = posix_get F"
  "dal_abort (posix_dal F dc) = posix_abort F" "dal_close (posix_dal F dc) = posix_close F"
  by (simp_all add: posix_dal_def)

interpretation posix: block_dal "posix_dal F dc" fs_wf "\<lambda>loc i. cstr (obj_path dc loc i)"
  "posix_writing dc" "posix_object dc" posix_reading
  for F dc
proof
  fix w loc i h w'
  assume "fs_wf w" "cstr (obj_path dc loc i)" "dal_open (posix_dal F dc) DAL_WRITE loc i w = (Some h, w')"
  then show "fs_wf w' \<and> posix_writing dc loc i h [] None w'"
    using posix_open_write [of w dc loc i DAL_WRITE F "Some h" w'] by (simp add: posix_writing_def)
next
  fix w loc i h x m b w'
  assume w: "fs_wf w" "posix_writing dc loc i h x m w" and p: "dal_put (posix_dal F dc) (Some h) b w = (0, w')"
  then obtain y where y: "whandle h x y w" "y = (case m of None \<Rightarrow> [] | Some mi \<Rightarrow> minfo_text mi @ [NUL])"
    by (auto simp: posix_writing_def split: option.splits)
  have p': "posix_put F (Some h) b w = (0, w')" using p by simp
  have "fs_wf w'" "whandle h (x @ b) y w'" using posix_put_handle [OF w(1) y(1) p'] by auto
  then show "fs_wf w' \<and> posix_writing dc loc i h (x @ b) m w'"
    using w(2) y(2) by (auto simp: posix_writing_def split: option.splits)
next
  fix w loc i h x mi w'
  assume "fs_wf w" "posix_writing dc loc i h x None w" "valid_minfo mi"
    "dal_set_meta (posix_dal F dc) (Some h) mi w = (0, w')"
  then show "fs_wf w' \<and> posix_writing dc loc i h x (Some mi) w'"
    using posix_set_meta_handle [of w h x mi F 0 w'] by (auto simp: posix_writing_def)
next
  fix w loc i h x mi w'
  assume "fs_wf w" "posix_writing dc loc i h x (Some mi) w" "dal_close (posix_dal F dc) (Some h) w = (0, w')"
  then show "fs_wf w' \<and> posix_object dc loc i x mi w'"
    using posix_close_handle [of w h x "minfo_text mi @ [NUL]" F 0 w']
    by (auto simp: posix_writing_def posix_object_def whandle_def)
next
  fix w loc i x mi h w'
  assume "fs_wf w" "posix_object dc loc i x mi w" "dal_open (posix_dal F dc) DAL_READ loc i w = (Some h, w')"
  then show "fs_wf w' \<and> posix_reading h x mi w'"
    using posix_open_read [of w dc loc i F h w' x "minfo_text mi @ [NUL]"]
    by (simp add: posix_object_def posix_reading_def)
next
  fix w h x mi n off r b w'
  assume "fs_wf w" "posix_reading h x mi w" "dal_get (posix_dal F dc) (Some h) n off w = ((r, b), w')"
  then show "fs_wf w' \<and> posix_reading h x mi w' \<and> r \<le> int n \<and>
      (0 \<le> r \<longrightarrow> b = take (nat r) (drop off x) \<and> int (length b) = r)"
    using posix_get_handle [of w h x "minfo_text mi @ [NUL]" F n off r b w']
    unfolding posix_reading_def posix_dal_simps by blast
next
  fix w h x mi m0 r mr w'
  assume "fs_wf w" "posix_reading h x mi w" "dal_get_meta (posix_dal F dc) (Some h) m0 w = ((r, mr), w')"
  then show "fs_wf w' \<and> posix_reading h x mi w' \<and> (r = 0 \<longrightarrow> mr = mi)"
    using posix_get_meta_handle [of w h x mi F m0 r mr w'] by (simp add: posix_reading_def)
qed

section \<open>Properties\<close>

text \<open>
  C35. A block survives: when the open for writing, all \<^verbatim>\<open>posix_put\<close> calls, \<^verbatim>\<open>posix_set_meta\<close> and
  \<^verbatim>\<open>posix_close\<close> report success, then whatever failures follow, every later \<^verbatim>\<open>posix_get\<close> that reports a
  count returns the bytes that were put, from the offset on, and a \<^verbatim>\<open>posix_get_meta\<close> that reports
  success returns the metadata.\<close>

theorem posix_roundtrip:
  assumes "fs_wf w0" "cstr (obj_path dc loc i)" "valid_minfo mi"
    and "posix_open F (Some dc) DAL_WRITE loc i w0 = (Some h, w1)"
    and "dal_put_all (posix_dal F dc) (Some h) bs w1 = (0, w2)"
    and "posix_set_meta F (Some h) mi w2 = (0, w3)" "posix_close F (Some h) w3 = (0, w4)"
    and "posix_open F (Some dc) DAL_READ loc i w4 = (Some g, w5)"
    and "posix_get F (Some g) n off w5 = ((r, b), w6)" "posix_get_meta F (Some g) m0 w6 = ((rm, m), w7)"
  shows "r \<le> int n \<and> (0 \<le> r \<longrightarrow> b = take (nat r) (drop off (concat bs))) \<and> (rm = 0 \<longrightarrow> m = mi)"
proof -
  have 5: "fs_wf w5" "posix_reading g (concat bs) mi w5"
    using posix.store_fetch [OF assms(1-3), of F h w1 bs w2 w3 w4 g w5] assms(4-8) by simp_all
  have 6: "fs_wf w6 \<and> posix_reading g (concat bs) mi w6 \<and> r \<le> int n \<and>
      (0 \<le> r \<longrightarrow> b = take (nat r) (drop off (concat bs)) \<and> int (length b) = r)"
    using posix.get [OF 5, of F dc n off r b w6] assms(9) unfolding posix_dal_simps by blast
  then have "rm = 0 \<longrightarrow> m = mi"
    using posix.get_meta [of w6 g "concat bs" mi F dc m0 rm m w7] assms(10) by simp
  with 6 show ?thesis by blast
qed


text \<open>The run of the round trip with concrete values.\<close>

definition posix_example_ctxt :: dal_ctxt where
  "posix_example_ctxt =
     (case posix_ctxt ''pod{p}/blk{b}/'' \<lparr>l_pod = 3, l_block = 11, l_cap = 1, l_scatter = 1\<rparr> of
        Some dc \<Rightarrow> dc
      | None \<Rightarrow> \<lparr>dc_dirtmp = [], dc_tmplen = 0, dc_max_loc = \<lparr>l_pod = 0, l_block = 0, l_cap = 0, l_scatter = 0\<rparr>, dc_dirpad = 0\<rparr>)"

definition posix_example_loc :: dal_location where
  "posix_example_loc = \<lparr>l_pod = 2, l_block = 10, l_cap = 0, l_scatter = 1\<rparr>"

definition posix_example_minfo :: meta_info where
  "posix_example_minfo =
     \<lparr>mi_N = 10, mi_E = 2, mi_O = 3, mi_partsz = 4, mi_versz = 9, mi_blocksz = 9, mi_crcsum = 77, mi_totsz = 5\<rparr>"

lemma posix_example_path: "obj_path posix_example_ctxt posix_example_loc ''obj/1'' = ''pod2/blk10/obj#1''"
  by code_simp

lemma posix_example_valid: "valid_minfo posix_example_minfo"
  by (simp add: valid_minfo_def posix_example_minfo_def)

definition posix_example_run :: "((int \<times> string) \<times> int \<times> meta_info) option" where
  "posix_example_run =
     (let F = no_faults; dc = posix_example_ctxt; loc = posix_example_loc; i = ''obj/1'' in
      case posix_open F (Some dc) DAL_WRITE loc i fs_init of (h, w1) \<Rightarrow>
      case dal_put_all (posix_dal F dc) h [''hel'', ''lo''] w1 of (r2, w2) \<Rightarrow>
      case posix_set_meta F h posix_example_minfo w2 of (r3, w3) \<Rightarrow>
      case posix_close F h w3 of (r4, w4) \<Rightarrow>
      case posix_open F (Some dc) DAL_READ loc i w4 of (g, w5) \<Rightarrow>
      case posix_get F g 3 1 w5 of (rb, w6) \<Rightarrow>
      case posix_get_meta F g minfo_standin w6 of (rm, w7) \<Rightarrow>
      if h \<noteq> None \<and> r2 = 0 \<and> r3 = 0 \<and> r4 = 0 \<and> g \<noteq> None then Some (rb, rm) else None)"

lemma posix_example_result: "posix_example_run = Some ((3, ''ell''), 0, posix_example_minfo)"
  by code_simp


theorem posix_roundtrip_witness:
  "\<exists>b m. posix_example_run = Some ((3, b), 0, m) \<and> b = take 3 (drop 1 (concat [''hel'', ''lo''])) \<and> m = posix_example_minfo"
proof -
  let ?F = no_faults and ?dc = posix_example_ctxt and ?loc = posix_example_loc and ?i = "''obj/1''"
  obtain h w1 where 1: "posix_open ?F (Some ?dc) DAL_WRITE ?loc ?i fs_init = (h, w1)" by fastforce
  obtain r2 w2 where 2: "dal_put_all (posix_dal ?F ?dc) h [''hel'', ''lo''] w1 = (r2, w2)" by fastforce
  obtain r3 w3 where 3: "posix_set_meta ?F h posix_example_minfo w2 = (r3, w3)" by fastforce
  obtain r4 w4 where 4: "posix_close ?F h w3 = (r4, w4)" by fastforce
  obtain g w5 where 5: "posix_open ?F (Some ?dc) DAL_READ ?loc ?i w4 = (g, w5)" by fastforce
  obtain r b w6 where 6: "posix_get ?F g 3 1 w5 = ((r, b), w6)" by (metis surj_pair)
  obtain rm m w7 where 7: "posix_get_meta ?F g minfo_standin w6 = ((rm, m), w7)" by (metis surj_pair)
  have run: "(if h \<noteq> None \<and> r2 = 0 \<and> r3 = 0 \<and> r4 = 0 \<and> g \<noteq> None then Some ((r, b), rm, m) else None) =
      Some ((3, ''ell''), 0, posix_example_minfo)"
    using posix_example_result by (simp only: posix_example_run_def Let_def 1 2 3 4 5 6 7 prod.case)
  then obtain h' g' where hg: "h = Some h'" "g = Some g'" "r2 = 0" "r3 = 0" "r4 = 0" "r = 3" "rm = 0"
    by (auto split: if_splits)
  have path: "cstr (obj_path ?dc ?loc ?i)" by (simp add: posix_example_path NUL_def)
  have "r \<le> int 3 \<and> (0 \<le> r \<longrightarrow> b = take (nat r) (drop 1 (concat [''hel'', ''lo'']))) \<and> (rm = 0 \<longrightarrow> m = posix_example_minfo)"
    using posix_roundtrip [OF fs_wf_init path posix_example_valid] 1 2 3 4 5 6 7 unfolding hg by blast
  then show ?thesis using posix_example_result hg run by auto
qed

text \<open>
  Every sequence of puts, successful or not, leaves the names of other files alone and stores a prefix
  of the data.
\<close>

lemma put_all_handle:
  assumes "fs_wf w" "whandle bc x y w" "dal_put_all (posix_dal F dc) (Some bc) bs w = (r, w')"
  shows "fs_wf w' \<and> frame (wset bc) w w' \<and> 
    (\<exists>z. whandle bc (x @ z) y w' \<and> (r = 0 \<longrightarrow> z = concat bs) \<and> prefix z (concat bs))"
  using assms
proof (induction bs arbitrary: x w)
  case (Cons b bs)
  obtain k w1 where 1: "posix_put F (Some bc) b w = (k, w1)" by fastforce
  note p = posix_put_handle [OF Cons.prems(1,2) 1]
  obtain c where c: "whandle bc (x @ c) y w1" "k = 0 \<longrightarrow> c = b" "prefix c b" using p(3) by blast
  show ?case
  proof (cases "k = 0")
    case True
    then have "dal_put_all (posix_dal F dc) (Some bc) bs w1 = (r, w')" using Cons.prems(3) by (simp add: 1)
    from Cons.IH [OF p(1) c(1) this] obtain z where z: "fs_wf w'" "frame (wset bc) w1 w'"
        "whandle bc ((x @ c) @ z) y w'" "r = 0 \<longrightarrow> z = concat bs" "prefix z (concat bs)" by blast
    have "prefix (c @ z) (concat (b # bs))" using c(2) True z(5) by simp
    moreover have "frame (wset bc) w w'" by (rule fs_frame_trans [OF p(2) z(2)])
    ultimately show ?thesis using z(1,3,4) c(2) True by (intro conjI exI [of _ "c @ z"]) auto
  next
    case False
    then have "w' = w1" "r = -1" using Cons.prems(3) by (simp_all add: 1)
    moreover have "prefix c (concat (b # bs))" using c(3) by simp
    ultimately show ?thesis using p(1,2) c(1) by (intro conjI exI [of _ c]) auto
  qed
qed auto

text \<open>
  C36. What a handle for writing or rebuilding can do to the stored blocks, whatever system calls fail.
  Up to the close no file changes but the two working files, so an abandoned handle leaves every
  stored block as it was. A close replaces at most the block of the handle: the data file stays or
  becomes, in one step, what the puts stored, which is a prefix of the data and all of it when they
  reported success. When the close reports a failure the metadata file stays; when it reports
  success the data file has been replaced, and the metadata file is the new one if the call that
  set the metadata reported success. A close does not know of a failed put and then commits the
  prefix.\<close>

theorem posix_write_atomic:
  assumes "fs_wf w" "cstr (obj_path dc loc i)" "mode = DAL_WRITE \<or> mode = DAL_REBUILD" "valid_minfo mi"
    and "posix_open F (Some dc) mode loc i w = (Some bc, w1)"
    and "dal_put_all (posix_dal F dc) (Some bc) bs w1 = (r2, w2)" "posix_set_meta F (Some bc) mi w2 = (r3, w3)"
  shows "(\<forall>q. q \<notin> {wpath bc, mpath bc} \<longrightarrow>
      stored w3 q = stored w q \<and> stored (snd (posix_abort F (Some bc) w3)) q = stored w q) \<and>
    (\<forall>r w4. posix_close F (Some bc) w3 = (r, w4) \<longrightarrow>
      (\<forall>q. q \<notin> {wpath bc, mpath bc, bc_path bc, bc_path bc @ META_SFX} \<longrightarrow> stored w4 q = stored w q) \<and>
      (\<exists>z. let old = stored w (bc_path bc); oldm = stored w (bc_path bc @ META_SFX);
           new = stored w4 (bc_path bc); newm = stored w4 (bc_path bc @ META_SFX) in
       prefix z (concat bs) \<and> (r2 = 0 \<longrightarrow> z = concat bs) \<and>
       (if r = 0 then new = Some z \<and> (r3 = 0 \<longrightarrow> newm = Some (minfo_text mi @ [NUL]))
        else newm = oldm \<and> (new = old \<or> new = Some z))))"
proof -
  note o = posix_open_write [OF assms(1,2,3,5)]
  have h1: "whandle bc [] [] w1" "bc_path bc = obj_path dc loc i" "bc_mode bc = mode" using o(3) by simp_all
  from put_all_handle [OF o(1) h1(1) assms(6)] obtain z where
    z: "fs_wf w2" "frame (wset bc) w1 w2" "whandle bc z [] w2" "r2 = 0 \<longrightarrow> z = concat bs"
      "prefix z (concat bs)" by auto
  note s = posix_set_meta_handle [OF z(1,3) assms(4,7)]
  obtain c where c: "whandle bc z c w3" "r3 = 0 \<longrightarrow> c = minfo_text mi @ [NUL]" using s(3) by blast
  have f1: "frame (wset bc) w w1" using o(2) h1(2,3) by simp
  have f3: "frame (wset bc) w w3" using f1 z(2) s(2) fs_frame_trans by blast
  have abort: "stored w3 q = stored w q \<and> stored (snd (posix_abort F (Some bc) w3)) q = stored w q"
    if "q \<notin> {wpath bc, mpath bc}" for q
    using frame_stored [OF f3 that] posix_abort_handle(3) [OF s(1) c(1), of F] by (metis prod.collapse)
  have close: "(\<forall>q. q \<notin> cset bc \<longrightarrow> stored w4 q = stored w q) \<and>
      (\<exists>z. let old = stored w (bc_path bc); oldm = stored w (bc_path bc @ META_SFX);
           new = stored w4 (bc_path bc); newm = stored w4 (bc_path bc @ META_SFX) in
       prefix z (concat bs) \<and> (r2 = 0 \<longrightarrow> z = concat bs) \<and>
       (if r = 0 then new = Some z \<and> (r3 = 0 \<longrightarrow> newm = Some (minfo_text mi @ [NUL]))
        else newm = oldm \<and> (new = old \<or> new = Some z)))"
    if close: "posix_close F (Some bc) w3 = (r, w4)" for r w4
  proof -
  note k = posix_close_handle [OF s(1) c(1) close]
  have f4: "frame (cset bc) w w4" by (rule fs_frame_trans [OF frame_mono [OF f3] k(2)]) simp
  have "stored w3 (bc_path bc) = stored w (bc_path bc)"
    "stored w3 (bc_path bc @ META_SFX) = stored w (bc_path bc @ META_SFX)"
    using frame_stored [OF f3, of "bc_path bc"] frame_stored [OF f3, of "bc_path bc @ META_SFX"] by simp_all
    then show ?thesis
      using frame_stored [OF f4] k(3) c(2) z(4,5)
      by (intro conjI exI [of _ z]) (auto simp: Let_def split: if_splits)
  qed
  show ?thesis using abort close by blast
qed

text \<open>The same for a run in which the second put fails after one byte.\<close>

definition posix_example_faults :: faults where
  "posix_example_faults t = (if t = 5 then Some 1 else None)"

definition posix_example_broken :: "bctxt option \<times> int \<times> int \<times> pfs" where
  "posix_example_broken =
     (let F = posix_example_faults; dc = posix_example_ctxt in
      case posix_open F (Some dc) DAL_WRITE posix_example_loc ''obj/1'' fs_init of (h, w1) \<Rightarrow>
      case dal_put_all (posix_dal F dc) h [''hel'', ''lo''] w1 of (r2, w2) \<Rightarrow>
      case posix_set_meta F h posix_example_minfo w2 of (r3, w3) \<Rightarrow> (h, r2, r3, w3))"

lemma posix_example_broken_result:
  "(case posix_example_broken of (h, r2, r3, w3) \<Rightarrow>
      (map_option bc_path h, map_option bc_mode h, r2, r3, stored w3 ''pod2/blk10/obj#1.partial'')) =
   (Some ''pod2/blk10/obj#1'', Some DAL_WRITE, -1, 0, Some ''hell'')"
  by code_simp

theorem posix_write_atomic_witness:
  "(case posix_example_broken of (h, r2, r3, w3) \<Rightarrow>
      r2 = -1 \<and> stored w3 ''pod2/blk10/obj#1'' = stored fs_init ''pod2/blk10/obj#1'' \<and>
      stored (snd (posix_abort posix_example_faults h w3)) ''pod2/blk10/obj#1'' = stored fs_init ''pod2/blk10/obj#1'')"
proof -
  let ?F = posix_example_faults and ?dc = posix_example_ctxt and ?i = "''obj/1''" and ?q = "''pod2/blk10/obj#1''"
  obtain h w1 where 1: "posix_open ?F (Some ?dc) DAL_WRITE posix_example_loc ?i fs_init = (h, w1)" by fastforce
  obtain r2 w2 where 2: "dal_put_all (posix_dal ?F ?dc) h [''hel'', ''lo''] w1 = (r2, w2)" by fastforce
  obtain r3 w3 where 3: "posix_set_meta ?F h posix_example_minfo w2 = (r3, w3)" by fastforce
  have br: "posix_example_broken = (h, r2, r3, w3)" by (simp only: posix_example_broken_def Let_def 1 2 3 prod.case)
  obtain bc where bc: "h = Some bc" "bc_path bc = ?q" "bc_mode bc = DAL_WRITE" "r2 = -1"
    using posix_example_broken_result by (auto simp: br)
  have path: "cstr (obj_path ?dc posix_example_loc ?i)" by (simp add: posix_example_path NUL_def)
  have "?q \<notin> {wpath bc, mpath bc}" unfolding bc(2,3) by (simp add: sfx_defs)
  then have "stored w3 ?q = stored fs_init ?q \<and> stored (snd (posix_abort ?F (Some bc) w3)) ?q = stored fs_init ?q"
    using posix_write_atomic [OF fs_wf_init path _ posix_example_valid 1 [unfolded bc(1)] 2 [unfolded bc(1)]
      3 [unfolded bc(1)]] by blast
  then show ?thesis using bc by (simp add: br)
qed

section \<open>Paths\<close>

text \<open>A location that the limits allow, without negative numbers.\<close>

definition loc_ok :: "dal_location \<Rightarrow> dal_location \<Rightarrow> bool" where
  "loc_ok loc mx \<longleftrightarrow>
     0 \<le> l_pod loc \<and> 0 \<le> l_block loc \<and> 0 \<le> l_cap loc \<and> 0 \<le> l_scatter loc \<and> check_loc_limits loc mx = 0"

lemma length_fill5 [simp]: "length (fill5 v) = length (show_int v)"
  by (simp add: fill5_def)

lemma num_digits_bound:
  assumes "0 \<le> v" "v \<le> m" "num_digits m \<ge> 1"
  shows "int (length (show_int v)) \<le> num_digits m"
proof -
  have l: "length (show_int v) \<le> k" if "0 < k" "v < 10 ^ k" for k
    using that assms(1) length_show_nat_le [of k "nat v"] by (simp add: show_int_def nat_less_iff)
  show ?thesis
    using assms(2,3) l [of 1] l [of 2] l [of 3] l [of 4] l [of 5]
    by (auto simp: num_digits_def split: if_splits)
qed

lemma subst_bound:
  assumes "loc_ok loc mx" "posix_ctxt tmp mx = Some dc" "subst_val loc c = Some v"
  shows "int (length (show_int v)) \<le> subst_increase mx c" "0 < subst_increase mx c" "c \<noteq> CHR ''{''"
proof -
  have "num_digits (l_pod mx) \<ge> 1" "num_digits (l_cap mx) \<ge> 1" "num_digits (l_block mx) \<ge> 1" "num_digits (l_scatter mx) \<ge> 1"
    using assms(2) by (auto simp: posix_ctxt_def split: if_splits)
  then show "int (length (show_int v)) \<le> subst_increase mx c" "0 < subst_increase mx c" "c \<noteq> CHR ''{''"
    using assms(1,3) num_digits_bound
    by (auto simp: loc_ok_def check_loc_limits_def subst_val_def subst_increase_def split: if_splits)
qed

lemma subst_none: "subst_val loc c = None \<Longrightarrow> subst_increase mx c = 0"
  by (auto simp: subst_val_def subst_increase_def split: if_splits)

lemma expand_loop_length:
  assumes "loc_ok loc mx" "posix_ctxt tmp mx = Some dc" "CHR 0x5C \<notin> set p"
    and "expand_loop loc p False out e fl = (out', e', fl')"
  shows "int (length out') \<le> int (length out) + int (length p) + dirpad_of mx p"
  using assms(3,4)
proof (induction "length p" arbitrary: p out e fl rule: less_induct)
  case less
  show ?case
  proof (cases p)
    case Nil
    then show ?thesis using less.prems by (simp add: expand_loop.simps)
  next
    case (Cons c s)
    have bs: "c \<noteq> CHR 0x5C" "CHR 0x5C \<notin> set s" using less.prems(1) Cons by auto
    have IH: "int (length out') \<le> int (length o2) + int (length q) + dirpad_of mx q"
      if "expand_loop loc q False o2 e2 f2 = (out', e', fl')" "length q < length p" "set q \<subseteq> set s" for q o2 e2 f2
      using less.hyps [OF that(2) _ that(1)] bs(2) that(3) by blast
    show ?thesis
    proof (cases "c = CHR ''{''")
      case False
      obtain e2 where ex: "expand_loop loc s False (out @ [c]) e2 fl = (out', e', fl')"
        using less.prems(2) bs(1) False by (subst (asm) expand_loop.simps) (auto simp: Cons split: if_splits)
      show ?thesis using IH [OF ex] False by (simp add: Cons)
    next
      case True
      show ?thesis
      proof (cases "subst_val loc (peek s) = None \<or> peek (tl s) \<noteq> CHR ''}''")
        case lit: True
        obtain f2 where ex: "expand_loop loc s False (out @ ''{'') e f2 = (out', e', fl')"
          using less.prems(2) True lit by (subst (asm) expand_loop.simps) (auto simp: Cons split: option.splits if_splits)
        have "dirpad_of mx p = dirpad_of mx s" using lit subst_none [of loc "peek s" mx] Cons by auto
        then show ?thesis using IH [OF ex] by (simp add: Cons)
      next
        case False
        then obtain v where v: "subst_val loc (peek s) = Some v" "peek (tl s) = CHR ''}''" by auto
        note b = subst_bound [OF assms(1,2) v(1)]
        obtain x r where s: "s = x # CHR ''}'' # r"
          using v by (cases s; cases "tl s") (auto simp: subst_val_def NUL_def)
        have ex: "expand_loop loc r False (out @ fill5 v) e (subst_flag x fl) = (out', e', fl')"
          using less.prems(2) True v by (subst (asm) expand_loop.simps) (simp add: Cons s)
        have "dirpad_of mx p = subst_increase mx x - 3 + dirpad_of mx r"
          using b True by (simp add: Cons s)
        then show ?thesis using IH [OF ex] b(1) by (simp add: Cons s subset_iff)
      qed
    qed
  qed
qed

text \<open>
  C37. The buffer for a path is large enough: for a template without a backslash and a location within
  the limits of the configuration, the path of an object with both suffixes and its NUL fits the
  buffer that \<^verbatim>\<open>expand_dir_template\<close> allocates.\<close>

theorem posix_path_fits:
  assumes "posix_ctxt tmp mx = Some dc" "loc_ok loc mx" "CHR 0x5C \<notin> set tmp"
  shows "int (length (obj_path dc loc i @ META_SFX @ WRITE_SFX)) + 1 \<le> path_space dc i"
proof -
  obtain out e fl where ex: "expand_loop loc tmp False [] 0 \<lparr>f_pod = False, f_block = False, f_cap = False, f_scatter = False\<rparr> =
      (out, e, fl)" by (metis surj_pair)
  have dc: "dc_dirtmp dc = tmp" "dc_tmplen dc = int (length tmp)" "dc_dirpad dc = dirpad_of mx tmp"
    using assms(1) by (auto simp: posix_ctxt_def split: if_splits)
  have "obj_path dc loc i = out @ map objid_char i" by (simp add: obj_path_def expand_path_def dc ex)
  moreover have "int (length out) \<le> int (length tmp) + dirpad_of mx tmp"
    using expand_loop_length [OF assms(2,1,3) ex] by simp
  ultimately show ?thesis by (simp add: path_space_def dc SFX_PADDING_def sfx_defs)
qed

theorem posix_path_fits_witness:
  "int (length (obj_path posix_example_ctxt posix_example_loc ''obj/1'' @ META_SFX @ WRITE_SFX)) + 1
    \<le> path_space posix_example_ctxt ''obj/1''"
proof (rule posix_path_fits)
  let ?mx = "\<lparr>l_pod = 3, l_block = 11, l_cap = 1, l_scatter = 1\<rparr>"
  show "posix_ctxt ''pod{p}/blk{b}/'' ?mx = Some posix_example_ctxt"
    by (simp add: posix_example_ctxt_def posix_ctxt_def num_digits_def)
  show "loc_ok posix_example_loc ?mx" by (simp add: loc_ok_def posix_example_loc_def check_loc_limits_def)
qed simp

text \<open>With an escaped substitution in the template the buffer is too small.\<close>

lemma posix_path_overflow:
  "\<exists>dc. posix_ctxt ([CHR 0x5C] @ ''{p}'' @ [CHR 0x5C] @ ''{p}/'') \<lparr>l_pod = 3, l_block = 3, l_cap = 3, l_scatter = 3\<rparr> = Some dc \<and>
     path_space dc i < int (length (obj_path dc loc i @ META_SFX @ WRITE_SFX)) + 1"
  by (simp add: posix_ctxt_def num_digits_def obj_path_def expand_path_def expand_loop.simps path_space_def
      SFX_PADDING_def sfx_defs subst_increase_def subst_val_def)

lemma expand_loop_extends:
  "expand_loop loc p escp out e fl = (out', e', fl') \<Longrightarrow> \<exists>x. out' = out @ x"
proof (induction "length p" arbitrary: p escp out e fl rule: less_induct)
  case less
  show ?case
  proof (cases p)
    case Nil
    then show ?thesis using less.prems by (simp add: expand_loop.simps)
  next
    case (Cons c s)
    have IH: "\<exists>x. out' = o2 @ x" if "expand_loop loc q es o2 e2 f2 = (out', e', fl')" "length q < length p" for q es o2 e2 f2
      using less.hyps that by blast
    have "\<exists>q es y e2 f2. expand_loop loc q es (out @ y) e2 f2 = (out', e', fl') \<and> length q < length p"
    proof -
      have "expand_loop loc s b out e fl = (out', e', fl') \<Longrightarrow> ?thesis" for b
        by (intro exI [of _ s] exI [of _ b] exI [of _ "[]"] exI [of _ e] exI [of _ fl]) (simp add: Cons)
      moreover have "expand_loop loc s b (out @ y) e2 f2 = (out', e', fl') \<Longrightarrow> ?thesis" for b y e2 f2
        by (intro exI [of _ s] exI [of _ b] exI [of _ y] exI [of _ e2] exI [of _ f2]) (simp add: Cons)
      moreover have "expand_loop loc (tl (tl s)) b (out @ y) e2 f2 = (out', e', fl') \<Longrightarrow> ?thesis" for b y e2 f2
        by (intro exI [of _ "tl (tl s)"] exI [of _ b] exI [of _ y] exI [of _ e2] exI [of _ f2]) (simp add: Cons)
      ultimately show ?thesis
        using less.prems by (subst (asm) expand_loop.simps) (auto simp: Cons split: if_splits option.splits)
    qed
    then obtain q es y e2 f2 where "expand_loop loc q es (out @ y) e2 f2 = (out', e', fl')" "length q < length p" by blast
    then show ?thesis using IH by fastforce
  qed
qed

lemma expand_loop_plain:
  assumes "CHR ''{'' \<notin> set pre" "CHR 0x5C \<notin> set pre"
  shows "\<exists>e2. expand_loop loc (pre @ s) False out e fl = expand_loop loc s False (out @ pre) e2 fl"
  using assms
proof (induction pre arbitrary: out e)
  case (Cons c pre)
  have "\<exists>e2. expand_loop loc (c # pre @ s) False out e fl = expand_loop loc (pre @ s) False (out @ [c]) e2 fl"
    using Cons.prems by (subst expand_loop.simps) auto
  then show ?case using Cons.IH [of "out @ [c]"] Cons.prems by fastforce
qed auto

text \<open>
  C38. Numbers with five digits break the storage, although \<^verbatim>\<open>num_digits\<close> admits them: when the first
  substitution of the template is such a number, the path the system sees ends behind four of its
  digits. It holds neither the object identifier nor a suffix, so that all objects of up to ten
  locations, their data, metadata and working files, share one file name.\<close>

theorem posix_path_truncated:
  assumes "dc_dirtmp dc = pre @ CHR ''{'' # k # CHR ''}'' # post" "CHR ''{'' \<notin> set pre" "CHR 0x5C \<notin> set pre" "cstr pre"
    and "subst_val loc k = Some v" "9999 < v"
  shows "c_path (obj_path dc loc i) sfx = pre @ take 4 (show_int v)"
proof -
  let ?fl = "\<lparr>f_pod = False, f_block = False, f_cap = False, f_scatter = False\<rparr>"
  obtain e2 where "expand_loop loc (dc_dirtmp dc) False [] 0 ?fl =
      expand_loop loc (CHR ''{'' # k # CHR ''}'' # post) False pre e2 ?fl"
    using expand_loop_plain [OF assms(2,3), of loc "CHR ''{'' # k # CHR ''}'' # post" "[]" 0 ?fl] unfolding assms(1) by auto
  also have "\<dots> = expand_loop loc post False (pre @ fill5 v) e2 (subst_flag k ?fl)"
    using assms(5) by (subst expand_loop.simps) simp
  finally obtain out e fl where ex: "expand_loop loc (dc_dirtmp dc) False [] 0 ?fl = (out, e, fl)"
      "expand_loop loc post False (pre @ fill5 v) e2 (subst_flag k ?fl) = (out, e, fl)" by (metis surj_pair)
  obtain x where x: "out = (pre @ fill5 v) @ x" using expand_loop_extends [OF ex(2)] by blast
  have "4 < length (show_int v)"
    using assms(6) length_show_base_ge [of 10 4 "nat v"] by (simp add: show_int_def show_nat_def)
  then obtain r where r: "fill5 v = take 4 (show_int v) @ NUL # replicate r NUL"
    using Suc_diff_Suc [of 4 "length (show_int v)"] by (metis fill5_def replicate_Suc)
  have c: "cstr (pre @ take 4 (show_int v))"
    using assms(4) cstr_show_int [of v] by (auto simp: cstr_def dest: in_set_takeD)
  have "c_path (obj_path dc loc i) sfx = takeWhile (\<lambda>c. c \<noteq> NUL)
      ((pre @ take 4 (show_int v)) @ NUL # replicate r NUL @ x @ map objid_char i @ sfx)"
    by (simp add: c_path_def obj_path_def expand_path_def ex(1) x r)
  also have "\<dots> = pre @ take 4 (show_int v)"
    using c by (subst takeWhile_append2) (auto simp: cstr_def)
  finally show ?thesis .
qed

theorem posix_path_truncated_witness:
  "\<exists>dc. posix_ctxt ''scat{s}/'' \<lparr>l_pod = 1, l_block = 1, l_cap = 1, l_scatter = 20000\<rparr> = Some dc \<and>
     c_path (obj_path dc \<lparr>l_pod = 0, l_block = 0, l_cap = 0, l_scatter = 12345\<rparr> ''objA'') META_SFX = ''scat1234'' \<and>
     c_path (obj_path dc \<lparr>l_pod = 0, l_block = 0, l_cap = 0, l_scatter = 12347\<rparr> ''objB'') [] = ''scat1234''"
proof -
  let ?mx = "\<lparr>l_pod = 1, l_block = 1, l_cap = 1, l_scatter = 20000\<rparr>"
  let ?dc = "\<lparr>dc_dirtmp = ''scat{s}/'', dc_tmplen = 8, dc_max_loc = ?mx, dc_dirpad = dirpad_of ?mx ''scat{s}/''\<rparr>"
  have ch: "char_of (49 :: nat) = CHR ''1''" "char_of (50 :: nat) = CHR ''2''" "char_of (51 :: nat) = CHR ''3''"
    "char_of (52 :: nat) = CHR ''4''" by code_simp+
  have 4: "take 4 (show_int 12345) = ''1234''" "take 4 (show_int 12347) = ''1234''"
    by (simp_all add: show_int_def show_nat_def show_base.simps [of 10 12345] show_base.simps [of 10 12347]
        show_base.simps [of 10 1234] show_base.simps [of 10 123] show_base.simps [of 10 12] show_base.simps [of 10 1]
        digit_char_def ch del: One_nat_def)
  have "c_path (obj_path ?dc \<lparr>l_pod = 0, l_block = 0, l_cap = 0, l_scatter = 12345\<rparr> ''objA'') META_SFX =
      ''scat'' @ take 4 (show_int 12345)"
    by (rule posix_path_truncated [where k = "CHR ''s''" and post = "''/''"]) (simp_all add: subst_val_def NUL_def)
  moreover have "c_path (obj_path ?dc \<lparr>l_pod = 0, l_block = 0, l_cap = 0, l_scatter = 12347\<rparr> ''objB'') [] =
      ''scat'' @ take 4 (show_int 12347)"
    by (rule posix_path_truncated [where k = "CHR ''s''" and post = "''/''"]) (simp_all add: subst_val_def NUL_def)
  ultimately show ?thesis
    unfolding 4 by (intro exI [of _ ?dc]) (simp add: posix_ctxt_def num_digits_def)
qed

lemma posix_get_exact:
  assumes "fs_wf w" "posix_reading h x mi w" "off + n \<le> length x"
  shows "fst (posix_get no_faults (Some h) n off w) = (int n, take n (drop off x))"
proof -
  have m: "bc_mode h = DAL_READ" "rfile w (bc_fd h) x" using assms(2) by (simp_all add: posix_reading_def rhandle_def)
  obtain k w1 where 1: "sys_lseek no_faults (bc_fd h) off w = (k, w1)" by fastforce
  have k: "k = int off" using 1 m(2) by (auto simp: sys_lseek_def call_def rfile_def fd_file_def split: option.splits)
  obtain r b w2 where 2: "sys_read no_faults (bc_fd h) n w1 = ((r, b), w2)" by (metis surj_pair)
  have "b = take n (drop off x)" "r = int (length b)" using seek_read(3) [OF assms(1) m(2) 1 k 2] by simp_all
  then show ?thesis using assms(3) k 2 m(1) by (simp add: posix_get_def 1)
qed

interpretation posix_calm: exact_dal "posix_dal no_faults dc" fs_wf "\<lambda>loc i. cstr (obj_path dc loc i)"
  "posix_writing dc" "posix_object dc" posix_reading
  for dc
  by unfold_locales (simp add: posix_get_exact)

end
