(* ===== verification/IOThreads.thy ===== *)
theory IOThreads
  imports IOQueue PosixDal
begin

text \<open>
  The threads of the erasure layer that write and read one block, \<^verbatim>\<open>src/io/iothreads.c\<close>: the callbacks
  that the thread queue runs. A writer appends a checksum to each buffer and hands both to the
  data abstraction; a reader takes them back, verifies the checksum and fills buffers.

  The data abstraction is the argument \<open>d\<close>, with its state \<open>'w\<close> in the state of the thread. The
  checksum \<^verbatim>\<open>crc32_ieee(CRC_SEED, ...)\<close> of the library ISA-L is the argument \<open>crc\<close>. The outcome of the
  calls on locks is an argument too: \<open>le_erasure\<close> and \<open>le_unerasure\<close> for the lock around the library,
  \<open>le_queue\<close> for the lock of the buffer queue.

  The callback of a reader that returns -1 leaves the reference to the work package as it was; the
  model has \<open>None\<close> there, since the thread queue aborts and hands over nothing.
\<close>

section \<open>State\<close>

record lockenv =
  le_erasure :: bool
  le_unerasure :: bool
  le_queue :: bool

definition locks_ok :: lockenv where
  "locks_ok = \<lparr>le_erasure = True, le_unerasure = True, le_queue = True\<rparr>"

text \<open>\<^verbatim>\<open>gthread_state\<close>, shared with the owner of the block, and \<^verbatim>\<open>thread_state\<close>.\<close>

record gthread_state =
  gs_objID :: string
  gs_location :: dal_location
  gs_dmode :: dal_mode
  gs_offset :: nat
  gs_minfo :: meta_info
  gs_meta_error :: bool
  gs_data_error :: bool
  gs_ioq :: "ioqueue option"

record 'h thread_state =
  ts_offset :: int
  ts_handle :: "'h option"
  ts_iob :: "nat option"
  ts_crcsumchk :: nat
  ts_continuous :: bool

record ('w, 'h) io_state =
  io_g :: gthread_state
  io_t :: "'h thread_state"
  io_w :: 'w

section \<open>Checksums in buffers\<close>

text \<open>A \<^verbatim>\<open>uint32_t\<close> stored and loaded at an offset, the lowest byte first.\<close>

definition u32_bytes :: "u32 \<Rightarrow> string" where
  "u32_bytes c = map (\<lambda>i. char_of (unat c div 256 ^ i mod 256)) [0..<4]"

definition u32_at :: "nat \<Rightarrow> string \<Rightarrow> u32" where
  "u32_at off buf = of_nat (\<Sum>i\<leftarrow>[0..<4]. of_char (buf ! (off + i)) * 256 ^ i)"

section \<open>Start of a thread\<close>

definition data_error :: "('w, 'h) io_state \<Rightarrow> ('w, 'h) io_state" where
  "data_error st = st\<lparr>io_g := (io_g st)\<lparr>gs_data_error := True\<rparr>\<rparr>"

definition write_init ::
  "('w, 'h) dal \<Rightarrow> bool \<Rightarrow> nat \<Rightarrow> gthread_state \<Rightarrow> 'w \<Rightarrow> int \<times> gthread_state \<times> 'h thread_state option \<times> 'w" where
  "write_init d ok tID gs w =
     (if tID > 0 then (-1, gs, None, w)
      else if \<not> ok then (-1, gs, None, w)
      else
        (let gs1 = gs\<lparr>gs_offset := 0, gs_data_error := False, gs_meta_error := False,
               gs_minfo := (gs_minfo gs)\<lparr>mi_blocksz := 0, mi_crcsum := 0\<rparr>\<rparr>
         in case dal_open d (gs_dmode gs) (gs_location gs) (gs_objID gs) w of (h, w1) \<Rightarrow>
            (0, (if h = None then gs1\<lparr>gs_data_error := True\<rparr> else gs1),
             Some \<lparr>ts_offset = 0, ts_handle = h, ts_iob = None, ts_crcsumchk = 0, ts_continuous = True\<rparr>, w1)))"

definition read_init ::
  "('w, 'h) dal \<Rightarrow> bool \<Rightarrow> nat \<Rightarrow> gthread_state \<Rightarrow> 'w \<Rightarrow> int \<times> gthread_state \<times> 'h thread_state option \<times> 'w" where
  "read_init d ok tID gs w =
     (if tID > 0 then (-1, gs, None, w)
      else if \<not> ok then (-1, gs, None, w)
      else
        (case dal_open d (gs_dmode gs) (gs_location gs) (gs_objID gs) w of (h, w1) \<Rightarrow>
         case (case h of
                 Some _ \<Rightarrow> (h, gs, w1)
               | None \<Rightarrow>
                   (case dal_open d DAL_METAREAD (gs_location gs) (gs_objID gs) w1 of (h2, w2) \<Rightarrow>
                      (h2, gs\<lparr>gs_data_error := True, gs_meta_error := (gs_meta_error gs \<or> h2 = None)\<rparr>, w2))) of (h', gs1, w2) \<Rightarrow>
         case (if mi_totsz (gs_minfo gs1) = 0 then
                 (case dal_get_meta d h' (gs_minfo gs1) w2 of ((r, mi), w3) \<Rightarrow>
                    (gs1\<lparr>gs_minfo := mi, gs_meta_error := (gs_meta_error gs1 \<or> r \<noteq> 0)\<rparr>, w3))
               else (gs1, w2)) of (gs2, w3) \<Rightarrow>
         (0, gs2,
          Some \<lparr>ts_offset = int (gs_offset gs), ts_handle = h', ts_iob = None, ts_crcsumchk = 0,
            ts_continuous = (gs_offset gs = 0)\<rparr>, w3)))"

section \<open>Writing\<close>

definition with_ioq :: "(ioqueue \<Rightarrow> int \<times> ioqueue) \<Rightarrow> ('w, 'h) io_state \<Rightarrow> int \<times> ('w, 'h) io_state" where
  "with_ioq f st =
     (case gs_ioq (io_g st) of
        None \<Rightarrow> (-1, st)
      | Some q \<Rightarrow> (case f q of (r, q') \<Rightarrow> (r, st\<lparr>io_g := (io_g st)\<lparr>gs_ioq := Some q'\<rparr>\<rparr>)))"

text \<open>The early returns of \<^verbatim>\<open>write_consume\<close>: note the error and release the buffer.\<close>

definition write_giveup :: "lockenv \<Rightarrow> ('w, 'h) io_state \<Rightarrow> int \<times> ('w, 'h) io_state" where
  "write_giveup le st = (-1, snd (with_ioq (release_ioblock (le_queue le)) (data_error st)))"

definition write_release :: "lockenv \<Rightarrow> ('w, 'h) io_state \<Rightarrow> int \<times> ('w, 'h) io_state" where
  "write_release le st =
     (case with_ioq (release_ioblock (le_queue le)) st of (r, st') \<Rightarrow> if r \<noteq> 0 then (-1, data_error st') else (0, st'))"

text \<open>The buffer with its checksum is written unless a write has failed before.\<close>

definition write_put :: "('w, 'h) dal \<Rightarrow> string \<Rightarrow> u32 \<Rightarrow> ('w, 'h) io_state \<Rightarrow> ('w, 'h) io_state" where
  "write_put d buf c st =
     (let g = io_g st; mi = gs_minfo g;
          g1 = g\<lparr>gs_minfo := mi\<lparr>mi_crcsum := to_i64 (mi_crcsum mi + uint c), mi_blocksz := to_i64 (mi_blocksz mi + int (length buf))\<rparr>\<rparr>;
          st1 = st\<lparr>io_g := g1\<rparr>
      in if gs_data_error g then st1
         else
           (case dal_put d (ts_handle (io_t st)) buf (io_w st) of (r, w1) \<Rightarrow>
              if r \<noteq> 0 then data_error (st1\<lparr>io_w := w1\<rparr>) else st1\<lparr>io_w := w1\<rparr>))"

text \<open>
  \<^verbatim>\<open>write_consume\<close> for the buffer \<open>i\<close>. The comparison with the size of an I/O is one of unsigned
  numbers. A checksum behind the end of the buffer is undefined.
\<close>

definition write_consume ::
  "(string \<Rightarrow> u32) \<Rightarrow> ('w, 'h) dal \<Rightarrow> lockenv \<Rightarrow> nat \<Rightarrow> ('w, 'h) io_state \<Rightarrow> c_error + int \<times> ('w, 'h) io_state" where
  "write_consume crc d le i st =
     (case gs_ioq (io_g st) of
        None \<Rightarrow> Inl UB
      | Some q \<Rightarrow>
          (case ioblock_read_target i q of (buf, datasz, _) \<Rightarrow>
           if datasz > nat ((mi_versz (gs_minfo (io_g st)) - int CRC_BYTES) mod 2 ^ 64) then Inr (write_giveup le st)
           else if datasz > 0 then
             (if \<not> le_erasure le then Inr (write_giveup le st)
              else if datasz + CRC_BYTES > length buf then Inl UB
              else
                (let c = crc (take datasz buf);
                     buf' = buf_store datasz (u32_bytes c) buf;
                     st1 = st\<lparr>io_g := (io_g st)\<lparr>gs_ioq := Some (set_block i (\<lambda>b. b\<lparr>ib_buff := buf'\<rparr>) q)\<rparr>\<rparr>
                 in if \<not> le_unerasure le then Inr (write_giveup le st1)
                    else Inr (write_release le (write_put d (take (datasz + CRC_BYTES) buf') c st1))))
           else Inr (write_release le st)))"

text \<open>\<open>pw\<close>: the thread still holds a buffer that was never consumed; \<open>abrt\<close>: the queue was aborted.\<close>

definition write_term :: "('w, 'h) dal \<Rightarrow> lockenv \<Rightarrow> bool \<Rightarrow> bool \<Rightarrow> ('w, 'h) io_state \<Rightarrow> gthread_state \<times> 'w" where
  "write_term d le pw abrt st =
     (let st1 = (if pw then snd (write_release le st) else st);
          h = ts_handle (io_t st1)
      in case dal_set_meta d h (gs_minfo (io_g st1)) (io_w st1) of (r, w1) \<Rightarrow>
         (let g1 = (if r \<noteq> 0 then (io_g st1)\<lparr>gs_meta_error := True\<rparr> else io_g st1) in
          if gs_data_error g1 \<or> abrt then
            (g1\<lparr>gs_meta_error := True, gs_data_error := True\<rparr>,
             case h of None \<Rightarrow> w1 | Some _ \<Rightarrow> snd (dal_abort d h w1))
          else
            (case h of
               None \<Rightarrow> (g1\<lparr>gs_data_error := True\<rparr>, w1)
             | Some _ \<Rightarrow>
                 (case dal_close d h w1 of (rc, w2) \<Rightarrow>
                    if rc \<noteq> 0 then (g1\<lparr>gs_data_error := True\<rparr>, snd (dal_abort d h w2)) else (g1, w2)))))"

section \<open>Reading\<close>

text \<open>
  The outcome of a callback: it returns with a value and a work package, it waits for a free buffer in
  the given state, or it has no defined behaviour.
\<close>

datatype ('w, 'h) produced =
    Prod int "nat option" "('w, 'h) io_state"
  | PWaits "('w, 'h) io_state"
  | PUndef

definition set_ioq :: "ioqueue option \<Rightarrow> ('w, 'h) io_state \<Rightarrow> ('w, 'h) io_state" where
  "set_ioq q st = st\<lparr>io_g := (io_g st)\<lparr>gs_ioq := q\<rparr>\<rparr>"

definition set_iob :: "nat option \<Rightarrow> ('w, 'h) io_state \<Rightarrow> ('w, 'h) io_state" where
  "set_iob i st = st\<lparr>io_t := (io_t st)\<lparr>ts_iob := i\<rparr>\<rparr>"

text \<open>The size of the next read: a whole I/O or what is left of the block.\<close>

definition to_read :: "('w, 'h) io_state \<Rightarrow> int" where
  "to_read st =
     (let mi = gs_minfo (io_g st); rest = mi_blocksz mi - ts_offset (io_t st) in
      if mi_versz mi > rest then rest else mi_versz mi)"

text \<open>
  One read into the current buffer \<open>i\<close>: the new state, or \<open>None\<close> for the forced abort when the lock
  cannot be given back (in which case only the error is noted), and whether it is such an abort.
\<close>

definition read_chunk ::
  "(string \<Rightarrow> u32) \<Rightarrow> ('w, 'h) dal \<Rightarrow> lockenv \<Rightarrow> nat \<Rightarrow> ioqueue \<Rightarrow> nat \<Rightarrow> ('w, 'h) io_state \<Rightarrow> bool \<times> ('w, 'h) io_state" where
  "read_chunk crc d le i q n st =
     (case dal_get d (ts_handle (io_t st)) n (nat (ts_offset (io_t st))) (io_w st) of ((rd, bytes), w1) \<Rightarrow>
      let tgt = ioblock_write_target i q;
          buf = buf_store tgt (take n bytes) (ib_buff (iq_blocks q ! i));
          q1 = set_block i (\<lambda>b. b\<lparr>ib_buff := buf\<rparr>) q;
          st1 = set_ioq (Some q1) (st\<lparr>io_w := w1\<rparr>);
          m = n - CRC_BYTES;
          scrc = u32_at (tgt + m) buf;
          st2 = st1\<lparr>io_t := (io_t st1)\<lparr>ts_crcsumchk := (ts_crcsumchk (io_t st1) + unat scrc) mod 2 ^ 64\<rparr>\<rparr>;
          fill = (\<lambda>bad s. let s' = set_ioq (Some (ioblock_update_fill i m bad q1)) s in
            s'\<lparr>io_t := (io_t s')\<lparr>ts_offset := ts_offset (io_t s') + int n\<rparr>\<rparr>)
      in if rd < int n then (False, fill True (data_error st1))
         else if \<not> le_erasure le then (False, fill True (data_error st2))
         else if \<not> le_unerasure le then (True, data_error st2)
         else if crc (take m (drop tgt buf)) \<noteq> scrc then (False, fill True (data_error st2))
         else (False, fill False st2))"

lemma to_read_fill:
  "read_chunk crc d le i q n st = (False, st') \<Longrightarrow>
   ts_offset (io_t st') = ts_offset (io_t st) + int n \<and> gs_minfo (io_g st') = gs_minfo (io_g st)"
  by (auto simp: read_chunk_def set_ioq_def data_error_def Let_def split: prod.splits if_splits)

text \<open>
  The loop of \<^verbatim>\<open>read_produce\<close>; \<open>k\<close> counts the rounds, for the outcome of the locks in each. A read that
  does not fit the buffer is undefined.
\<close>

function produce_loop ::
  "(string \<Rightarrow> u32) \<Rightarrow> ('w, 'h) dal \<Rightarrow> (nat \<Rightarrow> lockenv) \<Rightarrow> nat \<Rightarrow> nat option \<Rightarrow> ('w, 'h) io_state \<Rightarrow> ('w, 'h) produced" where
  "produce_loop crc d le k push st =
     (case reserve_ioblock (le_queue (le k)) (ts_iob (io_t st)) push (gs_ioq (io_g st)) of
        Waits \<Rightarrow> PWaits st
      | Rsv r cur push' q' \<Rightarrow>
          let st1 = set_ioq q' (set_iob cur st); n = to_read st1 in
          if r = -1 then Prod (-1) None (data_error st1)
          else if r > 0 then Prod 0 push' st1
          else if n = 0 then Prod 0 cur (set_iob None st1)
          else if n \<le> int CRC_BYTES then Prod (-1) None (data_error st1)
          else
            (case (cur, q') of
               (Some i, Some q) \<Rightarrow>
                 if ioblock_write_target i q + nat n > length (ib_buff (iq_blocks q ! i)) then PUndef
                 else
                   (case read_chunk crc d (le k) i q (nat n) st1 of (stop, st2) \<Rightarrow>
                      if stop then Prod (-1) None st2 else produce_loop crc d le (Suc k) push' st2)
             | _ \<Rightarrow> PUndef))"
  by pat_completeness auto
termination
  by (relation "measure (\<lambda>(crc, d, le, k, push, st). nat (mi_blocksz (gs_minfo (io_g st)) - ts_offset (io_t st)))")
     (auto simp: to_read_def set_ioq_def set_iob_def Let_def dest!: to_read_fill [OF sym] split: if_splits)

declare produce_loop.simps [simp del]

definition read_produce ::
  "(string \<Rightarrow> u32) \<Rightarrow> ('w, 'h) dal \<Rightarrow> (nat \<Rightarrow> lockenv) \<Rightarrow> ('w, 'h) io_state \<Rightarrow> ('w, 'h) produced" where
  "read_produce crc d le st =
     (let g = io_g st; t = io_t st in
      if ts_offset t \<ge> mi_blocksz (gs_minfo g) then
        (let st1 = (if \<not> gs_data_error g \<and> ts_continuous t \<and> \<not> gs_meta_error g \<and>
                        int (ts_crcsumchk t) \<noteq> mi_crcsum (gs_minfo g) mod 2 ^ 64
                    then data_error st else st)
         in case (ts_iob t, gs_ioq g) of
              (Some i, Some q) \<Rightarrow>
                if ioblock_get_fill i q \<noteq> 0 then Prod 0 (Some i) (set_iob None st1) else Prod 2 None st1
            | (None, _) \<Rightarrow> Prod 2 None st1
            | _ \<Rightarrow> PUndef)
      else produce_loop crc d le 0 None st)"

section \<open>Reseek and end of a reader\<close>

text \<open>The junk buffers of a reseek are produced and released one after the other.\<close>

primrec junk_loop ::
  "(string \<Rightarrow> u32) \<Rightarrow> ('w, 'h) dal \<Rightarrow> (nat \<Rightarrow> nat \<Rightarrow> lockenv) \<Rightarrow> nat \<Rightarrow> ('w, 'h) io_state \<Rightarrow> ('w, 'h) produced" where
  "junk_loop crc d le 0 st = Prod 0 None st"
| "junk_loop crc d le (Suc n) st =
     (case read_produce crc d (le n) st of
        Prod r p st1 \<Rightarrow>
          if r \<noteq> 0 then Prod (-1) None st1
          else
            (case with_ioq (release_ioblock (le_queue (le n 0))) st1 of (r2, st2) \<Rightarrow>
               if r2 \<noteq> 0 then Prod (-1) None st2 else junk_loop crc d le n st2)
      | PWaits st1 \<Rightarrow> PWaits st1
      | PUndef \<Rightarrow> PUndef)"

text \<open>The bookkeeping of a seek, behind the test that there is one.\<close>

definition reseek ::
  "(string \<Rightarrow> u32) \<Rightarrow> ('w, 'h) dal \<Rightarrow> (nat \<Rightarrow> nat \<Rightarrow> lockenv) \<Rightarrow> nat \<Rightarrow> nat \<Rightarrow> nat \<Rightarrow> ('w, 'h) io_state \<Rightarrow> ('w, 'h) produced" where
  "reseek crc d le io_count trim curdata st =
     (let t = io_t st;
          st1 = st\<lparr>io_t := t\<lparr>ts_crcsumchk := 0, ts_continuous := (if io_count \<noteq> 0 then False else ts_continuous t),
            ts_offset := int io_count * mi_versz (gs_minfo (io_g st))\<rparr>\<rparr>
      in case (if curdata \<noteq> 0 then
                 (case with_ioq (release_ioblock (le_queue (le 0 0))) st1 of (r, s) \<Rightarrow>
                    (r = 0, if r = 0 then set_iob None s else s))
               else (True, st1)) of (ok, st2) \<Rightarrow>
         if \<not> ok then Prod (-1) None st2
         else if trim = 0 then Prod 0 None st2
         else
           (case (if ts_iob (io_t st2) = None
                  then reserve_ioblock (le_queue (le 0 0)) None None (gs_ioq (io_g st2))
                  else Rsv 0 (ts_iob (io_t st2)) None (gs_ioq (io_g st2))) of
              Waits \<Rightarrow> PWaits st2
            | Rsv r cur push q \<Rightarrow>
                let st3 = set_ioq q (set_iob cur st2) in
                if r \<noteq> 0 then Prod (-1) None st3
                else
                  (case align_ioblock cur trim q of
                     Inl _ \<Rightarrow> PUndef
                   | Inr (junk, q2) \<Rightarrow>
                       let st4 = set_ioq q2 st3 in
                       if junk < 0 then Prod (-1) None st4 else junk_loop crc d le (nat junk) st4)))"

text \<open>
  \<^verbatim>\<open>read_resume\<close>. \<open>m\<close> and \<open>al\<close> are the allocations of a queue the reader creates itself; \<open>pw\<close> says that it
  still holds a buffer it had produced. An I/O of just the checksum makes the code divide by zero.
\<close>

definition read_resume ::
  "(string \<Rightarrow> u32) \<Rightarrow> ('w, 'h) dal \<Rightarrow> (nat \<Rightarrow> nat \<Rightarrow> lockenv) \<Rightarrow> mem \<Rightarrow> (nat \<Rightarrow> (nat \<Rightarrow> char) option) \<Rightarrow> bool \<Rightarrow>
   ('w, 'h) io_state \<Rightarrow> ('w, 'h) produced" where
  "read_resume crc d le m al pw st =
     (let g = io_g st; mi = gs_minfo g;
          q0 = (case gs_ioq g of
                  Some q \<Rightarrow> Some q
                | None \<Rightarrow> create_ioqueue m al (nat (mi_versz mi mod 2 ^ 64)) (nat (mi_partsz mi mod 2 ^ 64)) (gs_dmode g))
      in if q0 = None then Prod (-1) None st
         else
           (case (if pw then with_ioq (release_ioblock (le_queue (le 0 0))) (set_ioq q0 st) else (0, set_ioq q0 st)) of
              (r, st1) \<Rightarrow>
            if r \<noteq> 0 then Prod (-1) None st1
            else
              (let noffset = gs_offset g; dv = nat ((mi_versz mi - int CRC_BYTES) mod 2 ^ 64) in
               if dv = 0 then PUndef
               else
                 (let io_count = noffset div dv mod 2 ^ 32;
                      trim = noffset mod dv;
                      curdata = (case (ts_iob (io_t st1), gs_ioq (io_g st1)) of
                        (Some i, Some q) \<Rightarrow> ioblock_get_fill i q | _ \<Rightarrow> 0)
                  in if (ts_offset (io_t st1) - int curdata) mod 2 ^ 64 \<noteq> (int io_count * mi_versz mi + int trim) mod 2 ^ 64
                     then reseek crc d le io_count trim curdata st1
                     else Prod 0 None st1))))"

definition read_term :: "('w, 'h) dal \<Rightarrow> lockenv \<Rightarrow> lockenv \<Rightarrow> bool \<Rightarrow> ('w, 'h) io_state \<Rightarrow> gthread_state \<times> 'w" where
  "read_term d le1 le2 pw st =
     (let st1 = (if pw then snd (with_ioq (release_ioblock (le_queue le1)) st) else st);
          st2 = (if ts_iob (io_t st1) \<noteq> None then snd (with_ioq (release_ioblock (le_queue le2)) st1) else st1)
      in case dal_close d (ts_handle (io_t st2)) (io_w st2) of (r, w1) \<Rightarrow>
         (if r \<noteq> 0 then (io_g st2)\<lparr>gs_data_error := True\<rparr> else io_g st2, w1))"

definition write_pause :: int where
  "write_pause = 0"

definition read_pause :: int where
  "read_pause = 0"

definition write_resume :: int where
  "write_resume = 0"

section \<open>Checksums read back\<close>

lemma upt4: "[0..<4] = [0, 1, 2, 3 :: nat]"
  by (simp add: upt_rec)

lemma length_u32_bytes [simp]: "length (u32_bytes c) = 4"
  by (simp add: u32_bytes_def)

lemma base256:
  assumes "x < 256 ^ 4"
  shows "x mod 256 + (x div 256 mod 256) * 256 + (x div 65536 mod 256) * 65536 + (x div 16777216 mod 256) * 16777216 = (x :: nat)"
proof -
  have 1: "x div 65536 = x div 256 div 256" "x div 16777216 = x div 256 div 256 div 256" by (simp_all add: div_mult2_eq)
  have 2: "x div 256 div 256 div 256 < 256" using assms by (simp add: div_mult2_eq [symmetric] less_mult_imp_div_less)
  have 3: "x div 256 div 256 div 256 mod 256 = x div 256 div 256 div 256" using 2 by simp
  show ?thesis
    unfolding 1 3
    using div_mult_mod_eq [of x 256] div_mult_mod_eq [of "x div 256" 256] div_mult_mod_eq [of "x div 256 div 256" 256]
    by linarith
qed

lemma u32_at_bytes: "u32_at (length b) (b @ u32_bytes c @ r) = c"
proof -
  have lt: "unat c < 256 ^ 4" using unsigned_less [of c, where 'a = nat] by simp
  have n: "of_char ((u32_bytes c @ r) ! i) = unat c div 256 ^ i mod 256" if "i < 4" for i
    using that by (simp add: u32_bytes_def nth_append)
  have "map (\<lambda>i. of_char ((b @ u32_bytes c @ r) ! (length b + i)) * 256 ^ i) [0..<4] =
      map (\<lambda>i. unat c div 256 ^ i mod 256 * 256 ^ i) [0..<4]"
    by (rule map_cong) (simp_all add: n)
  also have "sum_list \<dots> = unat c"
  proof -
    have "unat c div 16777216 < 256" using lt by (simp add: less_mult_imp_div_less)
    then show ?thesis using base256 [OF lt] by (simp add: upt4)
  qed
  finally show ?thesis unfolding u32_at_def by simp
qed

lemma u32_at_stored:
  assumes "m + 4 \<le> length s" "tgt \<le> length buf"
  shows "u32_at (tgt + m) (buf_store tgt s buf) = u32_at m s"
proof -
  have n: "buf_store tgt s buf ! (tgt + m + i) = s ! (m + i)" if "i < 4" for i
    using assms that by (simp add: buf_store_def nth_append)
  have "map (\<lambda>i. of_char (buf_store tgt s buf ! (tgt + m + i)) * 256 ^ i) [0..<4] =
      map (\<lambda>i. of_char (s ! (m + i)) * (256 ^ i :: nat)) [0..<4]"
    by (rule map_cong) (simp_all add: n)
  then show ?thesis unfolding u32_at_def by argo
qed

section \<open>Reading a chunk\<close>

text \<open>What is stored for a piece of data, and whether a stored piece carries the checksum of its data.\<close>

definition seal :: "(string \<Rightarrow> u32) \<Rightarrow> string \<Rightarrow> string" where
  "seal crc b = b @ u32_bytes (crc b)"

definition sealed :: "(string \<Rightarrow> u32) \<Rightarrow> string \<Rightarrow> bool" where
  "sealed crc s \<longleftrightarrow> u32_at (length s - 4) s = crc (take (length s - 4) s)"

lemma sealed_seal [simp]: "sealed crc (seal crc b)"
  using u32_at_bytes [of b "crc b" "[]"] by (simp add: sealed_def seal_def)

lemma length_seal [simp]: "length (seal crc b) = length b + 4"
  by (simp add: seal_def)

text \<open>The buffer after a read of \<open>s\<close>, the checksum of which is not counted as data.\<close>

lemma fill_block:
  fixes bad :: bool
  assumes "ioq_wf room q" "i < 4" "ib_data_size (iq_blocks q ! i) + length s \<le> iq_blocksz q" "4 < length s"
  defines "q1 \<equiv> set_block i (\<lambda>b. b\<lparr>ib_buff := buf_store (ib_data_size (iq_blocks q ! i)) s (ib_buff (iq_blocks q ! i))\<rparr>) q"
  defines "q2 \<equiv> ioblock_update_fill i (length s - 4) bad q1"
  shows "ioq_wf room q2" "outstanding q2 = outstanding q" "iq_split q2 = iq_split q" "iq_depth q2 = iq_depth q"
    "iq_blocksz q2 = iq_blocksz q" "contents q2 i = contents q i @ take (length s - 4) s"
    "ib_data_size (iq_blocks q2 ! i) = ib_data_size (iq_blocks q ! i) + (length s - 4)"
    "ib_error_end (iq_blocks q2 ! i) = (if bad then ib_data_size (iq_blocks q2 ! i) else ib_error_end (iq_blocks q ! i))"
proof -
  let ?b = "iq_blocks q ! i"
  have len: "length (iq_blocks q) = 4" "iq_blocksz q < 2 ^ 64" using assms(1) by (auto simp: ioq_wf_def)
  have bl: "length (ib_buff ?b) = iq_blocksz q" by (rule ioq_wf_buff [OF assms(1,2)])
  have b1: "iq_blocks q1 ! i = ?b\<lparr>ib_buff := buf_store (ib_data_size ?b) s (ib_buff ?b)\<rparr>"
    unfolding q1_def using len assms(2) by (simp add: set_block_nth(1))
  have m: "(ib_data_size ?b + (length s - 4)) mod 2 ^ 64 = ib_data_size ?b + (length s - 4)"
    using assms(3,4) len by simp
  have b2: "iq_blocks q2 ! i = ?b\<lparr>ib_buff := buf_store (ib_data_size ?b) s (ib_buff ?b),
      ib_data_size := ib_data_size ?b + (length s - 4),
      ib_error_end := (if bad then ib_data_size ?b + (length s - 4) else ib_error_end ?b)\<rparr>"
    unfolding q2_def ioblock_update_fill_def using b1 len assms(2) m by (simp add: set_block_nth(1) q1_def Let_def)
  have bs: "length (buf_store (ib_data_size ?b) s (ib_buff ?b)) = iq_blocksz q" using assms(3) bl by simp
  have w1: "ioq_wf room q1" unfolding q1_def by (rule set_block_wf [OF assms(1,2)]) (use bs in simp)
  show "ioq_wf room q2"
    unfolding q2_def ioblock_update_fill_def by (rule set_block_wf [OF w1 assms(2)]) (use bs b1 in \<open>simp add: q1_def Let_def\<close>)
  show "outstanding q2 = outstanding q" "iq_split q2 = iq_split q" "iq_depth q2 = iq_depth q" "iq_blocksz q2 = iq_blocksz q"
    by (simp_all add: q2_def q1_def ioblock_update_fill_def)
  show "ib_data_size (iq_blocks q2 ! i) = ib_data_size ?b + (length s - 4)"
    "ib_error_end (iq_blocks q2 ! i) = (if bad then ib_data_size (iq_blocks q2 ! i) else ib_error_end ?b)"
    using b2 by simp_all
  show "contents q2 i = contents q i @ take (length s - 4) s"
    using b2 bl assms(3) by (simp add: contents_def buf_store_def)
qed

text \<open>The state of the reader behind a chunk.\<close>

definition chunk_read :: "('w, 'h) io_state \<Rightarrow> 'w \<Rightarrow> ioqueue \<Rightarrow> bool \<Rightarrow> nat \<Rightarrow> u32 \<Rightarrow> ('w, 'h) io_state" where
  "chunk_read st w q bad n c =
     st\<lparr>io_w := w, io_g := (io_g st)\<lparr>gs_ioq := Some q, gs_data_error := (gs_data_error (io_g st) \<or> bad)\<rparr>,
        io_t := (io_t st)\<lparr>ts_offset := ts_offset (io_t st) + int n,
          ts_crcsumchk := (ts_crcsumchk (io_t st) + unat c) mod 2 ^ 64\<rparr>\<rparr>"

lemma read_chunk_exact:
  assumes "ioq_wf room q" "i < 4" "ib_data_size (iq_blocks q ! i) + length s \<le> iq_blocksz q" "4 < length s"
    and "dal_get d (ts_handle (io_t st)) (length s) (nat (ts_offset (io_t st))) (io_w st) = ((int (length s), s), w)"
    and "le = locks_ok"
  shows "\<exists>q'. read_chunk crc d le i q (length s) st =
      (False, chunk_read st w q' (\<not> sealed crc s) (length s) (u32_at (length s - 4) s)) \<and>
    ioq_wf room q' \<and> outstanding q' = outstanding q \<and> iq_split q' = iq_split q \<and> iq_blocksz q' = iq_blocksz q \<and>
    contents q' i = contents q i @ take (length s - 4) s \<and>
    ib_data_size (iq_blocks q' ! i) = ib_data_size (iq_blocks q ! i) + (length s - 4) \<and>
    ib_error_end (iq_blocks q' ! i) =
      (if sealed crc s then ib_error_end (iq_blocks q ! i) else ib_data_size (iq_blocks q' ! i))"
proof -
  let ?t = "ib_data_size (iq_blocks q ! i)" and ?B = "ib_buff (iq_blocks q ! i)" and ?m = "length s - 4"
  let ?q1 = "set_block i (\<lambda>b. b\<lparr>ib_buff := buf_store ?t s ?B\<rparr>) q"
  let ?q2 = "ioblock_update_fill i ?m (\<not> sealed crc s) ?q1"
  have bl: "length ?B = iq_blocksz q" by (rule ioq_wf_buff [OF assms(1,2)])
  have u: "u32_at (?t + ?m) (buf_store ?t s ?B) = u32_at ?m s" using assms(3,4) bl by (intro u32_at_stored) simp_all
  have tk: "take ?m (drop ?t (buf_store ?t s ?B)) = take ?m s" using assms(3) bl by (simp add: buf_store_def)
  have "read_chunk crc d le i q (length s) st =
      (False, chunk_read st w ?q2 (\<not> sealed crc s) (length s) (u32_at ?m s))"
    using assms(5,6) u tk
    by (simp add: read_chunk_def chunk_read_def ioblock_write_target_def Let_def locks_ok_def sealed_def set_ioq_def
        data_error_def)
  then show ?thesis using fill_block [OF assms(1-4), of "\<not> sealed crc s"] by (intro exI [of _ ?q2]) auto
qed

section \<open>A stored block\<close>

text \<open>
  A block is stored as a list of chunks, each with its checksum at the end: all of them of the size of an
  I/O but the last, which may be shorter. \<open>payload\<close> is the data of a chunk, \<open>bad_at\<close> says that a position
  of the data belongs to a chunk whose checksum is wrong.
\<close>

definition chunks_ok :: "nat \<Rightarrow> string list \<Rightarrow> bool" where
  "chunks_ok V ss \<longleftrightarrow> (\<forall>s \<in> set ss. 4 < length s \<and> length s \<le> V) \<and> (\<forall>s \<in> set (butlast ss). length s = V)"

definition payload :: "string \<Rightarrow> string" where
  "payload s = take (length s - 4) s"

definition block_data :: "string list \<Rightarrow> string" where
  "block_data ss = concat (map payload ss)"

fun bad_at :: "(string \<Rightarrow> u32) \<Rightarrow> string list \<Rightarrow> nat \<Rightarrow> bool" where
  "bad_at crc [] p \<longleftrightarrow> False"
| "bad_at crc (s # ss) p \<longleftrightarrow> (if p < length (payload s) then \<not> sealed crc s else bad_at crc ss (p - length (payload s)))"

definition crc_total :: "string list \<Rightarrow> nat" where
  "crc_total ss = sum_list (map (\<lambda>s. unat (u32_at (length s - 4) s)) ss)"

definition intact :: "(string \<Rightarrow> u32) \<Rightarrow> string list \<Rightarrow> bool" where
  "intact crc ss \<longleftrightarrow> (\<forall>s \<in> set ss. sealed crc s)"

lemma block_data_simps [simp]:
  "block_data [] = []" "block_data (s # ss) = payload s @ block_data ss"
  "block_data (ss @ ts) = block_data ss @ block_data ts"
  by (simp_all add: block_data_def)

lemma crc_total_simps [simp]:
  "crc_total [] = 0" "crc_total (ss @ ts) = crc_total ss + crc_total ts"
  "crc_total [s] = unat (u32_at (length s - 4) s)"
  by (simp_all add: crc_total_def)

lemma intact_simps [simp]:
  "intact crc []" "intact crc (ss @ ts) \<longleftrightarrow> intact crc ss \<and> intact crc ts" "intact crc (s # ss) \<longleftrightarrow> sealed crc s \<and> intact crc ss"
  by (auto simp: intact_def)

lemma length_payload [simp]: "length (payload s) = length s - 4"
  by (simp add: payload_def)

lemma payload_seal [simp]: "payload (seal crc b) = b"
  by (simp add: payload_def seal_def)

lemma bad_at_append:
  "bad_at crc (ss @ ts) p = (if p < length (block_data ss) then bad_at crc ss p else bad_at crc ts (p - length (block_data ss)))"
  by (induction ss arbitrary: p) auto

lemma intact_not_bad: "intact crc ss \<Longrightarrow> \<not> bad_at crc ss p"
  by (induction ss arbitrary: p) auto

lemma chunks_ok_Cons:
  assumes "chunks_ok V (s # ss)"
  shows "4 < length s" "length s \<le> V" "chunks_ok V ss" "ss \<noteq> [] \<Longrightarrow> length s = V"
  using assms by (auto simp: chunks_ok_def split: if_splits)

text \<open>The next read covers exactly the next chunk.\<close>

lemma next_chunk:
  assumes "chunks_ok V (s # ss)"
  shows "(if int V > int (length (concat (s # ss))) then int (length (concat (s # ss))) else int V) = int (length s)"
proof (cases "ss = []")
  case True
  then show ?thesis using chunks_ok_Cons(2) [OF assms] by simp
next
  case False
  then show ?thesis using chunks_ok_Cons(4) [OF assms] by simp
qed

text \<open>
  A buffer that holds the bytes of the block from \<open>o1\<close> on: behind its error mark \<open>e\<close> every byte is the
  stored one and comes from a chunk with the right checksum.
\<close>

definition buffer_ok :: "(string \<Rightarrow> u32) \<Rightarrow> string list \<Rightarrow> nat \<Rightarrow> string \<Rightarrow> nat \<Rightarrow> bool" where
  "buffer_ok crc ss o1 c e \<longleftrightarrow>
     o1 + length c \<le> length (block_data ss) \<and>
     (\<forall>k. e \<le> k \<and> k < length c \<longrightarrow> c ! k = block_data ss ! (o1 + k) \<and> \<not> bad_at crc ss (o1 + k))"

lemma buffer_ok_empty: "o1 \<le> length (block_data ss) \<Longrightarrow> buffer_ok crc ss o1 [] e"
  by (simp add: buffer_ok_def)

lemma buffer_ok_chunk:
  assumes "buffer_ok crc (dn @ s # ss) o1 c e" "o1 + length c = length (block_data dn)"
  shows "buffer_ok crc (dn @ s # ss) o1 (c @ payload s) (if sealed crc s then e else length c + length (payload s))"
proof -
  have "(c @ payload s) ! k = block_data (dn @ s # ss) ! (o1 + k) \<and> \<not> bad_at crc (dn @ s # ss) (o1 + k)"
    if k: "k < length (c @ payload s)" "(if sealed crc s then e else length c + length (payload s)) \<le> k" for k
  proof (cases "k < length c")
    case True
    have "e \<le> k" using k(2) True by (simp split: if_splits)
    then have "c ! k = block_data (dn @ s # ss) ! (o1 + k) \<and> \<not> bad_at crc (dn @ s # ss) (o1 + k)"
      using assms(1) True unfolding buffer_ok_def by blast
    then show ?thesis using True by (simp add: nth_append)
  next
    case False
    then obtain n where n: "k = length c + n" by (metis le_iff_add not_less)
    then have o: "o1 + k = length (block_data dn) + n" and l: "n < length (payload s)" using assms(2) k(1) by auto
    have "sealed crc s" using k by (auto split: if_splits)
    then show ?thesis unfolding o using n l by (simp add: nth_append bad_at_append)
  qed
  then show ?thesis unfolding buffer_ok_def using assms(2) by auto
qed

lemma buffer_ok_take: "buffer_ok crc ss o1 c e \<Longrightarrow> buffer_ok crc ss o1 (take n c) e"
  by (auto simp: buffer_ok_def)

lemma buffer_ok_drop:
  assumes "buffer_ok crc ss o1 c e" "e \<le> n" "n \<le> length c"
  shows "buffer_ok crc ss (o1 + n) (drop n c) 0"
proof -
  have "drop n c ! k = block_data ss ! (o1 + n + k) \<and> \<not> bad_at crc ss (o1 + n + k)" if "k < length (drop n c)" for k
  proof -
    have "e \<le> n + k \<and> n + k < length c" using that assms(2) by simp
    then have "c ! (n + k) = block_data ss ! (o1 + (n + k)) \<and> \<not> bad_at crc ss (o1 + (n + k))"
      using assms(1) unfolding buffer_ok_def by blast
    then show ?thesis using assms(3) by (simp add: add.assoc)
  qed
  then show ?thesis using assms(1,3) unfolding buffer_ok_def by simp
qed

lemma buffer_ok_marked: "o1 + length c \<le> length (block_data ss) \<Longrightarrow> length c \<le> e \<Longrightarrow> buffer_ok crc ss o1 c e"
  by (auto simp: buffer_ok_def)

text \<open>
  The buffers of a whole block, each with its error mark, in the order they are handed out: all of them but the
  last hold exactly \<open>S\<close> bytes, and there is a mark only when a chunk is bad.
\<close>

fun delivered :: "(string \<Rightarrow> u32) \<Rightarrow> string list \<Rightarrow> nat \<Rightarrow> nat \<Rightarrow> (string \<times> nat) list \<Rightarrow> bool" where
  "delivered crc ss S o1 [] \<longleftrightarrow> o1 = length (block_data ss)"
| "delivered crc ss S o1 ((c, e) # bs) \<longleftrightarrow>
     c \<noteq> [] \<and> buffer_ok crc ss o1 c e \<and> (e = 0 \<or> \<not> intact crc ss) \<and> (bs = [] \<or> length c = S) \<and> delivered crc ss S (o1 + length c) bs"

lemma delivered_intact:
  assumes "delivered crc ss S o1 bs" "intact crc ss"
  shows "concat (map fst bs) = drop o1 (block_data ss) \<and> (\<forall>b \<in> set bs. snd b = 0)"
  using assms
proof (induction bs arbitrary: o1)
  case (Cons b bs)
  obtain c e where b: "b = (c, e)" by fastforce
  have e: "e = 0" and ok: "buffer_ok crc ss o1 c 0" and r: "delivered crc ss S (o1 + length c) bs"
    using Cons.prems b by auto
  have "c = take (length c) (drop o1 (block_data ss))"
    by (rule nth_equalityI) (use ok in \<open>auto simp: buffer_ok_def\<close>)
  then have "drop o1 (block_data ss) = c @ drop (o1 + length c) (block_data ss)"
    by (metis add.commute append_take_drop_id drop_drop)
  then show ?case using Cons.IH [OF r Cons.prems(2)] b e by simp
qed simp

end
