(* ===== verification/BlockReader.thy ===== *)
theory BlockReader
  imports IOThreads
begin

text \<open>
  What the reader thread of a block (\<^verbatim>\<open>src/io/iothreads.c\<close>) delivers. The other side is \<open>read_all\<close>: it
  takes one buffer after the other from \<open>read_produce\<close>, notes its data and its error mark and releases
  it, until the thread reports the end of the block.

  The proof is an invariant of the thread between two reads: how much of the block has been read (\<open>dn\<close>),
  where the current buffer starts in the data of the block (\<open>o1\<close>), and that the buffer holds the bytes
  from there on.
\<close>

section \<open>The state of the reader\<close>

definition sum_mismatch :: "string list \<Rightarrow> meta_info \<Rightarrow> bool" where
  "sum_mismatch ss M \<longleftrightarrow> int (crc_total ss mod 2 ^ 64) \<noteq> mi_crcsum M mod 2 ^ 64"

definition reader_st ::
  "(string \<Rightarrow> u32) \<Rightarrow> string list \<Rightarrow> nat \<Rightarrow> nat \<Rightarrow> meta_info \<Rightarrow> string list \<Rightarrow> ioqueue \<Rightarrow> ('w, 'h) io_state \<Rightarrow> bool" where
  "reader_st crc ss V S M dn q st \<longleftrightarrow>
     gs_ioq (io_g st) = Some q \<and> ioq_wf V q \<and> iq_split q = S \<and> gs_minfo (io_g st) = M \<and> \<not> gs_meta_error (io_g st) \<and>
     ts_continuous (io_t st) \<and> ts_offset (io_t st) = int (length (concat dn)) \<and>
     ts_crcsumchk (io_t st) = crc_total dn mod 2 ^ 64 \<and>
     (\<not> intact crc dn \<longrightarrow> gs_data_error (io_g st)) \<and>
     (gs_data_error (io_g st) \<longrightarrow> \<not> intact crc dn \<or> dn = ss \<and> sum_mismatch ss M)"

definition buf_holds :: "(string \<Rightarrow> u32) \<Rightarrow> string list \<Rightarrow> string list \<Rightarrow> nat \<Rightarrow> ioqueue \<Rightarrow> nat \<Rightarrow> bool" where
  "buf_holds crc ss dn o1 q i \<longleftrightarrow>
     (let b = iq_blocks q ! i in
      ib_data_size b \<le> iq_blocksz q \<and> o1 + ib_data_size b = length (block_data dn) \<and>
      buffer_ok crc ss o1 (contents q i) (ib_error_end b) \<and> (ib_error_end b = 0 \<or> \<not> intact crc dn))"

definition cur_ok :: "(string \<Rightarrow> u32) \<Rightarrow> string list \<Rightarrow> string list \<Rightarrow> nat \<Rightarrow> ioqueue \<Rightarrow> nat option \<Rightarrow> bool" where
  "cur_ok crc ss dn o1 q cur \<longleftrightarrow>
     (case cur of None \<Rightarrow> o1 = length (block_data dn) | Some i \<Rightarrow> i < 4 \<and> buf_holds crc ss dn o1 q i)"

definition in_use :: "nat option \<Rightarrow> nat list" where
  "in_use cur = (case cur of None \<Rightarrow> [] | Some i \<Rightarrow> [i])"

text \<open>A buffer \<open>i\<close> that is handed out, with what the thread keeps behind it.\<close>

definition handed ::
  "(string \<Rightarrow> u32) \<Rightarrow> string list \<Rightarrow> nat \<Rightarrow> string list \<Rightarrow> nat \<Rightarrow> ioqueue \<Rightarrow> nat \<Rightarrow> nat option \<Rightarrow> bool" where
  "handed crc ss S dn o1 q i cur \<longleftrightarrow>
     outstanding q = i # in_use cur \<and> contents q i \<noteq> [] \<and>
     buffer_ok crc ss o1 (contents q i) (ib_error_end (iq_blocks q ! i)) \<and>
     (ib_error_end (iq_blocks q ! i) = 0 \<or> \<not> intact crc ss) \<and>
     (length (contents q i) = S \<or> cur = None \<and> dn = ss) \<and>
     cur_ok crc ss dn (o1 + length (contents q i)) q cur"

lemma length_contents:
  assumes "ioq_wf V q" "i < 4" "ib_data_size (iq_blocks q ! i) \<le> iq_blocksz q"
  shows "length (contents q i) = ib_data_size (iq_blocks q ! i)"
  using ioq_wf_buff [OF assms(1,2)] assms(3) by (simp add: contents_def)

lemma buf_holds_length:
  assumes "ioq_wf V q" "i < 4" "buf_holds crc ss dn o1 q i"
  shows "length (contents q i) = ib_data_size (iq_blocks q ! i)" "o1 + length (contents q i) = length (block_data dn)"
  using length_contents [OF assms(1,2)] assms(3) by (auto simp: buf_holds_def Let_def)

lemma outstanding_depth: "ioq_wf V q \<Longrightarrow> length (outstanding q) = 4 - iq_depth q"
  by (simp add: outstanding_def)

lemma intact_part: "intact crc ss \<Longrightarrow> ss = dn @ todo \<Longrightarrow> intact crc dn"
  by simp

text \<open>The reservation in the loop: a buffer to read into, or a full one to hand out.\<close>

lemma reserve_first:
  assumes "ioq_wf V q" "outstanding q = []" "o1 = length (block_data dn)" "ss = dn @ todo"
  shows "\<exists>j q'. reserve_ioblock True None push (Some q) = Rsv 0 (Some j) push (Some q') \<and> j < 4 \<and> ioq_wf V q' \<and>
    outstanding q' = [j] \<and> iq_split q' = iq_split q \<and> iq_blocksz q' = iq_blocksz q \<and>
    ib_data_size (iq_blocks q' ! j) = 0 \<and> buf_holds crc ss dn o1 q' j"
proof -
  have d: "iq_depth q = 4" using outstanding_depth [OF assms(1)] assms(1,2) by (auto simp: ioq_wf_def)
  obtain j q' where t: "take_block None None q = (j, q')" by fastforce
  have d0: "0 < iq_depth q" using d by simp
  note f = take_block_fresh [OF assms(1) d0 t]
  have j: "j < 4" using f(1) assms(1) by (simp add: ioq_wf_def)
  have c: "contents q' j = []" using f(6) by (simp add: contents_def)
  have "buf_holds crc ss dn o1 q' j"
    using f(6,7) c assms(3,4) by (simp add: buf_holds_def Let_def buffer_ok_empty)
  then show ?thesis using t d j f assms(2) by (intro exI [of _ j] exI [of _ q']) (simp add: reserve_ioblock_def)
qed

lemma reserve_full:
  assumes "ioq_wf V q" "outstanding q = [i]" "buf_holds crc ss dn o1 q i" "iq_split q \<le> ib_data_size (iq_blocks q ! i)"
    and "ss = dn @ todo"
  shows "\<exists>j q'. reserve_ioblock True (Some i) push (Some q) = Rsv 1 (Some j) (Some i) (Some q') \<and> ioq_wf V q' \<and>
    iq_split q' = iq_split q \<and> handed crc ss (iq_split q) dn o1 q' i (Some j)"
proof -
  let ?S = "iq_split q"
  have i: "i \<in> set (outstanding q)" using assms(2) by simp
  have i4: "i < 4" by (rule outstanding_lt [OF i])
  have d: "iq_depth q \<noteq> 0" using outstanding_depth [OF assms(1)] assms(1,2) by (auto simp: ioq_wf_def)
  have h: "ib_data_size (iq_blocks q ! i) \<le> iq_blocksz q" "o1 + ib_data_size (iq_blocks q ! i) = length (block_data dn)"
    "buffer_ok crc ss o1 (contents q i) (ib_error_end (iq_blocks q ! i))" "ib_error_end (iq_blocks q ! i) = 0 \<or> \<not> intact crc dn"
    using assms(3) by (auto simp: buf_holds_def Let_def)
  obtain j q' where r: "reserve_ioblock True (Some i) push (Some q) = Rsv 1 (Some j) (Some i) (Some q')"
    and q': "ioq_wf V q'" "outstanding q' = outstanding q @ [j]" "iq_split q' = ?S"
    and ci: "length (contents q' i) = ?S" "contents q' i = take ?S (contents q i)"
      "ib_error_end (iq_blocks q' ! i) = ib_error_end (iq_blocks q ! i)"
    and sj: "ib_data_size (iq_blocks q' ! j) + ?S = ib_data_size (iq_blocks q ! i)"
    and cj: "if ib_error_end (iq_blocks q ! i) \<le> ?S
       then contents q' i @ contents q' j = contents q i \<and> ib_error_end (iq_blocks q' ! j) = 0
       else ib_error_end (iq_blocks q' ! j) = ib_data_size (iq_blocks q' ! j)"
    using reserve_full_block [OF assms(1) i h(1) assms(4) d, of push] by blast
  have o: "outstanding q' = [i, j]" using q'(2) assms(2) by simp
  have j4: "j < 4" using outstanding_lt [of j q'] o by simp
  have S0: "0 < ?S" using assms(1) by (simp add: ioq_wf_def)
  have lc: "length (contents q i) = ib_data_size (iq_blocks q ! i)" by (rule length_contents [OF assms(1) i4 h(1)])
  have bz: "iq_blocksz q' = iq_blocksz q" using assms(1) q'(1,3) by (simp add: ioq_wf_def)
  have lj: "ib_data_size (iq_blocks q' ! j) \<le> iq_blocksz q'" using sj h(1) bz by simp
  have lcj: "length (contents q' j) = ib_data_size (iq_blocks q' ! j)" by (rule length_contents [OF q'(1) j4 lj])
  have sum: "o1 + ?S + ib_data_size (iq_blocks q' ! j) = length (block_data dn)" using sj h(2) by simp
  have ok: "buffer_ok crc ss (o1 + ?S) (contents q' j) (ib_error_end (iq_blocks q' ! j)) \<and>
      (ib_error_end (iq_blocks q' ! j) = 0 \<or> \<not> intact crc dn)"
  proof (cases "ib_error_end (iq_blocks q ! i) \<le> ?S")
    case True
    then have e: "contents q' j = drop ?S (contents q i)" "ib_error_end (iq_blocks q' ! j) = 0"
      using cj ci(1) by (auto simp: append_eq_conv_conj)
    then show ?thesis using buffer_ok_drop [OF h(3) True] assms(4) lc by simp
  next
    case False
    then have "ib_error_end (iq_blocks q' ! j) = ib_data_size (iq_blocks q' ! j)" "\<not> intact crc dn"
      using cj h(4) by auto
    moreover have "o1 + ?S + length (contents q' j) \<le> length (block_data ss)" using lcj sum assms(5) by simp
    ultimately show ?thesis using buffer_ok_marked lcj by simp
  qed
  have hj: "buf_holds crc ss dn (o1 + ?S) q' j" using lj sum ok by (simp add: buf_holds_def Let_def)
  have "buffer_ok crc ss o1 (contents q' i) (ib_error_end (iq_blocks q' ! i))"
    using buffer_ok_take [OF h(3), of ?S] ci by simp
  then have "handed crc ss ?S dn o1 q' i (Some j)"
    using o ci h(4) S0 hj j4 assms(5) by (auto simp: handed_def in_use_def cur_ok_def)
  then show ?thesis using r q' by blast
qed

section \<open>One call of \<^verbatim>\<open>read_produce\<close>\<close>

lemma reader_st_set:
  "reader_st crc ss V S M dn q st \<Longrightarrow> ioq_wf V q' \<Longrightarrow> iq_split q' = S \<Longrightarrow>
   reader_st crc ss V S M dn q' (set_ioq (Some q') (set_iob c st))"
  by (auto simp: reader_st_def set_ioq_def set_iob_def)

lemma set_simps [simp]:
  "io_w (set_ioq q st) = io_w st" "io_w (set_iob c st) = io_w st" "io_t (set_ioq q st) = io_t st"
  "io_t (set_iob c st) = (io_t st)\<lparr>ts_iob := c\<rparr>" "io_g (set_iob c st) = io_g st" "io_g (set_ioq q st) = (io_g st)\<lparr>gs_ioq := q\<rparr>"
  by (simp_all add: set_ioq_def set_iob_def)

lemma reader_st_chunk:
  assumes "reader_st crc ss V S M dn q st" "ss = dn @ s # todo" "ioq_wf V q'" "iq_split q' = S"
  shows "reader_st crc ss V S M (dn @ [s]) q' (chunk_read st w q' (\<not> sealed crc s) (length s) (u32_at (length s - 4) s))"
proof -
  have "\<not> (dn = ss)" using assms(2) by simp
  then have "gs_data_error (io_g st) \<longleftrightarrow> \<not> intact crc dn" using assms(1) unfolding reader_st_def by blast
  then show ?thesis
    using assms by (auto simp: reader_st_def chunk_read_def mod_add_left_eq)
qed

lemma buf_holds_chunk:
  assumes "buf_holds crc ss dn o1 q i" "ss = dn @ s # todo" "4 < length s"
    and "ioq_wf V q" "i < 4" "ib_data_size (iq_blocks q ! i) + length s \<le> iq_blocksz q" "iq_blocksz q' = iq_blocksz q"
    and "contents q' i = contents q i @ payload s"
    and "ib_data_size (iq_blocks q' ! i) = ib_data_size (iq_blocks q ! i) + (length s - 4)"
    and "ib_error_end (iq_blocks q' ! i) =
      (if sealed crc s then ib_error_end (iq_blocks q ! i) else ib_data_size (iq_blocks q' ! i))"
  shows "buf_holds crc ss (dn @ [s]) o1 q' i"
proof -
  note l = buf_holds_length [OF assms(4,5,1)]
  have ok: "buffer_ok crc ss o1 (contents q i) (ib_error_end (iq_blocks q ! i))"
    and e: "ib_error_end (iq_blocks q ! i) = 0 \<or> \<not> intact crc dn"
    using assms(1) by (simp_all add: buf_holds_def Let_def)
  have "buffer_ok crc ss o1 (contents q' i) (ib_error_end (iq_blocks q' ! i))"
    using buffer_ok_chunk [OF ok [unfolded assms(2)] l(2)] assms(2,8,9,10) l(1) by (simp split: if_splits)
  then show ?thesis
    using assms(3,6,7,9,10) l e by (auto simp: buf_holds_def Let_def)
qed

context exact_dal
begin

text \<open>The thread has read the chunks \<open>dn\<close> of the block \<open>ss\<close> that the handle \<open>h\<close> sees.\<close>

definition reads ::
  "(string \<Rightarrow> u32) \<Rightarrow> string list \<Rightarrow> nat \<Rightarrow> nat \<Rightarrow> meta_info \<Rightarrow> 'b \<Rightarrow> meta_info \<Rightarrow> string list \<Rightarrow> ioqueue \<Rightarrow>
   ('a, 'b) io_state \<Rightarrow> bool" where
  "reads crc ss V S M h m0 dn q st \<longleftrightarrow>
     reader_st crc ss V S M dn q st \<and> inv (io_w st) \<and> reading h (concat ss) m0 (io_w st) \<and> ts_handle (io_t st) = Some h \<and>
     mi_versz M = int V \<and> mi_blocksz M = int (length (concat ss)) \<and> (\<exists>todo. ss = dn @ todo \<and> chunks_ok V todo)"

lemma reads_set:
  "reads crc ss V S M h m0 dn q st \<Longrightarrow> ioq_wf V q' \<Longrightarrow> iq_split q' = S \<Longrightarrow>
   reads crc ss V S M h m0 dn q' (set_ioq (Some q') (set_iob c st))"
  unfolding reads_def by (auto intro: reader_st_set)

lemma reads_queue:
  "reads crc ss V S M h m0 dn q st \<Longrightarrow> gs_ioq (io_g st) = Some q \<and> ioq_wf V q \<and> iq_split q = S"
  by (simp add: reads_def reader_st_def)

lemma read_step:
  assumes "reads crc ss V S M h m0 dn q st" "ss = dn @ s # todo" "chunks_ok V (s # todo)"
    and "outstanding q = [i]" "buf_holds crc ss dn o1 q i" "ib_data_size (iq_blocks q ! i) < S"
  shows "\<exists>q' st'. read_chunk crc d locks_ok i q (length s) st = (False, st') \<and> reads crc ss V S M h m0 (dn @ [s]) q' st' \<and>
    outstanding q' = [i] \<and> buf_holds crc ss (dn @ [s]) o1 q' i \<and> 0 < ib_data_size (iq_blocks q' ! i) \<and>
    ts_iob (io_t st') = ts_iob (io_t st)"
proof -
  have r: "reader_st crc ss V S M dn q st" "inv (io_w st)" "reading h (concat ss) m0 (io_w st)" "ts_handle (io_t st) = Some h"
    and M: "mi_versz M = int V" "mi_blocksz M = int (length (concat ss))"
    using assms(1) by (simp_all add: reads_def)
  have q: "gs_ioq (io_g st) = Some q" "ioq_wf V q" "iq_split q = S" using reads_queue [OF assms(1)] by simp_all
  have i4: "i < 4" using outstanding_lt [of i q] assms(4) by simp
  note c = chunks_ok_Cons [OF assms(3)]
  have off: "nat (ts_offset (io_t st)) = length (concat dn)" using r(1) by (simp add: reader_st_def)
  have fit: "ib_data_size (iq_blocks q ! i) + length s \<le> iq_blocksz q"
    using assms(6) c(2) q(2,3) by (simp add: ioq_wf_def)
  have within: "length (concat dn) + length s \<le> length (concat ss)" using assms(2) by simp
  obtain w' where g: "dal_get d (Some h) (length s) (length (concat dn)) (io_w st) =
      ((int (length s), take (length s) (drop (length (concat dn)) (concat ss))), w')"
    and w': "inv w'" "reading h (concat ss) m0 w'"
    using get_within [OF r(2,3) within] by blast
  have slice: "take (length s) (drop (length (concat dn)) (concat ss)) = s" using assms(2) by simp
  obtain q' where rc: "read_chunk crc d locks_ok i q (length s) st =
      (False, chunk_read st w' q' (\<not> sealed crc s) (length s) (u32_at (length s - 4) s))"
    and q': "ioq_wf V q'" "outstanding q' = outstanding q" "iq_split q' = iq_split q" "iq_blocksz q' = iq_blocksz q"
      "contents q' i = contents q i @ take (length s - 4) s"
      "ib_data_size (iq_blocks q' ! i) = ib_data_size (iq_blocks q ! i) + (length s - 4)"
      "ib_error_end (iq_blocks q' ! i) =
        (if sealed crc s then ib_error_end (iq_blocks q ! i) else ib_data_size (iq_blocks q' ! i))"
    using read_chunk_exact [OF q(2) i4 fit c(1), of d st w' locks_ok crc] g r(4) off slice by auto
  let ?st = "chunk_read st w' q' (\<not> sealed crc s) (length s) (u32_at (length s - 4) s)"
  have s': "iq_split q' = S" using q'(3) q(3) by simp
  have "reader_st crc ss V S M (dn @ [s]) q' ?st" by (rule reader_st_chunk [OF r(1) assms(2) q'(1) s'])
  then have "reads crc ss V S M h m0 (dn @ [s]) q' ?st"
    using w' r(4) M assms(2) c(3) by (auto simp: reads_def chunk_read_def)
  moreover have "buf_holds crc ss (dn @ [s]) o1 q' i"
    by (rule buf_holds_chunk [OF assms(5,2) c(1) q(2) i4 fit q'(4) _ q'(6,7)]) (use q'(5) in \<open>simp add: payload_def\<close>)
  moreover have "0 < ib_data_size (iq_blocks q' ! i)" using q'(6) c(1) by simp
  ultimately show ?thesis using rc q'(2) assms(4) by (intro exI [of _ q'] exI [of _ ?st]) (simp add: chunk_read_def)
qed

end

context exact_dal
begin

lemma to_read_chunk:
  assumes "reads crc ss V S M h m0 dn q st" "ss = dn @ s # todo" "chunks_ok V (s # todo)"
  shows "to_read st = int (length s)"
proof -
  have "mi_blocksz M - ts_offset (io_t st) = int (length (concat (s # todo)))"
    "gs_minfo (io_g st) = M" "mi_versz M = int V"
    using assms(1,2) by (simp_all add: reads_def reader_st_def)
  then have "to_read st = (if int V > int (length (concat (s # todo))) then int (length (concat (s # todo))) else int V)"
    unfolding to_read_def Let_def by (simp only:)
  then show ?thesis using next_chunk [OF assms(3)] by (rule trans)
qed

lemma to_read_end:
  assumes "reads crc ss V S M h m0 ss q st"
  shows "to_read st = 0"
  using assms by (simp add: reads_def reader_st_def to_read_def Let_def)

text \<open>A round with room in the buffer: a chunk is read, or the rest is handed out.\<close>

lemma loop_read:
  assumes "reads crc ss V S M h m0 dn q1 st1" "ss = dn @ s # todo" "chunks_ok V (s # todo)"
    and "outstanding q1 = [i]" "buf_holds crc ss dn o1 q1 i" "ib_data_size (iq_blocks q1 ! i) < S"
    and "reserve_ioblock True (ts_iob (io_t st)) push (gs_ioq (io_g st)) = Rsv 0 (Some i) push (Some q1)"
    and "st1 = set_ioq (Some q1) (set_iob (Some i) st)"
  shows "\<exists>q' st'. produce_loop crc d (\<lambda>_. locks_ok) k push st = produce_loop crc d (\<lambda>_. locks_ok) (Suc k) push st' \<and>
    reads crc ss V S M h m0 (dn @ [s]) q' st' \<and> outstanding q' = [i] \<and> buf_holds crc ss (dn @ [s]) o1 q' i \<and>
    0 < ib_data_size (iq_blocks q' ! i) \<and> ts_iob (io_t st') = Some i"
proof -
  obtain q' st' where c: "read_chunk crc d locks_ok i q1 (length s) st1 = (False, st')"
    and st': "reads crc ss V S M h m0 (dn @ [s]) q' st'" "outstanding q' = [i]" "buf_holds crc ss (dn @ [s]) o1 q' i"
      "0 < ib_data_size (iq_blocks q' ! i)" "ts_iob (io_t st') = ts_iob (io_t st1)"
    using read_step [OF assms(1-6)] by blast
  have n: "to_read st1 = int (length s)" by (rule to_read_chunk [OF assms(1-3)])
  note l = chunks_ok_Cons [OF assms(3)]
  have q: "ioq_wf V q1" "iq_split q1 = S" using reads_queue [OF assms(1)] by simp_all
  have i4: "i < 4" using outstanding_lt [of i q1] assms(4) by simp
  have fit: "ioblock_write_target i q1 + length s \<le> length (ib_buff (iq_blocks q1 ! i))"
    using assms(6) l(2) q ioq_wf_buff [OF q(1) i4] by (simp add: ioblock_write_target_def ioq_wf_def)
  have ne: "s \<noteq> []" using l(1) by auto
  have "produce_loop crc d (\<lambda>_. locks_ok) k push st = produce_loop crc d (\<lambda>_. locks_ok) (Suc k) push st'"
    using assms(7) n l(1) fit c ne by (subst produce_loop.simps) (simp add: locks_ok_def assms(8) Let_def)
  then show ?thesis using st' assms(8) by auto
qed

lemma loop_rest:
  assumes "reads crc ss V S M h m0 ss q st" "ts_iob (io_t st) = Some i" "outstanding q = [i]" "buf_holds crc ss ss o1 q i"
    and "ib_data_size (iq_blocks q ! i) < S" "0 < ib_data_size (iq_blocks q ! i)"
  shows "produce_loop crc d (\<lambda>_. locks_ok) k push st = Prod 0 (Some i) (set_iob None (set_ioq (Some q) (set_iob (Some i) st)))"
    and "handed crc ss S ss o1 q i None"
proof -
  have q: "gs_ioq (io_g st) = Some q" "ioq_wf V q" "iq_split q = S" using reads_queue [OF assms(1)] by simp_all
  have i4: "i < 4" using outstanding_lt [of i q] assms(3) by simp
  note l = buf_holds_length [OF q(2) i4 assms(4)]
  have "reads crc ss V S M h m0 ss q (set_ioq (Some q) (set_iob (Some i) st))" by (rule reads_set [OF assms(1) q(2,3)])
  from to_read_end [OF this] have n: "to_read (set_ioq (Some q) (set_iob (Some i) st)) = 0" .
  have "reserve_ioblock True (ts_iob (io_t st)) push (gs_ioq (io_g st)) = Rsv 0 (Some i) push (Some q)"
    using assms(2,5) q by (simp add: reserve_ioblock_def Let_def)
  then show "produce_loop crc d (\<lambda>_. locks_ok) k push st = Prod 0 (Some i) (set_iob None (set_ioq (Some q) (set_iob (Some i) st)))"
    using n by (subst produce_loop.simps) (simp add: locks_ok_def Let_def)
  have "contents q i \<noteq> []" using l(1) assms(6) by auto
  then show "handed crc ss S ss o1 q i None"
    using assms(3,4) l by (simp add: handed_def in_use_def cur_ok_def buf_holds_def Let_def)
qed

lemma loop_full:
  assumes "reads crc ss V S M h m0 dn q st" "ts_iob (io_t st) = Some i" "outstanding q = [i]" "buf_holds crc ss dn o1 q i"
    and "S \<le> ib_data_size (iq_blocks q ! i)"
  shows "\<exists>q' st'. produce_loop crc d (\<lambda>_. locks_ok) k push st = Prod 0 (Some i) st' \<and> reads crc ss V S M h m0 dn q' st' \<and>
    handed crc ss S dn o1 q' i (ts_iob (io_t st'))"
proof -
  have q: "gs_ioq (io_g st) = Some q" "ioq_wf V q" "iq_split q = S" using reads_queue [OF assms(1)] by simp_all
  obtain todo where "ss = dn @ todo" using assms(1) by (auto simp: reads_def)
  from reserve_full [OF q(2) assms(3,4) _ this, of push] assms(5) q(3)
  obtain j q' where r: "reserve_ioblock True (Some i) push (Some q) = Rsv 1 (Some j) (Some i) (Some q')"
    and q': "ioq_wf V q'" "iq_split q' = S" "handed crc ss S dn o1 q' i (Some j)"
    by auto
  let ?st = "set_ioq (Some q') (set_iob (Some j) st)"
  have "produce_loop crc d (\<lambda>_. locks_ok) k push st = Prod 0 (Some i) ?st"
    using assms(2) q(1) r by (subst produce_loop.simps) (simp add: locks_ok_def Let_def)
  then show ?thesis using reads_set [OF assms(1) q'(1,2)] q'(3) by (intro exI [of _ q'] exI [of _ ?st]) simp
qed

lemma produce_loop_hands:
  assumes "reads crc ss V S M h m0 dn q st" "ss = dn @ todo" "outstanding q = in_use (ts_iob (io_t st))"
    and "cur_ok crc ss dn o1 q (ts_iob (io_t st))"
    and "todo \<noteq> [] \<or> (\<exists>i. ts_iob (io_t st) = Some i \<and> 0 < ib_data_size (iq_blocks q ! i))"
  shows "\<exists>i dn' q' st'. produce_loop crc d (\<lambda>_. locks_ok) k push st = Prod 0 (Some i) st' \<and>
    reads crc ss V S M h m0 dn' q' st' \<and> handed crc ss S dn' o1 q' i (ts_iob (io_t st'))"
  using assms
proof (induction todo arbitrary: dn q st k)
  case Nil
  then obtain i where i: "ts_iob (io_t st) = Some i" "0 < ib_data_size (iq_blocks q ! i)" by auto
  have dn: "dn = ss" and b: "outstanding q = [i]" "buf_holds crc ss dn o1 q i"
    using Nil.prems i by (simp_all add: in_use_def cur_ok_def)
  show ?case
  proof (cases "ib_data_size (iq_blocks q ! i) < S")
    case True
    note r = Nil.prems(1) [unfolded dn]
    note e = loop_rest [OF r i(1) b(1) b(2) [unfolded dn] True i(2)]
    have "reads crc ss V S M h m0 ss q (set_iob None (set_ioq (Some q) (set_iob (Some i) st)))"
      using r by (auto simp: reads_def reader_st_def)
    then show ?thesis using e by (intro exI conjI) auto
  next
    case False
    then show ?thesis using loop_full [OF Nil.prems(1) i(1) b] by (simp add: not_less) blast
  qed
next
  case (Cons s todo)
  have ok: "chunks_ok V (s # todo)" using Cons.prems(1,2) by (auto simp: reads_def)
  have q: "gs_ioq (io_g st) = Some q" "ioq_wf V q" "iq_split q = S" using reads_queue [OF Cons.prems(1)] by simp_all
  have S0: "0 < S" using q(2,3) by (simp add: ioq_wf_def)
  have go: ?case
    if q1: "ioq_wf V q1" "iq_split q1 = S" "outstanding q1 = [i]" "buf_holds crc ss dn o1 q1 i" "ib_data_size (iq_blocks q1 ! i) < S"
      and r: "reserve_ioblock True (ts_iob (io_t st)) push (gs_ioq (io_g st)) = Rsv 0 (Some i) push (Some q1)" for i q1
  proof -
    have r1: "reads crc ss V S M h m0 dn q1 (set_ioq (Some q1) (set_iob (Some i) st))"
      by (rule reads_set [OF Cons.prems(1) q1(1,2)])
    obtain q' st' where l: "produce_loop crc d (\<lambda>_. locks_ok) k push st = produce_loop crc d (\<lambda>_. locks_ok) (Suc k) push st'"
      and st': "reads crc ss V S M h m0 (dn @ [s]) q' st'" "outstanding q' = [i]" "buf_holds crc ss (dn @ [s]) o1 q' i"
        "0 < ib_data_size (iq_blocks q' ! i)" "ts_iob (io_t st') = Some i"
      using loop_read [OF r1 Cons.prems(2) ok q1(3-5) r refl] by blast
    have "i < 4" using outstanding_lt [of i q'] st'(2) by simp
    then show ?thesis
      unfolding l using Cons.IH [OF st'(1), of "Suc k"] Cons.prems(2) st' by (simp add: in_use_def cur_ok_def)
  qed
  show ?case
  proof (cases "ts_iob (io_t st)")
    case None
    then have "outstanding q = []" "o1 = length (block_data dn)" using Cons.prems(3,4) by (simp_all add: in_use_def cur_ok_def)
    from reserve_first [OF q(2) this Cons.prems(2), of push crc]
    obtain j q1 where "reserve_ioblock True None push (Some q) = Rsv 0 (Some j) push (Some q1)" "ioq_wf V q1"
      "outstanding q1 = [j]" "iq_split q1 = S" "ib_data_size (iq_blocks q1 ! j) = 0" "buf_holds crc ss dn o1 q1 j"
      using q(3) by auto
    then show ?thesis using go None q(1) S0 by simp
  next
    case (Some i)
    then have b: "outstanding q = [i]" "buf_holds crc ss dn o1 q i" using Cons.prems(3,4) by (simp_all add: in_use_def cur_ok_def)
    show ?thesis
    proof (cases "ib_data_size (iq_blocks q ! i) < S")
      case True
      then have "reserve_ioblock True (ts_iob (io_t st)) push (gs_ioq (io_g st)) = Rsv 0 (Some i) push (Some q)"
        using Some q by (simp add: reserve_ioblock_def Let_def)
      then show ?thesis using go q b True by simp
    next
      case False
      then show ?thesis using loop_full [OF Cons.prems(1) Some b] by (simp add: not_less) blast
    qed
  qed
qed

end

section \<open>A whole block\<close>

text \<open>
  The other side of the queue: take a buffer, note its data and its error mark, release it. \<open>None\<close> when
  the thread fails, waits, or has not ended within \<open>fuel\<close> calls.
\<close>

fun read_all ::
  "(string \<Rightarrow> u32) \<Rightarrow> ('w, 'h) dal \<Rightarrow> nat \<Rightarrow> ('w, 'h) io_state \<Rightarrow> ((string \<times> nat) list \<times> ('w, 'h) io_state) option" where
  "read_all crc d 0 st = None"
| "read_all crc d (Suc fuel) st =
     (case read_produce crc d (\<lambda>_. locks_ok) st of
        Prod r (Some i) st1 \<Rightarrow>
          (case gs_ioq (io_g st1) of
             Some q \<Rightarrow>
               (case with_ioq (release_ioblock True) st1 of (r2, st2) \<Rightarrow>
                  if r = 0 \<and> r2 = 0 then
                    map_option (\<lambda>(bs, st'). ((contents q i, ib_error_end (iq_blocks q ! i)) # bs, st')) (read_all crc d fuel st2)
                  else None)
           | None \<Rightarrow> None)
      | Prod r None st1 \<Rightarrow> if r = 2 then Some ([], st1) else None
      | _ \<Rightarrow> None)"

declare read_all.simps [simp del]

lemma release_depth [simp]:
  "iq_blocks (q\<lparr>iq_depth := n\<rparr>) = iq_blocks q" "contents (q\<lparr>iq_depth := n\<rparr>) i = contents q i"
  "cur_ok crc ss dn o1 (q\<lparr>iq_depth := n\<rparr>) cur = cur_ok crc ss dn o1 q cur"
  by (auto simp: contents_def cur_ok_def buf_holds_def Let_def split: option.splits)

lemma data_error_simps [simp]:
  "io_t (data_error st) = io_t st" "gs_ioq (io_g (data_error st)) = gs_ioq (io_g st)" "io_w (data_error st) = io_w st"
  by (simp_all add: data_error_def)

lemma delivered_end: "delivered crc ss S (length (block_data ss)) bs \<Longrightarrow> bs = []"
  by (cases bs) (auto simp: buffer_ok_def)

context exact_dal
begin

lemma read_all_hands:
  assumes "reads crc ss V S M h m0 dn q st1" "handed crc ss S dn o1 q i (ts_iob (io_t st1))"
    and "read_produce crc d (\<lambda>_. locks_ok) st = Prod 0 (Some i) st1"
    and IH: "\<And>q' st2. reads crc ss V S M h m0 dn q' st2 \<Longrightarrow> outstanding q' = in_use (ts_iob (io_t st2)) \<Longrightarrow>
       cur_ok crc ss dn (o1 + length (contents q i)) q' (ts_iob (io_t st2)) \<Longrightarrow>
       \<exists>bs st'. read_all crc d fuel st2 = Some (bs, st') \<and> delivered crc ss S (o1 + length (contents q i)) bs \<and> P st'"
  shows "\<exists>bs st'. read_all crc d (Suc fuel) st = Some (bs, st') \<and> delivered crc ss S o1 bs \<and> P st'"
proof -
  let ?q = "q\<lparr>iq_depth := iq_depth q + 1\<rparr>"
  have q: "gs_ioq (io_g st1) = Some q" "ioq_wf V q" "iq_split q = S" using reads_queue [OF assms(1)] by simp_all
  have h: "outstanding q = i # in_use (ts_iob (io_t st1))" "contents q i \<noteq> []"
    "buffer_ok crc ss o1 (contents q i) (ib_error_end (iq_blocks q ! i))"
    "ib_error_end (iq_blocks q ! i) = 0 \<or> \<not> intact crc ss"
    "length (contents q i) = S \<or> ts_iob (io_t st1) = None \<and> dn = ss"
    "cur_ok crc ss dn (o1 + length (contents q i)) q (ts_iob (io_t st1))"
    using assms(2) by (simp_all add: handed_def)
  have rel: "release_ioblock True q = (0, ?q)" "ioq_wf V ?q" "outstanding ?q = in_use (ts_iob (io_t st1))"
  proof -
    have "iq_depth q < 4" using outstanding_depth [OF q(2)] h(1) by (cases "iq_depth q < 4") simp_all
    then show "release_ioblock True q = (0, ?q)" by (simp add: release_ioblock_def)
    then show "ioq_wf V ?q" "outstanding ?q = in_use (ts_iob (io_t st1))"
      using release_ioblock_spec [OF q(2), of True] h(1) by simp_all
  qed
  let ?st = "set_ioq (Some ?q) (set_iob (ts_iob (io_t st1)) st1)"
  have "with_ioq (release_ioblock True) st1 = (0, ?st)"
    using q(1) rel(1) by (simp add: with_ioq_def set_ioq_def set_iob_def)
  moreover have "reads crc ss V S M h m0 dn ?q ?st" by (rule reads_set [OF assms(1) rel(2)]) (use q(3) in simp)
  then obtain bs st' where r: "read_all crc d fuel ?st = Some (bs, st')"
    "delivered crc ss S (o1 + length (contents q i)) bs" "P st'"
    using IH [of ?q ?st] rel(3) h(6) by auto
  moreover have "bs = [] \<or> length (contents q i) = S"
  proof (cases "length (contents q i) = S")
    case False
    then have "o1 + length (contents q i) = length (block_data ss)" using h(5,6) by (auto simp: cur_ok_def)
    then show ?thesis using delivered_end [of crc ss S bs] r(2) by simp
  qed simp
  ultimately show ?thesis
    using assms(3) q(1) h(2-4) by (subst read_all.simps) simp
qed

lemma read_end:
  assumes "reads crc ss V S M h m0 ss q st"
  defines "st1 \<equiv> (if \<not> gs_data_error (io_g st) \<and> sum_mismatch ss M then data_error st else st)"
  shows "read_produce crc d le st =
      (case ts_iob (io_t st) of
         Some i \<Rightarrow> if ib_data_size (iq_blocks q ! i) \<noteq> 0 then Prod 0 (Some i) (set_iob None st1) else Prod 2 None st1
       | None \<Rightarrow> Prod 2 None st1)"
    and "gs_data_error (io_g st1) \<longleftrightarrow> \<not> intact crc ss \<or> sum_mismatch ss M"
    and "reads crc ss V S M h m0 ss q (set_iob None st1)"
proof -
  have r: "reader_st crc ss V S M ss q st" "mi_blocksz M = int (length (concat ss))" using assms(1) by (simp_all add: reads_def)
  have s1: "ts_iob (io_t st1) = ts_iob (io_t st)" "gs_ioq (io_g st1) = gs_ioq (io_g st)"
    by (simp_all add: st1_def data_error_def)
  have "int (ts_crcsumchk (io_t st)) \<noteq> mi_crcsum M mod 2 ^ 64 \<longleftrightarrow> sum_mismatch ss M"
    using r(1) by (simp add: reader_st_def sum_mismatch_def)
  then have "read_produce crc d le st =
      (case (ts_iob (io_t st), gs_ioq (io_g st)) of
         (Some i, Some q) \<Rightarrow> if ioblock_get_fill i q \<noteq> 0 then Prod 0 (Some i) (set_iob None st1) else Prod 2 None st1
       | (None, _) \<Rightarrow> Prod 2 None st1
       | _ \<Rightarrow> PUndef)"
    using r unfolding st1_def
    by (cases "gs_data_error (io_g st)"; cases "sum_mismatch ss M")
      (simp_all add: read_produce_def reader_st_def Let_def)
  then show "read_produce crc d le st =
      (case ts_iob (io_t st) of
         Some i \<Rightarrow> if ib_data_size (iq_blocks q ! i) \<noteq> 0 then Prod 0 (Some i) (set_iob None st1) else Prod 2 None st1
       | None \<Rightarrow> Prod 2 None st1)"
    using r(1) by (simp add: reader_st_def ioblock_get_fill_def split: option.splits)
  show e: "gs_data_error (io_g st1) \<longleftrightarrow> \<not> intact crc ss \<or> sum_mismatch ss M"
    using r(1) by (auto simp: reader_st_def st1_def data_error_def)
  show "reads crc ss V S M h m0 ss q (set_iob None st1)"
    using assms(1) e by (auto simp: reads_def reader_st_def st1_def data_error_def set_iob_def)
qed

lemma read_all_delivers:
  assumes "reads crc ss V S M h m0 dn q st" "outstanding q = in_use (ts_iob (io_t st))"
    and "cur_ok crc ss dn o1 q (ts_iob (io_t st))" "length (block_data ss) - o1 < fuel"
  shows "\<exists>bs st'. read_all crc d fuel st = Some (bs, st') \<and> delivered crc ss S o1 bs \<and>
    (gs_data_error (io_g st') \<longleftrightarrow> \<not> intact crc ss \<or> sum_mismatch ss M)"
  using assms
proof (induction fuel arbitrary: dn q st o1)
  case (Suc fuel)
  have hands: ?case
    if "reads crc ss V S M h m0 dn' q' st1" "handed crc ss S dn' o1 q' i (ts_iob (io_t st1))"
      "read_produce crc d (\<lambda>_. locks_ok) st = Prod 0 (Some i) st1" for dn' q' st1 i
  proof (rule read_all_hands [OF that])
    fix q2 st2
    assume "reads crc ss V S M h m0 dn' q2 st2" "outstanding q2 = in_use (ts_iob (io_t st2))"
      "cur_ok crc ss dn' (o1 + length (contents q' i)) q2 (ts_iob (io_t st2))"
    moreover have "length (block_data ss) - (o1 + length (contents q' i)) < fuel"
      using that(2) Suc.prems(4) by (cases "contents q' i") (auto simp: handed_def buffer_ok_def)
    ultimately show "\<exists>bs st'. read_all crc d fuel st2 = Some (bs, st') \<and>
        delivered crc ss S (o1 + length (contents q' i)) bs \<and>
        (gs_data_error (io_g st') \<longleftrightarrow> \<not> intact crc ss \<or> sum_mismatch ss M)"
      by (rule Suc.IH)
  qed
  obtain todo where todo: "ss = dn @ todo" "chunks_ok V todo" using Suc.prems(1) by (auto simp: reads_def)
  show ?case
  proof (cases "todo = []")
    case True
    then have dn: "dn = ss" using todo(1) by simp
    note r = Suc.prems(1) [unfolded dn]
    note e = read_end [OF r]
    show ?thesis
    proof (cases "\<exists>i. ts_iob (io_t st) = Some i \<and> ib_data_size (iq_blocks q ! i) \<noteq> 0")
      case True
      then obtain i where i: "ts_iob (io_t st) = Some i" "ib_data_size (iq_blocks q ! i) \<noteq> 0" by blast
      have q: "ioq_wf V q" using reads_queue [OF r] by simp
      have b: "i < 4" "buf_holds crc ss ss o1 q i" "outstanding q = [i]"
        using Suc.prems(2,3) i(1) dn by (simp_all add: cur_ok_def in_use_def)
      note l = buf_holds_length [OF q b(1,2)]
      have "contents q i \<noteq> []" using l(1) i(2) by auto
      then have "handed crc ss S ss o1 q i None"
        using b l by (simp add: handed_def in_use_def cur_ok_def buf_holds_def Let_def)
      then show ?thesis using hands [OF e(3), of i] e(1) i by simp
    next
      case False
      then have "o1 = length (block_data ss)"
        using Suc.prems(3) dn by (auto simp: cur_ok_def buf_holds_def Let_def split: option.splits)
      then show ?thesis
        using e(1,2) False by (subst read_all.simps) (auto split: option.splits)
    qed
  next
    case False
    then obtain s ts where s: "todo = s # ts" by (cases todo) auto
    have "0 < length (concat todo)" using chunks_ok_Cons(1) todo(2) s by fastforce
    then have "read_produce crc d (\<lambda>_. locks_ok) st = produce_loop crc d (\<lambda>_. locks_ok) 0 None st"
      using Suc.prems(1) todo(1) by (auto simp: read_produce_def reads_def reader_st_def Let_def)
    then show ?thesis
      using produce_loop_hands [OF Suc.prems(1) todo(1) Suc.prems(2,3), of 0 None] False hands by metis
  qed
qed simp

end

end
