(* ===== verification/BlockIO.thy ===== *)
theory BlockIO
  imports BlockReader "HOL-Library.Code_Target_Nat"
begin

text \<open>
  A block from the writer thread to the reader thread (\<^verbatim>\<open>src/io/iothreads.c\<close>), over the interface of the
  data abstractions and, at the end, over the POSIX abstraction. The side that fills the buffers of the
  writer is \<open>write_all\<close>: it reserves a buffer for each piece of data and hands it to
  \<^verbatim>\<open>write_consume\<close>.
\<close>

section \<open>The writer\<close>

definition fill_with :: "nat \<Rightarrow> string \<Rightarrow> ioqueue \<Rightarrow> ioqueue" where
  "fill_with i b q =
     ioblock_update_fill i (length b) False (set_block i (\<lambda>k. k\<lparr>ib_buff := buf_store 0 b (ib_buff k)\<rparr>) q)"

fun write_all ::
  "(string \<Rightarrow> u32) \<Rightarrow> ('w, 'h) dal \<Rightarrow> string list \<Rightarrow> ('w, 'h) io_state \<Rightarrow> ('w, 'h) io_state option" where
  "write_all crc d [] st = Some st"
| "write_all crc d (b # bs) st =
     (case reserve_ioblock True None None (gs_ioq (io_g st)) of
        Rsv r (Some i) push (Some q) \<Rightarrow>
          if r \<noteq> 0 then None
          else
            (case write_consume crc d locks_ok i (set_ioq (Some (fill_with i b q)) st) of
               Inr (r2, st') \<Rightarrow> if r2 = 0 then write_all crc d bs st' else None
             | Inl _ \<Rightarrow> None)
      | _ \<Rightarrow> None)"

text \<open>The metadata that the writer counts, and the state behind the pieces \<open>bs\<close>.\<close>

definition counted :: "(string \<Rightarrow> u32) \<Rightarrow> meta_info \<Rightarrow> string list \<Rightarrow> meta_info" where
  "counted crc M bs =
     M\<lparr>mi_crcsum := to_i64 (sum_list (map (\<lambda>b. uint (crc b)) bs)),
       mi_blocksz := to_i64 (sum_list (map (\<lambda>b. int (length b + 4)) bs))\<rparr>"

lemma to_i64_mod: "to_i64 i mod 2 ^ 64 = i mod 2 ^ 64"
  using take_bit_signed_take_bit [of 64 63 i] by (simp add: to_i64_def take_bit_eq_mod)

lemma to_i64_add: "to_i64 (to_i64 i + j) = to_i64 (i + j)"
proof -
  have "(signed_take_bit 63 i + j) mod 2 ^ 64 = (i + j) mod 2 ^ 64"
    using to_i64_mod [of i] unfolding to_i64_def by (metis mod_add_left_eq)
  then show ?thesis by (simp add: to_i64_def signed_take_bit_eq_iff_take_bit_eq take_bit_eq_mod)
qed

lemma counted_snoc:
  "counted crc M (bs @ [b]) =
   (counted crc M bs)\<lparr>mi_crcsum := to_i64 (mi_crcsum (counted crc M bs) + uint (crc b)),
     mi_blocksz := to_i64 (mi_blocksz (counted crc M bs) + int (length b + 4))\<rparr>"
  by (simp add: counted_def to_i64_add)

lemma counted_simps [simp]: "mi_versz (counted crc M bs) = mi_versz M"
  by (simp add: counted_def)

lemma fill_with_block:
  assumes "ioq_wf room q" "i < 4" "ib_data_size (iq_blocks q ! i) = 0" "length b + 4 \<le> iq_blocksz q"
  shows "ioq_wf room (fill_with i b q)" "outstanding (fill_with i b q) = outstanding q"
    "iq_split (fill_with i b q) = iq_split q" "iq_blocksz (fill_with i b q) = iq_blocksz q"
    "ib_data_size (iq_blocks (fill_with i b q) ! i) = length b"
    "take (length b) (ib_buff (iq_blocks (fill_with i b q) ! i)) = b"
proof -
  have l: "length (iq_blocks q) = 4" "iq_blocksz q < 2 ^ 64" using assms(1) by (simp_all add: ioq_wf_def)
  have bl: "length (ib_buff (iq_blocks q ! i)) = iq_blocksz q" by (rule ioq_wf_buff [OF assms(1,2)])
  let ?q1 = "set_block i (\<lambda>k. k\<lparr>ib_buff := buf_store 0 b (ib_buff k)\<rparr>) q"
  have w1: "ioq_wf room ?q1" by (rule set_block_wf [OF assms(1,2)]) (use bl assms(4) in simp)
  have b1: "iq_blocks ?q1 ! i = (iq_blocks q ! i)\<lparr>ib_buff := buf_store 0 b (ib_buff (iq_blocks q ! i))\<rparr>"
    using l(1) assms(2) by (simp add: set_block_nth(1))
  have m: "length b mod 18446744073709551616 = length b" using assms(4) l(2) by simp
  show "ioq_wf room (fill_with i b q)"
    unfolding fill_with_def ioblock_update_fill_def by (rule set_block_wf [OF w1 assms(2)]) (use b1 bl assms(4) in \<open>simp add: Let_def\<close>)
  show "outstanding (fill_with i b q) = outstanding q" "iq_split (fill_with i b q) = iq_split q"
    "iq_blocksz (fill_with i b q) = iq_blocksz q"
    by (simp_all add: fill_with_def ioblock_update_fill_def)
  show "ib_data_size (iq_blocks (fill_with i b q) ! i) = length b"
    "take (length b) (ib_buff (iq_blocks (fill_with i b q) ! i)) = b"
    using b1 l(1) assms(2,3) m by (simp_all add: fill_with_def ioblock_update_fill_def set_block_nth(1) Let_def buf_store_def)
qed

text \<open>A call of \<^verbatim>\<open>write_consume\<close> puts the piece with its checksum and releases the buffer.\<close>

lemma write_put_ioq:
  "write_put d x c (set_ioq q st) = set_ioq q (write_put d x c st)"
  by (auto simp: write_put_def set_ioq_def data_error_def Let_def split: prod.splits)

lemma gs_ioq_write_put [simp]: "gs_ioq (io_g (write_put d x c st)) = gs_ioq (io_g st)"
  by (auto simp: write_put_def data_error_def Let_def split: prod.splits)

lemma write_consume_puts:
  assumes "gs_ioq (io_g st) = Some q" "ioq_wf room q" "outstanding q = i # us" "i < 4"
    and "ib_data_size (iq_blocks q ! i) = length b" "take (length b) (ib_buff (iq_blocks q ! i)) = b"
    and "0 < length b" "length b + 4 \<le> V" "length b + 4 \<le> iq_blocksz q" "mi_versz (gs_minfo (io_g st)) = int V" "V < 2 ^ 63"
  shows "\<exists>q'. write_consume crc d locks_ok i st = Inr (0, set_ioq (Some q') (write_put d (seal crc b) (crc b) st)) \<and>
    ioq_wf room q' \<and> outstanding q' = us \<and> iq_split q' = iq_split q"
proof -
  let ?B = "iq_blocks q ! i"
  let ?buf = "buf_store (length b) (u32_bytes (crc b)) (ib_buff ?B)"
  let ?q1 = "set_block i (\<lambda>k. k\<lparr>ib_buff := ?buf\<rparr>) q"
  let ?q' = "?q1\<lparr>iq_depth := iq_depth ?q1 + 1\<rparr>"
  have bl: "length (ib_buff ?B) = iq_blocksz q" by (rule ioq_wf_buff [OF assms(2,4)])
  have w1: "ioq_wf room ?q1" by (rule set_block_wf [OF assms(2,4)]) (use bl assms(9) in simp)
  have tk: "take (length b + 4) ?buf = seal crc b"
    using take_buf_store [of "length b" "u32_bytes (crc b)" "ib_buff ?B"] bl assms(6,9) by (simp add: seal_def)
  have "iq_depth ?q1 \<noteq> 4" using outstanding_depth [OF w1] assms(3) by auto
  then have rel: "release_ioblock True ?q1 = (0, ?q')" by (simp add: release_ioblock_def)
  have V: "nat ((int V - 4) mod 18446744073709551616) = V - 4" using assms(7,8,11) by simp
  have ng: "\<not> nat (int V - 4) < length b" using assms(8) by simp
  have "write_consume crc d locks_ok i st = Inr (write_release locks_ok (write_put d (seal crc b) (crc b) (set_ioq (Some ?q1) st)))"
    using assms(1,5-10) bl tk V ng by (simp add: write_consume_def ioblock_read_target_def Let_def locks_ok_def set_ioq_def)
  also have "\<dots> = Inr (0, set_ioq (Some ?q') (write_put d (seal crc b) (crc b) st))"
    using rel by (simp add: write_put_ioq write_release_def with_ioq_def locks_ok_def)
  finally show ?thesis
    using release_ioblock_spec [OF w1, of True] rel assms(3) by (intro exI [of _ ?q']) auto
qed

context block_dal
begin

text \<open>The state of the writer behind the pieces \<open>bs\<close>, as long as no error is noted.\<close>

definition writes ::
  "(string \<Rightarrow> u32) \<Rightarrow> dal_location \<Rightarrow> string \<Rightarrow> 'h \<Rightarrow> nat \<Rightarrow> nat \<Rightarrow> meta_info \<Rightarrow> string list \<Rightarrow> ('w, 'h) io_state \<Rightarrow> bool" where
  "writes crc loc i h V room M bs st \<longleftrightarrow>
     (\<exists>q. gs_ioq (io_g st) = Some q \<and> ioq_wf room q \<and> outstanding q = [] \<and> iq_split q + 4 = V) \<and>
     ts_handle (io_t st) = Some h \<and> gs_minfo (io_g st) = counted crc M bs \<and>
     (\<not> gs_data_error (io_g st) \<longrightarrow> inv (io_w st) \<and> writing loc i h (concat (map (seal crc) bs)) None (io_w st))"

lemma write_put_writes:
  assumes "writes crc loc i h V room M bs st" "ioq_wf room q" "outstanding q = []" "iq_split q + 4 = V"
  shows "writes crc loc i h V room M (bs @ [b]) (set_ioq (Some q) (write_put d (seal crc b) (crc b) st))"
proof -
  obtain r w1 where p: "dal_put d (Some h) (seal crc b) (io_w st) = (r, w1)" by fastforce
  have "\<not> gs_data_error (io_g st) \<Longrightarrow> r = 0 \<Longrightarrow>
      inv w1 \<and> writing loc i h (concat (map (seal crc) bs) @ seal crc b) None w1"
    using put [of "io_w st" loc i h _ None "seal crc b" w1] assms(1) p unfolding writes_def by blast
  then show ?thesis
    using assms p counted_snoc [of crc M bs b]
    by (auto simp: writes_def write_put_def set_ioq_def data_error_def Let_def split: if_splits)
qed

lemma write_all_writes:
  assumes "writes crc loc i h V room M bs0 st" "write_all crc d bs st = Some st'"
    and "\<forall>b \<in> set bs. 0 < length b \<and> length b + 4 \<le> V" "4 \<le> room" "mi_versz M = int V" "V < 2 ^ 63"
  shows "writes crc loc i h V room M (bs0 @ bs) st'"
  using assms
proof (induction bs arbitrary: bs0 st)
  case (Cons b bs)
  obtain q where q: "gs_ioq (io_g st) = Some q" "ioq_wf room q" "outstanding q = []" "iq_split q + 4 = V"
    using Cons.prems(1) by (auto simp: writes_def)
  obtain j q1 where r: "reserve_ioblock True None None (Some q) = Rsv 0 (Some j) None (Some q1)" and j: "j < 4" "ioq_wf room q1"
    "outstanding q1 = [j]" "iq_split q1 = iq_split q" "iq_blocksz q1 = iq_blocksz q" "ib_data_size (iq_blocks q1 ! j) = 0"
    using reserve_first [OF q(2,3), of 0 "[]" "[]" "[]" None crc] by auto
  have b: "0 < length b" "length b + 4 \<le> V" using Cons.prems(3) by simp_all
  have fit: "length b + 4 \<le> iq_blocksz q1" using b(2) q(2,4) j(5) Cons.prems(4) by (simp add: ioq_wf_def)
  note f = fill_with_block [OF j(2,1,6) fit]
  have "gs_minfo (io_g st) = counted crc M bs0" using Cons.prems(1) by (simp add: writes_def)
  then have V: "mi_versz (gs_minfo (io_g (set_ioq (Some (fill_with j b q1)) st))) = int V" using Cons.prems(5) by simp
  have fit': "length b + 4 \<le> iq_blocksz (fill_with j b q1)" using fit f(4) by simp
  have o: "outstanding (fill_with j b q1) = j # []" using f(2) j(3) by simp
  obtain q' where c: "write_consume crc d locks_ok j (set_ioq (Some (fill_with j b q1)) st) =
      Inr (0, set_ioq (Some q') (write_put d (seal crc b) (crc b) (set_ioq (Some (fill_with j b q1)) st)))"
    and q': "ioq_wf room q'" "outstanding q' = []" "iq_split q' = iq_split (fill_with j b q1)"
    using write_consume_puts [OF _ f(1) o j(1) f(5,6) b fit' V Cons.prems(6), of crc d] by auto
  have "set_ioq (Some q') (write_put d (seal crc b) (crc b) (set_ioq (Some (fill_with j b q1)) st)) =
      set_ioq (Some q') (write_put d (seal crc b) (crc b) st)"
    by (simp add: write_put_ioq)
  then have "write_all crc d bs (set_ioq (Some q') (write_put d (seal crc b) (crc b) st)) = Some st'"
    using Cons.prems(2) q(1) r c by simp
  moreover have "writes crc loc i h V room M (bs0 @ [b]) (set_ioq (Some q') (write_put d (seal crc b) (crc b) st))"
    by (rule write_put_writes [OF Cons.prems(1) q'(1,2)]) (use q'(3) f(3) j(4) q(4) in simp)
  ultimately show ?case using Cons.IH [of "bs0 @ [b]"] Cons.prems(3-6) by simp
qed simp

lemma write_term_object:
  assumes "writes crc loc i h V room M bs st" "write_term d locks_ok False abrt st = (g', w')"
    and "\<not> gs_data_error g'" "\<not> gs_meta_error g'" "valid_minfo (counted crc M bs)"
  shows "inv w' \<and> object loc i (concat (map (seal crc) bs)) (counted crc M bs) w' \<and> gs_minfo g' = counted crc M bs"
proof -
  have s: "ts_handle (io_t st) = Some h" "gs_minfo (io_g st) = counted crc M bs" using assms(1) by (simp_all add: writes_def)
  obtain r w1 where 1: "dal_set_meta d (Some h) (counted crc M bs) (io_w st) = (r, w1)" by fastforce
  obtain rc w2 where 2: "dal_close d (Some h) w1 = (rc, w2)" by fastforce
  have e: "\<not> gs_data_error (io_g st)" "r = 0" "rc = 0" "w' = w2" "gs_minfo g' = counted crc M bs"
    using assms(2-4) s 1 2 by (auto simp: write_term_def Let_def split: if_splits)
  have w: "inv (io_w st)" "writing loc i h (concat (map (seal crc) bs)) None (io_w st)"
    using assms(1) e(1) by (simp_all add: writes_def)
  have "inv w1" "writing loc i h (concat (map (seal crc) bs)) (Some (counted crc M bs)) w1"
    using set_meta [OF w assms(5)] 1 e(2) by simp_all
  then show ?thesis using close 2 e by metis
qed

lemma write_init_writes:
  assumes "inv w" "good (gs_location g) (gs_objID g)" "gs_dmode g = DAL_WRITE" "write_init d True 0 g w = (0, g1, Some t, w1)"
    and "ioq_wf room q" "outstanding q = []" "iq_split q + 4 = V" "\<not> gs_data_error g1"
  shows "\<exists>h. writes crc (gs_location g) (gs_objID g) h V room (gs_minfo g) [] \<lparr>io_g = g1\<lparr>gs_ioq := Some q\<rparr>, io_t = t, io_w = w1\<rparr>"
proof -
  obtain ho w2 where o: "dal_open d DAL_WRITE (gs_location g) (gs_objID g) w = (ho, w2)" by fastforce
  have ho: "ho \<noteq> None" using assms(4,8) assms(3) o by (auto simp: write_init_def Let_def split: if_splits)
  then obtain h where h: "ho = Some h" by blast
  have "inv w2" "writing (gs_location g) (gs_objID g) h [] None w2" using open_write [OF assms(1,2)] o h by simp_all
  then show ?thesis
    using assms(3-7) o h by (intro exI [of _ h]) (auto simp: write_init_def writes_def counted_def to_i64_def Let_def)
qed

end

section \<open>The reader of a written block\<close>

context exact_dal
begin

lemma read_init_reads:
  assumes "inv w" "object (gs_location g) (gs_objID g) (concat ss) M w" "gs_dmode g = DAL_READ" "gs_offset g = 0"
    and "mi_totsz (gs_minfo g) = 0" "read_init d True 0 g w = (0, g1, Some t, w1)" "\<not> gs_data_error g1" "\<not> gs_meta_error g1"
    and "ioq_wf V q" "chunks_ok V ss" "mi_versz M = int V" "mi_blocksz M = int (length (concat ss))"
  shows "\<exists>h. reads crc ss V (iq_split q) M h M [] q \<lparr>io_g = g1\<lparr>gs_ioq := Some q\<rparr>, io_t = t, io_w = w1\<rparr> \<and> ts_iob t = None"
proof -
  obtain ho w2 where o: "dal_open d DAL_READ (gs_location g) (gs_objID g) w = (ho, w2)" by fastforce
  obtain r mr w3 where m: "dal_get_meta d ho (gs_minfo g) w2 = ((r, mr), w3)" by (metis surj_pair)
  have ho: "ho \<noteq> None"
  proof
    assume "ho = None"
    then show False using assms(3,6,7) o by (auto simp: read_init_def split: prod.splits if_splits)
  qed
  then obtain h where h: "ho = Some h" by blast
  have e: "r = 0" "g1 = g\<lparr>gs_minfo := mr, gs_meta_error := False\<rparr>" "w1 = w3" "\<not> gs_data_error g"
    "t = \<lparr>ts_offset = 0, ts_handle = Some h, ts_iob = None, ts_crcsumchk = 0, ts_continuous = True\<rparr>"
    using assms(3-8) o h m by (auto simp: read_init_def split: if_splits)
  have 2: "inv w2" "reading h (concat ss) M w2" using open_read [OF assms(1,2)] o h by simp_all
  have "inv w3" "reading h (concat ss) M w3" "mr = M" using get_meta [OF 2, of "gs_minfo g" r mr w3] m h e(1) by simp_all
  then show ?thesis
    using e assms(9-12) by (intro exI [of _ h]) (simp add: reads_def reader_st_def)
qed

end

text \<open>The chunks of a block from pieces of data, and its counts.\<close>

definition pieces_ok :: "nat \<Rightarrow> string list \<Rightarrow> bool" where
  "pieces_ok V bs \<longleftrightarrow> (\<forall>b \<in> set bs. 0 < length b \<and> length b + 4 \<le> V) \<and> (\<forall>b \<in> set (butlast bs). length b + 4 = V)"

lemma pieces_chunks: "pieces_ok V bs \<Longrightarrow> chunks_ok V (map (seal crc) bs)"
  by (auto simp: pieces_ok_def chunks_ok_def map_butlast [symmetric])

lemma block_data_seal [simp]: "block_data (map (seal crc) bs) = concat bs"
  by (induction bs) simp_all

lemma intact_seal [simp]: "intact crc (map (seal crc) bs)"
  by (simp add: intact_def)

lemma counted_block:
  assumes "length (concat (map (seal crc) bs)) < 2 ^ 63"
  shows "mi_blocksz (counted crc M bs) = int (length (concat (map (seal crc) bs)))"
proof -
  have "sum_list (map (\<lambda>b. int (length b + 4)) bs) = int (length (concat (map (seal crc) bs)))"
    by (induction bs) simp_all
  then show ?thesis using assms by (simp add: counted_def to_i64_id)
qed

lemma counted_sum: "\<not> sum_mismatch (map (seal crc) bs) (counted crc M bs)"
proof -
  have "u32_at (length b) (seal crc b) = crc b" for b using u32_at_bytes [of b "crc b" "[]"] by (simp add: seal_def)
  then have "int (crc_total (map (seal crc) bs)) = sum_list (map (\<lambda>b. uint (crc b)) bs)"
    by (induction bs) (simp_all add: crc_total_def)
  then show ?thesis
    unfolding sum_mismatch_def counted_def by (simp add: to_i64_mod [simplified] zmod_int)
qed

lemma write_term_minfo: "write_term d le False abrt st = (g, w) \<Longrightarrow> gs_minfo g = gs_minfo (io_g st)"
  by (auto simp: write_term_def Let_def split: prod.splits option.splits if_splits)

section \<open>Properties\<close>

text \<open>
  C29. What a reader hands out, for any stored content of the block, damaged or not: with reads that do
  not fail the thread comes to the end of the block; the buffers follow each other without gap or
  overlap, all but the last with exactly one split of data; every byte behind the error mark of
  its buffer is the stored byte and its chunk carries the right checksum; and \<open>data_error\<close> is noted
  exactly when some chunk is damaged or the sum of the checksums is not that of the metadata.\<close>

theorem read_block_damaged:
  assumes "fs_wf w" "posix_reading h (concat ss) m0 w" "chunks_ok V ss"
    and "mi_versz (gs_minfo g) = int V" "mi_blocksz (gs_minfo g) = int (length (concat ss))"
    and "\<not> gs_data_error g" "\<not> gs_meta_error g" "gs_ioq g = Some q" "ioq_wf V q" "outstanding q = []"
    and "t = \<lparr>ts_offset = 0, ts_handle = Some h, ts_iob = None, ts_crcsumchk = 0, ts_continuous = True\<rparr>"
  shows "\<exists>bufs st'. read_all crc (posix_dal no_faults dc) (Suc (length (block_data ss))) \<lparr>io_g = g, io_t = t, io_w = w\<rparr> =
      Some (bufs, st') \<and>
    delivered crc ss (iq_split q) 0 bufs \<and>
    (gs_data_error (io_g st') \<longleftrightarrow> \<not> intact crc ss \<or> sum_mismatch ss (gs_minfo g))"
proof -
  have "posix_calm.reads crc ss V (iq_split q) (gs_minfo g) h m0 [] q \<lparr>io_g = g, io_t = t, io_w = w\<rparr>"
    unfolding posix_calm.reads_def using assms by (simp add: reader_st_def)
  from posix_calm.read_all_delivers [OF this, of 0 "Suc (length (block_data ss))" dc] show ?thesis
    using assms(10,11) by (simp add: in_use_def cur_ok_def)
qed

text \<open>
  C28. From writer to reader. A writer thread that started without error, consumed the pieces \<open>bs\<close> and
  ended with neither error flag set, whatever system calls failed on the way, has stored a
  block from which a reader thread with working reads gets back exactly the data of the
  pieces, with no error mark and no data error: the chunks and the sum of the checksums agree.\<close>

theorem block_write_read:
  assumes "fs_wf w0" "cstr (obj_path dc (gs_location g) (gs_objID g))" "gs_dmode g = DAL_WRITE"
    and "write_init (posix_dal F dc) True 0 g w0 = (0, g1, Some t, w1)" "\<not> gs_data_error g1"
    and "ioq_wf room q" "outstanding q = []" "iq_split q + 4 = V" "4 \<le> room" "mi_versz (gs_minfo g) = int V" "V < 2 ^ 63"
    and "pieces_ok V bs" "length (concat (map (seal crc) bs)) < 2 ^ 63"
    and "write_all crc (posix_dal F dc) bs \<lparr>io_g = g1\<lparr>gs_ioq := Some q\<rparr>, io_t = t, io_w = w1\<rparr> = Some st"
    and "write_term (posix_dal F dc) locks_ok False abrt st = (g2, w2)" "\<not> gs_data_error g2" "\<not> gs_meta_error g2"
    and "valid_minfo (gs_minfo g2)"
    and "gs_location r = gs_location g" "gs_objID r = gs_objID g" "gs_dmode r = DAL_READ" "gs_offset r = 0"
    and "mi_totsz (gs_minfo r) = 0"
    and "read_init (posix_dal no_faults dc) True 0 r w2 = (0, r1, Some u, w3)" "\<not> gs_data_error r1" "\<not> gs_meta_error r1"
    and "ioq_wf V p" "outstanding p = []"
  shows "\<exists>bufs st'. read_all crc (posix_dal no_faults dc) (Suc (length (concat bs)))
      \<lparr>io_g = r1\<lparr>gs_ioq := Some p\<rparr>, io_t = u, io_w = w3\<rparr> = Some (bufs, st') \<and>
    concat (map fst bufs) = concat bs \<and> (\<forall>b \<in> set bufs. snd b = 0) \<and> \<not> gs_data_error (io_g st') \<and>
    gs_minfo r1 = gs_minfo g2"
proof -
  let ?M = "counted crc (gs_minfo g) bs" and ?ss = "map (seal crc) bs"
  obtain h where "posix.writes dc crc (gs_location g) (gs_objID g) h V room (gs_minfo g) []
      \<lparr>io_g = g1\<lparr>gs_ioq := Some q\<rparr>, io_t = t, io_w = w1\<rparr>"
    using posix.write_init_writes [OF assms(1-4,6-8,5)] by blast
  note w1 = this
  have pc: "\<forall>b \<in> set bs. 0 < length b \<and> length b + 4 \<le> V" using assms(12) by (simp add: pieces_ok_def)
  have w: "posix.writes dc crc (gs_location g) (gs_objID g) h V room (gs_minfo g) bs st"
    using posix.write_all_writes [OF w1 assms(14) pc assms(9,10,11)] by simp
  have g2: "gs_minfo g2 = ?M" using write_term_minfo [OF assms(15)] w by (simp add: posix.writes_def)
  have v: "valid_minfo ?M" using assms(18) g2 by simp
  have obj: "fs_wf w2" "posix_object dc (gs_location r) (gs_objID r) (concat ?ss) ?M w2"
    using posix.write_term_object [OF w assms(15-17) v] assms(19,20) by simp_all
  have M: "mi_versz ?M = int V" "mi_blocksz ?M = int (length (concat ?ss))"
    using assms(10) counted_block [OF assms(13)] by simp_all
  obtain k where k: "posix_calm.reads crc ?ss V (iq_split p) ?M k ?M [] p \<lparr>io_g = r1\<lparr>gs_ioq := Some p\<rparr>, io_t = u, io_w = w3\<rparr>"
    "ts_iob u = None"
    using posix_calm.read_init_reads [OF obj assms(21-27) pieces_chunks [OF assms(12)] M] by blast
  have r1: "gs_minfo r1 = ?M" using k(1) by (simp add: posix_calm.reads_def reader_st_def)
  obtain bufs st' where r: "read_all crc (posix_dal no_faults dc) (Suc (length (concat bs)))
      \<lparr>io_g = r1\<lparr>gs_ioq := Some p\<rparr>, io_t = u, io_w = w3\<rparr> = Some (bufs, st')"
    "delivered crc ?ss (iq_split p) 0 bufs" "gs_data_error (io_g st') \<longleftrightarrow> \<not> intact crc ?ss \<or> sum_mismatch ?ss ?M"
    using posix_calm.read_all_delivers [OF k(1), of 0 "Suc (length (concat bs))" dc] k(2) assms(28)
    by (auto simp: in_use_def cur_ok_def)
  have "concat (map fst bufs) = concat bs \<and> (\<forall>b \<in> set bufs. snd b = 0)"
    using delivered_intact [OF r(2) intact_seal] by simp
  then show ?thesis using r counted_sum [of crc bs "gs_minfo g"] r1 g2 by auto
qed

section \<open>Examples\<close>

text \<open>A checksum, the queues of both sides, and a run of both threads over the POSIX abstraction.\<close>

definition crc_example :: "string \<Rightarrow> u32" where
  "crc_example b = of_nat (foldr (\<lambda>c n. of_char c + 7 * n) b (length b))"

definition queue_example :: "nat \<Rightarrow> nat \<Rightarrow> ioqueue" where
  "queue_example split room =
     \<lparr>iq_head = 0, iq_depth = 4,
      iq_blocks = replicate 4 \<lparr>ib_data_size = 0, ib_error_end = 0, ib_buff = replicate (split + room) NUL\<rparr>,
      iq_split = split, iq_partsz = 2, iq_iosz = 9, iq_partcnt = 2, iq_blocksz = split + room\<rparr>"

lemma queue_example_ok:
  "ioq_wf 9 (queue_example 4 9)" "ioq_wf 6 (queue_example 5 6)" "outstanding (queue_example m n) = []"
  "iq_split (queue_example m n) = m"
  by (simp_all add: ioq_wf_def queue_example_def outstanding_def)

definition gthread_example :: "dal_mode \<Rightarrow> int \<Rightarrow> gthread_state" where
  "gthread_example mode totsz =
     \<lparr>gs_objID = ''obj/1'', gs_location = posix_example_loc, gs_dmode = mode, gs_offset = 0,
      gs_minfo = posix_example_minfo\<lparr>mi_totsz := totsz\<rparr>, gs_meta_error = False, gs_data_error = False, gs_ioq = None\<rparr>"

definition damaged_chunks :: "string list" where
  "damaged_chunks = [seal crc_example ''hello'', ''abc'' @ u32_bytes 7]"

definition damaged_minfo :: meta_info where
  "damaged_minfo = posix_example_minfo\<lparr>mi_versz := 9, mi_blocksz := 16\<rparr>"

definition damaged_run :: "int \<times> int \<times> int \<times> bctxt option \<times> bctxt option \<times> pfs" where
  "damaged_run =
     (let F = no_faults; dc = posix_example_ctxt; loc = posix_example_loc; i = ''obj/1'' in
      case posix_open F (Some dc) DAL_WRITE loc i fs_init of (h, w1) \<Rightarrow>
      case dal_put_all (posix_dal F dc) h damaged_chunks w1 of (r2, w2) \<Rightarrow>
      case posix_set_meta F h damaged_minfo w2 of (r3, w3) \<Rightarrow>
      case posix_close F h w3 of (r4, w4) \<Rightarrow>
      case posix_open F (Some dc) DAL_READ loc i w4 of (g, w5) \<Rightarrow> (r2, r3, r4, h, g, w5))"

lemma damaged_run_ok:
  "(case damaged_run of (r2, r3, r4, h, g, w) \<Rightarrow> r2 = 0 \<and> r3 = 0 \<and> r4 = 0 \<and> h \<noteq> None \<and> g \<noteq> None)"
  by code_simp

lemma damaged_reading:
  "\<exists>h w. snd (snd (snd (snd damaged_run))) = (Some h, w) \<and> fs_wf w \<and> posix_reading h (concat damaged_chunks) damaged_minfo w"
proof -
  let ?F = no_faults and ?dc = posix_example_ctxt and ?loc = posix_example_loc and ?i = "''obj/1''"
  obtain h w1 where 1: "posix_open ?F (Some ?dc) DAL_WRITE ?loc ?i fs_init = (h, w1)" by fastforce
  obtain r2 w2 where 2: "dal_put_all (posix_dal ?F ?dc) h damaged_chunks w1 = (r2, w2)" by fastforce
  obtain r3 w3 where 3: "posix_set_meta ?F h damaged_minfo w2 = (r3, w3)" by fastforce
  obtain r4 w4 where 4: "posix_close ?F h w3 = (r4, w4)" by fastforce
  obtain g w5 where 5: "posix_open ?F (Some ?dc) DAL_READ ?loc ?i w4 = (g, w5)" by fastforce
  have run: "damaged_run = (r2, r3, r4, h, g, w5)"
    by (simp only: damaged_run_def Let_def 1 2 3 4 5 prod.case)
  obtain h' g' where hg: "h = Some h'" "g = Some g'" "r2 = 0" "r3 = 0" "r4 = 0"
    using damaged_run_ok by (auto simp: run)
  have path: "cstr (obj_path ?dc ?loc ?i)" by (simp add: posix_example_path NUL_def)
  have v: "valid_minfo damaged_minfo" by (simp add: valid_minfo_def damaged_minfo_def posix_example_minfo_def)
  have "fs_wf w5" "posix_reading g' (concat damaged_chunks) damaged_minfo w5"
    using posix.store_fetch [OF fs_wf_init path v, of ?F h' w1 damaged_chunks w2 w3 w4 g' w5] 1 2 3 4 5 unfolding hg by simp_all
  then show ?thesis by (simp add: run hg)
qed

theorem read_block_damaged_witness:
  "\<exists>h w bufs st'. snd (snd (snd (snd damaged_run))) = (Some h, w) \<and>
     read_all crc_example (posix_dal no_faults posix_example_ctxt) 9
       \<lparr>io_g = (gthread_example DAL_READ 5)\<lparr>gs_minfo := damaged_minfo, gs_ioq := Some (queue_example 4 9)\<rparr>,
        io_t = \<lparr>ts_offset = 0, ts_handle = Some h, ts_iob = None, ts_crcsumchk = 0, ts_continuous = True\<rparr>, io_w = w\<rparr> =
       Some (bufs, st') \<and>
     delivered crc_example damaged_chunks 4 0 bufs \<and> gs_data_error (io_g st')"
proof -
  obtain h w where hw: "snd (snd (snd (snd damaged_run))) = (Some h, w)" "fs_wf w"
    "posix_reading h (concat damaged_chunks) damaged_minfo w"
    using damaged_reading by blast
  have c: "chunks_ok 9 damaged_chunks" "length (concat damaged_chunks) = 16" "length (block_data damaged_chunks) = 8"
    by (simp_all add: chunks_ok_def damaged_chunks_def)
  have bad: "\<not> intact crc_example damaged_chunks" by code_simp
  show ?thesis
    using read_block_damaged [OF hw(2,3) c(1), of "(gthread_example DAL_READ 5)\<lparr>gs_minfo := damaged_minfo, gs_ioq := Some (queue_example 4 9)\<rparr>"
        "queue_example 4 9" _ crc_example posix_example_ctxt] c(2,3) queue_example_ok bad hw(1)
    by (simp add: damaged_minfo_def gthread_example_def)
qed

text \<open>The whole way of a block, with the flags that the threads leave.\<close>

definition transfer_run :: "(bctxt thread_state \<times> gthread_state \<times> pfs) option \<times> (pfs, bctxt) io_state option \<times>
    (gthread_state \<times> pfs) option \<times> (gthread_state \<times> bctxt thread_state \<times> pfs) option" where
  "transfer_run =
     (let F = no_faults; d = posix_dal F posix_example_ctxt in
      case write_init d True 0 (gthread_example DAL_WRITE 8) fs_init of
        (_, g1, Some t, w1) \<Rightarrow>
          (case write_all crc_example d [''hello'', ''abc''] \<lparr>io_g = g1\<lparr>gs_ioq := Some (queue_example 5 6)\<rparr>, io_t = t, io_w = w1\<rparr> of
             None \<Rightarrow> (Some (t, g1, w1), None, None, None)
           | Some st \<Rightarrow>
               (case write_term d locks_ok False False st of (g2, w2) \<Rightarrow>
                case read_init d True 0 (gthread_example DAL_READ 0) w2 of (_, r1, u, w3) \<Rightarrow>
                  (Some (t, g1, w1), Some st, Some (g2, w2), map_option (\<lambda>u. (r1, u, w3)) u)))
      | _ \<Rightarrow> (None, None, None, None))"

lemma transfer_run_ok:
  "(case transfer_run of
      (Some (t, g1, w1), Some st, Some (g2, w2), Some (r1, u, w3)) \<Rightarrow>
        \<not> gs_data_error g1 \<and> \<not> gs_data_error g2 \<and> \<not> gs_meta_error g2 \<and> valid_minfo (gs_minfo g2) \<and>
        \<not> gs_data_error r1 \<and> \<not> gs_meta_error r1
    | _ \<Rightarrow> False)"
  by code_simp

theorem block_write_read_witness:
  "\<exists>u r1 w3 bufs st'. snd (snd (snd transfer_run)) = Some (r1, u, w3) \<and>
     read_all crc_example (posix_dal no_faults posix_example_ctxt) 9
       \<lparr>io_g = r1\<lparr>gs_ioq := Some (queue_example 4 9)\<rparr>, io_t = u, io_w = w3\<rparr> = Some (bufs, st') \<and>
     concat (map fst bufs) = ''helloabc'' \<and> \<not> gs_data_error (io_g st')"
proof -
  let ?d = "posix_dal no_faults posix_example_ctxt" and ?g = "gthread_example DAL_WRITE 8" and ?r = "gthread_example DAL_READ 0"
  let ?bs = "[''hello'', ''abc'']"
  obtain r g1 to w1 where 1: "write_init ?d True 0 ?g fs_init = (r, g1, to, w1)" by (metis surj_pair)
  obtain t where t: "to = Some t"
    using transfer_run_ok 1 by (cases to) (auto simp: transfer_run_def Let_def)
  have r0: "r = 0" using 1 t by (auto simp: write_init_def Let_def split: prod.splits)
  let ?st = "\<lparr>io_g = g1\<lparr>gs_ioq := Some (queue_example 5 6)\<rparr>, io_t = t, io_w = w1\<rparr>"
  obtain st where st: "write_all crc_example ?d ?bs ?st = Some st"
    using transfer_run_ok 1 t by (cases "write_all crc_example ?d ?bs ?st") (auto simp: transfer_run_def Let_def)
  obtain g2 w2 where 2: "write_term ?d locks_ok False False st = (g2, w2)" by fastforce
  obtain r' r1 uo w3 where 3: "read_init ?d True 0 ?r w2 = (r', r1, uo, w3)" by (metis surj_pair)
  obtain u where u: "uo = Some u"
    using 3 by (auto simp: read_init_def split: prod.splits)
  have r'0: "r' = 0" using 3 by (auto simp: read_init_def split: prod.splits)
  have run: "transfer_run = (Some (t, g1, w1), Some st, Some (g2, w2), Some (r1, u, w3))"
    unfolding transfer_run_def Let_def 1 prod.case t option.case st 2 3 u by simp
  note ok = transfer_run_ok [unfolded run, simplified]
  have path: "cstr (obj_path posix_example_ctxt (gs_location ?g) (gs_objID ?g))"
    by (simp add: gthread_example_def posix_example_path NUL_def)
  have pc: "pieces_ok 9 ?bs" by (simp add: pieces_ok_def)
  have nine: "9 = Suc (length (concat ?bs))" by simp
  have "\<exists>bufs st'. read_all crc_example ?d (Suc (length (concat ?bs)))
      \<lparr>io_g = r1\<lparr>gs_ioq := Some (queue_example 4 9)\<rparr>, io_t = u, io_w = w3\<rparr> = Some (bufs, st') \<and>
    concat (map fst bufs) = concat ?bs \<and> (\<forall>b \<in> set bufs. snd b = 0) \<and> \<not> gs_data_error (io_g st') \<and>
    gs_minfo r1 = gs_minfo g2"
    using ok by (intro block_write_read [OF fs_wf_init path _ 1 [unfolded r0 t] _ queue_example_ok(2) queue_example_ok(3) _ _ _ _ pc _ st 2
        _ _ _ _ _ _ _ _ 3 [unfolded r'0 u] _ _ queue_example_ok(1) queue_example_ok(3)])
      (simp_all add: gthread_example_def queue_example_ok(4) posix_example_minfo_def)
  then obtain bufs st' where "read_all crc_example ?d 9
      \<lparr>io_g = r1\<lparr>gs_ioq := Some (queue_example 4 9)\<rparr>, io_t = u, io_w = w3\<rparr> = Some (bufs, st')"
    "concat (map fst bufs) = concat ?bs" "\<not> gs_data_error (io_g st')"
    by (simp only: nine [symmetric]) blast
  then show ?thesis by (simp add: run)
qed

end
