(* ===== verification/StreamTgt.thy ===== *)
theory StreamTgt
  imports Ftag Hash
begin

text \<open>
  Where a data stream keeps its things, \<^verbatim>\<open>src/datastream/datastream.c\<close> and \<^verbatim>\<open>src/config/config.h\<close>: the
  reference path of a file (\<^verbatim>\<open>datastream_genrpath\<close>), the directories that are created on the way, the path of
  the marker of a file that is repacked (\<^verbatim>\<open>repackmarkertgt\<close>), and the name, the erasure pattern and the
  location of a data object (\<^verbatim>\<open>datastream_objtarget\<close>). The tables are those of \<^theory_text>\<open>Hash\<close>, the names those of
  \<^theory_text>\<open>Ftag\<close>.
\<close>

section \<open>The schemes of a namespace\<close>

record ne_location =
  loc_pod :: u32
  loc_cap :: u32
  loc_scatter :: u32

record marfs_ds =
  mds_protection :: ne_erasure
  mds_objfiles :: u64
  mds_objsize :: u64
  mds_podtable :: "hash_table option"
  mds_captable :: "hash_table option"
  mds_scattertable :: "hash_table option"

record marfs_ms =
  mms_directread :: bool
  mms_refbreadth :: u32
  mms_refdepth :: u32
  mms_refdigits :: u32
  mms_reftable :: "hash_table option"

text \<open>A namespace, with the schemes of its repository (\<^verbatim>\<open>ns->prepo\<close>).\<close>

record marfs_ns =
  ns_idstr :: string
  ns_datascheme :: marfs_ds
  ns_metascheme :: marfs_ms

section \<open>Reference paths\<close>

text \<open>
  The name of the node that a lookup finds. The name of a node without one is read through a NULL
  pointer.
\<close>

definition node_name :: "hash_table option \<Rightarrow> string \<Rightarrow> c_error + string" where
  "node_name t s =
     bindE (hash_lookup t (Some s)) (\<lambda>(rv, i).
       case hn_name (ht_nodes (the t) ! i) of None \<Rightarrow> Inl UB | Some nm \<Rightarrow> Inr nm)"

text \<open>
  A name that is printed twice, first for its length and then into a buffer of that length; \<open>f\<close> is
  the function that prints it and \<open>m\<close> says whether the buffer is allocated. A length of \<^verbatim>\<open>SIZE_MAX\<close>, which stands
  for a name that \<^verbatim>\<open>snprintf\<close> cannot print, makes the buffer empty and its content indeterminate.
\<close>

definition print_twice :: "bool \<Rightarrow> (bool \<Rightarrow> nat \<Rightarrow> u64 \<times> string) \<Rightarrow> c_error + string" where
  "print_twice m f =
     (let len = fst (f False 0) in
      if len < 1 then Inl EFail
      else if \<not> m then Inl ENOMEM
      else (case f True (unat (len + 1)) of (len2, text) \<Rightarrow>
        if len2 \<noteq> len then Inl EFail
        else if len + 1 = 0 then Inl UB else Inr text))"

text \<open>
  \<^verbatim>\<open>datastream_genrpath\<close> up to the path. The allocations are the copies \<^verbatim>\<open>ftag_metatgt\<close> makes (0 and 2), the
  name (1) and the path (3).
\<close>

definition genrpath :: "mem \<Rightarrow> ftag \<Rightarrow> hash_table option \<Rightarrow> c_error + string" where
  "genrpath m tag reftable =
     bindE (print_twice (m 1) (\<lambda>tgt len. ftag_metatgt (if len = 0 then m 0 else m 2) (Some tag) tgt len)) (\<lambda>refname.
     bindE (node_name reftable refname) (\<lambda>dir.
       if \<not> m 3 then Inl ENOMEM
       else if snprintf_ret (dir @ refname) \<noteq> int (length (dir @ refname)) then Inl EFAULT
       else Inr (dir @ refname)))"

text \<open>
  The loop that creates the parents: at every run of slashes that is not at the front, the path is cut in
  front of the run and the directory of that name is created. \<open>p\<close> is what the loop has passed.
\<close>

function ref_parents :: "string \<Rightarrow> string \<Rightarrow> string list" where
  "ref_parents p [] = []"
| "ref_parents p (c # s) =
     (if c = CHR ''/'' then
        (if p \<noteq> [] then [p] else []) @
        ref_parents (p @ c # takeWhile (\<lambda>x. x = CHR ''/'') s) (dropWhile (\<lambda>x. x = CHR ''/'') s)
      else ref_parents (p @ [c]) s)"
  by pat_completeness auto
termination
  by (relation "measure (\<lambda>(p, s). length s)") (auto simp: le_imp_less_Suc length_dropWhile_le)

text \<open>
  \<^verbatim>\<open>repackmarkertgt\<close>: the marker lies in the directory of the file. Allocations 0 to 3 produce the
  path, 4 to 6 the name of the marker and the result.
\<close>

fun parent_len :: "nat \<Rightarrow> nat \<Rightarrow> string \<Rightarrow> nat" where
  "parent_len i par [] = par"
| "parent_len i par (c # s) = parent_len (Suc i) (if c = CHR ''/'' then Suc i else par) s"

definition repackmarkertgt :: "mem \<Rightarrow> string option \<Rightarrow> ftag \<Rightarrow> marfs_ms \<Rightarrow> c_error + string" where
  "repackmarkertgt m rpath tag ms =
     bindE (case rpath of None \<Rightarrow> genrpath m tag (mms_reftable ms) | Some p \<Rightarrow> if m 0 then Inr p else Inl ENOMEM)
       (\<lambda>refpath.
          let rparentlen = parent_len 0 0 refpath; rmarklen = fst (ftag_repackmarker (m 4) (Some tag) False 0) in
          if rmarklen = 0 then Inl EFail
          else if \<not> m 5 then Inl ENOMEM
          else (case ftag_repackmarker (m 6) (Some tag) True (unat (rmarklen + 1)) of (len2, mark) \<Rightarrow>
            if len2 \<noteq> rmarklen then Inl EFAULT
            else if rmarklen + 1 = 0 then Inl UB else Inr (take rparentlen refpath @ mark)))"

section \<open>Data objects\<close>

text \<open>
  One round of the loop over the tables: the number behind the first character of the name that the
  table holds for the object. An empty name is read behind its end.
\<close>

definition table_value :: "hash_table option \<Rightarrow> string \<Rightarrow> c_error + u32" where
  "table_value t objname =
     bindE (node_name t objname) (\<lambda>nm.
       if nm = [] then Inl UB
       else (case strtoull 10 (tl nm) of (v, e) \<Rightarrow>
         if peek e \<noteq> NUL \<or> v \<ge> word_of_int INT_MAX then Inl EFail else Inr (ucast v)))"

text \<open>
  \<^verbatim>\<open>datastream_objtarget\<close>: the name of the object, its erasure pattern and its location. \<open>m\<close> says whether
  the name is allocated.
\<close>

definition datastream_objtarget ::
    "bool \<Rightarrow> ftag option \<Rightarrow> marfs_ds option \<Rightarrow> c_error + string \<times> ne_erasure \<times> ne_location" where
  "datastream_objtarget m tago dso =
     (case tago of None \<Rightarrow> Inl EINVAL | Some tag \<Rightarrow>
     (case dso of None \<Rightarrow> Inl EINVAL | Some ds \<Rightarrow>
       let objnamelen = fst (ftag_datatgt (Some tag) False 0) in
       if sint objnamelen \<le> 0 then Inl EFail
       else if \<not> m then Inl ENOMEM
       else (case ftag_datatgt (Some tag) True (unat (objnamelen + 1)) of (len2, objname) \<Rightarrow>
         if objnamelen \<noteq> len2 then Inl EFail
         else
           bindE (table_value (mds_podtable ds) objname) (\<lambda>pod.
           bindE (table_value (mds_captable ds) objname) (\<lambda>cap.
           bindE (table_value (mds_scattertable ds) objname) (\<lambda>scatter.
           bindE (hash_rangevalue objname (er_N (ft_protection tag) + er_E (ft_protection tag))) (\<lambda>off.
             Inr (objname, (ft_protection tag)\<lparr>er_O := off\<rparr>,
                  \<lparr>loc_pod = pod, loc_cap = cap, loc_scatter = scatter\<rparr>))))))))"

section \<open>Lemmas\<close>

text \<open>The end of a name of a directory in a path.\<close>

definition dir_end :: "string \<Rightarrow> nat \<Rightarrow> bool" where
  "dir_end s i \<longleftrightarrow> 0 < i \<and> i < length s \<and> s ! i = CHR ''/'' \<and> s ! (i - 1) \<noteq> CHR ''/''"

lemma filter_upt_first:
  "i < j \<Longrightarrow> filter P [i..<j] = (if P i then [i] else []) @ filter P [Suc i..<j]"
  by (simp add: upt_conv_Cons)

lemma filter_upt_skip:
  assumes "i \<le> j" "j \<le> k" "\<And>l. i \<le> l \<Longrightarrow> l < j \<Longrightarrow> \<not> P l"
  shows "filter P [i..<k] = filter P [j..<k]"
proof -
  have "[i..<k] = [i..<j] @ [j..<k]" using assms(1,2) upt_add_eq_append [of i j "k - j"] by simp
  moreover have "filter P [i..<j] = []" using assms(3) by (simp add: filter_empty_conv)
  ultimately show ?thesis by simp
qed

lemma ref_parents_gen:
  assumes "p \<noteq> [] \<and> last p = CHR ''/'' \<and> s \<noteq> [] \<longrightarrow> hd s \<noteq> CHR ''/''"
  shows "ref_parents p s = map (\<lambda>i. take i (p @ s)) (filter (dir_end (p @ s)) [length p..<length (p @ s)])"
  using assms
proof (induction p s rule: ref_parents.induct)
  case (2 p c s)
  let ?t = "p @ c # s"
  have nth: "?t ! length p = c" by simp
  show ?case
  proof (cases "c = CHR ''/''")
    case True
    let ?r = "takeWhile (\<lambda>x. x = CHR ''/'') s" and ?d = "dropWhile (\<lambda>x. x = CHR ''/'') s"
    let ?q = "p @ c # ?r"
    have t: "?q @ ?d = ?t" by simp
    have len: "length ?q = Suc (length p + length ?r)" "length ?q \<le> length ?t"
      by (simp_all add: length_takeWhile_le)
    have "ref_parents ?q ?d = map (\<lambda>i. take i (?q @ ?d)) (filter (dir_end (?q @ ?d)) [length ?q..<length (?q @ ?d)])"
      using hd_dropWhile [of "\<lambda>x. x = CHR ''/''" s] by (intro "2.IH"(1) True) auto
    then have ih: "ref_parents ?q ?d = map (\<lambda>i. take i ?t) (filter (dir_end ?t) [length ?q..<length ?t])" unfolding t .
    have run: "\<not> dir_end ?t l" if "Suc (length p) \<le> l" "l < length ?q" for l
    proof -
      have "?t ! (l - 1) = CHR ''/''"
      proof (cases "l = Suc (length p)")
        case False
        define j where "j = l - 1 - Suc (length p)"
        have j: "l - 1 = Suc (length p + j)" "j < length ?r" using that False len(1) unfolding j_def by linarith+
        have "?t ! Suc (length p + j) = (c # s) ! Suc j" using nth_append_length_plus [of p "c # s" "Suc j"] by simp
        then have "?t ! (l - 1) = s ! j" unfolding j(1) by simp
        moreover have "s ! j = ?r ! j" using j(2) by (simp add: takeWhile_nth)
        moreover have "?r ! j = CHR ''/''" using set_takeWhileD [OF nth_mem [OF j(2)]] by simp
        ultimately show ?thesis by simp
      qed (simp add: True)
      then show ?thesis by (simp add: dir_end_def)
    qed
    have "dir_end ?t (length p) \<longleftrightarrow> p \<noteq> []"
      using "2.prems" True by (cases p rule: rev_cases) (auto simp: dir_end_def nth_append)
    moreover have "filter (dir_end ?t) [Suc (length p)..<length ?t] = filter (dir_end ?t) [length ?q..<length ?t]"
      by (rule filter_upt_skip) (use run len in auto)
    ultimately have "filter (dir_end ?t) [length p..<length ?t] =
        (if p \<noteq> [] then [length p] else []) @ filter (dir_end ?t) [length ?q..<length ?t]"
      by (subst filter_upt_first) simp_all
    then show ?thesis using True ih by simp
  next
    case False
    have "ref_parents (p @ [c]) s = map (\<lambda>i. take i ?t) (filter (dir_end ?t) [Suc (length p)..<length ?t])"
      using "2.IH"(2) [OF False] False by simp
    moreover have "\<not> dir_end ?t (length p)" using False by (simp add: dir_end_def)
    ultimately show ?thesis using False by (subst filter_upt_first) simp_all
  qed
qed simp

text \<open>
  The directories that are created for a reference path are exactly its parents: the prefixes that
  end with the name of a directory in front of a slash, each of them once and a parent always in front of
  what lies in it; neither the root nor the file itself, and no empty name between two slashes.\<close>

theorem ref_parents_spec:
  "ref_parents [] s = map (\<lambda>i. take i s) (filter (dir_end s) [0..<length s])"
  using ref_parents_gen [of "[]" s] by simp

section \<open>Lookups\<close>

text \<open>A table of numbered positions, as the configuration builds it: a letter and a number.\<close>

definition numbered :: "hash_table option \<Rightarrow> bool" where
  "numbered to \<longleftrightarrow> (case to of None \<Rightarrow> False | Some t \<Rightarrow> ht_ok t \<and> ht_vnodes t \<noteq> [] \<and>
     (\<forall>n \<in> set (ht_nodes t). \<exists>c j. hn_name n = Some (c # show_nat j) \<and> int j < INT_MAX))"

definition node_at :: "hash_table option \<Rightarrow> nat \<Rightarrow> bool" where
  "node_at to j \<longleftrightarrow> (\<exists>t n c. to = Some t \<and> n \<in> set (ht_nodes t) \<and> hn_name n = Some (c # show_nat j))"

lemma node_name_ok:
  assumes "ht_ok t" "ht_vnodes t \<noteq> []"
  shows "\<exists>n \<in> set (ht_nodes t). \<exists>nm. hn_name n = Some nm \<and> node_name (Some t) s = Inr nm"
proof -
  obtain rv i where i: "hash_lookup (Some t) (Some s) = Inr (rv, vn_nodenum (ht_vnodes t ! i))" "i < length (ht_vnodes t)"
    using hash_lookup_spec [OF assms, of s] by blast
  let ?k = "vn_nodenum (ht_vnodes t ! i)"
  have k: "?k < length (ht_nodes t)" using assms(1) i(2) by (simp add: ht_ok_def)
  then obtain nm where "hn_name (ht_nodes t ! ?k) = Some nm" using assms(1) by (force simp: ht_ok_def)
  then show ?thesis using i(1) k by (auto simp: node_name_def intro!: bexI [of _ "ht_nodes t ! ?k"])
qed

lemma table_value_ok:
  assumes "numbered to"
  shows "\<exists>j. node_at to j \<and> int j < INT_MAX \<and> table_value to s = Inr (of_nat j)"
proof -
  obtain t where t: "to = Some t" "ht_ok t" "ht_vnodes t \<noteq> []"
    "\<forall>n \<in> set (ht_nodes t). \<exists>c j. hn_name n = Some (c # show_nat j) \<and> int j < INT_MAX"
    using assms by (auto simp: numbered_def split: option.splits)
  obtain n nm where n: "n \<in> set (ht_nodes t)" "hn_name n = Some nm" "node_name to s = Inr nm"
    using node_name_ok [OF t(2,3), of s] t(1) by auto
  then obtain c j where j: "nm = c # show_nat j" "int j < INT_MAX" using t(4) by force
  then have lt: "j < 2147483647" by (simp add: INT_MAX_def)
  then have sv: "strtoull 10 (show_nat j) = (of_nat j, [])" using strtoull_show_nat [of j "[]"] not_digit_NUL [of 10] by (simp add: no_digit_def)
  have "\<not> (of_nat j :: u64) \<ge> word_of_int INT_MAX" using lt by (simp add: INT_MAX_def word_le_nat_alt unat_of_nat)
  moreover have "ucast (of_nat j :: u64) = (of_nat j :: u32)" using lt by (simp add: word_unat_eq_iff unat_of_nat unsigned_ucast_eq take_bit_nat_eq_self_iff)
  ultimately have "table_value to s = Inr (of_nat j)" using n(3) sv j(1) by (simp add: table_value_def peek_def)
  then show ?thesis using n(1,2) j t(1) by (auto simp: node_at_def)
qed

lemma print_twice_ok:
  assumes "f False 0 = (of_nat (length x), y)" "f True (length x + 1) = (of_nat (length x), x)"
    and "0 < length x" "int (length x) \<le> INT_MAX"
  shows "print_twice True f = Inr x"
proof -
  have l: "length x < 2 ^ 64 - 1" using assms(4) by (simp add: INT_MAX_def)
  then have u: "unat (of_nat (length x) :: u64) = length x" by (simp add: unat_of_nat)
  then have "\<not> (of_nat (length x) :: u64) < 1" using assms(3) by (simp add: word_less_nat_alt)
  moreover have s: "unat (of_nat (length x) + 1 :: u64) = length x + 1"
  proof -
    have "(of_nat (length x) + 1 :: u64) = of_nat (length x + 1)" by simp
    then show ?thesis using l by (simp only: unat_of_nat) simp
  qed
  moreover have "(of_nat (length x) + 1 :: u64) \<noteq> 0" using s by auto
  ultimately show ?thesis using assms(1,2) by (simp add: print_twice_def)
qed

text \<open>Names that fit an \<^verbatim>\<open>int\<close>.\<close>

definition meta_name :: "ftag \<Rightarrow> string" where
  "meta_name tag = ft_ctag tag @ ''|'' @ sanitize (ft_streamid tag) @ ''|'' @ show_nat (unat (ft_fileno tag))"

definition object_name :: "ftag \<Rightarrow> string" where
  "object_name tag = ft_ctag tag @ ''|'' @ ft_streamid tag @ ''|'' @ show_nat (unat (ft_objno tag))"

lemma snprintf_out_fits:
  "int (length x) \<le> INT_MAX \<Longrightarrow> snprintf_out len x = (of_nat (length x), take (len - 1) x)"
  by (simp add: snprintf_out_def snprintf_ret_def snprintf_buf_def)

lemma genrpath_ok:
  assumes "ht_ok t" "ht_vnodes t \<noteq> []" "\<And>n nm. n \<in> set (ht_nodes t) \<Longrightarrow> hn_name n = Some nm \<Longrightarrow>
      int (length nm + length (meta_name tag)) \<le> INT_MAX"
  shows "\<exists>n \<in> set (ht_nodes t). \<exists>dir. hn_name n = Some dir \<and> node_name (Some t) (meta_name tag) = Inr dir \<and>
    genrpath all_mem tag (Some t) = Inr (dir @ meta_name tag)"
proof -
  obtain n dir where n: "n \<in> set (ht_nodes t)" "hn_name n = Some dir" "node_name (Some t) (meta_name tag) = Inr dir"
    using node_name_ok [OF assms(1,2)] by blast
  have l: "int (length dir + length (meta_name tag)) \<le> INT_MAX" using assms(3) [OF n(1,2)] .
  then have m: "int (length (meta_name tag)) \<le> INT_MAX" by simp
  have "ftag_metatgt True (Some tag) True k = snprintf_out k (meta_name tag)"
    "ftag_metatgt True (Some tag) False 0 = snprintf_out 0 (meta_name tag)" for k
    by (simp_all add: ftag_metatgt_def meta_name_def)
  then have p: "print_twice True (\<lambda>tgt len. ftag_metatgt (if len = 0 then True else True) (Some tag) tgt len) = Inr (meta_name tag)"
    using m by (intro print_twice_ok) (simp_all add: snprintf_out_fits meta_name_def)
  have "genrpath all_mem tag (Some t) = Inr (dir @ meta_name tag)"
    using p n(3) l by (simp add: genrpath_def snprintf_ret_def)
  then show ?thesis using n by blast
qed

text \<open>
  The target of a data object. With tables of numbered positions and a positive stripe width, every tag
  whose object name fits an \<^verbatim>\<open>int\<close> has a target: the object is named by client tag, stream and object number,
  pod, cap and scatter are numbers of positions in their tables, below \<^verbatim>\<open>INT_MAX\<close>, the erasure pattern is
  the one of the tag and its start lies within the stripe. The target does not depend on the file: all tags of the
  same stream, object and protection have the same one, so that a reader finds what a writer stored.\<close>

theorem objtarget_spec:
  assumes "numbered (mds_podtable ds)" "numbered (mds_captable ds)" "numbered (mds_scattertable ds)"
    and "0 < sint (er_N (ft_protection tag) + er_E (ft_protection tag))" "int (length (object_name tag)) \<le> INT_MAX"
    and "ft_ctag tag' = ft_ctag tag" "ft_streamid tag' = ft_streamid tag" "ft_objno tag' = ft_objno tag"
      "ft_protection tag' = ft_protection tag"
  shows "\<exists>ep loc. datastream_objtarget True (Some tag) (Some ds) = Inr (object_name tag, ep, loc) \<and>
    er_N ep = er_N (ft_protection tag) \<and> er_E ep = er_E (ft_protection tag) \<and> er_partsz ep = er_partsz (ft_protection tag) \<and>
    0 \<le> sint (er_O ep) \<and> sint (er_O ep) < sint (er_N ep + er_E ep) \<and>
    (\<exists>p c s. node_at (mds_podtable ds) p \<and> node_at (mds_captable ds) c \<and> node_at (mds_scattertable ds) s \<and>
       int p < INT_MAX \<and> int c < INT_MAX \<and> int s < INT_MAX \<and>
       loc = \<lparr>loc_pod = of_nat p, loc_cap = of_nat c, loc_scatter = of_nat s\<rparr>) \<and>
    datastream_objtarget True (Some tag') (Some ds) = Inr (object_name tag, ep, loc)"
proof -
  let ?n = "object_name tag"
  obtain p c s where t: "node_at (mds_podtable ds) p" "int p < INT_MAX" "table_value (mds_podtable ds) ?n = Inr (of_nat p)"
    "node_at (mds_captable ds) c" "int c < INT_MAX" "table_value (mds_captable ds) ?n = Inr (of_nat c)"
    "node_at (mds_scattertable ds) s" "int s < INT_MAX" "table_value (mds_scattertable ds) ?n = Inr (of_nat s)"
    using table_value_ok [OF assms(1), of ?n] table_value_ok [OF assms(2), of ?n] table_value_ok [OF assms(3), of ?n] by blast
  obtain r where r: "hash_rangevalue ?n (er_N (ft_protection tag) + er_E (ft_protection tag)) = Inr r"
    "0 \<le> sint r" "sint r < sint (er_N (ft_protection tag) + er_E (ft_protection tag))"
    using hash_rangevalue_range [OF assms(4)] by blast
  have n: "object_name tag' = ?n" using assms(6-8) by (simp add: object_name_def)
  have l: "length ?n < 2147483648" using assms(5) by (simp add: INT_MAX_def)
  have pos: "\<not> sint (of_nat (length ?n) :: u64) \<le> 0"
  proof -
    have "unat (of_nat (length ?n) :: u64) = length ?n" by (rule unat_of_nat_lt) (use l in simp)
    then have "sint (of_nat (length ?n) :: u64) = int (length ?n)" using sint_nonneg [of "of_nat (length ?n)"] l by simp
    then show ?thesis by (simp add: object_name_def)
  qed
  have u: "unat (of_nat (length ?n) + 1 :: u64) = Suc (length ?n)"
  proof -
    have "(of_nat (length ?n) + 1 :: u64) = of_nat (Suc (length ?n))" by simp
    then show ?thesis using l by (simp only: unat_of_nat) simp
  qed
  have o: "ftag_datatgt (Some x) False 0 = (of_nat (length ?n), [])"
    "ftag_datatgt (Some x) True (Suc (length ?n)) = (of_nat (length ?n), ?n)" if "object_name x = ?n" for x
  proof -
    have "ftag_datatgt (Some x) tgt k = snprintf_out k ?n" if "tgt \<or> k = 0" for tgt k
      using that \<open>object_name x = ?n\<close> by (auto simp: ftag_datatgt_def object_name_def)
    then show "ftag_datatgt (Some x) False 0 = (of_nat (length ?n), [])"
      "ftag_datatgt (Some x) True (Suc (length ?n)) = (of_nat (length ?n), ?n)"
      using assms(5) by (simp_all add: snprintf_out_fits)
  qed
  let ?loc = "\<lparr>loc_pod = of_nat p, loc_cap = of_nat c, loc_scatter = of_nat s\<rparr>"
  have "datastream_objtarget True (Some x) (Some ds) = Inr (?n, (ft_protection tag)\<lparr>er_O := r\<rparr>, ?loc)"
    if "object_name x = ?n" "ft_protection x = ft_protection tag" for x
    using o [OF that(1)] that(2) pos u t r(1) by (simp add: datastream_objtarget_def Let_def)
  then show ?thesis using n assms(9) r(2,3) t by (intro exI [of _ "(ft_protection tag)\<lparr>er_O := r\<rparr>"] exI [of _ ?loc]) auto
qed

lemma parent_len_no_slash: "CHR ''/'' \<notin> set f \<Longrightarrow> parent_len i par f = par"
  by (induction f arbitrary: i par) auto

lemma parent_len_append: "parent_len i par (a @ b) = parent_len (i + length a) (parent_len i par a) b"
  by (induction a arbitrary: i par) auto

lemma parent_len_dir:
  assumes "CHR ''/'' \<notin> set f" "d = [] \<or> last d = CHR ''/''"
  shows "parent_len 0 0 (d @ f) = length d"
  using assms by (cases d rule: rev_cases) (auto simp: parent_len_append parent_len_no_slash)

text \<open>
  The repack marker of a file lies in the directory of its reference file and has the name of that
  file with \<^verbatim>\<open>REPACK\<close> appended, when the table holds directories (names that end with a slash) and neither the
  client tag nor the stream identifier has a slash. (For a client tag with a slash it would not: the code takes
  the directory from the whole path.)\<close>

theorem repackmarker_beside:
  assumes "ht_ok t" "ht_vnodes t \<noteq> []"
    and "\<And>n nm. n \<in> set (ht_nodes t) \<Longrightarrow> hn_name n = Some nm \<Longrightarrow>
      last nm = CHR ''/'' \<and> nm \<noteq> [] \<and> int (length nm + length (meta_name tag) + 6) \<le> INT_MAX"
    and "CHR ''/'' \<notin> set (ft_ctag tag)" "CHR ''/'' \<notin> set (ft_streamid tag)" "mms_reftable ms = Some t"
  shows "\<exists>rp. genrpath all_mem tag (Some t) = Inr rp \<and> repackmarkertgt all_mem None tag ms = Inr (rp @ ''REPACK'')"
proof -
  have "int (length nm + length (meta_name tag)) \<le> INT_MAX" if "n \<in> set (ht_nodes t)" "hn_name n = Some nm" for n nm
    using assms(3) [OF that] by simp
  then obtain n dir where d: "n \<in> set (ht_nodes t)" "hn_name n = Some dir"
    "genrpath all_mem tag (Some t) = Inr (dir @ meta_name tag)" using genrpath_ok [OF assms(1,2)] by blast
  have dir: "last dir = CHR ''/''" "int (length dir + length (meta_name tag) + 6) \<le> INT_MAX" using assms(3) [OF d(1,2)] by auto
  have san: "set (sanitize s) \<subseteq> set s \<union> {CHR ''#''}" for s by (induction s) auto
  have dg: "CHR ''/'' \<notin> set (show_nat k)" for k using show_nat_digits [of k] by (auto simp: is_digit_def)
  have "CHR ''/'' \<notin> set (meta_name tag)" using assms(4,5) san [of "ft_streamid tag"] dg by (auto simp: meta_name_def)
  then have pl: "parent_len 0 0 (dir @ meta_name tag) = length dir" using dir(1) by (intro parent_len_dir) auto
  let ?mark = "meta_name tag @ ''REPACK''"
  have fit: "int (length ?mark) \<le> INT_MAX" using dir(2) by simp
  have rm: "ftag_repackmarker True (Some tag) True k = snprintf_out k ?mark"
    "ftag_repackmarker True (Some tag) False 0 = snprintf_out 0 ?mark" for k
    by (simp_all add: ftag_repackmarker_def meta_name_def)
  define L where "L = length ?mark"
  have L: "0 < L" "L + 1 < 2 ^ 64" using fit by (simp_all add: L_def INT_MAX_def)
  have u: "unat (of_nat L :: u64) = L" "unat (of_nat L + 1 :: u64) = L + 1"
    using unat_of_nat_lt [of L] unat_of_nat_lt [of "L + 1"] L by (simp_all add: add.commute)
  then have nz: "(of_nat L :: u64) \<noteq> 0" "(of_nat L + 1 :: u64) \<noteq> 0" using L by auto
  have out: "snprintf_out k ?mark = (of_nat L, take (k - 1) ?mark)" for k
    unfolding L_def by (rule snprintf_out_fits [OF fit])
  have dd: "take (length dir) (dir @ meta_name tag) = dir" by simp
  have len: "take L ?mark = ?mark" by (simp only: L_def take_all)
  have "repackmarkertgt all_mem None tag ms = Inr (dir @ ?mark)"
    unfolding repackmarkertgt_def Let_def assms(6) option.case d(3) bindE_simps rm out fst_conv pl u(2)
    using nz len dd by (simp del: take_append)
  then show ?thesis using d(3) by simp
qed

section \<open>Examples\<close>

definition one_table :: "string \<Rightarrow> hash_table" where
  "one_table nm = \<lparr>ht_nodes = [\<lparr>hn_name = Some nm, hn_weight = 1, hn_content = 0\<rparr>], ht_vnodes = [VNode (0, 0) 0],
     ht_curnode = 0, ht_iterated = 0\<rparr>"

lemma one_table_ok: "ht_ok (one_table nm)" "ht_vnodes (one_table nm) \<noteq> []"
  by (simp_all add: one_table_def ht_ok_def)

lemma one_table_numbered: "int j < INT_MAX \<Longrightarrow> numbered (Some (one_table (c # show_nat j)))"
  using one_table_ok [of "c # show_nat j"] by (simp add: numbered_def) (auto simp: one_table_def)

definition tgt_example_ds :: marfs_ds where
  "tgt_example_ds =
     \<lparr>mds_protection = \<lparr>er_N = 10, er_E = 2, er_O = 0, er_partsz = 1024\<rparr>, mds_objfiles = 4, mds_objsize = 1000,
      mds_podtable = Some (one_table ''p0''), mds_captable = Some (one_table ''c1''), mds_scattertable = Some (one_table ''s1'')\<rparr>"

definition tgt_example_ns :: marfs_ns where
  "tgt_example_ns =
     \<lparr>ns_idstr = ''ns'', ns_datascheme = tgt_example_ds,
      ns_metascheme = \<lparr>mms_directread = True, mms_refbreadth = 1, mms_refdepth = 1, mms_refdigits = 1,
        mms_reftable = Some (one_table ''r/'')\<rparr>\<rparr>"

definition tgt_example_tag :: ftag where
  "tgt_example_tag =
     \<lparr>ft_majorversion = 0, ft_minorversion = 1, ft_ctag = ''c'', ft_streamid = ''s'', ft_objfiles = 4, ft_objsize = 1000,
      ft_refbreadth = 1, ft_refdepth = 1, ft_refdigits = 1, ft_fileno = 1, ft_objno = 0, ft_offset = 42, ft_endofstream = 0,
      ft_protection = \<lparr>er_N = 10, er_E = 2, er_O = 0, er_partsz = 1024\<rparr>, ft_bytes = 0, ft_availbytes = 0,
      ft_recoverybytes = 100, ft_state = FTAG_INIT\<rparr>"

lemma tgt_example_numbered:
  "numbered (mds_podtable tgt_example_ds)" "numbered (mds_captable tgt_example_ds)" "numbered (mds_scattertable tgt_example_ds)"
  using one_table_numbered [of 0 "CHR ''p''"] one_table_numbered [of 1 "CHR ''c''"] one_table_numbered [of 1 "CHR ''s''"]
  by (simp_all add: tgt_example_ds_def INT_MAX_def show_nat_01)

theorem objtarget_spec_witness:
  "\<exists>ep loc. datastream_objtarget True (Some tgt_example_tag) (Some tgt_example_ds) = Inr (''c|s|0'', ep, loc) \<and>
     sint (er_O ep) < 12 \<and> datastream_objtarget True (Some (tgt_example_tag\<lparr>ft_fileno := 7\<rparr>)) (Some tgt_example_ds) = Inr (''c|s|0'', ep, loc)"
proof -
  have n: "object_name tgt_example_tag = ''c|s|0''" by (simp add: object_name_def tgt_example_tag_def show_nat_01)
  have "0 < sint (er_N (ft_protection tgt_example_tag) + er_E (ft_protection tgt_example_tag))"
    "int (length (object_name tgt_example_tag)) \<le> INT_MAX"
    by (simp_all add: n INT_MAX_def) (simp add: tgt_example_tag_def)
  from objtarget_spec [OF tgt_example_numbered this, of "tgt_example_tag\<lparr>ft_fileno := 7\<rparr>"] show ?thesis
    unfolding n by (auto simp: tgt_example_tag_def)
qed

theorem repackmarker_beside_witness:
  "\<exists>rp. genrpath all_mem tgt_example_tag (Some (one_table ''r/'')) = Inr rp \<and>
     repackmarkertgt all_mem None tgt_example_tag (ns_metascheme tgt_example_ns) = Inr (rp @ ''REPACK'')"
proof (rule repackmarker_beside [OF one_table_ok])
  have m: "length (meta_name tgt_example_tag) = 5" by (simp add: meta_name_def tgt_example_tag_def show_nat_01)
  show "last nm = CHR ''/'' \<and> nm \<noteq> [] \<and> int (length nm + length (meta_name tgt_example_tag) + 6) \<le> INT_MAX"
    if "n \<in> set (ht_nodes (one_table ''r/''))" "hn_name n = Some nm" for n nm
    using that m by (auto simp: one_table_def INT_MAX_def)
qed (simp_all add: tgt_example_tag_def tgt_example_ns_def)

lemma ref_parents_example: "ref_parents [] ''/a//b/c'' = [''/a'', ''/a//b'']"
  by code_simp

end
