(* ===== verification/StreamPos.thy ===== *)
theory StreamPos
  imports StreamTgt Recovery
begin

text \<open>
  Positions in a data stream, \<^verbatim>\<open>src/datastream/datastream.c\<close>: a file's data lies in a row of objects, each
  with a recovery header in front and room for the file's recovery message behind. \<^verbatim>\<open>gettargets\<close> maps an
  offset in the file to an object and an offset in it, \<^verbatim>\<open>datastream_filebounds\<close> gives the last object
  and \<^verbatim>\<open>datastream_chunkbounds\<close> the piece of the file that one object holds.

  \<^verbatim>\<open>size_t\<close> and \<^verbatim>\<open>off_t\<close> are 64-bit words, so that all arithmetic wraps as the code's does; an
  \<^verbatim>\<open>off_t\<close> is read with \<^const>\<open>sint\<close> where its sign matters. The name space and the handles are not part
  of the position; the handles are type parameters. Of the buffers the text of \<^verbatim>\<open>ftagstr\<close> and the sizes are kept.
\<close>

section \<open>State\<close>

datatype stream_type = CREATE_STREAM | EDIT_STREAM | REPACK_STREAM | READ_STREAM

type_synonym timespec = "u64 \<times> u64"

record 'm streamfile =
  sf_metahandle :: "'m option"
  sf_ftag :: ftag
  sf_times :: "timespec \<times> timespec"
  sf_dotimes :: bool

record ('h, 'm) datastream =
  ds_type :: stream_type
  ds_ctag :: string
  ds_streamid :: string
  ds_ns :: marfs_ns
  ds_recoveryheaderlen :: u64
  ds_fileno :: u64
  ds_objno :: u64
  ds_offset :: u64
  ds_excessoffset :: u64
  ds_datahandle :: "'h option"
  ds_files :: "'m streamfile list"
  ds_curfile :: nat
  ds_filealloc :: nat
  ds_finfo :: recovery_finfo
  ds_ftagstr :: string
  ds_ftagstrsize :: nat
  ds_finfostrlen :: nat

record datastream_position =
  dp_totaloffset :: u64
  dp_dataremaining :: u64
  dp_excessremaining :: u64
  dp_objno :: u64
  dp_offset :: u64
  dp_excessoffset :: u64
  dp_dataperobj :: u64

definition SEEK_SET :: int where "SEEK_SET = 0"
definition SEEK_CUR :: int where "SEEK_CUR = 1"
definition SEEK_END :: int where "SEEK_END = 2"

lemmas seek_defs = SEEK_SET_def SEEK_CUR_def SEEK_END_def

definition cur_file :: "('h, 'm) datastream \<Rightarrow> 'm streamfile" where
  "cur_file s = ds_files s ! ds_curfile s"

definition creates :: "stream_type \<Rightarrow> bool" where
  "creates t \<longleftrightarrow> t = CREATE_STREAM \<or> t = REPACK_STREAM"

section \<open>The position of an offset\<close>

text \<open>The size that bounds a file, and the position of the stream relative to the start of its file.\<close>

definition bound_size :: "('h, 'm) datastream \<Rightarrow> u64" where
  "bound_size s =
     (case ds_type s of
        READ_STREAM \<Rightarrow> fi_size (ds_finfo s)
      | EDIT_STREAM \<Rightarrow> ft_availbytes (sf_ftag (cur_file s))
      | _ \<Rightarrow> ft_bytes (sf_ftag (cur_file s)))"

definition cur_delta :: "('h, 'm) datastream \<Rightarrow> u64 \<Rightarrow> u64 \<Rightarrow> u64 \<Rightarrow> u64" where
  "cur_delta s dataperobj minobj minoffset =
     (let hdr = ds_recoveryheaderlen s in
      (if ds_objno s > minobj then
         (dataperobj - minoffset) + (ds_objno s - (minobj + 1)) * dataperobj +
         (if ds_offset s \<noteq> 0 then ds_offset s - hdr else 0)
       else if ds_offset s \<noteq> 0 then (ds_offset s - hdr) - minoffset
       else 0) + ds_excessoffset s)"

text \<open>
  \<^verbatim>\<open>gettargets\<close>. The division is one by zero when the recovery data fills the objects exactly, which is
  undefined.
\<close>

definition gettargets :: "('h, 'm) datastream \<Rightarrow> u64 \<Rightarrow> int \<Rightarrow> c_error + datastream_position" where
  "gettargets s offset0 whence =
     (let curtag = sf_ftag (cur_file s);
          hdr = ds_recoveryheaderlen s;
          dataperobj = ft_objsize curtag - (ft_recoverybytes curtag + hdr);
          minobj = ft_objno curtag;
          minoffset = ft_offset curtag - hdr;
          filesize0 = bound_size s;
          offset = (if whence = SEEK_END then offset0 + filesize0
                    else if whence = SEEK_CUR then offset0 + cur_delta s dataperobj minobj minoffset
                    else offset0)
      in if whence \<noteq> SEEK_END \<and> whence \<noteq> SEEK_CUR \<and> whence \<noteq> SEEK_SET then Inl EINVAL
         else if sint offset < 0 then Inl EINVAL
         else if offset > filesize0 \<and> \<not> creates (ds_type s) then Inl EINVAL
         else
           (let filesize = (if offset > filesize0 then offset else filesize0);
                avail = ft_availbytes curtag;
                excessremain = (if filesize > avail then filesize - avail else 0);
                excessoff = (if offset > avail then offset - avail else 0);
                remain = (if offset > avail then 0 else avail - offset);
                off = (if offset > avail then avail else offset)
            in if off + minoffset \<ge> dataperobj \<and> dataperobj = 0 then Inl UB
               else Inr
                 \<lparr>dp_totaloffset = off + excessoff,
                  dp_dataremaining = remain,
                  dp_excessremaining = excessremain - excessoff,
                  dp_objno = (if off + minoffset \<ge> dataperobj then minobj + (off + minoffset) div dataperobj else minobj),
                  dp_offset = (if off + minoffset \<ge> dataperobj then (off + minoffset) mod dataperobj else minoffset + off) + hdr,
                  dp_excessoffset = excessoff,
                  dp_dataperobj = dataperobj\<rparr>))"

section \<open>Bounds of a file\<close>

text \<open>
  \<^verbatim>\<open>datastream_filebounds\<close> and \<^verbatim>\<open>datastream_chunkbounds\<close>; \<open>chunknum\<close> is an \<^verbatim>\<open>int\<close>. The result of the
  latter is the offset of the chunk and its size.
\<close>

definition datastream_filebounds :: "ftag \<Rightarrow> u64" where
  "datastream_filebounds tag =
     (let headerlen = of_nat (fst (recovery_headertostr
            (Some \<lparr>rh_major = ft_majorversion tag, rh_minor = ft_minorversion tag, rh_ctag = ft_ctag tag,
              rh_streamid = ft_streamid tag\<rparr>) False 0));
          dataperobj = (if ft_objsize tag \<noteq> 0 then ft_objsize tag - (headerlen + ft_recoverybytes tag) else 0);
          pos = ft_bytes tag + ft_offset tag - headerlen
      in if dataperobj \<noteq> 0 then
           (let fin = pos div dataperobj;
                fin' = (if (ft_state tag AND FTAG_DATASTATE) \<ge> FTAG_FIN \<and> fin \<noteq> 0 \<and> pos mod dataperobj = 0 then fin - 1 else fin)
            in ft_objno tag + fin')
         else ft_objno tag)"

definition datastream_chunkbounds :: "('h, 'm) datastream option \<Rightarrow> int \<Rightarrow> c_error + u64 \<times> u64" where
  "datastream_chunkbounds so chunknum =
     (case so of
        None \<Rightarrow> Inl EINVAL
      | Some s \<Rightarrow>
          bindE (gettargets s 0 SEEK_SET) (\<lambda>p.
            let off = dp_offset p - ds_recoveryheaderlen s;
                chunksize = dp_dataperobj p - off;
                tgtoff = (if chunknum > 0 then chunksize + of_int (chunknum - 1) * dp_dataperobj p else 0)
            in if tgtoff > dp_dataremaining p then Inl EINVAL
               else Inr (tgtoff, if tgtoff + chunksize > dp_dataremaining p then dp_dataremaining p - tgtoff else chunksize)))"

section \<open>Where a byte lies\<close>

text \<open>
  The sizes of a file in order: the recovery data leaves room in an object, the file starts within that
  room, and nothing wraps around. \<open>per_obj\<close> bytes of the file fit an object, \<open>start_in\<close> is where the
  file starts behind the header of its first object.
\<close>

definition per_obj :: "ftag \<Rightarrow> u64 \<Rightarrow> nat" where
  "per_obj tag hdr = unat (ft_objsize tag) - (unat (ft_recoverybytes tag) + unat hdr)"

definition start_in :: "ftag \<Rightarrow> u64 \<Rightarrow> nat" where
  "start_in tag hdr = unat (ft_offset tag) - unat hdr"

definition geometry_ok :: "ftag \<Rightarrow> u64 \<Rightarrow> nat \<Rightarrow> bool" where
  "geometry_ok tag hdr sz \<longleftrightarrow>
     unat (ft_recoverybytes tag) + unat hdr < unat (ft_objsize tag) \<and> unat hdr \<le> unat (ft_offset tag) \<and>
     start_in tag hdr \<le> per_obj tag hdr \<and> sz + start_in tag hdr < 2 ^ 63 \<and> unat (ft_objno tag) + sz + start_in tag hdr < 2 ^ 64"

text \<open>Object and offset of byte \<open>k\<close> of a file.\<close>

definition place :: "ftag \<Rightarrow> u64 \<Rightarrow> nat \<Rightarrow> nat \<times> nat" where
  "place tag hdr k =
     (unat (ft_objno tag) + (start_in tag hdr + k) div per_obj tag hdr,
      unat hdr + (start_in tag hdr + k) mod per_obj tag hdr)"

lemma word_minus_add:
  fixes a b c :: u64
  assumes "unat b + unat c \<le> unat a"
  shows "unat (a - (b + c)) = unat a - (unat b + unat c)"
proof -
  have "unat b + unat c < 2 ^ 64" by (rule le_less_trans [OF assms]) simp
  then have bc: "unat (b + c) = unat b + unat c" by (simp add: unat_word_ariths)
  then have "b + c \<le> a" using assms by (simp add: word_le_nat_alt)
  then show ?thesis using bc by (simp add: unat_sub)
qed

lemma geometry_words:
  assumes "geometry_ok tag hdr sz"
  shows "unat (ft_objsize tag - (ft_recoverybytes tag + hdr)) = per_obj tag hdr"
    "unat (ft_offset tag - hdr) = start_in tag hdr" "0 < per_obj tag hdr"
  using assms by (simp_all add: geometry_ok_def per_obj_def start_in_def word_minus_add unat_sub word_le_nat_alt)

lemma unat_add_lt: "unat (a :: u64) + unat b < 2 ^ 64 \<Longrightarrow> unat (a + b) = unat a + unat b"
  by (simp add: unat_word_ariths)

lemma unat_mul_lt: "unat (a :: u64) * unat b < 2 ^ 64 \<Longrightarrow> unat (a * b) = unat a * unat b"
  by (simp add: unat_word_ariths)

text \<open>The position of offset \<open>k\<close> in a file that is bounded by \<open>sz\<close> bytes, \<open>avail\<close> of them stored.\<close>

definition pos_at :: "ftag \<Rightarrow> u64 \<Rightarrow> nat \<Rightarrow> nat \<Rightarrow> datastream_position" where
  "pos_at tag hdr sz k =
     (let avail = unat (ft_availbytes tag); m = min k avail in
      \<lparr>dp_totaloffset = of_nat k, dp_dataremaining = of_nat (avail - m), dp_excessremaining = of_nat (sz - avail - (k - m)),
       dp_objno = of_nat (fst (place tag hdr m)), dp_offset = of_nat (snd (place tag hdr m)),
       dp_excessoffset = of_nat (k - m), dp_dataperobj = of_nat (per_obj tag hdr)\<rparr>)"

lemma of_nat_unat64: "of_nat (unat (x :: u64)) = x"
  by simp

lemma pos_object:
  assumes "geometry_ok tag hdr sz" "unat off \<le> sz"
  defines "dpo \<equiv> ft_objsize tag - (ft_recoverybytes tag + hdr)" and "x \<equiv> off + (ft_offset tag - hdr)"
  shows "(if x \<ge> dpo then ft_objno tag + x div dpo else ft_objno tag) = of_nat (fst (place tag hdr (unat off)))"
    and "(if x \<ge> dpo then x mod dpo else (ft_offset tag - hdr) + off) + hdr = of_nat (snd (place tag hdr (unat off)))"
    and "dpo \<noteq> 0" and "unat dpo = per_obj tag hdr" "unat x = start_in tag hdr + unat off"
proof -
  note g = geometry_words [OF assms(1)]
  show d: "unat dpo = per_obj tag hdr" unfolding dpo_def by (rule g(1))
  then show "dpo \<noteq> 0" using g(3) by auto
  have "unat off + unat (ft_offset tag - hdr) < 2 ^ 64" using assms(1,2) g(2) by (simp add: geometry_ok_def)
  then show x: "unat x = start_in tag hdr + unat off" unfolding x_def using g(2) unat_add_lt by simp
  have ge: "x \<ge> dpo \<longleftrightarrow> start_in tag hdr + unat off \<ge> per_obj tag hdr" using d x by (simp add: word_le_nat_alt)
  have div: "x div dpo = of_nat ((start_in tag hdr + unat off) div per_obj tag hdr)"
    and md: "x mod dpo = of_nat ((start_in tag hdr + unat off) mod per_obj tag hdr)"
    using of_nat_unat64 [of "x div dpo"] of_nat_unat64 [of "x mod dpo"] d x
    by (simp_all add: unat_div_distrib unat_mod_distrib)
  show "(if x \<ge> dpo then ft_objno tag + x div dpo else ft_objno tag) = of_nat (fst (place tag hdr (unat off)))"
    using ge div by (auto simp: place_def)
  have "(ft_offset tag - hdr) + off = of_nat (start_in tag hdr + unat off)"
    using x by (metis add.commute of_nat_unat64 x_def)
  then show "(if x \<ge> dpo then x mod dpo else (ft_offset tag - hdr) + off) + hdr = of_nat (snd (place tag hdr (unat off)))"
    using ge md by (auto simp: place_def)
qed

lemma sub_words: "unat b \<le> unat a \<Longrightarrow> (a :: u64) - b = of_nat (unat a - unat b)"
  by (simp add: of_nat_diff)

lemma gettargets_place:
  assumes "geometry_ok (sf_ftag (cur_file s)) (ds_recoveryheaderlen s) sz"
    and "k \<le> sz" "unat (bound_size s) \<le> sz" "unat (ft_availbytes (sf_ftag (cur_file s))) \<le> sz"
    and "k \<le> unat (bound_size s) \<or> creates (ds_type s)"
    and "offset = (if whence = SEEK_END then offset0 + bound_size s
       else if whence = SEEK_CUR then offset0 + cur_delta s
         (ft_objsize (sf_ftag (cur_file s)) - (ft_recoverybytes (sf_ftag (cur_file s)) + ds_recoveryheaderlen s))
         (ft_objno (sf_ftag (cur_file s))) (ft_offset (sf_ftag (cur_file s)) - ds_recoveryheaderlen s)
       else offset0)"
    and "offset = of_nat k" "whence \<in> {SEEK_SET, SEEK_CUR, SEEK_END}"
  shows "gettargets s offset0 whence =
    Inr (pos_at (sf_ftag (cur_file s)) (ds_recoveryheaderlen s) (max k (unat (bound_size s))) k)"
proof -
  let ?tag = "sf_ftag (cur_file s)" and ?hdr = "ds_recoveryheaderlen s" and ?k = "of_nat k :: u64"
  let ?B = "unat (bound_size s)" and ?A = "unat (ft_availbytes ?tag)"
  let ?off = "if ?k > ft_availbytes ?tag then ft_availbytes ?tag else ?k"
  have k63: "k < 2 ^ 63" using assms(1,2) by (simp add: geometry_ok_def)
  then have uk: "unat ?k = k" by (simp add: unat_of_nat)
  have neg: "\<not> sint ?k < 0" using sint_nonneg [of ?k] uk k63 by simp
  have gt: "?k > bound_size s \<longleftrightarrow> k > ?B" "?k > ft_availbytes ?tag \<longleftrightarrow> k > ?A" using uk by (simp_all add: word_less_nat_alt)
  have off: "unat ?off = min k ?A" using uk gt(2) by (simp add: min_def)
  have "unat ?off \<le> sz" using off assms(2) by simp
  note p = pos_object [OF assms(1) this]
  have fs: "unat (if ?k > bound_size s then ?k else bound_size s) = max k ?B" using uk gt(1) by (simp add: max_def)
  define fs' where "fs' = (if ?k > bound_size s then ?k else bound_size s)"
  have e1: "(if ?k > ft_availbytes ?tag then 0 else ft_availbytes ?tag - ?k) = (of_nat (?A - min k ?A) :: u64)"
    using uk gt(2) by (simp add: word_unat_eq_iff unat_sub word_le_nat_alt min_def)
  have e2: "(if ?k > ft_availbytes ?tag then ?k - ft_availbytes ?tag else 0) = (of_nat (k - min k ?A) :: u64)"
    using uk gt(2) by (simp add: min_def word_less_nat_alt)
  have e3: "(if fs' > ft_availbytes ?tag then fs' - ft_availbytes ?tag else 0) = (of_nat (max k ?B - ?A) :: u64)"
  proof -
    have n: "unat fs' = max k ?B" using fs unfolding fs'_def .
    show ?thesis
    proof (cases "max k ?B > ?A")
      case True
      then have "fs' > ft_availbytes ?tag" "?A \<le> unat fs'" using n by (simp_all add: word_less_nat_alt)
      then show ?thesis using sub_words [of "ft_availbytes ?tag" fs'] n by simp
    next
      case False
      then have "\<not> fs' > ft_availbytes ?tag" using n by (simp add: word_less_nat_alt)
      moreover have "max k ?B - ?A = 0" using False by (simp only: not_less diff_is_0_eq)
      ultimately show ?thesis by simp
    qed
  qed
  have e4: "?off + of_nat (k - min k ?A) = ?k" using uk gt(2) by (simp add: min_def)
  have le: "k - min k ?A \<le> max k ?B - ?A" by (auto simp: min_def max_def diff_le_mono)
  have e5: "of_nat (max k ?B - ?A) - of_nat (k - min k ?A) = (of_nat (max k ?B - ?A - (k - min k ?A)) :: u64)"
    by (rule of_nat_diff [OF le, symmetric])
  have nz: "ft_objsize ?tag - (ft_recoverybytes ?tag + ?hdr) \<noteq> 0" by (rule p(3))
  let ?x = "?off + (ft_offset ?tag - ?hdr)" and ?dpo = "ft_objsize ?tag - (ft_recoverybytes ?tag + ?hdr)"
  have c: "\<not> (whence \<noteq> SEEK_END \<and> whence \<noteq> SEEK_CUR \<and> whence \<noteq> SEEK_SET)"
    "\<not> (?k > bound_size s \<and> \<not> creates (ds_type s))" "\<not> (?x \<ge> ?dpo \<and> ?dpo = 0)"
    using assms(5,8) gt(1) nz by auto
  have "gettargets s offset0 whence = Inr
      \<lparr>dp_totaloffset = ?off + (if ?k > ft_availbytes ?tag then ?k - ft_availbytes ?tag else 0),
       dp_dataremaining = (if ?k > ft_availbytes ?tag then 0 else ft_availbytes ?tag - ?k),
       dp_excessremaining = (if fs' > ft_availbytes ?tag then fs' - ft_availbytes ?tag else 0) -
         (if ?k > ft_availbytes ?tag then ?k - ft_availbytes ?tag else 0),
       dp_objno = (if ?x \<ge> ?dpo then ft_objno ?tag + ?x div ?dpo else ft_objno ?tag),
       dp_offset = (if ?x \<ge> ?dpo then ?x mod ?dpo else (ft_offset ?tag - ?hdr) + ?off) + ?hdr,
       dp_excessoffset = (if ?k > ft_availbytes ?tag then ?k - ft_availbytes ?tag else 0),
       dp_dataperobj = ?dpo\<rparr>"
    unfolding gettargets_def Let_def assms(6) [symmetric] unfolding assms(7)
    by (simp only: c neg if_False fs'_def)
  moreover have "?dpo = of_nat (per_obj ?tag ?hdr)" using of_nat_unat64 [of ?dpo] p(4) by simp
  ultimately show ?thesis
    unfolding p(1,2) e1 e2 e3 e4 e5 off by (simp add: pos_at_def Let_def)
qed

text \<open>A stream moved to a position, as a seek leaves it.\<close>

definition move_to :: "datastream_position \<Rightarrow> ('h, 'm) datastream \<Rightarrow> ('h, 'm) datastream" where
  "move_to p s = s\<lparr>ds_objno := dp_objno p, ds_offset := dp_offset p, ds_excessoffset := dp_excessoffset p\<rparr>"

lemma place_lt:
  assumes "geometry_ok tag hdr sz" "m \<le> sz"
  shows "fst (place tag hdr m) < 2 ^ 64" "snd (place tag hdr m) < 2 ^ 64" "unat (ft_objno tag) \<le> fst (place tag hdr m)"
proof -
  note g = geometry_words [OF assms(1)]
  have "unat (ft_objno tag) + (start_in tag hdr + m) div per_obj tag hdr \<le> unat (ft_objno tag) + (start_in tag hdr + m)" by simp
  moreover have "unat (ft_objno tag) + (start_in tag hdr + m) < 2 ^ 64" using assms by (simp add: geometry_ok_def)
  ultimately show "fst (place tag hdr m) < 2 ^ 64" unfolding place_def fst_conv by (rule le_less_trans)
  have "(start_in tag hdr + m) mod per_obj tag hdr < per_obj tag hdr" using g(3) by (rule mod_less_divisor)
  moreover have "unat hdr + per_obj tag hdr \<le> unat (ft_objsize tag)" using assms(1) by (simp add: per_obj_def geometry_ok_def)
  ultimately have "snd (place tag hdr m) < unat (ft_objsize tag)" by (simp add: place_def)
  then show "snd (place tag hdr m) < 2 ^ 64" by (rule less_trans) simp
  show "unat (ft_objno tag) \<le> fst (place tag hdr m)" by (simp add: place_def)
qed

lemma cur_delta_place:
  assumes "geometry_ok tag hdr sz" "m \<le> sz" "ds_recoveryheaderlen s = hdr"
    and "ds_objno s = of_nat (fst (place tag hdr m))" "ds_offset s = of_nat (snd (place tag hdr m))"
  shows "cur_delta s (ft_objsize tag - (ft_recoverybytes tag + hdr)) (ft_objno tag) (ft_offset tag - hdr) =
    of_nat m + ds_excessoffset s"
proof -
  define S P q r where "S = start_in tag hdr" and "P = per_obj tag hdr" and "q = (S + m) div P" and "r = (S + m) mod P"
  note g = geometry_words [OF assms(1)] and l = place_lt [OF assms(1,2)]
  have P: "ft_objsize tag - (ft_recoverybytes tag + hdr) = of_nat P" using g(1) P_def of_nat_unat64 by metis
  have S: "ft_offset tag - hdr = of_nat S" using g(2) S_def of_nat_unat64 by metis
  have o: "ds_objno s = ft_objno tag + of_nat q" "ds_offset s = hdr + of_nat r"
    using assms(4,5) by (simp_all add: place_def q_def r_def S_def P_def)
  have sum: "(of_nat S + of_nat m :: u64) = of_nat q * of_nat P + of_nat r"
    by (metis q_def r_def div_mult_mod_eq of_nat_add of_nat_mult)
  have gt: "ds_objno s > ft_objno tag \<longleftrightarrow> 0 < q"
  proof -
    have "unat (ds_objno s) = fst (place tag hdr m)" using assms(4) l(1) by (simp add: unat_of_nat)
    then have "unat (ds_objno s) = unat (ft_objno tag) + q" by (simp add: place_def q_def S_def P_def)
    then show ?thesis by (simp add: word_less_nat_alt)
  qed
  have zero: "of_nat r = (0 :: u64) \<and> hdr = 0" if "ds_offset s = 0"
  proof -
    have "unat (ds_offset s) = snd (place tag hdr m)" using assms(5) l(2) by (simp add: unat_of_nat)
    then have "unat (ds_offset s) = unat hdr + r" by (simp add: place_def r_def S_def P_def)
    then show ?thesis using that by (simp add: unat_eq_0)
  qed
  have off: "(if ds_offset s \<noteq> 0 then ds_offset s - hdr else 0) = (of_nat r :: u64)" using o(2) zero by auto
  show ?thesis
  proof (cases "0 < q")
    case True
    have "cur_delta s (of_nat P) (ft_objno tag) (of_nat S) =
        (of_nat P - of_nat S) + (ds_objno s - (ft_objno tag + 1)) * of_nat P + of_nat r + ds_excessoffset s"
      using True gt off assms(3) by (simp add: cur_delta_def Let_def)
    also have "\<dots> = of_nat q * of_nat P + of_nat r - of_nat S + ds_excessoffset s" unfolding o(1) by (simp add: algebra_simps)
    also have "\<dots> = of_nat m + ds_excessoffset s" unfolding sum [symmetric] by simp
    finally show ?thesis unfolding P S .
  next
    case False
    then have r: "(of_nat r :: u64) = of_nat S + of_nat m" using sum by simp
    have "cur_delta s (of_nat P) (ft_objno tag) (of_nat S) = of_nat m + ds_excessoffset s"
    proof (cases "ds_offset s = 0")
      case True
      have "unat (ds_offset s) = snd (place tag hdr m)" using assms(5) l(2) by (simp add: unat_of_nat)
      then have "r = 0" using True by (simp add: place_def r_def S_def P_def)
      moreover have "r = S + m" using False g(3) by (auto simp: q_def r_def P_def div_eq_0_iff)
      ultimately have "S = 0" "m = 0" by simp_all
      then show ?thesis using True False gt assms(3) by (simp add: cur_delta_def Let_def)
    next
      case ne: False
      then show ?thesis using False gt assms(3) o(2) r by (simp add: cur_delta_def Let_def)
    qed
    then show ?thesis unfolding P S .
  qed
qed

lemma move_to_simps [simp]:
  "cur_file (move_to p s) = cur_file s" "bound_size (move_to p s) = bound_size s" "ds_type (move_to p s) = ds_type s"
  "ds_recoveryheaderlen (move_to p s) = ds_recoveryheaderlen s" "ds_objno (move_to p s) = dp_objno p"
  "ds_offset (move_to p s) = dp_offset p" "ds_excessoffset (move_to p s) = dp_excessoffset p"
  by (simp_all add: move_to_def cur_file_def bound_size_def split: stream_type.split)

definition stream_ok :: "('h, 'm) datastream \<Rightarrow> nat \<Rightarrow> bool" where
  "stream_ok s sz \<longleftrightarrow>
     geometry_ok (sf_ftag (cur_file s)) (ds_recoveryheaderlen s) sz \<and> unat (bound_size s) \<le> sz \<and>
     unat (ft_availbytes (sf_ftag (cur_file s))) \<le> sz"

lemma gettargets_set:
  assumes "stream_ok s sz" "k \<le> sz" "k \<le> unat (bound_size s) \<or> creates (ds_type s)"
  shows "gettargets s (of_nat k) SEEK_SET =
    Inr (pos_at (sf_ftag (cur_file s)) (ds_recoveryheaderlen s) (max k (unat (bound_size s))) k)"
  by (rule gettargets_place [of s sz]) (use assms in \<open>auto simp: stream_ok_def seek_defs\<close>)

text \<open>
  C32. Seek and tell agree, over object boundaries and into the zero fill behind the data: for every
  offset \<open>k\<close> that a seek may take, the position is in the object and at the place where byte \<open>k\<close>
  lies (the end of the data when \<open>k\<close> is behind it), and a stream moved there reports the same position
  and offset \<open>k\<close> for a seek by 0 from the current one.\<close>

theorem stream_seek_tell:
  assumes "stream_ok s sz" "k \<le> sz" "k \<le> unat (bound_size s) \<or> creates (ds_type s)"
  shows "\<exists>p. gettargets s (of_nat k) SEEK_SET = Inr p \<and> unat (dp_totaloffset p) = k \<and>
    (unat (dp_objno p), unat (dp_offset p)) =
      place (sf_ftag (cur_file s)) (ds_recoveryheaderlen s) (min k (unat (ft_availbytes (sf_ftag (cur_file s))))) \<and>
    unat (dp_excessoffset p) = k - unat (ft_availbytes (sf_ftag (cur_file s))) \<and>
    gettargets (move_to p s) 0 SEEK_CUR = Inr p"
proof -
  let ?tag = "sf_ftag (cur_file s)" and ?hdr = "ds_recoveryheaderlen s" and ?B = "unat (bound_size s)"
  let ?A = "unat (ft_availbytes ?tag)"
  let ?p = "pos_at ?tag ?hdr (max k ?B) k" and ?m = "min k ?A"
  have ok: "geometry_ok ?tag ?hdr sz" "?B \<le> sz" "?A \<le> sz" using assms(1) by (simp_all add: stream_ok_def)
  have m: "?m \<le> sz" using assms(2) by simp
  have k: "k < 2 ^ 63" using ok(1) assms(2) by (simp add: geometry_ok_def)
  note l = place_lt [OF ok(1) m]
  have set: "gettargets s (of_nat k) SEEK_SET = Inr ?p" by (rule gettargets_set [OF assms])
  have delta: "cur_delta (move_to ?p s) (ft_objsize ?tag - (ft_recoverybytes ?tag + ?hdr)) (ft_objno ?tag) (ft_offset ?tag - ?hdr) =
      of_nat ?m + of_nat (k - ?m)"
    using cur_delta_place [OF ok(1) m, of "move_to ?p s"] by (simp add: pos_at_def Let_def)
  have "of_nat ?m + of_nat (k - ?m) = (of_nat k :: u64)" by (simp add: of_nat_diff)
  then have tell: "gettargets (move_to ?p s) 0 SEEK_CUR = Inr ?p"
    using gettargets_place [of "move_to ?p s" sz k "of_nat k" SEEK_CUR 0] ok assms(2,3) delta by (simp add: seek_defs)
  have "unat (of_nat (fst (place ?tag ?hdr ?m)) :: u64) = fst (place ?tag ?hdr ?m)"
    "unat (of_nat (snd (place ?tag ?hdr ?m)) :: u64) = snd (place ?tag ?hdr ?m)"
    using l by (simp_all add: unat_of_nat)
  moreover have "k - ?m = k - ?A" by (simp add: min_def)
  moreover have "unat (of_nat k :: u64) = k" by (rule unat_of_nat_lt) (use k in simp)
  moreover have "unat (of_nat (k - ?A) :: u64) = k - ?A" by (rule unat_of_nat_lt) (use k in simp)
  moreover have "dp_totaloffset ?p = of_nat k" "dp_objno ?p = of_nat (fst (place ?tag ?hdr ?m))"
    "dp_offset ?p = of_nat (snd (place ?tag ?hdr ?m))" "dp_excessoffset ?p = of_nat (k - ?m)"
    by (simp_all add: pos_at_def Let_def)
  ultimately show ?thesis using set tell by (intro exI [of _ ?p]) (simp only: prod.collapse simp_thms)
qed

text \<open>
  C33. The last object of a file: \<^verbatim>\<open>datastream_filebounds\<close> never lies before an object that holds a byte of
  the file, and for a finalized file with data it is exactly the object of the last byte.\<close>

theorem filebounds_last:
  assumes "hdr = of_nat (fst (recovery_headertostr (Some \<lparr>rh_major = ft_majorversion tag, rh_minor = ft_minorversion tag,
      rh_ctag = ft_ctag tag, rh_streamid = ft_streamid tag\<rparr>) False 0))"
    and "geometry_ok tag hdr (unat (ft_bytes tag))" "k < unat (ft_bytes tag)"
  shows "fst (place tag hdr k) \<le> unat (datastream_filebounds tag) \<and>
    ((ft_state tag AND FTAG_DATASTATE) \<ge> FTAG_FIN \<longrightarrow>
      unat (datastream_filebounds tag) = fst (place tag hdr (unat (ft_bytes tag) - 1)))"
proof -
  let ?P = "per_obj tag hdr" and ?S = "start_in tag hdr" and ?n = "unat (ft_bytes tag)"
  let ?dpo = "ft_objsize tag - (hdr + ft_recoverybytes tag)" and ?x = "ft_bytes tag + ft_offset tag - hdr"
  note g = geometry_words [OF assms(2)]
  have P: "unat ?dpo = ?P" "?dpo \<noteq> 0" "ft_objsize tag \<noteq> 0"
    using g(1,3) by (auto simp: add.commute [of hdr] per_obj_def)
  have x: "?x = ft_bytes tag + (ft_offset tag - hdr)" by simp
  have ux: "unat ?x = ?n + ?S"
    unfolding x using g(2) assms(2) by (simp add: unat_add_lt geometry_ok_def)
  have div: "unat (?x div ?dpo) = (?n + ?S) div ?P" and md: "unat (?x mod ?dpo) = (?n + ?S) mod ?P"
    using ux P(1) by (simp_all add: unat_div_distrib unat_mod_distrib)
  define D where "D = ((ft_state tag AND FTAG_DATASTATE) \<ge> FTAG_FIN \<and> ?x div ?dpo \<noteq> 0 \<and> ?x mod ?dpo = 0)"
  define q where "q = (if D then ?x div ?dpo - 1 else ?x div ?dpo)"
  have fb: "datastream_filebounds tag = ft_objno tag + q"
    using P(2,3) by (simp add: datastream_filebounds_def assms(1) [symmetric] Let_def q_def D_def)
  have Diff: "D \<longleftrightarrow> (ft_state tag AND FTAG_DATASTATE) \<ge> FTAG_FIN \<and> (?n + ?S) div ?P \<noteq> 0 \<and> (?n + ?S) mod ?P = 0"
    unfolding D_def using div md by (simp add: unat_eq_zero [symmetric] del: unat_eq_zero)
  have uq: "unat q = (if D then (?n + ?S) div ?P - 1 else (?n + ?S) div ?P)"
  proof (cases D)
    case True
    then have "?x div ?dpo \<noteq> 0" by (simp add: D_def)
    then show ?thesis using True div by (simp add: q_def unat_minus_one)
  next
    case False
    then show ?thesis using div by (simp add: q_def)
  qed
  have step: "(?S + (?n - 1)) div ?P = (if (?n + ?S) mod ?P = 0 then (?n + ?S) div ?P - 1 else (?n + ?S) div ?P)"
  proof -
    obtain j where j: "?n + ?S = Suc j" "?S + (?n - 1) = j" using assms(3) by (cases "?n + ?S") auto
    then show ?thesis by (simp add: div_Suc)
  qed
  have le: "(?S + k) div ?P \<le> (?S + (?n - 1)) div ?P" using assms(3) by (intro div_le_mono) simp
  have "unat q \<le> (?n + ?S) div ?P" using uq by simp
  then have qle: "unat q \<le> ?n + ?S" by (rule le_trans) (rule div_le_dividend)
  have tot: "unat (datastream_filebounds tag) = unat (ft_objno tag) + unat q"
    unfolding fb using qle assms(2) by (simp add: unat_add_lt geometry_ok_def)
  have "(?S + (?n - 1)) div ?P \<le> unat q" unfolding uq step Diff by simp
  moreover have "(ft_state tag AND FTAG_DATASTATE) \<ge> FTAG_FIN \<Longrightarrow> unat q = (?S + (?n - 1)) div ?P"
    unfolding uq step Diff by auto
  ultimately show ?thesis unfolding tot place_def using le by auto
qed

text \<open>
  C34. The chunks of a file. \<open>m\<close> bytes of other files lie in front of it in its first object. The chunk
  with index \<open>i\<close> is reported to start at \<open>i * P - m\<close>, where the data of the \<open>i\<close>-th object of the file starts, and
  the call fails exactly behind the data. Its size is right for \<open>m = 0\<close>: the chunks follow each other
  and cover the data. Otherwise every chunk but the first is reported \<open>m\<close> bytes too short, since the
  code limits all of them by the size of the first: there are bytes between it and the next one.\<close>

theorem chunkbounds_spec:
  assumes "stream_ok s sz" "P = per_obj (sf_ftag (cur_file s)) (ds_recoveryheaderlen s)"
    and "m = start_in (sf_ftag (cur_file s)) (ds_recoveryheaderlen s) mod P"
    and "A = unat (ft_availbytes (sf_ftag (cur_file s)))" "(i + 1) * P < 2 ^ 64" "start = (\<lambda>i. if i = 0 then 0 else i * P - m)"
  shows "datastream_chunkbounds (Some s) (int i) =
      (if start i \<le> A then Inr (of_nat (start i), of_nat (min (P - m) (A - start i))) else Inl EINVAL) \<and>
    (m = 0 \<and> start (i + 1) \<le> A \<longrightarrow> start i + min (P - m) (A - start i) = start (i + 1)) \<and>
    (0 < m \<and> 0 < i \<and> start (i + 1) \<le> A \<longrightarrow> start i + min (P - m) (A - start i) + m = start (i + 1))"
proof -
  let ?tag = "sf_ftag (cur_file s)" and ?hdr = "ds_recoveryheaderlen s"
  have ok: "geometry_ok ?tag ?hdr sz" "unat (bound_size s) \<le> sz" "A \<le> sz" using assms(1,4) by (simp_all add: stream_ok_def)
  have P: "0 < P" using geometry_words(3) [OF ok(1)] assms(2) by simp
  then have mP: "m < P" using assms(3) by simp
  have P64: "P < 2 ^ 64" using assms(5) by (rule le_less_trans [rotated]) simp
  let ?p = "pos_at ?tag ?hdr (unat (bound_size s)) 0"
  have g: "gettargets s 0 SEEK_SET = Inr ?p" using gettargets_set [OF assms(1), of 0] by simp
  have pl: "snd (place ?tag ?hdr 0) = unat ?hdr + m" using assms(2,3) by (simp add: place_def)
  have p: "dp_offset ?p - ?hdr = of_nat m" "dp_dataperobj ?p = of_nat P" "dp_dataremaining ?p = ft_availbytes ?tag"
    using assms(2) pl by (simp_all add: pos_at_def Let_def)
  define c where "c = (of_nat P - of_nat m :: u64)"
  have uc: "unat c = P - m" unfolding c_def using mP P64 by (subst unat_sub) (simp_all add: word_le_nat_alt unat_of_nat_lt)
  define t where "t = (if int i > 0 then c + of_int (int i - 1) * of_nat P else 0)"
  have ut: "unat t = start i"
  proof (cases i)
    case (Suc j)
    have "c + of_nat j * of_nat P = of_nat (P - m + j * P)" using mP by (simp add: c_def of_nat_diff)
    moreover have "P - m + j * P < 2 ^ 64" using assms(5) Suc by (simp add: algebra_simps)
    ultimately have "unat (c + of_nat j * of_nat P) = P - m + j * P" using unat_of_nat_lt by metis
    then show ?thesis using Suc mP by (simp add: t_def assms(6))
  qed (simp add: t_def assms(6))
  have tc: "unat (t + c) = start i + (P - m)"
  proof -
    have "start i + (P - m) < 2 ^ 64" using assms(5,6) mP by (cases i) (simp_all add: algebra_simps)
    then show ?thesis using unat_add_lt [of t c] ut uc by simp
  qed
  have e: "datastream_chunkbounds (Some s) (int i) =
      (if t > ft_availbytes ?tag then Inl EINVAL
       else Inr (t, if t + c > ft_availbytes ?tag then ft_availbytes ?tag - t else c))"
    by (simp add: datastream_chunkbounds_def g p t_def c_def Let_def)
  have t: "t = of_nat (start i)" using of_nat_unat64 [of t] ut by simp
  have sz: "(if t + c > ft_availbytes ?tag then ft_availbytes ?tag - t else c) = of_nat (min (P - m) (A - start i))"
    if "start i \<le> A"
  proof (cases "t + c > ft_availbytes ?tag")
    case True
    then have "min (P - m) (A - start i) = A - start i" using tc assms(4) by (simp add: word_less_nat_alt)
    then show ?thesis using True that sub_words [of t "ft_availbytes ?tag"] ut assms(4) by simp
  next
    case False
    then have "min (P - m) (A - start i) = P - m" using tc assms(4) by (simp add: word_less_nat_alt)
    then show ?thesis using False of_nat_unat64 [of c] uc by simp
  qed
  have "t > ft_availbytes ?tag \<longleftrightarrow> \<not> start i \<le> A" using ut assms(4) by (auto simp: word_less_nat_alt)
  then have "datastream_chunkbounds (Some s) (int i) =
      (if start i \<le> A then Inr (of_nat (start i), of_nat (min (P - m) (A - start i))) else Inl EINVAL)"
    unfolding e using sz t by auto
  moreover have "0 < i \<Longrightarrow> start (i + 1) = start i + P" "start 1 = P - m" "start 0 = 0"
    using mP assms(6) by (cases i; simp)+
  then have "m = 0 \<Longrightarrow> start (i + 1) = start i + P" "0 < i \<Longrightarrow> start (i + 1) = start i + P"
    by (cases i; simp)+
  then have "m = 0 \<and> start (i + 1) \<le> A \<longrightarrow> start i + min (P - m) (A - start i) = start (i + 1)"
    "0 < m \<and> 0 < i \<and> start (i + 1) \<le> A \<longrightarrow> start i + min (P - m) (A - start i) + m = start (i + 1)"
    using mP by (simp_all add: min_def) linarith+
  ultimately show ?thesis by blast
qed

section \<open>The list of files\<close>

text \<open>
  \<^verbatim>\<open>allocfiles\<close>: the new size of the list, 0 when the allocation fails.
\<close>

definition INITIAL_FILE_ALLOC :: nat where "INITIAL_FILE_ALLOC = 64"
definition FILE_ALLOC_MULT :: nat where "FILE_ALLOC_MULT = 2"

definition allocfiles :: "bool \<Rightarrow> nat \<Rightarrow> nat \<Rightarrow> nat" where
  "allocfiles ok current mx =
     (let n = (if current < INITIAL_FILE_ALLOC then INITIAL_FILE_ALLOC else current * FILE_ALLOC_MULT mod 2 ^ 64);
          n' = (if mx \<noteq> 0 \<and> n > mx then mx else n)
      in if ok then n' else 0)"

section \<open>Examples\<close>

definition pos_example_tag :: ftag where
  "pos_example_tag =
     \<lparr>ft_majorversion = 0, ft_minorversion = 1, ft_ctag = ''c'', ft_streamid = ''s'', ft_objfiles = 4, ft_objsize = 1000,
      ft_refbreadth = 1, ft_refdepth = 1, ft_refdigits = 1, ft_fileno = 0, ft_objno = 3, ft_offset = 400, ft_endofstream = 0,
      ft_protection = \<lparr>er_N = 1, er_E = 0, er_O = 0, er_partsz = 1\<rparr>, ft_bytes = 2000, ft_availbytes = 2000,
      ft_recoverybytes = 100, ft_state = FTAG_FIN\<rparr>"

definition pos_example_header :: u64 where
  "pos_example_header = of_nat (fst (recovery_headertostr (Some \<lparr>rh_major = 0, rh_minor = 1, rh_ctag = ''c'', rh_streamid = ''s''\<rparr>) False 0))"

lemma pos_example_header: "pos_example_header = 42"
proof -
  have "length (header_text \<lparr>rh_major = 0, rh_minor = 1, rh_ctag = ''c'', rh_streamid = ''s''\<rparr>) = 42" by code_simp
  then show ?thesis by (simp add: pos_example_header_def recovery_headertostr_def print_result_def snprintf_ret_def INT_MAX_def)
qed

definition pos_example :: "(unit, unit) datastream" where
  "pos_example =
     \<lparr>ds_type = READ_STREAM, ds_ctag = ''c'', ds_streamid = ''s'', ds_ns = tgt_example_ns, ds_recoveryheaderlen = pos_example_header, ds_fileno = 0,
      ds_objno = 3, ds_offset = 400, ds_excessoffset = 0, ds_datahandle = None,
      ds_files = [\<lparr>sf_metahandle = Some (), sf_ftag = pos_example_tag, sf_times = ((0, 0), (0, 0)), sf_dotimes = False\<rparr>],
      ds_curfile = 0, ds_filealloc = 2,
      ds_finfo = \<lparr>fi_inode = 0, fi_mode = 0, fi_owner = 0, fi_group = 0, fi_size = 2100, fi_sec = 0, fi_nsec = 0, fi_eof = 0, fi_path = []\<rparr>,
      ds_ftagstr = [], ds_ftagstrsize = 512, ds_finfostrlen = 512\<rparr>"

lemma pos_example_simps [simp]:
  "sf_ftag (cur_file pos_example) = pos_example_tag" "ds_recoveryheaderlen pos_example = 42" "bound_size pos_example = 2100"
  "ft_availbytes pos_example_tag = 2000" "ft_bytes pos_example_tag = 2000"
  "ft_objno pos_example_tag = 3" "ft_majorversion pos_example_tag = 0" "ft_minorversion pos_example_tag = 1"
  "ft_ctag pos_example_tag = ''c''" "ft_streamid pos_example_tag = ''s''" "ft_state pos_example_tag = FTAG_FIN"
  by (simp_all add: pos_example_def cur_file_def bound_size_def pos_example_tag_def pos_example_header)

lemma pos_example_per_obj:
  "per_obj pos_example_tag 42 = 858" "start_in pos_example_tag 42 = 358" "geometry_ok pos_example_tag 42 2100"
  "geometry_ok pos_example_tag 42 2000"
  by (simp_all add: per_obj_def start_in_def pos_example_tag_def geometry_ok_def)

lemma pos_example_ok: "stream_ok pos_example 2100"
  by (simp add: stream_ok_def pos_example_per_obj)

theorem stream_seek_tell_witness:
  "\<exists>p. gettargets pos_example 2050 SEEK_SET = Inr p \<and> unat (dp_objno p) = 5 \<and> unat (dp_excessoffset p) = 50 \<and>
     gettargets (move_to p pos_example) 0 SEEK_CUR = Inr p"
  using stream_seek_tell [OF pos_example_ok, of 2050] by (auto simp: place_def pos_example_per_obj)

theorem filebounds_last_witness: "unat (datastream_filebounds pos_example_tag) = 5"
  using filebounds_last [of 42 pos_example_tag 0] pos_example_header pos_example_per_obj(4)
  by (simp add: place_def pos_example_per_obj pos_example_header_def ftag_state_defs)

theorem chunkbounds_spec_witness:
  "datastream_chunkbounds (Some pos_example) 1 = Inr (of_nat (858 - 358), of_nat (858 - 358)) \<and>
   858 - 358 + (858 - 358) + 358 = 2 * 858 - (358::nat)"
  using chunkbounds_spec [OF pos_example_ok refl refl refl _ refl, of 1] by (simp add: pos_example_per_obj)

end
