(* ===== verification/StreamWorld.thy ===== *)
theory StreamWorld
  imports StreamPos Rtag "HOL-Library.Monad_Syntax"
begin

text \<open>
  The world of a data stream: the stream structure, the calls of the metadata abstraction
  (\<^verbatim>\<open>src/mdal/mdal.h\<close>), of the erasure layer (\<^verbatim>\<open>src/ne/ne.h\<close>) and of the configuration that
  \<^verbatim>\<open>src/datastream/datastream.c\<close> issues, and the answers it gets.

  Nothing is assumed about what is called: the answer to a call is an arbitrary record that may depend on all calls
  before it, and every call may change \<^verbatim>\<open>errno\<close>. The trace lists the calls, the latest one first; a handle
  is the number of the calls before the one that returned it. Only two results are cut to what the interfaces document:
  \<^verbatim>\<open>ne_read\<close> and \<^verbatim>\<open>ne_write\<close> do not report more bytes than were asked for. What the calls do to
  metadata and objects is read off the trace.

  A function of the source is a function on worlds in the option monad: \<open>None\<close> is undefined behaviour
  (a stream that was freed, an access behind the file list, a division by zero), a failure return is a value of the
  result.
\<close>

section \<open>Calls and answers\<close>

datatype errno = E_OK | E_INVAL | E_EXIST | E_NOENT | E_NODATA | E_BUSY | E_BADFD | E_NOMSG | E_NAMETOOLONG
  | E_NOSTR | E_FAULT | E_NOMEM | E_OTHER

datatype openflags = O_RDONLY | O_WRONLY | O_RDWR | O_CREAT_EXCL_WRONLY

datatype xattrflag = XATTR_ANY | XATTR_CREATE

datatype call =
    Ne_open string ne_location ne_erasure bool
  | Ne_write nat string
  | Ne_read nat nat
  | Ne_seek nat u64
  | Ne_close nat
  | Ne_abort nat
  | Fsetxattr "nat option" string string xattrflag
  | Fgetxattr "nat option" string nat
  | Fremovexattr "nat option" string
  | Ftruncate "nat option" u64
  | Futimens "nat option" "timespec \<times> timespec"
  | Fstat "nat option"
  | Fclose "nat option"
  | Openref nat string openflags u32
  | Open nat string openflags
  | Statref nat string
  | Linkref nat bool string string
  | Renameref nat string string
  | Unlinkref nat string
  | Unlink nat string
  | Createrefdir nat string u32
  | Newctxt string
  | Destroyctxt nat
  | Nsinfo string
  | Clock_gettime

record stat =
  st_ino :: u64
  st_mode :: u32
  st_uid :: u32
  st_gid :: u32
  st_size :: u64
  st_atim :: timespec
  st_mtim :: timespec
  st_ctime :: u64

record answer =
  a_ret :: int
  a_errno :: errno
  a_data :: string
  a_stat :: stat
  a_state :: ne_state
  a_time :: "u64 \<times> u64"
  a_names :: "string \<times> string"

type_synonym stream = "(nat, nat) datastream"

record world =
  w_stream :: "stream option"
  w_env :: "call list \<Rightarrow> call \<Rightarrow> answer"
  w_trace :: "call list"
  w_mem :: mem
  w_allocs :: nat
  w_errno :: errno

section \<open>Issuing calls\<close>

definition issue :: "call \<Rightarrow> world \<Rightarrow> answer \<times> world" where
  "issue c w =
     (let a = w_env w (w_trace w) c in (a, w\<lparr>w_trace := c # w_trace w, w_errno := a_errno a\<rparr>))"

text \<open>A call that returns a status: zero is success.\<close>

definition status_call :: "call \<Rightarrow> world \<Rightarrow> int \<times> world" where
  "status_call c w = (case issue c w of (a, w') \<Rightarrow> (a_ret a, w'))"

text \<open>A call that returns a handle, \<open>None\<close> for \<^verbatim>\<open>NULL\<close>.\<close>

definition handle_call :: "call \<Rightarrow> world \<Rightarrow> nat option \<times> world" where
  "handle_call c w =
     (case issue c w of (a, w') \<Rightarrow> (if a_ret a < 0 then None else Some (length (w_trace w)), w'))"

definition ne_write :: "nat \<Rightarrow> string \<Rightarrow> world \<Rightarrow> int \<times> world" where
  "ne_write h buf w = (case issue (Ne_write h buf) w of (a, w') \<Rightarrow> (min (a_ret a) (int (length buf)), w'))"

text \<open>A read returns the bytes it delivers; a negative answer is the failure.\<close>

definition ne_read :: "nat \<Rightarrow> nat \<Rightarrow> world \<Rightarrow> (int \<times> string) \<times> world" where
  "ne_read h n w =
     (case issue (Ne_read h n) w of (a, w') \<Rightarrow>
        (if a_ret a < 0 then (- 1, []) else (int (length (take n (a_data a))), take n (a_data a)), w'))"

definition malloc :: "world \<Rightarrow> bool \<times> world" where
  "malloc w = (w_mem w (w_allocs w), w\<lparr>w_allocs := Suc (w_allocs w)\<rparr>)"

text \<open>The next \<open>n\<close> allocations, for a function that takes them as an argument.\<close>

definition mallocs :: "nat \<Rightarrow> world \<Rightarrow> mem \<times> world" where
  "mallocs n w = ((\<lambda>i. w_mem w (w_allocs w + i)), w\<lparr>w_allocs := w_allocs w + n\<rparr>)"

definition set_errno :: "errno \<Rightarrow> world \<Rightarrow> world" where
  "set_errno e w = w\<lparr>w_errno := e\<rparr>"

text \<open>\<^verbatim>\<open>if (errno == EBADFD) errno = ENOMSG;\<close> the stream functions reserve \<^verbatim>\<open>EBADFD\<close>.\<close>

definition mask_errno :: "world \<Rightarrow> world" where
  "mask_errno w = (if w_errno w = E_BADFD then set_errno E_NOMSG w else w)"

text \<open>Failures of the functions that are modelled elsewhere; undefined behaviour stays undefined.\<close>

definition lift_c :: "c_error + 'a \<Rightarrow> world \<Rightarrow> ('a option \<times> world) option" where
  "lift_c r w =
     (case r of
        Inr x \<Rightarrow> Some (Some x, w)
      | Inl UB \<Rightarrow> None
      | Inl EINVAL \<Rightarrow> Some (None, set_errno E_INVAL w)
      | Inl ENOMEM \<Rightarrow> Some (None, set_errno E_NOMEM w)
      | Inl EFAULT \<Rightarrow> Some (None, set_errno E_FAULT w)
      | Inl _ \<Rightarrow> Some (None, w))"

section \<open>The stream and its files\<close>

definition upd_stream :: "(stream \<Rightarrow> stream) \<Rightarrow> world \<Rightarrow> world" where
  "upd_stream f w = w\<lparr>w_stream := map_option f (w_stream w)\<rparr>"

text \<open>An entry of the file list; behind its end lies memory that is not the stream's.\<close>

definition file_at :: "nat \<Rightarrow> stream \<Rightarrow> nat streamfile option" where
  "file_at i s = (if i < length (ds_files s) then Some (ds_files s ! i) else None)"

definition set_file :: "nat \<Rightarrow> nat streamfile \<Rightarrow> stream \<Rightarrow> stream" where
  "set_file i f s = s\<lparr>ds_files := (ds_files s)[i := f]\<rparr>"

definition upd_file :: "nat \<Rightarrow> (nat streamfile \<Rightarrow> nat streamfile) \<Rightarrow> world \<Rightarrow> world option" where
  "upd_file i f w =
     do { s \<leftarrow> w_stream w; x \<leftarrow> file_at i s; Some (upd_stream (set_file i (f x)) w) }"

definition set_state :: "u32 \<Rightarrow> 'm streamfile \<Rightarrow> 'm streamfile" where
  "set_state st f = f\<lparr>sf_ftag := (sf_ftag f)\<lparr>ft_state := st\<rparr>\<rparr>"

definition null_handle :: "'m streamfile \<Rightarrow> 'm streamfile" where
  "null_handle f = f\<lparr>sf_metahandle := None\<rparr>"

definition zero_ftag :: ftag where
  "zero_ftag =
     \<lparr>ft_majorversion = 0, ft_minorversion = 0, ft_ctag = [], ft_streamid = [], ft_objfiles = 0, ft_objsize = 0,
      ft_refbreadth = 0, ft_refdepth = 0, ft_refdigits = 0, ft_fileno = 0, ft_objno = 0, ft_offset = 0, ft_endofstream = 0,
      ft_protection = \<lparr>er_N = 0, er_E = 0, er_O = 0, er_partsz = 0\<rparr>, ft_bytes = 0, ft_availbytes = 0, ft_recoverybytes = 0,
      ft_state = 0\<rparr>"

definition blank_file :: "nat streamfile" where
  "blank_file = \<lparr>sf_metahandle = None, sf_ftag = zero_ftag, sf_times = ((0, 0), (0, 0)), sf_dotimes = False\<rparr>"

text \<open>
  \<^verbatim>\<open>allocfiles\<close> on the list of the stream: the new entries have no handle; their other fields are not set by the
  code and written before they are read. A failed call leaves the size zero.
\<close>

definition grow_files :: "nat \<Rightarrow> world \<Rightarrow> world option" where
  "grow_files mx w =
     do {
       s \<leftarrow> w_stream w;
       let (ok, w) = malloc w;
       let n = allocfiles ok (ds_filealloc s) mx;
       Some (upd_stream (\<lambda>s. s\<lparr>ds_filealloc := n,
         ds_files := (if n = 0 then ds_files s else take n (ds_files s) @ replicate (n - length (ds_files s)) blank_file)\<rparr>) w)
     }"

section \<open>Releasing a stream\<close>

text \<open>
  \<^verbatim>\<open>freestream\<close>: the data handle is aborted and the handles of the files up to the current one are closed.
  Afterwards there is no stream.
\<close>

fun close_handles :: "nat streamfile list \<Rightarrow> world \<Rightarrow> world" where
  "close_handles [] w = w"
| "close_handles (f # fs) w =
     (if sf_metahandle f = None then close_handles fs w
      else close_handles fs (snd (status_call (Fclose (sf_metahandle f)) w)))"

definition freestream :: "world \<Rightarrow> world option" where
  "freestream w =
     do {
       s \<leftarrow> w_stream w;
       let w = (case ds_datahandle s of None \<Rightarrow> w | Some h \<Rightarrow> snd (status_call (Ne_abort h) w));
       if ds_files s = [] then Some (w\<lparr>w_stream := None\<rparr>)
       else if length (ds_files s) < ds_curfile s + 1 then None
       else Some ((close_handles (take (ds_curfile s + 1) (ds_files s)) w)\<lparr>w_stream := None\<rparr>)
     }"

end
