(* ===== verification/StreamFile.thy ===== *)
theory StreamFile
  imports StreamWorld
begin

text \<open>
  The files of a data stream, \<^verbatim>\<open>src/datastream/datastream.c\<close>: attaching and reading a file tag, linking a file
  to its path, the recovery data of a file, and the three ways a file enters a stream
  (\<^verbatim>\<open>create_new_file\<close>, \<^verbatim>\<open>open_existing_file\<close>, \<^verbatim>\<open>open_repack_file\<close>). Results are pairs with the world behind
  the call; a Boolean result is true for the return value zero.
\<close>

section \<open>Tags\<close>

definition FTAG_NAME :: string where "FTAG_NAME = ''MARFS-FILE''"
definition OREPACK_TAG_NAME :: string where "OREPACK_TAG_NAME = ''ORIG-MARFS-FILE''"
definition TREPACK_TAG_NAME :: string where "TREPACK_TAG_NAME = ''TGT-MARFS-FILE''"

lemmas tag_name_defs = FTAG_NAME_def OREPACK_TAG_NAME_def TREPACK_TAG_NAME_def

text \<open>The end of \<^verbatim>\<open>putftag\<close>: a repack stream has its own attribute.\<close>

definition attach_ftag :: "nat option \<Rightarrow> world \<Rightarrow> (bool \<times> world) option" where
  "attach_ftag h w =
     do {
       s \<leftarrow> w_stream w;
       let (r, w) = status_call (Fsetxattr h (if ds_type s = REPACK_STREAM then TREPACK_TAG_NAME else FTAG_NAME)
                     (ds_ftagstr s) XATTR_ANY) w;
       Some (r = 0, w)
     }"

definition putftag :: "nat option \<Rightarrow> ftag \<Rightarrow> world \<Rightarrow> (bool \<times> world) option" where
  "putftag h tag w =
     do {
       s \<leftarrow> w_stream w;
       (case ftag_tostr (Some tag) (ds_ftagstrsize s) of
          None \<Rightarrow> Some (False, w)
        | Some b \<Rightarrow>
            if ob_tot b = 0 then Some (False, w)
            else if ob_tot b \<ge> ds_ftagstrsize s then
              do {
                let (ok, w) = malloc w;
                if \<not> ok then Some (False, upd_stream (\<lambda>s. s\<lparr>ds_ftagstr := [], ds_ftagstrsize := 0\<rparr>) w)
                else
                  (case ftag_tostr (Some tag) (ob_tot b + 1) of
                     None \<Rightarrow> None
                   | Some b2 \<Rightarrow>
                       do {
                         let w = upd_stream (\<lambda>s. s\<lparr>ds_ftagstr := ob_text b2, ds_ftagstrsize := ob_tot b + 1\<rparr>) w;
                         if ob_tot b2 \<ge> ob_tot b + 1 then Some (False, set_errno E_FAULT w)
                         else attach_ftag h w
                       })
              }
            else attach_ftag h (upd_stream (\<lambda>s. s\<lparr>ds_ftagstr := ob_text b\<rparr>) w))
     }"

text \<open>
  \<^verbatim>\<open>getftag\<close>: 0 and the tag, 1 when there is none, -1 on failure. The answer's data is the value of the attribute; what
  the buffer holds is cut to the size that was offered. The old tag \<open>f0\<close> supplies what the string does not set.
\<close>

definition parse_ftag :: "nat \<Rightarrow> ftag \<Rightarrow> world \<Rightarrow> ((int \<times> ftag) \<times> world) option" where
  "parse_ftag getres f0 w =
     do {
       s \<leftarrow> w_stream w;
       let w = upd_stream (\<lambda>s. s\<lparr>ds_ftagstr := take getres (ds_ftagstr s)\<rparr>) w;
       let (m, w) = mallocs 2 w;
       (case ftag_initstr m (Some f0) (Some (takeWhile (\<lambda>c. c \<noteq> NUL) (take getres (ds_ftagstr s)))) of
          Inl UB \<Rightarrow> None
        | Inl _ \<Rightarrow> Some ((- 1, f0), set_errno E_NOSTR w)
        | Inr f \<Rightarrow> Some ((0, f), w))
     }"

definition getftag :: "nat option \<Rightarrow> ftag \<Rightarrow> world \<Rightarrow> ((int \<times> ftag) \<times> world) option" where
  "getftag h f0 w =
     do {
       s \<leftarrow> w_stream w;
       let sz = ds_ftagstrsize s;
       if sz = 0 then None
       else do {
         let (a, w) = issue (Fgetxattr h FTAG_NAME (sz - 1)) w;
         let w = upd_stream (\<lambda>s. s\<lparr>ds_ftagstr := take (sz - 1) (a_data a)\<rparr>) w;
         let getres = a_ret a;
         if getres \<le> 0 then Some ((if w_errno w = E_NODATA then 1 else - 1, f0), w)
         else if getres \<ge> int sz then
           do {
             let (ok, w) = malloc w;
             if \<not> ok then Some ((- 1, f0), upd_stream (\<lambda>s. s\<lparr>ds_ftagstr := [], ds_ftagstrsize := 0\<rparr>) w)
             else do {
               let sz2 = nat getres + 1;
               let (a2, w) = issue (Fgetxattr h FTAG_NAME (sz2 - 1)) w;
               let w = upd_stream (\<lambda>s. s\<lparr>ds_ftagstr := take (sz2 - 1) (a_data a2), ds_ftagstrsize := sz2\<rparr>) w;
               if a_ret a2 \<ge> int sz2 \<or> a_ret a2 < 0 then Some ((- 1, f0), set_errno E_BUSY w)
               else parse_ftag (nat (a_ret a2)) f0 w
             }
           }
         else parse_ftag (nat getres) f0 w
       }
     }"

section \<open>Names\<close>

text \<open>\<^verbatim>\<open>datastream_genrpath\<close>; the directories are created when there is a context.\<close>

fun make_parents :: "nat \<Rightarrow> string list \<Rightarrow> world \<Rightarrow> bool \<times> world" where
  "make_parents ctxt [] w = (True, w)"
| "make_parents ctxt (p # ps) w =
     (case status_call (Createrefdir ctxt p 511) w of (r, w) \<Rightarrow>
        if r \<noteq> 0 \<and> w_errno w \<noteq> E_EXIST then (False, set_errno E_FAULT w) else make_parents ctxt ps w)"

definition datastream_genrpath :: "ftag \<Rightarrow> hash_table option \<Rightarrow> nat option \<Rightarrow> world \<Rightarrow> (string option \<times> world) option" where
  "datastream_genrpath tag reftable ctxto w =
     do {
       let (m, w) = mallocs 4 w;
       (rp, w) \<leftarrow> lift_c (genrpath m tag reftable) w;
       (case (rp, ctxto) of
          (Some rpath, Some ctxt) \<Rightarrow>
            (case make_parents ctxt (ref_parents [] rpath) w of (ok, w) \<Rightarrow> Some (if ok then Some rpath else None, w))
        | _ \<Rightarrow> Some (rp, w))
     }"

definition linkfile :: "string \<Rightarrow> string \<Rightarrow> nat \<Rightarrow> world \<Rightarrow> bool \<times> world" where
  "linkfile refpath tgtpath ctxt w =
     (case status_call (Linkref ctxt False refpath tgtpath) w of (r, w) \<Rightarrow>
        if r = 0 then (True, w)
        else if w_errno w \<noteq> E_EXIST then (False, w)
        else (case status_call (Unlink ctxt tgtpath) w of (r, w) \<Rightarrow>
          if r \<noteq> 0 \<and> w_errno w \<noteq> E_NOENT then (False, w)
          else (case status_call (Linkref ctxt False refpath tgtpath) w of (r, w) \<Rightarrow> (r = 0, w))))"

section \<open>Recovery data\<close>

text \<open>
  \<^verbatim>\<open>genrecoveryinfo\<close>: the result, the recovery data and the file. A missing path is the empty string.
\<close>

definition genrecoveryinfo ::
    "string \<Rightarrow> recovery_finfo \<Rightarrow> nat streamfile \<Rightarrow> world \<Rightarrow> ((bool \<times> recovery_finfo \<times> nat streamfile) \<times> world) option" where
  "genrecoveryinfo path finfo file w =
     do {
       s \<leftarrow> w_stream w;
       let (a, w) = issue (Fstat (sf_metahandle file)) w;
       if a_ret a \<noteq> 0 then Some ((False, finfo, file), w)
       else do {
         let st = a_stat a;
         let finfo = finfo\<lparr>fi_inode := st_ino st, fi_mode := st_mode st, fi_owner := st_uid st, fi_group := st_gid st,
                     fi_size := 0, fi_sec := fst (st_mtim st), fi_nsec := snd (st_mtim st), fi_eof := 0\<rparr>;
         if ds_type s = READ_STREAM then Some ((True, finfo\<lparr>fi_size := st_size st\<rparr>, file), w)
         else do {
           let file = file\<lparr>sf_times := (st_atim st, st_mtim st)\<rparr>;
           if ds_type s = REPACK_STREAM then Some ((True, finfo, file), w)
           else do {
             let (ok, w) = malloc w;
             if \<not> ok then Some ((False, finfo\<lparr>fi_path := []\<rparr>, file), w)
             else do {
               let finfo = finfo\<lparr>fi_path := path\<rparr>;
               let recoverybytes = fst (recovery_finfotostr (Some finfo) False 0);
               if recoverybytes = 0 then Some ((False, finfo\<lparr>fi_path := []\<rparr>, file), w)
               else Some ((True, finfo,
                 if ft_recoverybytes (sf_ftag file) = 0
                 then file\<lparr>sf_ftag := (sf_ftag file)\<lparr>ft_recoverybytes := of_nat recoverybytes\<rparr>\<rparr> else file), w)
             }
           }
         }
       }
     }"

definition zero_finfo :: recovery_finfo where
  "zero_finfo = \<lparr>fi_inode = 0, fi_mode = 0, fi_owner = 0, fi_group = 0, fi_size = 0, fi_sec = 0, fi_nsec = 0, fi_eof = 0, fi_path = []\<rparr>"

section \<open>A new file\<close>

text \<open>The tag of a file that starts at the position of the stream.\<close>

definition fresh_tag :: "stream \<Rightarrow> ftag" where
  "fresh_tag s =
     (let ds = ns_datascheme (ds_ns s); ms = ns_metascheme (ds_ns s) in
      \<lparr>ft_majorversion = FTAG_CURRENT_MAJORVERSION, ft_minorversion = FTAG_CURRENT_MINORVERSION, ft_ctag = ds_ctag s,
       ft_streamid = ds_streamid s, ft_objfiles = mds_objfiles ds, ft_objsize = mds_objsize ds, ft_refbreadth = mms_refbreadth ms,
       ft_refdepth = mms_refdepth ms, ft_refdigits = mms_refdigits ms, ft_fileno = ds_fileno s, ft_objno = ds_objno s,
       ft_offset = ds_offset s, ft_endofstream = 0, ft_protection = mds_protection ds, ft_bytes = 0, ft_availbytes = 0,
       ft_recoverybytes = 0, ft_state = FTAG_INIT\<rparr>)"

definition fresh_file :: "stream \<Rightarrow> nat \<Rightarrow> nat streamfile" where
  "fresh_file s h = \<lparr>sf_metahandle = Some h, sf_ftag = fresh_tag s, sf_times = ((0, 0), (0, 0)), sf_dotimes = True\<rparr>"

text \<open>
  The recovery data must leave room for data in an object; a file whose recovery data does not fit what is left
  of the current object, or that would be one file too many for it, starts in the next one.
\<close>

definition recovery_fits :: "stream \<Rightarrow> ftag \<Rightarrow> bool" where
  "recovery_fits s tag \<longleftrightarrow>
     \<not> (ft_objsize tag \<noteq> 0 \<and> ds_recoveryheaderlen s + ft_recoverybytes tag \<ge> ft_objsize tag)"

definition place_file :: "stream \<Rightarrow> ftag \<Rightarrow> ftag" where
  "place_file s tag =
     (if ft_objsize tag \<noteq> 0 \<and> ft_objsize tag - ds_offset s < ft_recoverybytes tag \<or>
         ft_objfiles tag \<noteq> 0 \<and> ds_curfile s \<ge> unat (ft_objfiles tag)
      then tag\<lparr>ft_objno := ft_objno tag + 1, ft_offset := ds_recoveryheaderlen s\<rparr> else tag)"

text \<open>The room in the file list; a failed allocation leaves \<^verbatim>\<open>curfile - 1\<close> as the size.\<close>

definition make_room :: "world \<Rightarrow> (bool \<times> world) option" where
  "make_room w =
     do {
       s \<leftarrow> w_stream w;
       if ds_curfile s \<ge> ds_filealloc s then
         do {
           w \<leftarrow> grow_files (unat (mds_objfiles (ns_datascheme (ds_ns s)) + 1)) w;
           s \<leftarrow> w_stream w;
           if ds_filealloc s = 0
           then Some (False, upd_stream (\<lambda>s. s\<lparr>ds_filealloc := sub64 (ds_curfile s) 1\<rparr>) w)
           else Some (True, w)
         }
       else Some (True, w)
     }"

text \<open>The end of \<^verbatim>\<open>create_new_file\<close>: the file enters the stream.\<close>

definition enter_file :: "nat streamfile \<Rightarrow> recovery_finfo \<Rightarrow> world \<Rightarrow> (bool \<times> world) option" where
  "enter_file f finfo w =
     do {
       s \<leftarrow> w_stream w;
       w \<leftarrow> upd_file (ds_curfile s) (\<lambda>_. f) w;
       Some (True, upd_stream (\<lambda>s. s\<lparr>ds_finfo := finfo, ds_fileno := ft_fileno (sf_ftag f), ds_objno := ft_objno (sf_ftag f),
         ds_offset := ft_offset (sf_ftag f)\<rparr>) w)
     }"

text \<open>The failures behind the creation of the reference file remove it again; its handle stays open.\<close>

definition drop_ref :: "nat \<Rightarrow> string \<Rightarrow> world \<Rightarrow> world" where
  "drop_ref ctxt rpath w = snd (status_call (Unlinkref ctxt rpath) w)"

definition create_new_file :: "string \<Rightarrow> nat \<Rightarrow> u32 \<Rightarrow> world \<Rightarrow> (bool \<times> world) option" where
  "create_new_file path ctxt mode w =
     do {
       s \<leftarrow> w_stream w;
       (rp, w) \<leftarrow> datastream_genrpath (fresh_tag s) (mms_reftable (ns_metascheme (ds_ns s))) (Some ctxt) w;
       (case rp of
          None \<Rightarrow> Some (False, mask_errno w)
        | Some newrpath \<Rightarrow>
            (case handle_call (Openref ctxt newrpath O_CREAT_EXCL_WRONLY mode) w of
               (None, w) \<Rightarrow> Some (False, if w_errno w = E_EXIST then set_errno E_BUSY w else mask_errno w)
             | (Some h, w) \<Rightarrow>
                 do {
                   ((ok, finfo, f), w) \<leftarrow> genrecoveryinfo path zero_finfo (fresh_file s h) w;
                   if \<not> ok then Some (False, mask_errno (drop_ref ctxt newrpath w))
                   else if \<not> recovery_fits s (sf_ftag f)
                   then Some (False, set_errno E_NAMETOOLONG (drop_ref ctxt newrpath w))
                   else do {
                     let f = f\<lparr>sf_ftag := place_file s (sf_ftag f)\<rparr>;
                     (ok, w) \<leftarrow> putftag (Some h) (sf_ftag f) w;
                     if \<not> ok then Some (False, mask_errno (drop_ref ctxt newrpath w))
                     else do {
                       let (ok, w) = linkfile newrpath path ctxt w;
                       if \<not> ok then Some (False, mask_errno (drop_ref ctxt newrpath w))
                       else do {
                         (ok, w) \<leftarrow> make_room w;
                         if \<not> ok then Some (False, mask_errno (drop_ref ctxt newrpath w))
                         else enter_file f finfo w
                       }
                     }
                   }
                 }))
     }"

section \<open>An existing file\<close>

text \<open>The strings that a tag owns are given back.\<close>

definition drop_strings :: "'m streamfile \<Rightarrow> 'm streamfile" where
  "drop_strings f = f\<lparr>sf_ftag := (sf_ftag f)\<lparr>ft_ctag := [], ft_streamid := []\<rparr>\<rparr>"

text \<open>The failures of the two functions that open a file: its handle is closed and forgotten.\<close>

definition abandon :: "nat \<Rightarrow> bool \<Rightarrow> world \<Rightarrow> (world) option" where
  "abandon i strings w =
     do {
       s \<leftarrow> w_stream w;
       f \<leftarrow> file_at i s;
       let w = snd (status_call (Fclose (sf_metahandle f)) w);
       upd_file i (\<lambda>f. null_handle (if strings then drop_strings f else f)) w
     }"

definition header_len :: "string \<Rightarrow> string \<Rightarrow> nat" where
  "header_len ctag streamid =
     fst (recovery_headertostr (Some \<lparr>rh_major = 0, rh_minor = 1, rh_ctag = ctag, rh_streamid = streamid\<rparr>) False 0)"

text \<open>What the stream may not open: a file that is not writable yet, or not readable yet.\<close>

definition open_refused :: "stream_type \<Rightarrow> u32 \<Rightarrow> bool" where
  "open_refused t st \<longleftrightarrow>
     t = EDIT_STREAM \<and> st AND FTAG_WRITEABLE = 0 \<and> st AND FTAG_DATASTATE \<noteq> FTAG_COMP \<or>
     t = READ_STREAM \<and> st AND FTAG_READABLE = 0"

definition open_existing_file :: "string \<Rightarrow> bool \<Rightarrow> nat \<Rightarrow> world \<Rightarrow> (int \<times> world) option" where
  "open_existing_file path rpathflag ctxt w =
     do {
       s \<leftarrow> w_stream w;
       let i = ds_curfile s;
       let (h, w) = handle_call
             (if ds_type s = READ_STREAM then (if rpathflag then Openref ctxt path O_RDONLY 0 else Open ctxt path O_RDONLY)
              else Open ctxt path O_WRONLY) w;
       f0 \<leftarrow> file_at i s;
       w \<leftarrow> upd_file i (\<lambda>f. f\<lparr>sf_metahandle := h\<rparr>) w;
       if h = None then Some (- 1, w)
       else do {
         ((r, tag), w) \<leftarrow> getftag h (sf_ftag f0) w;
         if r \<noteq> 0 then
           if r > 0 \<and> ds_type s = READ_STREAM then Some (1, w)
           else do { w \<leftarrow> abandon i False w; Some (- 1, w) }
         else do {
           w \<leftarrow> upd_file i (\<lambda>f. f\<lparr>sf_ftag := tag, sf_dotimes := False\<rparr>) w;
           if open_refused (ds_type s) (ft_state tag)
           then do { w \<leftarrow> abandon i True w; Some (- 1, set_errno E_INVAL w) }
           else do {
             ((ok, finfo, f), w) \<leftarrow> genrecoveryinfo path (ds_finfo s) (f0\<lparr>sf_metahandle := h, sf_ftag := tag, sf_dotimes := False\<rparr>) w;
             w \<leftarrow> upd_file i (\<lambda>_. f) w;
             let w = upd_stream (\<lambda>s. s\<lparr>ds_finfo := finfo\<rparr>) w;
             if \<not> ok then do { w \<leftarrow> abandon i True w; Some (- 1, w) }
             else do {
               let hlen = header_len (ft_ctag tag) (ft_streamid tag);
               if hlen < 1 then do { w \<leftarrow> abandon i True w; Some (- 1, w) }
               else Some (0, upd_stream (\<lambda>s. s\<lparr>ds_ctag := ft_ctag tag, ds_streamid := ft_streamid tag,
                 ds_recoveryheaderlen := of_nat hlen, ds_fileno := ft_fileno tag, ds_objno := ft_objno tag,
                 ds_offset := ft_offset tag, ds_excessoffset := 0\<rparr>) w)
             }
           }
         }
       }
     }"

section \<open>A file to be repacked\<close>

text \<open>
  \<^verbatim>\<open>open_repack_file\<close>, in the steps of the source. First the file is opened, its times are kept and its tag is
  checked.
\<close>

definition repack_target :: "string \<Rightarrow> nat \<Rightarrow> world \<Rightarrow> ((bool \<times> stat) \<times> world) option" where
  "repack_target path ctxt w =
     do {
       s \<leftarrow> w_stream w;
       let i = ds_curfile s;
       f0 \<leftarrow> file_at i s;
       let (a, w) = issue (Statref ctxt path) w;
       let st = a_stat a;
       if a_ret a \<noteq> 0 then Some ((False, st), w)
       else do {
         let (h, w) = handle_call (Openref ctxt path O_RDWR 0) w;
         w \<leftarrow> upd_file i (\<lambda>f. f\<lparr>sf_metahandle := h\<rparr>) w;
         if h = None then Some ((False, st), w)
         else do {
           w \<leftarrow> upd_file i (\<lambda>f. f\<lparr>sf_times := (st_atim st, st_mtim st), sf_dotimes := True\<rparr>) w;
           ((r, tag), w) \<leftarrow> getftag h (sf_ftag f0) w;
           if r \<noteq> 0 then do { w \<leftarrow> abandon i False w; Some ((False, st), w) }
           else do {
             w \<leftarrow> upd_file i (\<lambda>f. f\<lparr>sf_ftag := tag\<rparr>) w;
             if ft_state tag AND FTAG_READABLE = 0
             then do { w \<leftarrow> abandon i True w; Some ((False, st), set_errno E_INVAL w) }
             else Some ((True, st), w)
           }
         }
       }
     }"

text \<open>Then the marker is created beside the file, with the times of the file; its handle is returned.\<close>

definition repack_marker :: "string \<Rightarrow> nat \<Rightarrow> world \<Rightarrow> (nat option \<times> world) option" where
  "repack_marker path ctxt w =
     do {
       s \<leftarrow> w_stream w;
       let i = ds_curfile s;
       f \<leftarrow> file_at i s;
       let (m, w) = mallocs 7 w;
       (mark, w) \<leftarrow> lift_c (repackmarkertgt m (Some path) (sf_ftag f) (ns_metascheme (ds_ns s))) w;
       (case mark of
          None \<Rightarrow> do { w \<leftarrow> abandon i True w; Some (None, w) }
        | Some rmarkstr \<Rightarrow>
            (case handle_call (Openref ctxt rmarkstr O_CREAT_EXCL_WRONLY 448) w of
               (None, w) \<Rightarrow> do { w \<leftarrow> abandon i True w; Some (None, w) }
             | (Some rm, w) \<Rightarrow>
                 do {
                   let (r, w) = status_call (Futimens (Some rm) (sf_times f)) w;
                   if r \<noteq> 0 then do {
                     let w = snd (status_call (Fclose (Some rm)) w);
                     w \<leftarrow> abandon i True w;
                     Some (None, w)
                   }
                   else Some (Some rm, w)
                 }))
     }"

text \<open>
  The file gets the tag of a new file of the stream and its recovery data; \<open>False\<close> with the marker and the file closed
  is the failure.
\<close>

definition repack_fail :: "nat option \<Rightarrow> world \<Rightarrow> (bool \<times> world) option" where
  "repack_fail rm w =
     do {
       s \<leftarrow> w_stream w;
       let w = (case rm of None \<Rightarrow> w | Some h \<Rightarrow> snd (status_call (Fclose (Some h)) w));
       w \<leftarrow> abandon (ds_curfile s) False w;
       Some (False, upd_stream (\<lambda>s. s\<lparr>ds_finfo := (ds_finfo s)\<lparr>fi_path := []\<rparr>\<rparr>) w)
     }"

definition repack_retag :: "string \<Rightarrow> stat \<Rightarrow> nat \<Rightarrow> world \<Rightarrow> (bool \<times> world) option" where
  "repack_retag path st rm w =
     do {
       s \<leftarrow> w_stream w;
       let i = ds_curfile s;
       w \<leftarrow> upd_file i (\<lambda>f. f\<lparr>sf_ftag := fresh_tag s\<rparr>) w;
       let finfo = (ds_finfo s)\<lparr>fi_inode := st_ino st, fi_mode := st_mode st, fi_owner := st_uid st, fi_group := st_gid st,
             fi_size := st_size st, fi_sec := fst (st_mtim st), fi_nsec := snd (st_mtim st), fi_eof := 0\<rparr>;
       let (ok, w) = malloc w;
       let finfo = finfo\<lparr>fi_path := (if ok then path else [])\<rparr>;
       let w = upd_stream (\<lambda>s. s\<lparr>ds_finfo := finfo\<rparr>) w;
       if \<not> ok then repack_fail (Some rm) w
       else do {
         let n = fst (recovery_finfotostr (Some finfo) False 0);
         if n < 1 then repack_fail (Some rm) w
         else do {
           let tag = (fresh_tag s)\<lparr>ft_recoverybytes := of_nat n\<rparr>;
           w \<leftarrow> upd_file i (\<lambda>f. f\<lparr>sf_ftag := tag\<rparr>) w;
           if \<not> recovery_fits s tag then do {
             (ok, w) \<leftarrow> repack_fail (Some rm) w;
             Some (ok, set_errno E_NAMETOOLONG w)
           }
           else do {
             w \<leftarrow> upd_file i (\<lambda>f. f\<lparr>sf_ftag := place_file s tag\<rparr>) w;
             Some (True, w)
           }
         }
       }
     }"

text \<open>
  The new tag is attached to the marker, and the file is linked to its new place. When the stream has no
  header length yet, it is computed.
\<close>

definition repack_link :: "string \<Rightarrow> nat \<Rightarrow> nat \<Rightarrow> world \<Rightarrow> (bool \<times> world) option" where
  "repack_link path ctxt rm w =
     do {
       s \<leftarrow> w_stream w;
       let i = ds_curfile s;
       f \<leftarrow> file_at i s;
       (ok, w) \<leftarrow> putftag (Some rm) (sf_ftag f) w;
       if \<not> ok then repack_fail (Some rm) w
       else do {
         let (r, w) = status_call (Fclose (Some rm)) w;
         if r \<noteq> 0 then repack_fail None w
         else do {
           (rp, w) \<leftarrow> datastream_genrpath (sf_ftag f) (mms_reftable (ns_metascheme (ds_ns s))) (Some ctxt) w;
           (case rp of
              None \<Rightarrow> repack_fail None (mask_errno w)
            | Some newpath \<Rightarrow>
                do {
                  let (r, w) = status_call (Linkref ctxt True path newpath) w;
                  if r \<noteq> 0 then repack_fail None w
                  else do {
                    let hlen = header_len (ft_ctag (sf_ftag f)) (ft_streamid (sf_ftag f));
                    if ds_recoveryheaderlen s = 0 \<and> hlen < 1 then do {
                      w \<leftarrow> abandon i False w;
                      Some (False, w)
                    }
                    else Some (True, upd_stream (\<lambda>s. s\<lparr>
                      ds_recoveryheaderlen := (if ds_recoveryheaderlen s = 0 then of_nat hlen else ds_recoveryheaderlen s),
                      ds_objno := ft_objno (sf_ftag f), ds_offset := ft_offset (sf_ftag f)\<rparr>) w)
                  }
                })
         }
       }
     }"

definition open_repack_file :: "string \<Rightarrow> nat \<Rightarrow> world \<Rightarrow> (bool \<times> world) option" where
  "open_repack_file path ctxt w =
     do {
       (ok, w) \<leftarrow> make_room w;
       if \<not> ok then Some (False, mask_errno w)
       else do {
         ((ok, st), w) \<leftarrow> repack_target path ctxt w;
         if \<not> ok then Some (False, w)
         else do {
           (rm, w) \<leftarrow> repack_marker path ctxt w;
           (case rm of
              None \<Rightarrow> Some (False, w)
            | Some rm \<Rightarrow>
                do {
                  (ok, w) \<leftarrow> repack_retag path st rm w;
                  if \<not> ok then Some (False, w) else repack_link path ctxt rm w
                })
         }
       }
     }"

end
