(* ===== verification/StreamObj.thy ===== *)
theory StreamObj
  imports StreamFile
begin

text \<open>
  The data objects of a stream, \<^verbatim>\<open>src/datastream/datastream.c\<close>: opening the current object with its recovery
  header, writing the recovery data of a file behind its data, closing an object and leaving a marker for one that was
  stored with errors, finishing and completing a file.
\<close>

section \<open>Opening an object\<close>

text \<open>The failure of an object that was opened: it is aborted.\<close>

definition abort_obj :: "nat \<Rightarrow> world \<Rightarrow> world" where
  "abort_obj h w = upd_stream (\<lambda>s. s\<lparr>ds_datahandle := None\<rparr>) (snd (status_call (Ne_abort h) w))"

definition sized_state :: "u32 \<Rightarrow> u32" where
  "sized_state st = (if (st AND FTAG_DATASTATE) < FTAG_SIZED then FTAG_SIZED OR (st AND NOT FTAG_DATASTATE) else st)"

text \<open>The recovery header of a new object.\<close>

definition write_header :: "nat \<Rightarrow> world \<Rightarrow> (bool \<times> world) option" where
  "write_header h w =
     do {
       s \<leftarrow> w_stream w;
       let hdr = unat (ds_recoveryheaderlen s);
       if ds_offset s \<noteq> ds_recoveryheaderlen s then Some (False, abort_obj h w)
       else do {
         let (ok, w) = malloc w;
         if \<not> ok then Some (False, abort_obj h w)
         else
           (case recovery_headertostr (Some \<lparr>rh_major = 0, rh_minor = 1, rh_ctag = ds_ctag s, rh_streamid = ds_streamid s\<rparr>)
                   True (hdr + 1) of (n, text) \<Rightarrow>
              if n \<noteq> hdr then Some (False, set_errno E_FAULT (abort_obj h w))
              else (case ne_write h text w of (r, w) \<Rightarrow>
                if r \<noteq> int hdr then Some (False, abort_obj h w) else Some (True, w)))
       }
     }"

definition open_current_obj :: "world \<Rightarrow> (bool \<times> world) option" where
  "open_current_obj w =
     do {
       s \<leftarrow> w_stream w;
       f \<leftarrow> file_at (ds_curfile s) s;
       let (m, w) = malloc w;
       (tgt, w) \<leftarrow> lift_c (datastream_objtarget m
          (Some ((sf_ftag f)\<lparr>ft_objno := ds_objno s, ft_offset := ds_offset s\<rparr>)) (Some (ns_datascheme (ds_ns s)))) w;
       (case tgt of
          None \<Rightarrow> Some (False, w)
        | Some (objname, erasure, location) \<Rightarrow>
            do {
              (ok, w) \<leftarrow>
                (if creates (ds_type s) then do {
                   w \<leftarrow> upd_file (ds_curfile s) (set_state (sized_state (ft_state (sf_ftag f)))) w;
                   putftag (sf_metahandle f) ((sf_ftag f)\<lparr>ft_state := sized_state (ft_state (sf_ftag f))\<rparr>) w
                 }
                 else Some (True, w));
              if \<not> ok then Some (False, w)
              else do {
                let (h, w) = handle_call (Ne_open objname location erasure (ds_type s \<noteq> READ_STREAM)) w;
                let w = upd_stream (\<lambda>s. s\<lparr>ds_datahandle := h\<rparr>) w;
                (case h of
                   None \<Rightarrow> Some (False, w)
                 | Some h \<Rightarrow>
                     if ds_type s = READ_STREAM then
                       if ds_offset s \<noteq> 0 then
                         (case status_call (Ne_seek h (ds_offset s)) w of (r, w) \<Rightarrow>
                            if word_of_int r \<noteq> ds_offset s then Some (False, abort_obj h w) else Some (True, w))
                       else Some (True, w)
                     else write_header h w)
              }
            })
     }"

section \<open>Closing an object\<close>

text \<open>
  The context for the marker: the one that was passed, or a fresh one, with the obligation to release it.
\<close>

definition marker_ctxt :: "nat option \<Rightarrow> world \<Rightarrow> ((nat \<times> bool) option \<times> world) option" where
  "marker_ctxt ctxto w =
     (case ctxto of
        Some c \<Rightarrow> Some (Some (c, False), w)
      | None \<Rightarrow>
          do {
            s \<leftarrow> w_stream w;
            let (a, w) = issue (Nsinfo (ns_idstr (ds_ns s))) w;
            if a_ret a \<noteq> 0 then Some (None, w)
            else do {
              let (c, w) = handle_call (Newctxt (snd (a_names a))) w;
              Some (map_option (\<lambda>c. (c, True)) c, w)
            }
          })"

definition release_ctxt :: "nat \<times> bool \<Rightarrow> world \<Rightarrow> world" where
  "release_ctxt c w = (if snd c then snd (status_call (Destroyctxt (fst c)) w) else w)"

text \<open>The path of the rebuild marker of an object.\<close>

definition rebuild_path :: "mem \<Rightarrow> ftag \<Rightarrow> hash_table option \<Rightarrow> c_error + string" where
  "rebuild_path m tag reftable =
     bindE (print_twice (m 1) (\<lambda>tgt len. ftag_rebuildmarker (if len = 0 then m 0 else m 2) (Some tag) tgt len)) (\<lambda>mark.
     bindE (node_name reftable mark) (\<lambda>dir.
       if \<not> m 3 then Inl ENOMEM
       else if snprintf_ret (dir @ mark) \<noteq> int (length (dir @ mark)) then Inl EFAULT
       else Inr (dir @ mark)))"

text \<open>The rebuild tag is attached to the marker; a failure to attach or to close it is only logged.\<close>

definition tag_marker :: "nat \<Rightarrow> nat \<times> bool \<Rightarrow> string \<Rightarrow> rtag \<Rightarrow> u64 \<Rightarrow> world \<Rightarrow> (bool \<times> world) option" where
  "tag_marker c cr rpath rtag objno w =
     (case handle_call (Openref c rpath O_WRONLY 0) w of
        (None, w) \<Rightarrow> Some (False, release_ctxt cr w)
      | (Some h, w) \<Rightarrow>
          do {
            let (a, w) = issue (Fstat (Some h)) w;
            let fail = (\<lambda>w. Some (False, release_ctxt cr (snd (status_call (Fclose (Some h)) w))));
            if a_ret a \<noteq> 0 then fail w
            else do {
              let rtag = rtag\<lparr>rt_createtime := st_ctime (a_stat a)\<rparr>;
              (case rtag_tostr (Some rtag) 0 of
                 Inl UB \<Rightarrow> None
               | Inl _ \<Rightarrow> fail w
               | Inr b \<Rightarrow>
                   if ob_tot b = 0 then fail w
                   else do {
                     let (ok, w) = malloc w;
                     if \<not> ok then fail w
                     else (case rtag_tostr (Some rtag) (ob_tot b + 1) of
                         Inl UB \<Rightarrow> None
                       | Inl _ \<Rightarrow> fail w
                       | Inr b2 \<Rightarrow>
                           if ob_tot b2 \<noteq> ob_tot b then fail w
                           else do {
                             let (ok, w) = malloc w;
                             (case rtag_getname ok objno of
                                None \<Rightarrow> fail w
                              | Some nm \<Rightarrow>
                                  do {
                                    let w = snd (status_call (Fsetxattr (Some h) nm (ob_text b2) XATTR_CREATE) w);
                                    let w = snd (status_call (Fclose (Some h)) w);
                                    Some (True, w)
                                  })
                           })
                   })
            }
          })"

text \<open>
  What \<^verbatim>\<open>close_current_obj\<close> does for an object that was stored with errors: \<^verbatim>\<open>rtag\<close> holds the states of its blocks. The
  \<^verbatim>\<open>errno\<close> of the start is restored at the end.
\<close>

definition leave_marker :: "rtag \<Rightarrow> ftag \<Rightarrow> nat option \<Rightarrow> world \<Rightarrow> (bool \<times> world) option" where
  "leave_marker rtag curftag ctxto w =
     do {
       s \<leftarrow> w_stream w;
       let reftable = mms_reftable (ns_metascheme (ds_ns s));
       let (m, w) = mallocs 4 w;
       (rp, w) \<leftarrow> lift_c (rebuild_path m curftag reftable) w;
       (case rp of
          None \<Rightarrow> Some (False, w)
        | Some rpath \<Rightarrow>
            do {
              (cr, w) \<leftarrow> marker_ctxt ctxto w;
              (case cr of
                 None \<Rightarrow> Some (False, w)
               | Some cr \<Rightarrow>
                   (case make_parents (fst cr) (ref_parents [] rpath) w of (ok, w) \<Rightarrow>
                      if \<not> ok then Some (False, set_errno E_FAULT (release_ctxt cr w))
                      else do {
                        (frp, w) \<leftarrow> datastream_genrpath curftag reftable None w;
                        (case frp of
                           None \<Rightarrow> Some (False, set_errno E_FAULT (release_ctxt cr w))
                         | Some filerpath \<Rightarrow>
                             do {
                               let olderrno = w_errno w;
                               let (r, w) = status_call (Linkref (fst cr) True filerpath rpath) (set_errno E_OK w);
                               if r \<noteq> 0 \<and> w_errno w \<noteq> E_EXIST then Some (False, release_ctxt cr w)
                               else do {
                                 (ok, w) \<leftarrow> (if r = 0 then tag_marker (fst cr) cr rpath rtag (ft_objno curftag) w else Some (True, w));
                                 if \<not> ok then Some (False, w)
                                 else Some (True, set_errno olderrno (release_ctxt cr w))
                               }
                             })
                      }))
            })
     }"

definition zero_state :: ne_state where
  "zero_state = \<lparr>ns_versz = 0, ns_blocksz = 0, ns_totsz = 0, ns_meta_status = None, ns_data_status = None, ns_csum = None\<rparr>"

definition empty_rtag :: "ne_erasure \<Rightarrow> rtag" where
  "empty_rtag er = \<lparr>rt_majorversion = RTAG_CURRENT_MAJORVERSION, rt_minorversion = RTAG_CURRENT_MINORVERSION, rt_createtime = 0,
     rt_stripewidth = scast (er_N er + er_E er), rt_stripestate = zero_state\<rparr>"

text \<open>
  \<^verbatim>\<open>close_current_obj\<close>. The erasure layer fills the state that \<^verbatim>\<open>rtag_alloc\<close> prepared: its answer supplies the sizes
  and what the two arrays hold; their length stays.
\<close>

definition fill_array :: "u8 list option \<Rightarrow> u8 list option \<Rightarrow> u8 list option" where
  "fill_array old new =
     map_option (\<lambda>xs. take (length xs) (case new of None \<Rightarrow> xs | Some ys \<Rightarrow> ys @ drop (length ys) xs)) old"

definition fill_state :: "ne_state \<Rightarrow> ne_state \<Rightarrow> ne_state" where
  "fill_state new old =
     new\<lparr>ns_meta_status := fill_array (ns_meta_status old) (ns_meta_status new),
         ns_data_status := fill_array (ns_data_status old) (ns_data_status new), ns_csum := None\<rparr>"

definition close_current_obj :: "ftag \<Rightarrow> nat option \<Rightarrow> world \<Rightarrow> (bool \<times> world) option" where
  "close_current_obj curftag ctxto w =
     do {
       s \<leftarrow> w_stream w;
       let (m, w) = mallocs 2 w;
       (case rtag_alloc m (Some (empty_rtag (ft_protection curftag))) of
          (None, Some rtag) \<Rightarrow>
            (case ds_datahandle s of
               None \<Rightarrow> Some (True, w)
             | Some h \<Rightarrow>
                 do {
                   let (a, w) = issue (Ne_close h) w;
                   let w = upd_stream (\<lambda>s. s\<lparr>ds_datahandle := None\<rparr>) w;
                   if a_ret a > 0 then leave_marker (rtag\<lparr>rt_stripestate := fill_state (a_state a) (rt_stripestate rtag)\<rparr>) curftag ctxto w
                   else Some (a_ret a = 0, w)
                 })
        | _ \<Rightarrow> Some (False, w))
     }"

section \<open>Finishing a file\<close>

text \<open>
  \<^verbatim>\<open>putfinfo\<close>: the recovery data behind the data of the file, filled with zeros up to the length in the tag.
  The callers have an open object.
\<close>

definition finfo_size :: "stream \<Rightarrow> c_error + u64" where
  "finfo_size s =
     (if ds_type s = EDIT_STREAM
      then bindE (gettargets s 0 SEEK_CUR) (\<lambda>p. Inr (dp_totaloffset p))
      else Inr (ft_bytes (sf_ftag (cur_file s))))"

definition putfinfo :: "world \<Rightarrow> (bool \<times> world) option" where
  "putfinfo w =
     do {
       s \<leftarrow> w_stream w;
       f \<leftarrow> file_at (ds_curfile s) s;
       h \<leftarrow> ds_datahandle s;
       let n = unat (ft_recoverybytes (sf_ftag f));
       let (ok, w) = (if n > ds_finfostrlen s then malloc w else (True, w));
       if \<not> ok then Some (False, w)
       else do {
         let w = upd_stream (\<lambda>s. s\<lparr>ds_finfostrlen := max n (ds_finfostrlen s)\<rparr>) w;
         (fsz, w) \<leftarrow> lift_c (finfo_size s) w;
         (case fsz of
            None \<Rightarrow> Some (False, w)
          | Some fsz \<Rightarrow>
              do {
                let finfo = (ds_finfo s)\<lparr>fi_size := fsz\<rparr>;
                let kept = (if ds_type s = REPACK_STREAM then ds_finfo s else finfo);
                let w = upd_stream (\<lambda>s. s\<lparr>ds_finfo := kept\<rparr>) w;
                (case recovery_finfotostr (Some finfo) True (max n (ds_finfostrlen s) + 1) of (genbytes, text) \<Rightarrow>
                   if genbytes > n then Some (False, set_errno E_NAMETOOLONG w)
                   else
                     (case ne_write h (take genbytes text @ replicate (n - genbytes) NUL) w of (r, w) \<Rightarrow>
                        if r \<noteq> int n then Some (False, w)
                        else Some (True, upd_stream (\<lambda>s. s\<lparr>ds_offset := ds_offset s + of_nat n\<rparr>) w)))
              })
       }
     }"

definition fin_state :: "u32 \<Rightarrow> u32" where
  "fin_state st = (st AND NOT FTAG_DATASTATE) OR FTAG_FIN"

definition set_eof :: "u8 \<Rightarrow> world \<Rightarrow> world" where
  "set_eof x w = upd_stream (\<lambda>s. s\<lparr>ds_finfo := (ds_finfo s)\<lparr>fi_eof := x\<rparr>\<rparr>) w"

text \<open>\<^verbatim>\<open>finfile\<close>.\<close>

definition finfile :: "world \<Rightarrow> (bool \<times> world) option" where
  "finfile w =
     do {
       s \<leftarrow> w_stream w;
       f \<leftarrow> file_at (ds_curfile s) s;
       if ds_type s = REPACK_STREAM \<and> ft_bytes (sf_ftag f) \<noteq> fi_size (ds_finfo s) then Some (False, w)
       else if \<not> (ft_state (sf_ftag f) AND FTAG_DATASTATE) < FTAG_FIN then Some (True, w)
       else do {
         (ok, w) \<leftarrow> (if ft_bytes (sf_ftag f) = 0 \<and> ds_datahandle s = None then open_current_obj w else Some (True, w));
         if \<not> ok then Some (False, w)
         else do {
           s \<leftarrow> w_stream w;
           (ok, w) \<leftarrow>
             (if ds_datahandle s \<noteq> None then putfinfo (set_eof 1 w)
              else Some (True, upd_stream (\<lambda>s. s\<lparr>ds_objno := ds_objno s + 1, ds_offset := ds_recoveryheaderlen s\<rparr>) w));
           if \<not> ok then Some (False, set_eof 0 w)
           else do {
             w \<leftarrow> upd_file (ds_curfile s) (\<lambda>f. set_state (fin_state (ft_state (sf_ftag f))) f) w;
             Some (True, w)
           }
         }
       }
     }"

section \<open>Completing a file\<close>

text \<open>The failures: the handle is closed and forgotten.\<close>

definition complete_fail :: "nat \<Rightarrow> world \<Rightarrow> (bool \<times> world) option" where
  "complete_fail i w = do { w \<leftarrow> abandon i False w; Some (False, w) }"

text \<open>
  The part for a repacked file: the old tag goes to the repack marker and is kept at the file, the file gets the
  new tag, and the marker is renamed over the old reference path.
\<close>

definition swap_tag :: "nat option \<Rightarrow> ftag \<Rightarrow> world \<Rightarrow> (bool \<times> world) option" where
  "swap_tag h tag w =
     do {
       (ok, w) \<leftarrow> putftag h tag (upd_stream (\<lambda>s. s\<lparr>ds_type := CREATE_STREAM\<rparr>) w);
       Some (ok, upd_stream (\<lambda>s. s\<lparr>ds_type := REPACK_STREAM\<rparr>) w)
     }"

definition repack_finish :: "nat option \<Rightarrow> ftag \<Rightarrow> nat \<Rightarrow> string \<Rightarrow> string \<Rightarrow> world \<Rightarrow> (bool \<times> world) option" where
  "repack_finish h tag c rmarkstr origrefpath w =
     (case handle_call (Openref c rmarkstr O_WRONLY 0) w of
        (None, w) \<Rightarrow> Some (False, w)
      | (Some rm, w) \<Rightarrow>
          do {
            s \<leftarrow> w_stream w;
            let orig = ds_ftagstr s;
            let (r, w) = status_call (Fsetxattr (Some rm) FTAG_NAME orig XATTR_CREATE) w;
            if r \<noteq> 0 then Some (False, snd (status_call (Fclose (Some rm)) w))
            else do {
              let (r, w) = status_call (Fclose (Some rm)) w;
              if r \<noteq> 0 then Some (False, w)
              else do {
                let (r, w) = status_call (Fsetxattr h OREPACK_TAG_NAME orig XATTR_CREATE) w;
                if r \<noteq> 0 \<and> w_errno w \<noteq> E_EXIST then Some (False, w)
                else do {
                  (ok, w) \<leftarrow> swap_tag h tag w;
                  if \<not> ok then Some (False, w)
                  else do {
                    let (r, w) = status_call (Fremovexattr h TREPACK_TAG_NAME) w;
                    if r \<noteq> 0 then Some (False, w)
                    else do {
                      let (r, w) = status_call (Renameref c rmarkstr origrefpath) w;
                      Some (r = 0, w)
                    }
                  }
                }
              }
            }
          })"

definition complete_repack :: "nat option \<Rightarrow> ftag \<Rightarrow> world \<Rightarrow> (bool \<times> world) option" where
  "complete_repack h tag w =
     do {
       ((r, orig), w) \<leftarrow> getftag h zero_ftag w;
       if r \<noteq> 0 then Some (False, w)
       else do {
         s \<leftarrow> w_stream w;
         let ms = ns_metascheme (ds_ns s);
         (rp, w) \<leftarrow> datastream_genrpath orig (mms_reftable ms) None w;
         (case rp of
            None \<Rightarrow> Some (False, w)
          | Some origrefpath \<Rightarrow>
              do {
                let (m, w) = mallocs 7 w;
                (mark, w) \<leftarrow> lift_c (repackmarkertgt m (Some origrefpath) orig ms) w;
                (case mark of
                   None \<Rightarrow> Some (False, w)
                 | Some rmarkstr \<Rightarrow>
                     do {
                       let (a, w) = issue (Nsinfo (ns_idstr (ds_ns s))) w;
                       if a_ret a \<noteq> 0 then Some (False, w)
                       else
                         (case handle_call (Newctxt (snd (a_names a))) w of
                            (None, w) \<Rightarrow> Some (False, w)
                          | (Some c, w) \<Rightarrow>
                              do {
                                (ok, w) \<leftarrow> repack_finish h tag c rmarkstr origrefpath w;
                                Some (ok, snd (status_call (Destroyctxt c) w))
                              })
                     })
              })
       }
     }"

definition comp_state :: "u32 \<Rightarrow> u32" where
  "comp_state st = (FTAG_COMP OR FTAG_READABLE) OR (st AND NOT FTAG_DATASTATE)"

text \<open>\<^verbatim>\<open>completefile\<close> for the file with index \<open>i\<close>.\<close>

definition complete_tag :: "ftag \<Rightarrow> ftag" where
  "complete_tag tag = tag\<lparr>ft_state := comp_state (ft_state tag), ft_availbytes := ft_bytes tag\<rparr>"

definition completefile :: "nat \<Rightarrow> world \<Rightarrow> (bool \<times> world) option" where
  "completefile i w =
     do {
       s \<leftarrow> w_stream w;
       f \<leftarrow> file_at i s;
       let h = sf_metahandle f;
       let tag = complete_tag (sf_ftag f);
       if h = None then Some (False, w)
       else if ft_state (sf_ftag f) AND FTAG_WRITEABLE \<noteq> 0 \<and> creates (ds_type s) then complete_fail i w
       else if ft_state (sf_ftag f) AND FTAG_DATASTATE \<noteq> FTAG_FIN \<and> ds_type s = EDIT_STREAM then complete_fail i w
       else do {
         w \<leftarrow> upd_file i (\<lambda>f. f\<lparr>sf_ftag := tag\<rparr>) w;
         (ok, w) \<leftarrow> putftag h tag w;
         if \<not> ok then complete_fail i w
         else do {
           (ok, w) \<leftarrow>
             (if ds_type s = REPACK_STREAM then complete_repack h tag w
              else do { let (r, w) = status_call (Ftruncate h (ft_availbytes tag)) w; Some (r = 0, w) });
           if \<not> ok then complete_fail i w
           else do {
             let (r, w) = status_call (Futimens h (sf_times f)) w;
             if r \<noteq> 0 then complete_fail i w
             else do {
               let (r, w) = status_call (Fclose h) w;
               w \<leftarrow> upd_file i null_handle w;
               Some (r = 0, w)
             }
           }
         }
       }
     }"

text \<open>
  The loops that complete the files in front of the current one, from the last to the first; the current file is then
  the first. They run to the end and report whether all succeeded.
\<close>

fun complete_previous :: "nat \<Rightarrow> world \<Rightarrow> (bool \<times> world) option" where
  "complete_previous 0 w = Some (True, w)"
| "complete_previous (Suc i) w =
     do {
       (ok, w) \<leftarrow> completefile i (upd_stream (\<lambda>s. s\<lparr>ds_curfile := i\<rparr>) w);
       (oks, w) \<leftarrow> complete_previous i w;
       Some (ok \<and> oks, w)
     }"

end
