(* ===== verification/StreamOps.thy ===== *)
theory StreamOps
  imports StreamObj
begin

text \<open>
  The operations on the file of a stream, \<^verbatim>\<open>src/datastream/datastream.c\<close>: writing, reading, seeking, extending,
  truncating, and the calls that set times and the recovery path. The stream of the world is \<^verbatim>\<open>*stream\<close>; a
  failure that destroys the stream leaves none. A pointer \<^verbatim>\<open>curfile\<close> is an index into the file list, so that it goes
  stale as the pointer does when the list is rearranged.
\<close>

section \<open>Writing\<close>

text \<open>The failures that destroy the stream.\<close>

definition fatal :: "world \<Rightarrow> world option" where
  "fatal w = do { w \<leftarrow> freestream w; Some (set_errno E_BADFD w) }"

text \<open>
  The part of the loop that leaves a full object: recovery data, close, completion of the earlier files, the
  next object. The result is the index of the current file, or \<open>None\<close> when the stream was destroyed.
\<close>

definition at_object :: "stream \<Rightarrow> ftag \<Rightarrow> ftag" where
  "at_object s tag = tag\<lparr>ft_objno := ds_objno s, ft_offset := ds_offset s\<rparr>"

definition settle_files :: "nat \<Rightarrow> world \<Rightarrow> (nat option \<times> world) option" where
  "settle_files i w =
     do {
       s \<leftarrow> w_stream w;
       (ok, w) \<leftarrow> complete_previous (ds_curfile s) w;
       if \<not> ok then do { w \<leftarrow> fatal w; Some (None, w) }
       else if ds_curfile s \<noteq> 0 then do {
         s2 \<leftarrow> w_stream w;
         f \<leftarrow> file_at (ds_curfile s) s2;
         w \<leftarrow> upd_file 0 (\<lambda>_. f) w;
         Some (Some 0, w)
       }
       else Some (Some i, w)
     }"

definition next_object :: "world \<Rightarrow> world" where
  "next_object w = upd_stream (\<lambda>s. s\<lparr>ds_objno := ds_objno s + 1, ds_offset := ds_recoveryheaderlen s\<rparr>) w"

definition advance_write :: "nat \<Rightarrow> world \<Rightarrow> (nat option \<times> world) option" where
  "advance_write i w =
     do {
       s \<leftarrow> w_stream w;
       (ok, w) \<leftarrow> (if ds_datahandle s \<noteq> None then putfinfo w else Some (True, w));
       if \<not> ok then do { w \<leftarrow> fatal w; Some (None, w) }
       else do {
         s \<leftarrow> w_stream w;
         f \<leftarrow> file_at i s;
         (ok, w) \<leftarrow> close_current_obj (at_object s (sf_ftag f)) None w;
         if \<not> ok then do { w \<leftarrow> fatal w; Some (None, w) }
         else do {
           (r, w) \<leftarrow> (if creates (ds_type s) then settle_files i w else Some (Some i, w));
           Some (r, if r = None then w else next_object w)
         }
       }
     }"

text \<open>
  One round of the loop. \<open>Inl\<close> is the result of an early return, \<open>Inr\<close> the number of bytes written and the index
  of the current file.
\<close>

definition partial_result :: "nat \<Rightarrow> int" where
  "partial_result n = (if n \<noteq> 0 then int n else - 1)"

definition grow_file :: "nat \<Rightarrow> 'm streamfile \<Rightarrow> 'm streamfile" where
  "grow_file n f = f\<lparr>sf_ftag := (sf_ftag f)\<lparr>ft_bytes := ft_bytes (sf_ftag f) + of_nat n\<rparr>\<rparr>"

definition put_chunk :: "nat \<Rightarrow> string \<Rightarrow> nat \<Rightarrow> world \<Rightarrow> ((int + nat \<times> nat) \<times> world) option" where
  "put_chunk i chunk written w =
     do {
       s \<leftarrow> w_stream w;
       (ok, w) \<leftarrow> (if ds_datahandle s = None then open_current_obj w else Some (True, w));
       if \<not> ok then Some (Inl (partial_result written), w)
       else do {
         s \<leftarrow> w_stream w;
         h \<leftarrow> ds_datahandle s;
         let (r, w) = ne_write h chunk w;
         if r \<le> 0 then Some (Inl (partial_result written), w)
         else do {
           let w = upd_stream (\<lambda>s. s\<lparr>ds_offset := ds_offset s + of_nat (nat r)\<rparr>) w;
           w \<leftarrow> (if creates (ds_type s) then upd_file i (grow_file (nat r)) w else Some w);
           Some (Inr (nat r, i), w)
         }
       }
     }"

definition write_step :: "u64 \<Rightarrow> nat \<Rightarrow> string \<Rightarrow> nat \<Rightarrow> world \<Rightarrow> ((int + nat \<times> nat) \<times> world) option" where
  "write_step dpo i buf written w =
     do {
       s \<leftarrow> w_stream w;
       let room = dpo - (ds_offset s - ds_recoveryheaderlen s);
       (r, w) \<leftarrow> (if room = 0 then advance_write i w else Some (Some i, w));
       (case r of
          None \<Rightarrow> Some (Inl (- 1), w)
        | Some i \<Rightarrow> put_chunk i (take (unat (if room = 0 then dpo else room)) buf) written w)
     }"

lemma ne_write_le: "fst (ne_write h buf w) \<le> int (length buf)"
  by (simp add: ne_write_def case_prod_unfold)

lemma put_chunk_progress:
  assumes "put_chunk i chunk written w = Some (Inr (n, j), w')"
  shows "0 < n \<and> n \<le> length chunk \<and> j = i"
proof -
  obtain h v where "n = nat (fst (ne_write h chunk v))" "0 < fst (ne_write h chunk v)" "j = i"
    using assms by (auto simp: put_chunk_def bind_eq_Some_conv Let_def case_prod_unfold split: if_splits)
  then show ?thesis using ne_write_le [of h chunk v] by (simp add: nat_le_iff)
qed

lemma write_step_progress:
  assumes "write_step dpo i buf written w = Some (Inr (n, j), w')"
  shows "0 < n \<and> n \<le> length buf"
proof -
  obtain k m v where "put_chunk k (take m buf) written v = Some (Inr (n, j), w')"
    using assms by (auto simp: write_step_def bind_eq_Some_conv Let_def case_prod_unfold split: if_splits option.splits)
  then show ?thesis using put_chunk_progress by fastforce
qed

text \<open>The loop: the result and, when the loop ran to its end, the index of the current file.\<close>

function write_loop :: "u64 \<Rightarrow> nat \<Rightarrow> string \<Rightarrow> nat \<Rightarrow> world \<Rightarrow> ((int \<times> nat option) \<times> world) option" where
  "write_loop dpo i buf written w =
     (if buf = [] then Some ((int written, Some i), w)
      else
        (case write_step dpo i buf written w of
           None \<Rightarrow> None
         | Some (Inl r, w) \<Rightarrow> Some ((r, None), w)
         | Some (Inr (n, j), w) \<Rightarrow> write_loop dpo j (drop n buf) (written + n) w))"
  by pat_completeness auto
termination
  by (relation "measure (\<lambda>(dpo, i, buf, written, w). length buf)") (auto dest: write_step_progress)

declare write_loop.simps [simp del]

text \<open>What a stream may not be written to.\<close>

definition write_refused :: "stream_type \<Rightarrow> u32 \<Rightarrow> bool" where
  "write_refused t st \<longleftrightarrow>
     t = READ_STREAM \<or>
     creates t \<and> (\<not> (st AND FTAG_DATASTATE) < FTAG_FIN \<or> st AND FTAG_WRITEABLE \<noteq> 0) \<or>
     t = EDIT_STREAM \<and> (st AND FTAG_DATASTATE = FTAG_INIT \<or> st AND FTAG_DATASTATE = FTAG_COMP)"

definition einval :: "world \<Rightarrow> (int \<times> world) option" where
  "einval w = Some (- 1, set_errno E_INVAL w)"

definition datastream_write :: "string \<Rightarrow> world \<Rightarrow> (int \<times> world) option" where
  "datastream_write buf w =
     (case w_stream w of
        None \<Rightarrow> einval w
      | Some s \<Rightarrow>
          do {
            if ds_type s = READ_STREAM \<or> length buf > unat SSIZE_MAX then einval w
            else do {
              let i = ds_curfile s;
              f \<leftarrow> file_at i s;
              if write_refused (ds_type s) (ft_state (sf_ftag f)) then einval w
              else do {
                (p, w) \<leftarrow> lift_c (gettargets s 0 SEEK_CUR) w;
                (case p of
                   None \<Rightarrow> Some (- 1, w)
                 | Some p \<Rightarrow>
                     do {
                       let buf = (if ds_type s = EDIT_STREAM then take (unat (dp_dataremaining p)) buf else buf);
                       ((r, j), w) \<leftarrow> write_loop (dp_dataperobj p) i buf 0 w;
                       (case j of
                          None \<Rightarrow> Some (r, w)
                        | Some j \<Rightarrow>
                            do {
                              s \<leftarrow> w_stream w;
                              f \<leftarrow> file_at j s;
                              let at_end = (ds_type s = EDIT_STREAM \<and> ft_state (sf_ftag f) AND FTAG_DATASTATE = FTAG_FIN \<and>
                                            r = int (unat (dp_dataremaining p)));
                              Some (r, if at_end then set_eof 1 w else w)
                            })
                     })
              }
            }
          })"

section \<open>Reading\<close>

text \<open>One round of the loop: \<open>Inl\<close> is an early return, \<open>Inr\<close> the bytes that were read.\<close>

definition advance_read :: "nat \<Rightarrow> world \<Rightarrow> (bool \<times> world) option" where
  "advance_read i w =
     do {
       s \<leftarrow> w_stream w;
       f \<leftarrow> file_at i s;
       (ok, w) \<leftarrow> close_current_obj (at_object s (sf_ftag f)) None w;
       if \<not> ok then do { w \<leftarrow> fatal w; Some (False, w) } else Some (True, next_object w)
     }"

definition get_chunk :: "nat \<Rightarrow> nat \<Rightarrow> world \<Rightarrow> ((int + string) \<times> world) option" where
  "get_chunk n readbytes w =
     do {
       s \<leftarrow> w_stream w;
       (ok, w) \<leftarrow> (if ds_datahandle s = None then open_current_obj w else Some (True, w));
       if \<not> ok then Some (Inl (partial_result readbytes), w)
       else do {
         s \<leftarrow> w_stream w;
         h \<leftarrow> ds_datahandle s;
         let ((r, bytes), w) = ne_read h n w;
         if r \<le> 0 then Some (Inl (partial_result readbytes), w)
         else Some (Inr bytes, upd_stream (\<lambda>s. s\<lparr>ds_offset := ds_offset s + of_nat (length bytes)\<rparr>) w)
       }
     }"

definition read_step :: "u64 \<Rightarrow> nat \<Rightarrow> nat \<Rightarrow> nat \<Rightarrow> world \<Rightarrow> ((int + string) \<times> world) option" where
  "read_step dpo i count readbytes w =
     do {
       s \<leftarrow> w_stream w;
       let room = dpo - (ds_offset s - ds_recoveryheaderlen s);
       (ok, w) \<leftarrow> (if room = 0 then advance_read i w else Some (True, w));
       if \<not> ok then Some (Inl (- 1), w)
       else get_chunk (min (unat (if room = 0 then dpo else room)) count) readbytes w
     }"

lemma ne_read_length: "fst (ne_read h n w) = (r, bytes) \<Longrightarrow> 0 < r \<Longrightarrow> bytes \<noteq> [] \<and> length bytes \<le> n"
  by (auto simp: ne_read_def case_prod_unfold split: if_splits)

lemma get_chunk_progress:
  assumes "get_chunk n k w = Some (Inr bytes, w')"
  shows "bytes \<noteq> [] \<and> length bytes \<le> n"
proof -
  obtain h v where "\<not> fst (fst (ne_read h n v)) \<le> 0" "bytes = snd (fst (ne_read h n v))"
    using assms by (auto simp: get_chunk_def bind_eq_Some_conv Let_def case_prod_unfold split: if_splits)
  then show ?thesis using ne_read_length [of h n v] by (cases "fst (ne_read h n v)") auto
qed

lemma read_step_progress:
  assumes "read_step dpo i count k w = Some (Inr bytes, w')"
  shows "bytes \<noteq> [] \<and> length bytes \<le> count"
proof -
  obtain m v where "get_chunk (min m count) k v = Some (Inr bytes, w')"
    using assms by (auto simp: read_step_def bind_eq_Some_conv Let_def split: prod.splits if_splits)
  then show ?thesis using get_chunk_progress by fastforce
qed

text \<open>The loop: the bytes that were read, and the result of an early return.\<close>

function read_loop :: "u64 \<Rightarrow> nat \<Rightarrow> nat \<Rightarrow> string \<Rightarrow> world \<Rightarrow> ((int option \<times> string) \<times> world) option" where
  "read_loop dpo i count acc w =
     (if count = 0 then Some ((None, acc), w)
      else
        (case read_step dpo i count (length acc) w of
           None \<Rightarrow> None
         | Some (Inl r, w) \<Rightarrow> Some ((Some r, acc), w)
         | Some (Inr bytes, w) \<Rightarrow> read_loop dpo i (count - length bytes) (acc @ bytes) w))"
  by pat_completeness auto
termination
  by (relation "measure (\<lambda>(dpo, i, count, acc, w). count)") (auto dest: read_step_progress)

declare read_loop.simps [simp del]

definition datastream_read :: "u64 \<Rightarrow> world \<Rightarrow> ((int \<times> string) \<times> world) option" where
  "datastream_read count w =
     (case w_stream w of
        None \<Rightarrow> Some ((- 1, []), set_errno E_INVAL w)
      | Some s \<Rightarrow>
          if ds_type s \<noteq> READ_STREAM \<or> count > SSIZE_MAX then Some ((- 1, []), set_errno E_INVAL w)
          else do {
            (p, w) \<leftarrow> lift_c (gettargets s 0 SEEK_CUR) w;
            (case p of
               None \<Rightarrow> Some ((- 1, []), w)
             | Some p \<Rightarrow>
                 do {
                   let count = min count (dp_dataremaining p + dp_excessremaining p);
                   let zeros = (if count > dp_dataremaining p then count - dp_dataremaining p else 0);
                   let count = min count (dp_dataremaining p);
                   ((early, bytes), w) \<leftarrow> read_loop (dp_dataperobj p) (ds_curfile s) (unat count) [] w;
                   (case early of
                      Some r \<Rightarrow> Some ((r, bytes), w)
                    | None \<Rightarrow>
                        Some ((int (length bytes + unat zeros), bytes @ replicate (unat zeros) NUL),
                          upd_stream (\<lambda>s. s\<lparr>ds_excessoffset := ds_excessoffset s + zeros\<rparr>) w))
                 })
          })"

section \<open>Seeking\<close>

text \<open>
  A seek forward in a stream that creates writes zeros, at most a MiB a round. The loop asks the entry \<open>i\<close> of
  the file list for the size of the file, where the current file was when the call started. \<open>None\<close> as the result
  means that \<open>fuel\<close> rounds were not enough; a stream that a round destroyed is read all the same, which is undefined.
\<close>

definition ZERO_CHUNK :: nat where "ZERO_CHUNK = 1024 * 1024"

fun zero_fill :: "nat \<Rightarrow> nat \<Rightarrow> u64 \<Rightarrow> world \<Rightarrow> (int option \<times> world) option" where
  "zero_fill 0 i target w = Some (None, w)"
| "zero_fill (Suc fuel) i target w =
     do {
       s \<leftarrow> w_stream w;
       f \<leftarrow> file_at i s;
       let bytes = ft_bytes (sf_ftag f);
       if \<not> bytes < target then Some (Some (sint bytes), w)
       else do {
         let n = min ZERO_CHUNK (unat (target - bytes));
         (r, w) \<leftarrow> datastream_write (replicate n NUL) w;
         if r \<noteq> int n then do {
           s \<leftarrow> w_stream w;
           f \<leftarrow> file_at i s;
           Some (Some (sint (ft_bytes (sf_ftag f))), w)
         }
         else zero_fill fuel i target w
       }
     }"

definition seek_create :: "nat \<Rightarrow> datastream_position \<Rightarrow> world \<Rightarrow> (int option \<times> world) option" where
  "seek_create fuel p w =
     do {
       s \<leftarrow> w_stream w;
       let i = ds_curfile s;
       f \<leftarrow> file_at i s;
       let bytes = ft_bytes (sf_ftag f);
       if dp_totaloffset p < bytes then Some (Some (- 1), set_errno E_INVAL w)
       else if dp_totaloffset p = bytes then Some (Some (sint bytes), w)
       else do {
         let (ok, w) = malloc w;
         if \<not> ok then Some (Some (- 1), w) else zero_fill fuel i (dp_totaloffset p) w
       }
     }"

text \<open>The object that is left behind: its recovery data when it was edited, then it is closed.\<close>

definition leave_object :: "world \<Rightarrow> (bool \<times> world) option" where
  "leave_object w =
     do {
       s \<leftarrow> w_stream w;
       (ok, w) \<leftarrow> (if ds_type s = EDIT_STREAM then putfinfo w else Some (True, w));
       if \<not> ok then do { w \<leftarrow> fatal w; Some (False, w) }
       else do {
         let w = (if ds_type s = EDIT_STREAM then set_eof 0 w else w);
         s \<leftarrow> w_stream w;
         f \<leftarrow> file_at (ds_curfile s) s;
         (ok, w) \<leftarrow> close_current_obj (at_object s (sf_ftag f)) None w;
         if \<not> ok then do { w \<leftarrow> fatal w; Some (False, w) } else Some (True, w)
       }
     }"

definition seek_move :: "datastream_position \<Rightarrow> world \<Rightarrow> (int \<times> world) option" where
  "seek_move p w =
     do {
       s \<leftarrow> w_stream w;
       (ok, w) \<leftarrow> (if ds_objno s \<noteq> dp_objno p \<and> ds_datahandle s \<noteq> None then leave_object w else Some (True, w));
       if \<not> ok then Some (- 1, w)
       else do {
         s \<leftarrow> w_stream w;
         let (r, w) = (case ds_datahandle s of
             None \<Rightarrow> (True, w)
           | Some h \<Rightarrow> (case status_call (Ne_seek h (dp_offset p)) w of (r, w) \<Rightarrow> (word_of_int r = dp_offset p, w)));
         if \<not> r then do { w \<leftarrow> fatal w; Some (- 1, w) }
         else Some (sint (dp_totaloffset p), upd_stream (move_to p) w)
       }
     }"

definition datastream_seek :: "nat \<Rightarrow> u64 \<Rightarrow> int \<Rightarrow> world \<Rightarrow> (int option \<times> world) option" where
  "datastream_seek fuel offset whence w =
     (case w_stream w of
        None \<Rightarrow> Some (Some (- 1), set_errno E_INVAL w)
      | Some s \<Rightarrow>
          do {
            (p, w) \<leftarrow> lift_c (gettargets s offset whence) w;
            (case p of
               None \<Rightarrow> Some (Some (- 1), w)
             | Some p \<Rightarrow>
                 if creates (ds_type s) then seek_create fuel p w
                 else if ds_type s = EDIT_STREAM \<and> dp_offset p \<noteq> ds_recoveryheaderlen s
                 then Some (Some (- 1), set_errno E_INVAL w)
                 else do { (r, w) \<leftarrow> seek_move p w; Some (Some r, w) })
          })"

section \<open>Extending and truncating\<close>

text \<open>
  \<^verbatim>\<open>datastream_extend\<close>: the files in front of the current one are completed and the file moves to a fresh
  object. The result says whether the stream still exists.
\<close>

definition fresh_object :: "world \<Rightarrow> (bool \<times> world) option" where
  "fresh_object w =
     do {
       s \<leftarrow> w_stream w;
       old \<leftarrow> file_at (ds_curfile s - 1) s;
       (ok, w) \<leftarrow> close_current_obj (at_object s (sf_ftag old)) None w;
       if \<not> ok then do { w \<leftarrow> fatal w; Some (False, w) }
       else do {
         (ok, w) \<leftarrow> complete_previous (ds_curfile s) w;
         s2 \<leftarrow> w_stream w;
         f \<leftarrow> file_at (ds_curfile s) s2;
         w \<leftarrow> upd_file 0 (\<lambda>_. f) w;
         if \<not> ok then do { w \<leftarrow> fatal w; Some (False, w) }
         else do {
           let w = next_object w;
           s \<leftarrow> w_stream w;
           w \<leftarrow> upd_file 0 (\<lambda>f. f\<lparr>sf_ftag := at_object s (sf_ftag f)\<rparr>) w;
           Some (True, w)
         }
       }
     }"

definition extend_refused :: "stream \<Rightarrow> ftag \<Rightarrow> u64 \<Rightarrow> bool" where
  "extend_refused s tag len \<longleftrightarrow>
     \<not> (ft_state tag AND FTAG_DATASTATE) < FTAG_FIN \<or> ft_bytes tag \<noteq> 0 \<and> ds_datahandle s \<noteq> None \<or> ft_bytes tag \<ge> len"

definition extended_state :: "u32 \<Rightarrow> u32" where
  "extended_state st =
     (let st = st OR FTAG_WRITEABLE in
      if (st AND FTAG_DATASTATE) < FTAG_SIZED \<or> st AND FTAG_WRITEABLE = 0
      then (st AND NOT FTAG_DATASTATE) OR FTAG_WRITEABLE OR FTAG_SIZED else st)"

text \<open>The rest of the call; \<open>i\<close> is the entry of the file, \<open>bytes\<close> its old size.\<close>

definition set_length :: "nat \<Rightarrow> u64 \<Rightarrow> world \<Rightarrow> (int \<times> world) option" where
  "set_length i len w =
     do {
       s \<leftarrow> w_stream w;
       f \<leftarrow> file_at i s;
       let bytes = ft_bytes (sf_ftag f);
       let set = (\<lambda>n. upd_file i (\<lambda>f. f\<lparr>sf_ftag := (sf_ftag f)\<lparr>ft_bytes := n\<rparr>\<rparr>));
       w \<leftarrow> set len w;
       s \<leftarrow> w_stream w;
       (p, w) \<leftarrow> lift_c (gettargets s 0 SEEK_SET) w;
       (case p of
          None \<Rightarrow> do { w \<leftarrow> set bytes w; Some (- 1, w) }
        | Some p \<Rightarrow>
            if dp_offset p \<noteq> ds_recoveryheaderlen s then do { w \<leftarrow> set bytes w; Some (- 1, w) }
            else if dp_dataperobj p = 0 then None
            else do {
              let objs = (dp_dataremaining p + dp_excessremaining p) div dp_dataperobj p;
              let tag = (sf_ftag f)\<lparr>ft_bytes := len, ft_state := extended_state (ft_state (sf_ftag f)),
                    ft_availbytes := objs * dp_dataperobj p\<rparr>;
              w \<leftarrow> upd_file i (\<lambda>f. f\<lparr>sf_ftag := tag\<rparr>) w;
              (ok, w) \<leftarrow> putftag (sf_metahandle f) tag w;
              if \<not> ok then do { w \<leftarrow> fatal w; Some (- 1, w) } else Some (0, w)
            })
     }"

definition datastream_extend :: "u64 \<Rightarrow> world \<Rightarrow> (int \<times> world) option" where
  "datastream_extend len w =
     (case w_stream w of
        None \<Rightarrow> einval w
      | Some s \<Rightarrow>
          if ds_type s \<noteq> CREATE_STREAM then einval w
          else do {
            f \<leftarrow> file_at (ds_curfile s) s;
            if extend_refused s (sf_ftag f) len then einval w
            else do {
              (ok, w) \<leftarrow> (if ds_curfile s \<noteq> 0 then fresh_object w else Some (True, w));
              if \<not> ok then Some (- 1, w) else set_length 0 len w
            }
          })"

definition datastream_truncate :: "u64 \<Rightarrow> world \<Rightarrow> (int \<times> world) option" where
  "datastream_truncate len w =
     (case w_stream w of
        None \<Rightarrow> einval w
      | Some s \<Rightarrow>
          if sint len < 0 \<or> ds_type s \<noteq> EDIT_STREAM then einval w
          else do {
            let i = ds_curfile s;
            f \<leftarrow> file_at i s;
            let tag = sf_ftag f;
            if ft_state tag AND FTAG_DATASTATE \<noteq> FTAG_COMP then einval w
            else do {
              let avail = (\<lambda>n. upd_file i (\<lambda>f. f\<lparr>sf_ftag := (sf_ftag f)\<lparr>ft_availbytes := n\<rparr>\<rparr>));
              w \<leftarrow> avail (min (ft_availbytes tag) len) w;
              let (r, w) = status_call (Ftruncate (sf_metahandle f) len) w;
              if r \<noteq> 0 then do { w \<leftarrow> avail (ft_availbytes tag) w; Some (- 1, w) }
              else do {
                (ok, w) \<leftarrow> putftag (sf_metahandle f) (tag\<lparr>ft_availbytes := min (ft_availbytes tag) len\<rparr>) w;
                Some (if ok then 0 else - 1, w)
              }
            }
          })"

section \<open>Times and paths\<close>

text \<open>\<^verbatim>\<open>datastream_utimens\<close>; \<open>None\<close> is a missing array.\<close>

definition datastream_utimens :: "(timespec \<times> timespec) option \<Rightarrow> world \<Rightarrow> (int \<times> world) option" where
  "datastream_utimens timeso w =
     (case (w_stream w, timeso) of
        (Some s, Some tms) \<Rightarrow>
          if ds_type s \<noteq> EDIT_STREAM \<and> ds_type s \<noteq> CREATE_STREAM then einval w
          else do {
            f \<leftarrow> file_at (ds_curfile s) s;
            let st = ft_state (sf_ftag f);
            if st AND FTAG_DATASTATE \<noteq> FTAG_COMP \<and> ds_type s \<noteq> CREATE_STREAM \<and> st AND FTAG_WRITEABLE = 0 then einval w
            else do {
              w \<leftarrow> upd_file (ds_curfile s) (\<lambda>f. f\<lparr>sf_times := tms, sf_dotimes := True\<rparr>) w;
              Some (0, upd_stream (\<lambda>s. s\<lparr>ds_finfo := (ds_finfo s)\<lparr>fi_sec := fst (snd tms), fi_nsec := snd (snd tms)\<rparr>\<rparr>) w)
            }
          }
      | _ \<Rightarrow> einval w)"

definition datastream_setrecoverypath :: "string option \<Rightarrow> world \<Rightarrow> (int \<times> world) option" where
  "datastream_setrecoverypath patho w =
     (case (w_stream w, patho) of
        (Some s, Some path) \<Rightarrow>
          if ds_type s = READ_STREAM then einval w
          else do {
            let i = ds_curfile s;
            f \<leftarrow> file_at i s;
            if creates (ds_type s) \<and> ft_bytes (sf_ftag f) \<noteq> 0 then einval w
            else do {
              let (ok, w) = malloc w;
              let finfo = (ds_finfo s)\<lparr>fi_path := path\<rparr>;
              let newstrlen = fst (recovery_finfotostr (Some finfo) False 0);
              if \<not> ok \<or> newstrlen < 1 then Some (- 1, w)
              else if ds_type s = EDIT_STREAM then
                if newstrlen > unat (ft_recoverybytes (sf_ftag f)) then Some (- 1, set_errno E_NAMETOOLONG w)
                else Some (0, upd_stream (\<lambda>s. s\<lparr>ds_finfo := finfo\<rparr>) w)
              else do {
                let set = (\<lambda>n. upd_file i (\<lambda>f. f\<lparr>sf_ftag := (sf_ftag f)\<lparr>ft_recoverybytes := n\<rparr>\<rparr>));
                let w = upd_stream (\<lambda>s. s\<lparr>ds_finfo := finfo\<rparr>) w;
                w \<leftarrow> set (of_nat newstrlen) w;
                (ok, w) \<leftarrow> putftag (sf_metahandle f) ((sf_ftag f)\<lparr>ft_recoverybytes := of_nat newstrlen\<rparr>) w;
                if ok then Some (0, w)
                else do {
                  w \<leftarrow> set (ft_recoverybytes (sf_ftag f)) w;
                  Some (- 1, upd_stream (\<lambda>t. t\<lparr>ds_finfo := ds_finfo s\<rparr>) w)
                }
              }
            }
          }
      | _ \<Rightarrow> einval w)"

text \<open>
  \<^verbatim>\<open>datastream_recoveryinfo\<close>: the recovery data behind the data of the current object. When the handle cannot be moved
  back, it is closed.
\<close>

definition datastream_recoveryinfo :: "world \<Rightarrow> (recovery_finfo option \<times> world) option" where
  "datastream_recoveryinfo w =
     (case w_stream w of
        None \<Rightarrow> Some (None, set_errno E_INVAL w)
      | Some s \<Rightarrow>
          if ds_type s \<noteq> READ_STREAM then Some (None, set_errno E_INVAL w)
          else do {
            (p, w) \<leftarrow> lift_c (gettargets s 0 SEEK_CUR) w;
            (case p of
               None \<Rightarrow> Some (None, w)
             | Some p \<Rightarrow>
                 do {
                   (ok, w) \<leftarrow> (if ds_datahandle s = None then open_current_obj w else Some (True, w));
                   if \<not> ok then Some (None, w)
                   else do {
                     s \<leftarrow> w_stream w;
                     h \<leftarrow> ds_datahandle s;
                     f \<leftarrow> file_at (ds_curfile s) s;
                     let tgt = dp_offset p + dp_dataremaining p;
                     let tgt = (if tgt - ds_recoveryheaderlen s > dp_dataperobj p
                                then ds_recoveryheaderlen s + dp_dataperobj p else tgt);
                     let (r, w) = status_call (Ne_seek h tgt) w;
                     if word_of_int r \<noteq> tgt then Some (None, w)
                     else do {
                       let (ok, w) = malloc w;
                       if \<not> ok then Some (None, w)
                       else do {
                         let n = unat (ft_recoverybytes (sf_ftag f));
                         let ((r, bytes), w) = ne_read h n w;
                         if r \<le> 0 then Some (None, w)
                         else do {
                           let (r, w) = status_call (Ne_seek h (dp_offset p)) w;
                           let w = (if word_of_int r = dp_offset p then w
                                    else upd_stream (\<lambda>s. s\<lparr>ds_datahandle := None\<rparr>) (snd (status_call (Ne_close h) w)));
                           let (m, w) = malloc w;
                           lift_c (recovery_finfofromstr m True (Some (bytes @ replicate (n - length bytes) NUL)) n) w
                         }
                       }
                     }
                   }
                 })
          })"

end
