(* ===== verification/StreamLife.thy ===== *)
theory StreamLife
  imports StreamOps
begin

text \<open>
  The life of a stream, \<^verbatim>\<open>src/datastream/datastream.c\<close>: its creation, the progress from one file to the next
  (\<^verbatim>\<open>datastream_create\<close>, \<^verbatim>\<open>datastream_open\<close>, \<^verbatim>\<open>datastream_scan\<close>, \<^verbatim>\<open>datastream_repack\<close>), and its end
  (\<^verbatim>\<open>datastream_release\<close>, \<^verbatim>\<open>datastream_close\<close>). While a new stream is built beside an old one, the old one is kept
  aside.
\<close>

record marfs_position =
  pos_ns :: marfs_ns
  pos_depth :: u32
  pos_ctxt :: nat

section \<open>A new stream\<close>

text \<open>\<^verbatim>\<open>datastream_genstreamid\<close>: the identifier and the length of the recovery header.\<close>

definition stream_id :: "string \<Rightarrow> string \<Rightarrow> u64 \<times> u64 \<Rightarrow> string" where
  "stream_id repo path tm =
     repo @ ''#'' @ map (\<lambda>c. if c = CHR ''/'' then CHR ''#'' else c) path @ ''#'' @ show_int (sint (fst tm)) @ ''.'' @
     show_int (sint (snd tm))"

definition datastream_genstreamid :: "string \<Rightarrow> marfs_ns \<Rightarrow> world \<Rightarrow> ((string \<times> u64) option \<times> world) option" where
  "datastream_genstreamid ctag ns w =
     do {
       let (a, w) = issue Clock_gettime w;
       if a_ret a \<noteq> 0 then Some (None, w)
       else do {
         let (b, w) = issue (Nsinfo (ns_idstr ns)) w;
         if a_ret b \<noteq> 0 then Some (None, w)
         else do {
           let len = 2 * SIZE_DIGITS + length (fst (a_names b)) + length (snd (a_names b)) + 4;
           let out = stream_id (fst (a_names b)) (snd (a_names b)) (a_time a);
           let (ok, w) = malloc w;
           if \<not> ok \<or> snprintf_ret out \<le> 0 \<or> snprintf_ret out \<ge> int len then Some (None, w)
           else do {
             let hlen = header_len ctag out;
             if hlen < 1 then Some (None, w) else Some (Some (out, of_nat hlen), w)
           }
         }
       }
     }"

definition new_stream :: "stream_type \<Rightarrow> marfs_ns \<Rightarrow> stream" where
  "new_stream t ns =
     \<lparr>ds_type = t, ds_ctag = [], ds_streamid = [], ds_ns = ns, ds_recoveryheaderlen = 0, ds_fileno = 0, ds_objno = 0,
      ds_offset = 0, ds_excessoffset = 0, ds_datahandle = None, ds_files = [], ds_curfile = 0, ds_filealloc = 0,
      ds_finfo = zero_finfo, ds_ftagstr = [], ds_ftagstrsize = 512, ds_finfostrlen = 512\<rparr>"

text \<open>The entry of the first file before the file is known.\<close>

definition first_file :: "stream \<Rightarrow> nat streamfile" where
  "first_file s = \<lparr>sf_metahandle = None, sf_ftag = (fresh_tag s)\<lparr>ft_fileno := 0, ft_objno := 0, ft_offset := 0\<rparr>,
     sf_times = ((0, 0), (0, 0)), sf_dotimes = False\<rparr>"

definition give_up :: "world \<Rightarrow> ((bool \<times> nat option) \<times> world) option" where
  "give_up w = do { w \<leftarrow> freestream w; Some ((False, None), w) }"

text \<open>The first file of a stream that writes new objects, and of one that opens existing files.\<close>

definition start_writing :: "string \<Rightarrow> marfs_position \<Rightarrow> u32 \<Rightarrow> string option \<Rightarrow> world \<Rightarrow> ((bool \<times> nat option) \<times> world) option" where
  "start_writing path pos mode ctago w =
     do {
       let (ok, w) = malloc w;
       if \<not> ok then give_up w
       else do {
         let ctag = (case ctago of None \<Rightarrow> ''UNKNOWN-CLIENT'' | Some c \<Rightarrow> c);
         s \<leftarrow> w_stream w;
         (sid, w) \<leftarrow> datastream_genstreamid ctag (ds_ns s) w;
         (case sid of
            None \<Rightarrow> give_up w
          | Some (sid, hlen) \<Rightarrow>
              do {
                let w = upd_stream (\<lambda>s. s\<lparr>ds_ctag := ctag, ds_streamid := sid, ds_recoveryheaderlen := hlen, ds_offset := hlen\<rparr>) w;
                (ok, w) \<leftarrow> (if ds_type s = CREATE_STREAM then create_new_file path (pos_ctxt pos) mode w
                           else open_repack_file path (pos_ctxt pos) w);
                if ok then Some ((True, None), w) else give_up w
              })
       }
     }"

definition start_opening :: "string \<Rightarrow> bool \<Rightarrow> marfs_position \<Rightarrow> bool \<Rightarrow> world \<Rightarrow> ((bool \<times> nat option) \<times> world) option" where
  "start_opening path rpathflag pos keep w =
     do {
       (r, w) \<leftarrow> open_existing_file path rpathflag (pos_ctxt pos) w;
       if r = 0 then Some ((True, None), w)
       else do {
         s \<leftarrow> w_stream w;
         f \<leftarrow> file_at 0 s;
         let kept = (if r > 0 \<and> keep then sf_metahandle f else None);
         w \<leftarrow> (if r > 0 \<and> keep then upd_file 0 null_handle w else Some w);
         w \<leftarrow> freestream w;
         Some ((False, kept), w)
       }
     }"

text \<open>
  \<^verbatim>\<open>genstream\<close>: whether there is a stream, and the handle that was kept for a file without a tag; \<open>keep\<close> says that the
  caller wants it. The allocations are the stream, its reference to the namespace and the two buffers.
\<close>

definition genstream ::
    "stream_type \<Rightarrow> string \<Rightarrow> bool \<Rightarrow> marfs_position \<Rightarrow> u32 \<Rightarrow> string option \<Rightarrow> bool \<Rightarrow> world \<Rightarrow> ((bool \<times> nat option) \<times> world) option" where
  "genstream t path rpathflag pos mode ctag keep w =
     do {
       let (m, w) = mallocs 4 w;
       if \<not> m 0 \<or> \<not> m 1 then Some ((False, None), w\<lparr>w_stream := None\<rparr>)
       else do {
         let w = w\<lparr>w_stream := Some (new_stream t (pos_ns pos))\<rparr>;
         if \<not> m 2 \<or> \<not> m 3 then give_up w
         else do {
           let mx = (if creates t then unat (mds_objfiles (ns_datascheme (pos_ns pos)) + 1) else 2);
           w \<leftarrow> grow_files mx w;
           s \<leftarrow> w_stream w;
           if ds_filealloc s = 0 then give_up w
           else do {
             w \<leftarrow> upd_file 0 (\<lambda>_. first_file s) w;
             if creates t then start_writing path pos mode ctag w else start_opening path rpathflag pos keep w
           }
         }
       }
     }"

section \<open>The end of a stream\<close>

text \<open>
  Both functions leave no stream, whatever happens. \<open>bury\<close> is the end of a failure, \<open>einval_bury\<close> the one for a file in
  the wrong state.
\<close>

definition bury :: "int \<Rightarrow> world \<Rightarrow> (int \<times> world) option" where
  "bury r w = do { w \<leftarrow> freestream w; Some (r, w) }"

definition einval_bury :: "world \<Rightarrow> (int \<times> world) option" where
  "einval_bury w = do { w \<leftarrow> freestream w; einval w }"

text \<open>
  The last step of a release: the tag of a stream that creates, the times.
\<close>

definition release_meta :: "world \<Rightarrow> (bool \<times> world) option" where
  "release_meta w =
     do {
       s \<leftarrow> w_stream w;
       f \<leftarrow> file_at (ds_curfile s) s;
       (ok, w) \<leftarrow> (if creates (ds_type s) then putftag (sf_metahandle f) (sf_ftag f) w else Some (True, w));
       if \<not> ok then Some (False, w)
       else if creates (ds_type s) \<or> sf_dotimes f then
         (case status_call (Futimens (sf_metahandle f) (sf_times f)) w of (r, w) \<Rightarrow> Some (r = 0, w))
       else Some (True, w)
     }"

definition release_rest :: "world \<Rightarrow> (int \<times> world) option" where
  "release_rest w =
     do {
       s \<leftarrow> w_stream w;
       f \<leftarrow> file_at (ds_curfile s) s;
       (ok, w) \<leftarrow> close_current_obj (at_object s (sf_ftag f)) None w;
       if \<not> ok then bury (- 1) w
       else do {
         (ok, w) \<leftarrow> release_meta w;
         bury (if ok then 0 else - 1) w
       }
     }"

definition datastream_release :: "world \<Rightarrow> (int \<times> world) option" where
  "datastream_release w =
     (case w_stream w of
        None \<Rightarrow> einval w
      | Some s \<Rightarrow>
          do {
            f \<leftarrow> file_at (ds_curfile s) s;
            if creates (ds_type s) then
              if ft_state (sf_ftag f) AND FTAG_WRITEABLE = 0 \<or> ds_curfile s \<noteq> 0 then einval_bury w
              else do {
                (ok, w) \<leftarrow> finfile w;
                if \<not> ok then bury (- 1) w
                else do {
                  w \<leftarrow> upd_file (ds_curfile s) (\<lambda>f. f\<lparr>sf_ftag := (sf_ftag f)\<lparr>ft_endofstream := 1,
                         ft_availbytes := ft_bytes (sf_ftag f)\<rparr>\<rparr>) w;
                  release_rest w
                }
              }
            else do {
              (ok, w) \<leftarrow> (if ds_type s = EDIT_STREAM \<and> ds_datahandle s \<noteq> None then putfinfo w else Some (True, w));
              if \<not> ok then bury (- 1) w else release_rest w
            }
          })"

text \<open>The loop over all files, from the current one to the first.\<close>

definition close_file :: "nat \<Rightarrow> world \<Rightarrow> (bool \<times> world) option" where
  "close_file i w =
     do {
       s \<leftarrow> w_stream w;
       f \<leftarrow> file_at i s;
       (ok, w) \<leftarrow> (if ds_type s \<noteq> READ_STREAM then completefile i w
                  else (case status_call (Fclose (sf_metahandle f)) w of (r, w) \<Rightarrow> Some (r = 0, w)));
       w \<leftarrow> upd_file i null_handle w;
       Some (ok, w)
     }"

fun close_files :: "nat \<Rightarrow> world \<Rightarrow> (bool \<times> world) option" where
  "close_files 0 w = close_file 0 w"
| "close_files (Suc i) w =
     do {
       (ok, w) \<leftarrow> close_file (Suc i) w;
       (oks, w) \<leftarrow> close_files i (upd_stream (\<lambda>s. s\<lparr>ds_curfile := i\<rparr>) w);
       Some (ok \<and> oks, w)
     }"

definition close_rest :: "world \<Rightarrow> (int \<times> world) option" where
  "close_rest w =
     do {
       s \<leftarrow> w_stream w;
       f \<leftarrow> file_at (ds_curfile s) s;
       (ok, w) \<leftarrow> close_current_obj (at_object s (sf_ftag f)) None w;
       if \<not> ok then bury (- 1) w
       else do {
         (ok, w) \<leftarrow> close_files (ds_curfile s) w;
         bury (if ok then 0 else - 1) w
       }
     }"

definition datastream_close :: "world \<Rightarrow> (int \<times> world) option" where
  "datastream_close w =
     (case w_stream w of
        None \<Rightarrow> einval w
      | Some s \<Rightarrow>
          do {
            f \<leftarrow> file_at (ds_curfile s) s;
            let st = ft_state (sf_ftag f);
            if creates (ds_type s) then
              if st AND FTAG_WRITEABLE \<noteq> 0 then einval_bury w
              else do {
                (ok, w) \<leftarrow> finfile w;
                if \<not> ok then bury (- 1) w
                else do {
                  w \<leftarrow> upd_file (ds_curfile s) (\<lambda>f. f\<lparr>sf_ftag := (sf_ftag f)\<lparr>ft_endofstream := 1\<rparr>\<rparr>) w;
                  close_rest w
                }
              }
            else if ds_type s = EDIT_STREAM then
              if st AND FTAG_WRITEABLE = 0 \<or> st AND FTAG_DATASTATE \<noteq> FTAG_FIN then einval_bury w
              else do {
                (ok, w) \<leftarrow> (if ds_datahandle s \<noteq> None then putfinfo w else Some (True, w));
                if \<not> ok then bury (- 1) w else close_rest w
              }
            else close_rest w
          })"

section \<open>From file to file\<close>

text \<open>
  The object of the files in front of the new one is closed and they are completed; the new file, with index
  \<open>n\<close>, becomes the first.
\<close>

definition change_object :: "nat \<Rightarrow> u64 \<Rightarrow> nat \<Rightarrow> world \<Rightarrow> (int \<times> world) option" where
  "change_object n curobj ctxt w =
     do {
       s \<leftarrow> w_stream w;
       old \<leftarrow> file_at (n - 1) s;
       (ok, w) \<leftarrow> close_current_obj ((sf_ftag old)\<lparr>ft_objno := curobj\<rparr>) (Some ctxt) w;
       if \<not> ok then do { w \<leftarrow> fatal w; Some (- 1, w) }
       else do {
         (ok, w) \<leftarrow> complete_previous n w;
         s \<leftarrow> w_stream w;
         f \<leftarrow> file_at n s;
         w \<leftarrow> upd_file 0 (\<lambda>_. f) w;
         if \<not> ok then do { w \<leftarrow> fatal w; Some (- 1, w) } else Some (0, w)
       }
     }"

text \<open>
  The next file of a stream that writes objects; \<open>enter\<close> puts it at the current position. When that fails, the stream
  goes back to the file before, which is finished by then.
\<close>

definition next_file :: "(world \<Rightarrow> (bool \<times> world) option) \<Rightarrow> nat \<Rightarrow> world \<Rightarrow> (int \<times> world) option" where
  "next_file enter ctxt w =
     do {
       s0 \<leftarrow> w_stream w;
       (ok, w) \<leftarrow> finfile w;
       if \<not> ok then do { w \<leftarrow> fatal w; Some (- 1, w) }
       else do {
         s \<leftarrow> w_stream w;
         f \<leftarrow> file_at (ds_curfile s) s;
         (ok, w) \<leftarrow> putftag (sf_metahandle f) (sf_ftag f) w;
         if \<not> ok then do { w \<leftarrow> fatal w; Some (- 1, w) }
         else do {
           (ok, w) \<leftarrow> enter (upd_stream (\<lambda>s. s\<lparr>ds_curfile := ds_curfile s + 1, ds_fileno := ds_fileno s + 1\<rparr>) w);
           if \<not> ok
           then Some (- 1, mask_errno (upd_stream (\<lambda>s. s\<lparr>ds_curfile := ds_curfile s - 1, ds_fileno := ds_fileno s - 1\<rparr>) w))
           else do {
             s \<leftarrow> w_stream w;
             g \<leftarrow> file_at (ds_curfile s) s;
             if ft_objno (sf_ftag g) \<noteq> ds_objno s0 then change_object (ds_curfile s) (ds_objno s0) ctxt w else Some (0, w)
           }
         }
       }
     }"

text \<open>
  A new stream; with an old one for another namespace, that one is ended by \<open>fin\<close> afterwards, and its failure
  takes the new one along. The second result is the kept handle.
\<close>

definition fresh_stream ::
    "(world \<Rightarrow> ((bool \<times> nat option) \<times> world) option) \<Rightarrow> (world \<Rightarrow> (int \<times> world) option) \<Rightarrow> world \<Rightarrow> ((int \<times> nat option) \<times> world) option" where
  "fresh_stream gen fin w =
     (case w_stream w of
        None \<Rightarrow> do { ((ok, kept), w) \<leftarrow> gen w; Some ((if ok then 0 else - 1, kept), w) }
      | Some old \<Rightarrow>
          do {
            ((ok, kept), w) \<leftarrow> gen (w\<lparr>w_stream := None\<rparr>);
            let new = w_stream w;
            (r, w) \<leftarrow> fin (w\<lparr>w_stream := Some old\<rparr>);
            if r \<noteq> 0 then do {
              w \<leftarrow> (if ok then freestream (w\<lparr>w_stream := new\<rparr>) else Some w);
              Some ((- 1, kept), set_errno E_BADFD (w\<lparr>w_stream := None\<rparr>))
            }
            else Some ((if ok then 0 else - 1, kept), w\<lparr>w_stream := new\<rparr>)
          })"

definition same_ns :: "stream \<Rightarrow> marfs_position \<Rightarrow> bool" where
  "same_ns s pos \<longleftrightarrow> ns_idstr (ds_ns s) = ns_idstr (pos_ns pos)"

text \<open>The two functions differ in the type of the stream and in how the file enters it.\<close>

definition progress ::
    "stream_type \<Rightarrow> string option \<Rightarrow> marfs_position option \<Rightarrow> u32 \<Rightarrow> string option \<Rightarrow> world \<Rightarrow> (int \<times> world) option" where
  "progress t patho poso mode ctag w =
     (case (patho, poso) of
        (Some path, Some pos) \<Rightarrow>
          (let enter = (if t = CREATE_STREAM then create_new_file path (pos_ctxt pos) mode else open_repack_file path (pos_ctxt pos));
               fresh = fresh_stream (genstream t path (t \<noteq> CREATE_STREAM) pos mode ctag False) datastream_close in
           case w_stream w of
             Some s \<Rightarrow>
               if ds_type s \<noteq> t then einval w
               else if same_ns s pos then next_file enter (pos_ctxt pos) w
               else do { ((r, _), w) \<leftarrow> fresh w; Some (r, w) }
           | None \<Rightarrow> do { ((r, _), w) \<leftarrow> fresh w; Some (r, w) })
      | _ \<Rightarrow> einval w)"

definition datastream_create ::
    "string option \<Rightarrow> marfs_position option \<Rightarrow> u32 \<Rightarrow> string option \<Rightarrow> world \<Rightarrow> (int \<times> world) option" where
  "datastream_create path pos mode ctag w = progress CREATE_STREAM path pos mode ctag w"

definition datastream_repack ::
    "string option \<Rightarrow> marfs_position option \<Rightarrow> string option \<Rightarrow> world \<Rightarrow> (int \<times> world) option" where
  "datastream_repack path pos ctag w = progress REPACK_STREAM path pos 0 ctag w"

text \<open>
  The next file of a stream that reads. With \<open>scan\<close> the path is a reference path, and the object is sought even when
  none is open, which \<^verbatim>\<open>ne_seek\<close> answers with a failure. The second result is the kept handle.
\<close>

definition reuse_object :: "bool \<Rightarrow> u64 \<Rightarrow> world \<Rightarrow> (bool \<times> world) option" where
  "reuse_object scan off w =
     do {
       s \<leftarrow> w_stream w;
       (case ds_datahandle s of
          Some h \<Rightarrow> (case status_call (Ne_seek h off) w of (r, w) \<Rightarrow> Some (word_of_int r = off, w))
        | None \<Rightarrow> Some (if scan then off = word_of_int (- 1) else True, if scan then set_errno E_INVAL w else w))
     }"

definition same_object :: "ftag \<Rightarrow> ftag \<Rightarrow> u64 \<Rightarrow> bool" where
  "same_object old new objno \<longleftrightarrow> ft_streamid old = ft_streamid new \<and> ft_ctag old = ft_ctag new \<and> objno = ft_objno new"

definition next_read :: "bool \<Rightarrow> bool \<Rightarrow> string \<Rightarrow> nat \<Rightarrow> world \<Rightarrow> ((int \<times> nat option) \<times> world) option" where
  "next_read scan keep path ctxt w =
     do {
       s \<leftarrow> w_stream w;
       let i = ds_curfile s;
       f \<leftarrow> file_at i s;
       (r, w) \<leftarrow> open_existing_file path scan ctxt (upd_stream (\<lambda>s. s\<lparr>ds_curfile := i + 1\<rparr>) w);
       s1 \<leftarrow> w_stream w;
       g \<leftarrow> file_at (i + 1) s1;
       if r \<noteq> 0 then do {
         w \<leftarrow> (if r > 0 \<and> keep then upd_file (i + 1) null_handle w else Some w);
         Some ((- 1, if r > 0 \<and> keep then sf_metahandle g else None),
           mask_errno (upd_stream (\<lambda>s. s\<lparr>ds_curfile := i\<rparr>) w))
       }
       else do {
         (ok, w) \<leftarrow>
           (if same_object (sf_ftag f) (sf_ftag g) (ds_objno s) then reuse_object scan (ft_offset (sf_ftag g)) w
            else close_current_obj ((sf_ftag f)\<lparr>ft_objno := ds_objno s\<rparr>) (Some ctxt) w);
         if \<not> ok then do { w \<leftarrow> fatal w; Some ((- 1, None), w) }
         else do {
           let w = snd (status_call (Fclose (sf_metahandle f)) w);
           w \<leftarrow> upd_file i (\<lambda>_. g) w;
           w \<leftarrow> upd_file (i + 1) (\<lambda>f. null_handle (drop_strings f)) w;
           Some ((0, None), upd_stream (\<lambda>s. s\<lparr>ds_curfile := i\<rparr>) w)
         }
       }
     }"

definition datastream_open ::
    "stream_type \<Rightarrow> string option \<Rightarrow> marfs_position option \<Rightarrow> bool \<Rightarrow> world \<Rightarrow> ((int \<times> nat option) \<times> world) option" where
  "datastream_open t patho poso keep w =
     (case (patho, poso) of
        (Some path, Some pos) \<Rightarrow>
          (let fresh = fresh_stream (genstream t path False pos 0 None (keep \<and> t = READ_STREAM)) datastream_release in
           if t \<noteq> EDIT_STREAM \<and> t \<noteq> READ_STREAM then Some ((- 1, None), set_errno E_INVAL w)
           else
             (case w_stream w of
                Some s \<Rightarrow>
                  if ds_type s \<noteq> t then Some ((- 1, None), set_errno E_INVAL w)
                  else if same_ns s pos \<and> t = READ_STREAM then next_read False keep path (pos_ctxt pos) w
                  else fresh w
              | None \<Rightarrow> fresh w))
      | _ \<Rightarrow> Some ((- 1, None), set_errno E_INVAL w))"

definition datastream_scan :: "string option \<Rightarrow> marfs_position option \<Rightarrow> world \<Rightarrow> (int \<times> world) option" where
  "datastream_scan patho poso w =
     (case (patho, poso) of
        (Some path, Some pos) \<Rightarrow>
          (let fresh = fresh_stream (genstream READ_STREAM path True pos 0 None False) datastream_release in
           case w_stream w of
             Some s \<Rightarrow>
               if ds_type s \<noteq> READ_STREAM then einval w
               else if same_ns s pos
               then do { ((r, _), w) \<leftarrow> next_read True False path (pos_ctxt pos) w; Some (r, w) }
               else do { ((r, _), w) \<leftarrow> fresh w; Some (r, w) }
           | None \<Rightarrow> do { ((r, _), w) \<leftarrow> fresh w; Some (r, w) })
      | _ \<Rightarrow> einval w)"

end
