(* ===== verification/StreamFrame.thy ===== *)
theory StreamFrame
  imports StreamLife
begin

text \<open>
  What the functions of a stream leave alone. \<open>ends m Q\<close> says that \<open>Q\<close> holds for the result and the world of a
  computation that is defined. \<open>step P G w w'\<close> relates two worlds when only calls that satisfy \<open>P\<close> were issued between them
  and the streams are related by \<open>G\<close>, a reflexive and transitive relation. The rules in \<open>ends_intros\<close> follow the
  text of a function, so that a frame property is proved by going through its body.
\<close>

section \<open>Partial correctness\<close>

definition ends :: "('a \<times> world) option \<Rightarrow> ('a \<Rightarrow> world \<Rightarrow> bool) \<Rightarrow> bool" where
  "ends m Q \<longleftrightarrow> (\<forall>r w. m = Some (r, w) \<longrightarrow> Q r w)"

definition ends_w :: "world option \<Rightarrow> (world \<Rightarrow> bool) \<Rightarrow> bool" where
  "ends_w m Q \<longleftrightarrow> (\<forall>w. m = Some w \<longrightarrow> Q w)"

named_theorems ends_intros "rules that follow the text of a function"

lemma endsD: "ends m Q \<Longrightarrow> m = Some (r, w) \<Longrightarrow> Q r w"
  by (simp add: ends_def)

lemma ends_wD: "ends_w m Q \<Longrightarrow> m = Some w \<Longrightarrow> Q w"
  by (simp add: ends_w_def)

lemma ends_return [ends_intros]: "Q r w \<Longrightarrow> ends (Some (r, w)) Q"
  by (simp add: ends_def)

lemma ends_w_return [ends_intros]: "Q w \<Longrightarrow> ends_w (Some w) Q"
  by (simp add: ends_w_def)

lemma ends_None [ends_intros]: "ends None Q" "ends_w None Q'"
  by (simp_all add: ends_def ends_w_def)

lemma ends_bind: "ends m (\<lambda>r w. ends (f r w) Q) \<Longrightarrow> ends (Option.bind m (\<lambda>(r, w). f r w)) Q"
  by (auto simp: ends_def bind_eq_Some_conv)

lemma ends_bind_w: "ends_w m (\<lambda>w. ends (f w) Q) \<Longrightarrow> ends (Option.bind m f) Q"
  by (auto simp: ends_def ends_w_def bind_eq_Some_conv)

lemma ends_w_bind_w: "ends_w m (\<lambda>w. ends_w (f w) Q) \<Longrightarrow> ends_w (Option.bind m f) Q"
  by (auto simp: ends_w_def bind_eq_Some_conv)

lemma ends_bind_get: "(\<And>x. m = Some x \<Longrightarrow> ends (f x) Q) \<Longrightarrow> ends (Option.bind m f) Q"
  by (auto simp: ends_def bind_eq_Some_conv)

lemma ends_w_bind_get: "(\<And>x. m = Some x \<Longrightarrow> ends_w (f x) Q) \<Longrightarrow> ends_w (Option.bind m f) Q"
  by (auto simp: ends_w_def bind_eq_Some_conv)

lemma ends_get [ends_intros]:
  "(\<And>s. w_stream w = Some s \<Longrightarrow> ends (f s) Q) \<Longrightarrow> ends (Option.bind (w_stream w) f) Q"
  "(\<And>x. file_at i s = Some x \<Longrightarrow> ends (g x) Q) \<Longrightarrow> ends (Option.bind (file_at i s) g) Q"
  "(\<And>x. ds_datahandle s = Some x \<Longrightarrow> ends (k x) Q) \<Longrightarrow> ends (Option.bind (ds_datahandle s) k) Q"
  "(\<And>s. w_stream w = Some s \<Longrightarrow> ends_w (f' s) Q') \<Longrightarrow> ends_w (Option.bind (w_stream w) f') Q'"
  "(\<And>x. file_at i s = Some x \<Longrightarrow> ends_w (g' x) Q') \<Longrightarrow> ends_w (Option.bind (file_at i s) g') Q'"
  by (rule ends_bind_get ends_w_bind_get; simp)+

lemma ends_if [ends_intros]:
  "(b \<Longrightarrow> ends m Q) \<Longrightarrow> (\<not> b \<Longrightarrow> ends n Q) \<Longrightarrow> ends (if b then m else n) Q"
  "(b \<Longrightarrow> ends_w m' Q') \<Longrightarrow> (\<not> b \<Longrightarrow> ends_w n' Q') \<Longrightarrow> ends_w (if b then m' else n') Q'"
  by simp_all

lemma ends_case_option [ends_intros]:
  "(x = None \<Longrightarrow> ends m Q) \<Longrightarrow> (\<And>y. x = Some y \<Longrightarrow> ends (f y) Q) \<Longrightarrow> ends (case x of None \<Rightarrow> m | Some y \<Rightarrow> f y) Q"
  "(x = None \<Longrightarrow> ends_w m' Q') \<Longrightarrow> (\<And>y. x = Some y \<Longrightarrow> ends_w (f' y) Q') \<Longrightarrow>
     ends_w (case x of None \<Rightarrow> m' | Some y \<Rightarrow> f' y) Q'"
  by (cases x; simp)+

lemma ends_case_prod: "(\<And>a b. p = (a, b) \<Longrightarrow> ends (f a b) Q) \<Longrightarrow> ends (case p of (a, b) \<Rightarrow> f a b) Q"
  by (cases p) simp

lemma ends_mono: "ends m Q \<Longrightarrow> (\<And>r w. Q r w \<Longrightarrow> Q' r w) \<Longrightarrow> ends m Q'"
  by (simp add: ends_def)

lemma ends_sum_c [ends_intros]:
  "(x = Inl UB \<Longrightarrow> ends a Q) \<Longrightarrow> (\<And>e. x = Inl e \<Longrightarrow> e \<noteq> UB \<Longrightarrow> ends b Q) \<Longrightarrow> (\<And>y. x = Inr y \<Longrightarrow> ends (f y) Q) \<Longrightarrow>
   ends (case x of Inl UB \<Rightarrow> a | Inl _ \<Rightarrow> b | Inr y \<Rightarrow> f y) Q"
  by (auto split: sum.split c_error.split)

section \<open>Relations between worlds\<close>

definition stream_rel :: "(stream \<Rightarrow> stream \<Rightarrow> bool) \<Rightarrow> stream option \<Rightarrow> stream option \<Rightarrow> bool" where
  "stream_rel G a b \<longleftrightarrow>
     (case (a, b) of (Some s, Some t) \<Rightarrow> G s t | (None, None) \<Rightarrow> True | _ \<Rightarrow> False)"

definition step :: "(call \<Rightarrow> bool) \<Rightarrow> (stream \<Rightarrow> stream \<Rightarrow> bool) \<Rightarrow> world \<Rightarrow> world \<Rightarrow> bool" where
  "step P G w w' \<longleftrightarrow>
     w_env w' = w_env w \<and> w_mem w' = w_mem w \<and>
     (\<exists>cs. w_trace w' = cs @ w_trace w \<and> (\<forall>c \<in> set cs. P c)) \<and> stream_rel G (w_stream w) (w_stream w')"

definition preorder :: "('a \<Rightarrow> 'a \<Rightarrow> bool) \<Rightarrow> bool" where
  "preorder G \<longleftrightarrow> (\<forall>s. G s s) \<and> (\<forall>s t u. G s t \<longrightarrow> G t u \<longrightarrow> G s u)"

lemma step_refl: "preorder G \<Longrightarrow> step P G w w"
  by (auto simp: step_def preorder_def stream_rel_def split: option.splits)

lemma step_trans:
  assumes "preorder G" "step P G u v" "step P G v w"
  shows "step P G u w"
proof -
  have "stream_rel G (w_stream u) (w_stream w)"
    using assms unfolding step_def stream_rel_def preorder_def by (auto split: option.splits)
  moreover have "\<exists>cs. w_trace w = cs @ w_trace u \<and> (\<forall>c \<in> set cs. P c)"
    using assms(2,3) unfolding step_def by (metis Un_iff append.assoc set_append)
  ultimately show ?thesis using assms(2,3) by (simp add: step_def)
qed

lemma step_calls: "step P G u v \<Longrightarrow> (\<And>c. P c \<Longrightarrow> P' c) \<Longrightarrow> step P' G u v"
  by (auto simp: step_def)

lemma step_stream: "step P G u v \<Longrightarrow> (\<And>s t. G s t \<Longrightarrow> G' s t) \<Longrightarrow> step P G' u v"
  by (auto simp: step_def stream_rel_def split: option.splits)

lemma step_weaken: "step P G u v \<Longrightarrow> (\<And>c. P c \<Longrightarrow> P' c) \<Longrightarrow> (\<And>s t. G s t \<Longrightarrow> G' s t) \<Longrightarrow> step P' G' u v"
  by (rule step_stream [OF step_calls])

text \<open>The elementary actions; \<open>u\<close> is the world at the start.\<close>

lemma step_issue: "step P G u w \<Longrightarrow> P c \<Longrightarrow> issue c w = (a, w') \<Longrightarrow> step P G u w'"
  by (auto simp: step_def issue_def Let_def)

lemma step_malloc: "step P G u w \<Longrightarrow> malloc w = (a, w') \<Longrightarrow> step P G u w'"
  by (auto simp: step_def malloc_def)

lemma step_mallocs: "step P G u w \<Longrightarrow> mallocs n w = (a, w') \<Longrightarrow> step P G u w'"
  by (auto simp: step_def mallocs_def)

lemma step_set_errno [ends_intros]: "step P G u w \<Longrightarrow> step P G u (set_errno e w)"
  by (simp add: step_def set_errno_def)

lemma step_mask_errno [ends_intros]: "step P G u w \<Longrightarrow> step P G u (mask_errno w)"
  by (simp add: mask_errno_def step_set_errno)

lemma step_upd_stream:
  assumes "preorder G" "step P G u w" "\<And>s. w_stream w = Some s \<Longrightarrow> G s (f s)"
  shows "step P G u (upd_stream f w)"
proof -
  have "stream_rel G (w_stream u) (map_option f (w_stream w))"
    using assms unfolding step_def stream_rel_def preorder_def by (auto split: option.splits)
  then show ?thesis using assms(2) by (simp add: step_def upd_stream_def)
qed

lemma step_set_eof:
  "preorder G \<Longrightarrow> step P G u w \<Longrightarrow> (\<And>s. G s (s\<lparr>ds_finfo := (ds_finfo s)\<lparr>fi_eof := x\<rparr>\<rparr>)) \<Longrightarrow> step P G u (set_eof x w)"
  unfolding set_eof_def by (rule step_upd_stream)

text \<open>The rules for the calls in the text of a function.\<close>

lemma ends_issue [ends_intros]:
  "step P G u w \<Longrightarrow> P c \<Longrightarrow> (\<And>a w'. issue c w = (a, w') \<Longrightarrow> step P G u w' \<Longrightarrow> ends (f a w') Q) \<Longrightarrow>
   ends (case issue c w of (a, w') \<Rightarrow> f a w') Q"
  by (rule ends_case_prod) (blast intro: step_issue)

lemma step_status: "step P G u w \<Longrightarrow> P c \<Longrightarrow> status_call c w = (r, w') \<Longrightarrow> step P G u w'"
  by (auto simp: status_call_def case_prod_unfold intro: step_issue [OF _ _ prod.collapse [symmetric]])

lemma step_handle: "step P G u w \<Longrightarrow> P c \<Longrightarrow> handle_call c w = (r, w') \<Longrightarrow> step P G u w'"
  by (auto simp: handle_call_def case_prod_unfold intro: step_issue [OF _ _ prod.collapse [symmetric]])

lemma step_write: "step P G u w \<Longrightarrow> P (Ne_write h buf) \<Longrightarrow> ne_write h buf w = (r, w') \<Longrightarrow> step P G u w'"
  by (auto simp: ne_write_def case_prod_unfold intro: step_issue [OF _ _ prod.collapse [symmetric]])

lemma step_read: "step P G u w \<Longrightarrow> P (Ne_read h n) \<Longrightarrow> ne_read h n w = (r, w') \<Longrightarrow> step P G u w'"
  by (auto simp: ne_read_def case_prod_unfold intro: step_issue [OF _ _ prod.collapse [symmetric]])

lemma ends_calls [ends_intros]:
  "step P G u w \<Longrightarrow> P c \<Longrightarrow> (\<And>r w'. status_call c w = (r, w') \<Longrightarrow> step P G u w' \<Longrightarrow> ends (f r w') Q) \<Longrightarrow>
     ends (case status_call c w of (r, w') \<Rightarrow> f r w') Q"
  "step P G u w \<Longrightarrow> P c \<Longrightarrow> (\<And>r w'. handle_call c w = (r, w') \<Longrightarrow> step P G u w' \<Longrightarrow> ends (g r w') Q) \<Longrightarrow>
     ends (case handle_call c w of (r, w') \<Rightarrow> g r w') Q"
  "step P G u w \<Longrightarrow> P (Ne_write h buf) \<Longrightarrow> (\<And>r w'. ne_write h buf w = (r, w') \<Longrightarrow> step P G u w' \<Longrightarrow> ends (f r w') Q) \<Longrightarrow>
     ends (case ne_write h buf w of (r, w') \<Rightarrow> f r w') Q"
  "step P G u w \<Longrightarrow> (\<And>r w'. malloc w = (r, w') \<Longrightarrow> step P G u w' \<Longrightarrow> ends (k r w') Q) \<Longrightarrow>
     ends (case malloc w of (r, w') \<Rightarrow> k r w') Q"
  "step P G u w \<Longrightarrow> (\<And>r w'. mallocs n w = (r, w') \<Longrightarrow> step P G u w' \<Longrightarrow> ends (l r w') Q) \<Longrightarrow>
     ends (case mallocs n w of (r, w') \<Rightarrow> l r w') Q"
  by (rule ends_case_prod, blast intro: step_status step_handle step_write step_malloc step_mallocs)+

lemma step_snd_status [ends_intros]: "step P G u w \<Longrightarrow> P c \<Longrightarrow> step P G u (snd (status_call c w))"
  by (rule step_status [OF _ _ prod.collapse [symmetric]])

lemma ends_let [ends_intros]: "ends (f x) Q \<Longrightarrow> ends (let y = x in f y) Q"
  by simp

lemma step_lift_c: "step P G u w \<Longrightarrow> lift_c y w = Some (x, w') \<Longrightarrow> step P G u w'"
  by (auto simp: lift_c_def step_set_errno split: sum.splits c_error.splits)

lemma ends_lift_c [ends_intros]:
  "step P G u w \<Longrightarrow> (\<And>x w'. lift_c y w = Some (x, w') \<Longrightarrow> step P G u w' \<Longrightarrow> ends (f x w') Q) \<Longrightarrow>
   ends (Option.bind (lift_c y w) (\<lambda>(x, w). f x w)) Q"
  by (rule ends_bind) (simp add: ends_def step_lift_c)

section \<open>Tags, names and markers\<close>

text \<open>Calls that concern metadata only, and calls that close no file.\<close>

fun meta_call :: "call \<Rightarrow> bool" where
  "meta_call (Ne_open _ _ _ _) = False"
| "meta_call (Ne_write _ _) = False"
| "meta_call (Ne_read _ _) = False"
| "meta_call (Ne_seek _ _) = False"
| "meta_call (Ne_close _) = False"
| "meta_call (Ne_abort _) = False"
| "meta_call _ = True"

text \<open>
  The streams agree up to the text buffer and the files with an index in \<open>J\<close>.
\<close>

definition keeps :: "nat set \<Rightarrow> stream \<Rightarrow> stream \<Rightarrow> bool" where
  "keeps J s t \<longleftrightarrow>
     (\<exists>x y fs. t = s\<lparr>ds_ftagstr := x, ds_ftagstrsize := y, ds_files := fs\<rparr> \<and> length fs = length (ds_files s) \<and>
        (\<forall>j. j \<notin> J \<longrightarrow> j < length fs \<longrightarrow> fs ! j = ds_files s ! j))"

lemma keeps_refl [simp]: "keeps J s s"
  unfolding keeps_def by (rule exI [of _ "ds_ftagstr s"], rule exI [of _ "ds_ftagstrsize s"], rule exI [of _ "ds_files s"]) simp

lemma keeps_trans: "keeps J s t \<Longrightarrow> keeps J t u \<Longrightarrow> keeps J s u"
  unfolding keeps_def by auto (metis)

lemma preorder_keeps [simp, ends_intros]: "preorder (keeps J)"
  using keeps_trans by (auto simp: preorder_def)

lemma keeps_mono: "keeps J s t \<Longrightarrow> J \<subseteq> K \<Longrightarrow> keeps K s t"
  unfolding keeps_def by blast

lemma keeps_buffer [simp]:
  "keeps J s (s\<lparr>ds_ftagstr := x, ds_ftagstrsize := y\<rparr>)" "keeps J s (s\<lparr>ds_ftagstr := x\<rparr>)"
  unfolding keeps_def
  by (rule exI [of _ x], rule exI [of _ y], rule exI [of _ "ds_files s"], simp)
    (rule exI [of _ x], rule exI [of _ "ds_ftagstrsize s"], rule exI [of _ "ds_files s"], simp)

lemma keeps_set_file [simp]: "i \<in> J \<Longrightarrow> keeps J s (set_file i f s)"
  unfolding keeps_def set_file_def
  by (rule exI [of _ "ds_ftagstr s"], rule exI [of _ "ds_ftagstrsize s"], rule exI [of _ "(ds_files s)[i := f]"], simp)
    (metis nth_list_update_neq)

lemma step_buffer [ends_intros]:
  "step P (keeps J) u w \<Longrightarrow> step P (keeps J) u (upd_stream (\<lambda>s. s\<lparr>ds_ftagstr := x, ds_ftagstrsize := y\<rparr>) w)"
  "step P (keeps J) u w \<Longrightarrow> step P (keeps J) u (upd_stream (\<lambda>s. s\<lparr>ds_ftagstr := g s\<rparr>) w)"
  by (rule step_upd_stream; simp)+

lemma step_upd_file: "step P (keeps J) u w \<Longrightarrow> i \<in> J \<Longrightarrow> upd_file i f w = Some w' \<Longrightarrow> step P (keeps J) u w'"
  by (auto simp: upd_file_def bind_eq_Some_conv intro!: step_upd_stream)

lemma ends_upd_file [ends_intros]:
  "step P (keeps J) u w \<Longrightarrow> i \<in> J \<Longrightarrow> (\<And>w'. upd_file i g w = Some w' \<Longrightarrow> step P (keeps J) u w' \<Longrightarrow> ends (f w') Q) \<Longrightarrow>
     ends (Option.bind (upd_file i g w) f) Q"
  "step P (keeps J) u w \<Longrightarrow> i \<in> J \<Longrightarrow> ends_w (upd_file i g w) (step P (keeps J) u)"
  by (rule ends_bind_w; simp add: ends_w_def step_upd_file) (simp add: ends_w_def step_upd_file)

lemma putftag_step:
  assumes "step meta_call (keeps J) u w"
  shows "ends (putftag h tag w) (\<lambda>_. step meta_call (keeps J) u)"
  unfolding putftag_def attach_ftag_def by (assumption | rule ends_intros assms | simp)+

text \<open>A function with a frame of its own, called in the middle of another one.\<close>

lemma step_compose:
  assumes "step P' G' w w'" "step P G u w" "preorder G" "\<And>c. P' c \<Longrightarrow> P c" "\<And>s t. G' s t \<Longrightarrow> G s t"
  shows "step P G u w'"
  by (rule step_trans [OF assms(3,2) step_weaken [OF assms(1,4,5)]])

lemma ends_use:
  assumes "ends m (\<lambda>_. step P' G' w)" "step P G u w" "preorder G" "\<And>c. P' c \<Longrightarrow> P c" "\<And>s t. G' s t \<Longrightarrow> G s t"
    and "\<And>r w'. m = Some (r, w') \<Longrightarrow> step P G u w' \<Longrightarrow> ends (f r w') Q"
  shows "ends (Option.bind m (\<lambda>(r, w). f r w)) Q"
  using assms(6) step_compose [OF endsD [OF assms(1)] assms(2-5)] by (auto simp: ends_def bind_eq_Some_conv)

lemma ends_tail:
  assumes "ends m (\<lambda>_. step P' G' w)" "step P G u w" "preorder G" "\<And>c. P' c \<Longrightarrow> P c" "\<And>s t. G' s t \<Longrightarrow> G s t"
  shows "ends m (\<lambda>_. step P G u)"
  using step_compose [OF endsD [OF assms(1)] assms(2-5)] by (auto simp: ends_def)

lemma meta_start:
  "(step P (keeps J) w w \<Longrightarrow> ends m (\<lambda>_. step P (keeps J) w)) \<Longrightarrow> ends m (\<lambda>_. step P (keeps J) w)"
  "(step P (keeps J) w w \<Longrightarrow> ends_w m' (step P (keeps J) w)) \<Longrightarrow> ends_w m' (step P (keeps J) w)"
  by (simp_all add: step_refl)

text \<open>The same for a function whose calls are metadata calls that keep the stream up to some files.\<close>

definition meta_step :: "nat set \<Rightarrow> world \<Rightarrow> world \<Rightarrow> bool" where
  "meta_step J = step meta_call (keeps J)"

lemma meta_refl [simp, ends_intros]: "meta_step J w w"
  by (simp add: meta_step_def step_refl)

lemma meta_use:
  assumes "ends m (\<lambda>_. meta_step J w)" "J \<subseteq> K" "step P (keeps K) u w" "\<And>c. meta_call c \<Longrightarrow> P c"
    and "\<And>r w'. m = Some (r, w') \<Longrightarrow> step P (keeps K) u w' \<Longrightarrow> ends (f r w') Q"
  shows "ends (Option.bind m (\<lambda>(r, w). f r w)) Q"
  using assms(1,3) by (rule ends_use [of m meta_call "keeps J", folded meta_step_def]) (use assms keeps_mono in auto)

lemma meta_tail:
  assumes "ends m (\<lambda>_. meta_step J w)" "J \<subseteq> K" "step P (keeps K) u w" "\<And>c. meta_call c \<Longrightarrow> P c"
  shows "ends m (\<lambda>_. step P (keeps K) u)"
  using assms(1,3) by (rule ends_tail [of m meta_call "keeps J", folded meta_step_def]) (use assms keeps_mono in auto)

lemma putftag_meta: "ends (putftag h tag w) (\<lambda>_. meta_step {} w)"
  unfolding meta_step_def by (rule putftag_step) (simp add: step_refl)

lemma parse_ftag_meta: "ends (parse_ftag n f0 w) (\<lambda>_. meta_step {} w)"
  unfolding parse_ftag_def meta_step_def
  by (rule meta_start(1)) (assumption | rule ends_intros | simp)+

lemma getftag_meta: "ends (getftag h f0 w) (\<lambda>_. meta_step {} w)"
  unfolding getftag_def meta_step_def
  by (rule meta_start(1)) (assumption | rule ends_intros meta_tail [OF parse_ftag_meta] | simp)+

lemma make_parents_step:
  "step P G u w \<Longrightarrow> (\<And>p. P (Createrefdir c p 511)) \<Longrightarrow> make_parents c ps w = (ok, w') \<Longrightarrow> step P G u w'"
  by (induction c ps w rule: make_parents.induct)
    (auto intro: step_set_errno dest: step_status split: prod.splits if_splits)

lemma ends_make_parents [ends_intros]:
  "step P G u w \<Longrightarrow> (\<And>p. P (Createrefdir c p 511)) \<Longrightarrow>
   (\<And>ok w'. make_parents c ps w = (ok, w') \<Longrightarrow> step P G u w' \<Longrightarrow> ends (f ok w') Q) \<Longrightarrow>
   ends (case make_parents c ps w of (ok, w') \<Rightarrow> f ok w') Q"
  by (rule ends_case_prod) (blast intro: make_parents_step)

lemma genrpath_meta: "ends (datastream_genrpath tag t co w) (\<lambda>_. step meta_call (=) w)"
proof -
  have "step meta_call (=) w w" by (simp add: step_refl preorder_def)
  then show ?thesis unfolding datastream_genrpath_def
    by (cases co) (assumption | rule ends_intros | simp)+
qed

lemma abandon_meta: "ends_w (abandon i b w) (meta_step {i} w)"
  unfolding abandon_def meta_step_def
  by (rule meta_start(2)) (assumption | rule ends_intros | simp)+

lemma complete_fail_meta: "ends (complete_fail i w) (\<lambda>_. meta_step {i} w)"
  unfolding complete_fail_def using abandon_meta [of i False w]
  by (auto simp: ends_def ends_w_def bind_eq_Some_conv)

section \<open>Completing files\<close>

text \<open>\<open>swap_tag\<close> changes the type of the stream on the way, so that its frame is put together by hand.\<close>

lemma ends_nested [ends_intros]: "(\<And>a b. p = (a, b) \<Longrightarrow> ends (f a b w) Q) \<Longrightarrow> ends ((case p of (a, b) \<Rightarrow> f a b) w) Q"
  by (cases p) simp

lemma ends_bind_nested [ends_intros]:
  "(b \<Longrightarrow> ends (Option.bind m F) Q) \<Longrightarrow> (\<not> b \<Longrightarrow> ends (Option.bind n F) Q) \<Longrightarrow> ends (Option.bind (if b then m else n) F) Q"
  "ends (F (r, w)) Q \<Longrightarrow> ends (Option.bind (Some (r, w)) F) Q"
  "ends (Option.bind k (\<lambda>x. Option.bind (g x) F)) Q \<Longrightarrow> ends (Option.bind (Option.bind k g) F) Q"
  "ends (Option.bind k' (\<lambda>(r, w). Option.bind (h r w) F)) Q \<Longrightarrow> ends (Option.bind (Option.bind k' (\<lambda>(r, w). h r w)) F) Q"
  by (auto simp: case_prod_unfold)

lemma ends_bind_status [ends_intros]:
  "step P G u w \<Longrightarrow> P c \<Longrightarrow> (\<And>r w'. status_call c w = (r, w') \<Longrightarrow> step P G u w' \<Longrightarrow> ends (Option.bind (f r w') F) Q) \<Longrightarrow>
   ends (Option.bind (case status_call c w of (r, w') \<Rightarrow> f r w') F) Q"
  by (cases "status_call c w") (auto intro: step_status)

lemma stream_rel_Some: "stream_rel G (Some s) b \<longleftrightarrow> (\<exists>t. b = Some t \<and> G s t)"
  by (cases b) (auto simp: stream_rel_def)

lemma swap_tag_meta:
  assumes "\<And>s. w_stream w = Some s \<Longrightarrow> ds_type s = REPACK_STREAM"
  shows "ends (swap_tag h tag w) (\<lambda>_. meta_step {} w)"
proof -
  have "meta_step {} w (upd_stream (\<lambda>s. s\<lparr>ds_type := REPACK_STREAM\<rparr>) w2)"
    if p: "putftag h tag (upd_stream (\<lambda>s. s\<lparr>ds_type := CREATE_STREAM\<rparr>) w) = Some (ok, w2)" for ok w2
  proof -
    let ?w1 = "upd_stream (\<lambda>s. s\<lparr>ds_type := CREATE_STREAM\<rparr>) w"
    have st: "meta_step {} ?w1 w2" using endsD [OF putftag_meta p] .
    obtain s where s: "w_stream w = Some s"
      using p by (cases "w_stream w") (auto simp: putftag_def upd_stream_def)
    have "w_stream ?w1 = Some (s\<lparr>ds_type := CREATE_STREAM\<rparr>)" using s by (simp add: upd_stream_def)
    then obtain t where t: "w_stream w2 = Some t" "keeps {} (s\<lparr>ds_type := CREATE_STREAM\<rparr>) t"
      using st by (auto simp: meta_step_def step_def stream_rel_Some)
    have "keeps {} s (t\<lparr>ds_type := REPACK_STREAM\<rparr>)"
      using t(2) assms [OF s] unfolding keeps_def by (cases s) force
    then show ?thesis using st t(1) s by (simp add: meta_step_def step_def upd_stream_def stream_rel_def)
  qed
  then show ?thesis by (auto simp: ends_def swap_tag_def bind_eq_Some_conv)
qed

lemma step_keeps_type:
  "step P (keeps J) w w' \<Longrightarrow> w_stream w = Some s \<Longrightarrow> \<exists>t. w_stream w' = Some t \<and> ds_type t = ds_type s"
  by (auto simp: step_def stream_rel_Some keeps_def)

lemma keeps_type_all:
  assumes "step P (keeps J) w w'" "\<And>s. w_stream w = Some s \<Longrightarrow> ds_type s = T" "w_stream w' = Some t"
  shows "ds_type t = T"
  using assms by (cases "w_stream w") (auto simp: step_def stream_rel_def keeps_def)

lemma repack_finish_meta:
  assumes "\<And>s. w_stream w = Some s \<Longrightarrow> ds_type s = REPACK_STREAM"
  shows "ends (repack_finish h tag c mark orig w) (\<lambda>_. meta_step {} w)"
  unfolding repack_finish_def meta_step_def
  by (rule meta_start(1))
    (assumption | rule ends_intros meta_use [OF swap_tag_meta] | (erule keeps_type_all, erule assms, assumption) | simp)+

lemma complete_repack_meta:
  assumes "\<And>s. w_stream w = Some s \<Longrightarrow> ds_type s = REPACK_STREAM"
  shows "ends (complete_repack h tag w) (\<lambda>_. meta_step {} w)"
  unfolding complete_repack_def meta_step_def
  by (rule meta_start(1))
    (assumption | rule ends_intros meta_use [OF getftag_meta] ends_use [OF genrpath_meta] meta_use [OF repack_finish_meta]
      | (erule keeps_type_all, erule assms, assumption) | simp)+


lemma upd_stream_unfold: "w_stream w = Some s \<Longrightarrow> w_stream (upd_stream f w) = Some (f s)"
  by (simp add: upd_stream_def)

lemma completefile_meta: "ends (completefile i w) (\<lambda>_. meta_step {i} w)"
  unfolding completefile_def meta_step_def
  by (rule meta_start(1))
    (assumption | rule ends_intros meta_use [OF putftag_meta] meta_tail [OF complete_fail_meta]
      meta_use [OF complete_repack_meta] | (erule keeps_type_all, simp, assumption) | rule conjI impI | simp)+

text \<open>Completing the files in front of index \<open>n\<close>: the files from \<open>n\<close> on are kept, the first becomes the current one.\<close>

lemma complete_previous_stream:
  assumes "complete_previous n w = Some (ok, w')" "w_stream w = Some s"
  shows "w_env w' = w_env w \<and> w_mem w' = w_mem w \<and> (\<exists>cs. w_trace w' = cs @ w_trace w \<and> (\<forall>c \<in> set cs. meta_call c)) \<and>
    (\<exists>t. w_stream w' = Some t \<and> keeps {..<n} (s\<lparr>ds_curfile := (if n = 0 then ds_curfile s else 0)\<rparr>) t)"
  using assms
proof (induction n arbitrary: w ok s)
  case 0
  then show ?case by auto
next
  case (Suc n)
  let ?w1 = "upd_stream (\<lambda>s. s\<lparr>ds_curfile := n\<rparr>) w"
  obtain ok1 w2 ok2 where c: "completefile n ?w1 = Some (ok1, w2)" "complete_previous n w2 = Some (ok2, w')"
    using Suc.prems(1) by (auto simp: bind_eq_Some_conv)
  have s1: "w_stream ?w1 = Some (s\<lparr>ds_curfile := n\<rparr>)" using Suc.prems(2) by (simp add: upd_stream_def)
  have m: "meta_step {n} ?w1 w2" using endsD [OF completefile_meta c(1)] .
  then obtain t where t: "w_stream w2 = Some t" "keeps {n} (s\<lparr>ds_curfile := n\<rparr>) t"
    using s1 by (auto simp: meta_step_def step_def stream_rel_Some)
  obtain u where u: "w_stream w' = Some u" "keeps {..<n} (t\<lparr>ds_curfile := (if n = 0 then ds_curfile t else 0)\<rparr>) u"
    using Suc.IH [OF c(2) t(1)] by blast
  have "keeps {n} (s\<lparr>ds_curfile := 0\<rparr>) (t\<lparr>ds_curfile := (if n = 0 then ds_curfile t else 0)\<rparr>)"
    using t(2) unfolding keeps_def by (cases s) force
  then have "keeps {..<Suc n} (s\<lparr>ds_curfile := 0\<rparr>) (t\<lparr>ds_curfile := (if n = 0 then ds_curfile t else 0)\<rparr>)"
    by (rule keeps_mono) simp
  moreover have "keeps {..<Suc n} (t\<lparr>ds_curfile := (if n = 0 then ds_curfile t else 0)\<rparr>) u"
    by (rule keeps_mono [OF u(2)]) auto
  ultimately have "keeps {..<Suc n} (s\<lparr>ds_curfile := 0\<rparr>) u" by (rule keeps_trans)
  moreover have "\<exists>cs. w_trace w' = cs @ w_trace w \<and> (\<forall>c \<in> set cs. meta_call c)" "w_env w' = w_env w" "w_mem w' = w_mem w"
    using Suc.IH [OF c(2) t(1)] m unfolding meta_step_def step_def by (auto simp: upd_stream_def)
  ultimately show ?case using u(1) by auto
qed

section \<open>Closing an object\<close>

lemma step_release_ctxt [ends_intros]:
  "step P G u w \<Longrightarrow> (\<And>c. P (Destroyctxt c)) \<Longrightarrow> step P G u (release_ctxt c w)"
  by (simp add: release_ctxt_def step_snd_status)

lemma eq_start: "(step meta_call (=) w w \<Longrightarrow> ends m (\<lambda>_. step meta_call (=) w)) \<Longrightarrow> ends m (\<lambda>_. step meta_call (=) w)"
  by (simp add: step_refl preorder_def)

lemma eq_preorder [simp, ends_intros]: "preorder (=)"
  by (simp add: preorder_def)

lemma ends_case_handle [ends_intros]:
  "step P G u w \<Longrightarrow> P c \<Longrightarrow> (\<And>w'. step P G u w' \<Longrightarrow> ends (f w') Q) \<Longrightarrow> (\<And>h w'. step P G u w' \<Longrightarrow> ends (g h w') Q) \<Longrightarrow>
   ends (case handle_call c w of (None, w') \<Rightarrow> f w' | (Some h, w') \<Rightarrow> g h w') Q"
  by (cases "handle_call c w") (auto dest: step_handle split: option.split)

lemma ends_case_both [ends_intros]:
  "(\<And>x y. a = Some x \<Longrightarrow> b = Some y \<Longrightarrow> ends (f x y) Q) \<Longrightarrow> (a = None \<or> b = None \<Longrightarrow> ends n Q) \<Longrightarrow>
   ends (case (a, b) of (Some x, Some y) \<Rightarrow> f x y | _ \<Rightarrow> n) Q"
  by (auto split: option.split)

lemma marker_ctxt_meta: "ends (marker_ctxt co w) (\<lambda>_. step meta_call (=) w)"
  unfolding marker_ctxt_def
  by (rule eq_start) (assumption | rule ends_intros conjI impI | simp)+

lemma tag_marker_meta: "ends (tag_marker c cr rpath rtag objno w) (\<lambda>_. step meta_call (=) w)"
  unfolding tag_marker_def
  by (rule eq_start) (assumption | rule ends_intros conjI impI | simp)+

lemma leave_marker_meta: "ends (leave_marker rtag tag co w) (\<lambda>_. step meta_call (=) w)"
  unfolding leave_marker_def
  by (rule eq_start)
    (assumption | rule ends_intros ends_use [OF marker_ctxt_meta] ends_use [OF genrpath_meta] ends_use [OF tag_marker_meta]
      conjI impI | simp)+

text \<open>Closing issues the call for the open handle and metadata calls; the stream loses its handle.\<close>

definition drops_handle :: "stream \<Rightarrow> stream \<Rightarrow> bool" where
  "drops_handle s t \<longleftrightarrow> t = s \<or> t = s\<lparr>ds_datahandle := None\<rparr>"

lemma preorder_drops [simp, ends_intros]: "preorder drops_handle"
  by (auto simp: preorder_def drops_handle_def)

lemma close_current_obj_step:
  assumes "w_stream w = Some s" "\<And>c. meta_call c \<Longrightarrow> P c" "\<And>h. ds_datahandle s = Some h \<Longrightarrow> P (Ne_close h)"
  shows "ends (close_current_obj tag co w) (\<lambda>ok w'. step P drops_handle w w' \<and>
    (ok \<longrightarrow> w_stream w' = Some (s\<lparr>ds_datahandle := None\<rparr>)))"
proof -
  have start: "step P drops_handle w w" by (simp add: step_refl)
  obtain m w1 where m: "mallocs 2 w = (m, w1)" by (cases "mallocs 2 w")
  have s1: "w_stream w1 = Some s" "step P drops_handle w w1"
    using m assms(1) step_mallocs [OF start m] by (auto simp: mallocs_def)
  show ?thesis
  proof (cases "rtag_alloc m (Some (empty_rtag (ft_protection tag)))")
    case (Pair e r)
    show ?thesis
    proof (cases "e = None \<and> r \<noteq> None")
      case False
      then show ?thesis using Pair m s1 by (auto simp: close_current_obj_def assms(1) ends_def split: option.splits)
    next
      case True
      then obtain rtag where r: "e = None" "r = Some rtag" by auto
      show ?thesis
      proof (cases "ds_datahandle s")
        case None
        then have "s\<lparr>ds_datahandle := None\<rparr> = s" by simp
        then show ?thesis using Pair r m s1 None by (simp add: close_current_obj_def assms(1) ends_def)
      next
        case (Some h)
        obtain a w2 where a: "issue (Ne_close h) w1 = (a, w2)" by (cases "issue (Ne_close h) w1")
        let ?w3 = "upd_stream (\<lambda>s. s\<lparr>ds_datahandle := None\<rparr>) w2"
        have s2: "w_stream w2 = Some s" using a s1(1) by (auto simp: issue_def Let_def)
        then have s3: "w_stream ?w3 = Some (s\<lparr>ds_datahandle := None\<rparr>)" by (simp add: upd_stream_def)
        have st: "step P drops_handle w ?w3"
          using step_issue [OF s1(2) assms(3) [OF Some] a] by (rule step_upd_stream [rotated]) (auto simp: drops_handle_def)
        have lm: "ends (leave_marker rt tag co ?w3) (\<lambda>_ w'. step P drops_handle w w' \<and> w_stream w' = Some (s\<lparr>ds_datahandle := None\<rparr>))" for rt
        proof (rule ends_mono [OF leave_marker_meta])
          fix w' assume e: "step meta_call (=) ?w3 w'"
          have "step P drops_handle w w'" by (rule step_compose [OF e st]) (use assms(2) in \<open>auto simp: drops_handle_def\<close>)
          then show "step P drops_handle w w' \<and> w_stream w' = Some (s\<lparr>ds_datahandle := None\<rparr>)"
            using e s3 by (auto simp: step_def stream_rel_Some)
        qed
        show ?thesis
          using Pair r m a Some st s3 ends_mono [OF lm]
          by (auto simp: close_current_obj_def assms(1) Let_def intro!: ends_return ends_if(1))
      qed
    qed
  qed
qed

end
