(* ===== verification/StreamWrite.thy ===== *)
theory StreamWrite
  imports StreamFrame "HOL-Library.Code_Target_Nat"
begin

text \<open>
  What a write stores. The bytes that the erasure layer accepted for an object are read off the trace
  (\<open>object_data\<close>). Whatever the calls answer, the bytes that \<open>datastream_write\<close> reports lie in the objects
  of the stream, one after another, each object with the recovery header in front and room for the recovery data behind;
  no object grows beyond the size of the name space, and the stream stays fit for further writes unless it is
  destroyed.
\<close>

section \<open>The data of an object\<close>

definition accepted :: "(call list \<Rightarrow> call \<Rightarrow> answer) \<Rightarrow> nat \<Rightarrow> call list \<Rightarrow> call \<Rightarrow> string" where
  "accepted e h tr c =
     (case c of Ne_write g b \<Rightarrow> if g = h then take (nat (a_ret (e tr c))) b else [] | _ \<Rightarrow> [])"

fun object_data :: "(call list \<Rightarrow> call \<Rightarrow> answer) \<Rightarrow> nat \<Rightarrow> call list \<Rightarrow> string" where
  "object_data e h [] = []"
| "object_data e h (c # tr) = (if length tr \<le> h then [] else object_data e h tr @ accepted e h tr c)"

text \<open>The object with a name was opened for writing under a handle.\<close>

definition opened :: "call list \<Rightarrow> nat \<Rightarrow> string \<Rightarrow> bool" where
  "opened tr h nm \<longleftrightarrow> h < length tr \<and> (case rev tr ! h of Ne_open n _ _ wr \<Rightarrow> n = nm \<and> wr | _ \<Rightarrow> False)"

definition stored :: "(call list \<Rightarrow> call \<Rightarrow> answer) \<Rightarrow> call list \<Rightarrow> string \<Rightarrow> nat \<Rightarrow> char \<Rightarrow> bool" where
  "stored e tr nm off b \<longleftrightarrow>
     (\<exists>h < length tr. opened tr h nm \<and> off < length (object_data e h tr) \<and> object_data e h tr ! off = b)"

text \<open>No object holds more than \<open>B\<close> bytes.\<close>

definition within :: "(call list \<Rightarrow> call \<Rightarrow> answer) \<Rightarrow> call list \<Rightarrow> nat \<Rightarrow> bool" where
  "within e tr B \<longleftrightarrow> (\<forall>h < length tr. length (object_data e h tr) \<le> B)"

fun quiet :: "call \<Rightarrow> bool" where
  "quiet (Ne_write _ _) = False"
| "quiet _ = True"

lemma meta_quiet: "meta_call c \<Longrightarrow> quiet c"
  by (cases c) simp_all

lemma accepted_quiet [simp]: "quiet c \<Longrightarrow> accepted e h tr c = []"
  by (cases c) (simp_all add: accepted_def)

lemma object_data_fresh: "length tr \<le> Suc h \<Longrightarrow> object_data e h tr = []"
  by (cases tr) simp_all

lemma object_data_quiet: "\<forall>c \<in> set cs. quiet c \<Longrightarrow> object_data e h (cs @ tr) = object_data e h tr"
proof (induction cs)
  case (Cons c cs)
  then show ?case using object_data_fresh [of "cs @ tr" h e] by auto
qed simp

lemma object_data_grows: "\<exists>d. object_data e h (cs @ tr) = object_data e h tr @ d"
proof (induction cs)
  case (Cons c cs)
  then show ?case using object_data_fresh [of "cs @ tr" h e] by (cases "length (cs @ tr) \<le> h") auto
qed simp

lemma opened_later: "opened tr h nm \<Longrightarrow> opened (cs @ tr) h nm"
  by (simp add: opened_def nth_append)

lemma stored_later: "stored e tr nm off b \<Longrightarrow> stored e (cs @ tr) nm off b"
proof -
  assume "stored e tr nm off b"
  then obtain h where h: "h < length tr" "opened tr h nm" "off < length (object_data e h tr)" "object_data e h tr ! off = b"
    by (auto simp: stored_def)
  obtain d where "object_data e h (cs @ tr) = object_data e h tr @ d" using object_data_grows by blast
  then show ?thesis using h opened_later [OF h(2), of cs] unfolding stored_def
    by (intro exI [of _ h]) (simp add: nth_append)
qed

lemma within_quiet: "within e tr B \<Longrightarrow> \<forall>c \<in> set cs. quiet c \<Longrightarrow> within e (cs @ tr) B"
  unfolding within_def using object_data_quiet [of cs e _ tr]
  by (metis bot_nat_0.extremum less_Suc_eq_le list.size(3) not_less object_data_fresh le_SucI)

section \<open>A stream in the middle of a write\<close>

text \<open>
  The file that is written: states and size of its tag change on the way, the rest does not.
\<close>

definition core :: "ftag \<Rightarrow> ftag" where
  "core tag = tag\<lparr>ft_state := 0, ft_bytes := 0\<rparr>"

definition same_file :: "stream \<Rightarrow> stream \<Rightarrow> bool" where
  "same_file s t \<longleftrightarrow> ds_type t = ds_type s \<and> ds_recoveryheaderlen t = ds_recoveryheaderlen s \<and>
     core (sf_ftag (cur_file t)) = core (sf_ftag (cur_file s))"

definition obj_of :: "ftag \<Rightarrow> u64 \<Rightarrow> string" where
  "obj_of tag n = object_name (tag\<lparr>ft_objno := n\<rparr>)"

definition later :: "world \<Rightarrow> world \<Rightarrow> bool" where
  "later u w \<longleftrightarrow> w_env w = w_env u \<and> (\<exists>cs. w_trace w = cs @ w_trace u)"

definition obj_size :: "world \<Rightarrow> nat" where
  "obj_size u = unat (ft_objsize (sf_ftag (cur_file (the (w_stream u)))))"

definition ended :: "world \<Rightarrow> world \<Rightarrow> bool" where
  "ended u w \<longleftrightarrow> later u w \<and> within (w_env w) (w_trace w) (obj_size u)"

text \<open>
  \<open>u\<close> is the world when the write started. The current file is the one of \<open>u\<close>, now with index \<open>i\<close>; the stream
  stands at offset \<open>off\<close> of object \<open>o'\<close>; \<open>H\<close> is the open handle with the number of bytes behind it.
\<close>

definition handle_at :: "world \<Rightarrow> world \<Rightarrow> u64 \<Rightarrow> (nat \<times> nat) option \<Rightarrow> bool" where
  "handle_at u w o' H \<longleftrightarrow>
     (\<forall>h n. H = Some (h, n) \<longrightarrow> opened (w_trace w) h (obj_of (sf_ftag (cur_file (the (w_stream u)))) o') \<and>
        length (object_data (w_env w) h (w_trace w)) = n)"

definition writing :: "world \<Rightarrow> nat \<Rightarrow> u64 \<Rightarrow> u64 \<Rightarrow> (nat \<times> nat) option \<Rightarrow> world \<Rightarrow> bool" where
  "writing u i o' off H w \<longleftrightarrow>
     (\<exists>s t. w_stream u = Some s \<and> w_stream w = Some t \<and> same_file s t \<and> ds_curfile t = i \<and> i < length (ds_files t) \<and>
        ds_objno t = o' \<and> ds_offset t = off \<and> ds_datahandle t = map_option fst H) \<and>
     handle_at u w o' H \<and> ended u w"

lemma ended_quiet:
  assumes "ended u w" "w_env w' = w_env w" "w_trace w' = cs @ w_trace w" "\<forall>c \<in> set cs. quiet c"
  shows "ended u w'"
  using assms within_quiet [of "w_env w" "w_trace w" "obj_size u" cs] by (auto simp: ended_def later_def)

lemma handle_at_quiet:
  assumes "handle_at u w o' H" "w_env w' = w_env w" "w_trace w' = cs @ w_trace w" "\<forall>c \<in> set cs. quiet c"
  shows "handle_at u w' o' H"
  using assms object_data_quiet [of cs "w_env w" _ "w_trace w"] opened_later [of "w_trace w" _ _ cs] by (auto simp: handle_at_def)

lemma writing_quiet:
  assumes "writing u i o' off H w" "w_env w' = w_env w" "w_trace w' = cs @ w_trace w" "\<forall>c \<in> set cs. quiet c"
    and "\<And>t. w_stream w = Some t \<Longrightarrow> \<exists>t'. w_stream w' = Some t' \<and> same_file t t' \<and> ds_curfile t' = ds_curfile t \<and>
      (ds_curfile t < length (ds_files t) \<longrightarrow> ds_curfile t < length (ds_files t')) \<and>
      ds_objno t' = ds_objno t \<and> ds_offset t' = ds_offset t \<and> ds_datahandle t' = ds_datahandle t"
  shows "writing u i o' off H w'"
proof -
  obtain s t where st: "w_stream u = Some s" "w_stream w = Some t" "same_file s t" "ds_curfile t = i" "i < length (ds_files t)"
    "ds_objno t = o'" "ds_offset t = off" "ds_datahandle t = map_option fst H" and h: "handle_at u w o' H" "ended u w"
    using assms(1) by (auto simp: writing_def)
  show ?thesis
    unfolding writing_def
    using st assms(5) [OF st(2)] handle_at_quiet [OF h(1) assms(2-4)] ended_quiet [OF h(2) assms(2-4)]
    by (auto simp: same_file_def)
qed

lemma writing_ended: "writing u i o' off H w \<Longrightarrow> ended u w"
  by (simp add: writing_def)

lemma writing_stream:
  "writing u i o' off H w \<Longrightarrow> w_stream w = Some t \<Longrightarrow>
     same_file (the (w_stream u)) t \<and> ds_curfile t = i \<and> i < length (ds_files t) \<and> ds_objno t = o' \<and> ds_offset t = off \<and>
     ds_datahandle t = map_option fst H"
  by (auto simp: writing_def)

lemma objtarget_name: "datastream_objtarget m (Some tag) (Some ds) = Inr (nm, ep, loc) \<Longrightarrow> nm = object_name tag"
proof -
  assume a: "datastream_objtarget m (Some tag) (Some ds) = Inr (nm, ep, loc)"
  let ?o = "object_name tag" and ?n = "fst (ftag_datatgt (Some tag) False 0)"
  have n: "?n = of_int (snprintf_ret ?o)" by (simp add: ftag_datatgt_def snprintf_out_def object_name_def)
  have pos: "\<not> sint ?n \<le> 0" using a by (auto simp: datastream_objtarget_def Let_def split: if_splits)
  then have r: "snprintf_ret ?o = int (length ?o)" "int (length ?o) \<le> INT_MAX"
    using n by (auto simp: snprintf_ret_def split: if_splits)
  then have "length ?o < 2147483648" by (simp add: INT_MAX_def)
  then have u: "unat (?n + 1) = Suc (length ?o)"
    unfolding n r(1) by (simp add: unat_word_ariths unat_of_nat)
  have "snd (ftag_datatgt (Some tag) True (unat (?n + 1))) = ?o"
    unfolding u by (simp add: ftag_datatgt_def snprintf_out_def snprintf_buf_def object_name_def)
  moreover have "nm = snd (ftag_datatgt (Some tag) True (unat (?n + 1)))"
    using a by (auto simp: datastream_objtarget_def Let_def bindE_def split: if_splits prod.splits sum.splits)
  ultimately show ?thesis by simp
qed


text \<open>The actions that leave the cursor alone.\<close>

lemma same_file_refl [simp]: "same_file s s"
  by (simp add: same_file_def)

lemma writing_issue: "writing u i o' off H w \<Longrightarrow> quiet c \<Longrightarrow> issue c w = (a, w') \<Longrightarrow> writing u i o' off H w'"
  by (rule writing_quiet [where w = w and cs = "[c]"]) (auto simp: issue_def Let_def)

lemma writing_status: "writing u i o' off H w \<Longrightarrow> quiet c \<Longrightarrow> status_call c w = (r, w') \<Longrightarrow> writing u i o' off H w'"
  by (auto simp: status_call_def case_prod_unfold intro: writing_issue [OF _ _ prod.collapse [symmetric]])

lemma writing_malloc: "writing u i o' off H w \<Longrightarrow> malloc w = (r, w') \<Longrightarrow> writing u i o' off H w'"
  by (rule writing_quiet [where w = w and cs = "[]"]) (auto simp: malloc_def)

lemma writing_set_errno: "writing u i o' off H w \<Longrightarrow> writing u i o' off H (set_errno e w)"
  by (rule writing_quiet [where w = w and cs = "[]"]) (auto simp: set_errno_def)

lemma writing_lift_c: "writing u i o' off H w \<Longrightarrow> lift_c y w = Some (x, w') \<Longrightarrow> writing u i o' off H w'"
  by (auto simp: lift_c_def writing_set_errno split: sum.splits c_error.splits)

lemma writing_upd_file:
  assumes "writing u i o' off H w" "\<And>x. core (sf_ftag (f x)) = core (sf_ftag x)" "upd_file i f w = Some w'"
  shows "writing u i o' off H w'"
proof -
  obtain t where t: "w_stream w = Some t" "i < length (ds_files t)" "ds_curfile t = i"
    "w' = upd_stream (set_file i (f (ds_files t ! i))) w"
    using assms(1,3) by (auto simp: writing_def upd_file_def bind_eq_Some_conv file_at_def split: if_splits)
  then show ?thesis
    by (intro writing_quiet [OF assms(1), where cs = "[]"])
      (auto simp: upd_stream_def set_file_def same_file_def cur_file_def assms(2))
qed

lemma keeps_cur_file:
  assumes "keeps J s t" "ds_curfile s \<notin> J" "ds_curfile s < length (ds_files s)"
  shows "cur_file t = cur_file s" "ds_curfile t = ds_curfile s" "length (ds_files t) = length (ds_files s)"
    "ds_objno t = ds_objno s" "ds_offset t = ds_offset s" "ds_datahandle t = ds_datahandle s" "ds_type t = ds_type s"
    "ds_recoveryheaderlen t = ds_recoveryheaderlen s"
  using assms by (auto simp: keeps_def cur_file_def)

lemma writing_step:
  assumes "writing u i o' off H w" "step P (keeps {}) w w'" "\<And>c. P c \<Longrightarrow> quiet c"
  shows "writing u i o' off H w'"
proof -
  obtain cs where cs: "w_env w' = w_env w" "w_trace w' = cs @ w_trace w" "\<forall>c \<in> set cs. quiet c"
    using assms(2,3) by (auto simp: step_def)
  show ?thesis
  proof (rule writing_quiet [OF assms(1) cs])
    fix t assume t: "w_stream w = Some t"
    then obtain t' where "w_stream w' = Some t'" "keeps {} t t'" using assms(2) by (auto simp: step_def stream_rel_Some)
    moreover have "ds_curfile t < length (ds_files t)" using writing_stream [OF assms(1) t] by simp
    ultimately show "\<exists>t'. w_stream w' = Some t' \<and> same_file t t' \<and> ds_curfile t' = ds_curfile t \<and>
      (ds_curfile t < length (ds_files t) \<longrightarrow> ds_curfile t < length (ds_files t')) \<and>
      ds_objno t' = ds_objno t \<and> ds_offset t' = ds_offset t \<and> ds_datahandle t' = ds_datahandle t"
      using keeps_cur_file [of "{}" t t'] by (auto simp: same_file_def)
  qed
qed

lemma writing_meta: "writing u i o' off H w \<Longrightarrow> meta_step {} w w' \<Longrightarrow> writing u i o' off H w'"
  unfolding meta_step_def by (erule writing_step, assumption, erule meta_quiet)

text \<open>The handle changes with the call that opens an object, and when it is given up.\<close>

lemma writing_drop:
  assumes "writing u i o' off H w"
  shows "writing u i o' off None (upd_stream (\<lambda>s. s\<lparr>ds_datahandle := None\<rparr>) w)"
  using assms unfolding writing_def
  by (auto simp: upd_stream_def same_file_def cur_file_def handle_at_def ended_def later_def)

lemma writing_open:
  assumes "writing u i o' off None w" "nm = obj_of (sf_ftag (cur_file (the (w_stream u)))) o'"
    and "handle_call (Ne_open nm loc er True) w = (h, w')"
  shows "writing u i o' off (map_option (\<lambda>h. (h, 0)) h) (upd_stream (\<lambda>s. s\<lparr>ds_datahandle := h\<rparr>) w')"
proof -
  have w': "w_env w' = w_env w" "w_trace w' = Ne_open nm loc er True # w_trace w" "w_stream w' = w_stream w"
    and h: "h = None \<or> h = Some (length (w_trace w))"
    using assms(3) by (auto simp: handle_call_def issue_def Let_def split: if_splits)
  have e: "ended u w'" using assms(1) w' ended_quiet [where cs = "[Ne_open nm loc er True]"] by (auto simp: writing_def)
  have "handle_at u (upd_stream (\<lambda>s. s\<lparr>ds_datahandle := h\<rparr>) w') o' (map_option (\<lambda>h. (h, 0)) h)"
    using h w' assms(2) by (auto simp: handle_at_def opened_def upd_stream_def nth_append object_data_fresh)
  then show ?thesis
    using assms(1) w' e unfolding writing_def
    by (auto simp: upd_stream_def same_file_def cur_file_def ended_def later_def option.map_comp comp_def option.map_ident)
qed

text \<open>A write to the object: what was accepted follows the bytes that are there.\<close>

lemma object_data_write:
  "h < length tr \<Longrightarrow> object_data e h (Ne_write g b # tr) =
     object_data e h tr @ (if g = h then take (nat (a_ret (e tr (Ne_write g b)))) b else [])"
  by (simp add: accepted_def)

lemma writing_write:
  assumes "writing u i o' off (Some (h, n)) w" "n + length b \<le> obj_size u" "ne_write h b w = (r, w')"
  shows "writing u i o' off (Some (h, n + nat r)) w' \<and> r \<le> int (length b) \<and>
    (\<forall>k < nat r. stored (w_env w') (w_trace w') (obj_of (sf_ftag (cur_file (the (w_stream u)))) o') (n + k) (b ! k))"
proof -
  let ?c = "Ne_write h b" and ?e = "w_env w" and ?tr = "w_trace w" and ?nm = "obj_of (sf_ftag (cur_file (the (w_stream u)))) o'"
  have w': "w_env w' = ?e" "w_trace w' = ?c # ?tr" "w_stream w' = w_stream w" and r: "r = min (a_ret (?e ?tr ?c)) (int (length b))"
    using assms(3) by (auto simp: ne_write_def issue_def Let_def)
  have o: "opened ?tr h ?nm" "length (object_data ?e h ?tr) = n" and e: "ended u w"
    using assms(1) by (auto simp: writing_def handle_at_def)
  have h: "h < length ?tr" using o(1) by (simp add: opened_def)
  have take: "take (nat (a_ret (?e ?tr ?c))) b = take (nat r) b" "nat r \<le> length b" unfolding r by (auto simp: min_def)
  have d: "object_data ?e h (?c # ?tr) = object_data ?e h ?tr @ take (nat r) b"
    using object_data_write [OF h, of ?e h b] take(1) by simp
  have l: "length (object_data ?e h (?c # ?tr)) = n + nat r" using d o(2) take(2) by simp
  have o2: "opened (?c # ?tr) h ?nm" using opened_later [OF o(1), of "[?c]"] by simp
  have "within ?e (?c # ?tr) (obj_size u)"
  proof -
    have "length (object_data ?e g (?c # ?tr)) \<le> obj_size u" if "g < Suc (length ?tr)" for g
    proof (cases "g < length ?tr")
      case True
      then show ?thesis
        using object_data_write [OF True, of ?e h b] l e assms(2) take(2) unfolding ended_def within_def by (cases "g = h") auto
    next
      case False
      then show ?thesis by simp
    qed
    then show ?thesis by (simp add: within_def)
  qed
  then have e': "ended u w'" using e w' by (auto simp: ended_def later_def)
  have "stored ?e (?c # ?tr) ?nm (n + k) (b ! k)" if "k < nat r" for k
    unfolding stored_def using that h o2 l d o(2) take(2) by (intro exI [of _ h]) (simp add: nth_append)
  moreover have "writing u i o' off (Some (h, n + nat r)) w'"
    using assms(1) w' e' o2 l unfolding writing_def handle_at_def by auto
  ultimately show ?thesis using w' r by simp
qed


section \<open>Opening an object and writing a chunk\<close>

lemmas flow = ends_get ends_if ends_case_option ends_let ends_return ends_None ends_bind_nested

lemma flow_malloc:
  "writing u i o' off H w \<Longrightarrow> (\<And>r w'. writing u i o' off H w' \<Longrightarrow> ends (f r w') Q) \<Longrightarrow> ends (case malloc w of (r, w') \<Rightarrow> f r w') Q"
  by (rule ends_case_prod) (blast intro: writing_malloc)

lemma flow_lift_c:
  "writing u i o' off H w \<Longrightarrow> (\<And>x w'. lift_c y w = Some (x, w') \<Longrightarrow> writing u i o' off H w' \<Longrightarrow> ends (f x w') Q) \<Longrightarrow>
   ends (Option.bind (lift_c y w) (\<lambda>(x, w). f x w)) Q"
  by (rule ends_bind) (simp add: ends_def writing_lift_c)

lemma flow_upd_file:
  assumes "writing u i o' off H w" "\<And>x. core (sf_ftag (g x)) = core (sf_ftag x)"
    "\<And>w'. writing u i o' off H w' \<Longrightarrow> ends (f w') Q"
  shows "ends (Option.bind (upd_file i g w) f) Q"
  using assms(3) writing_upd_file [OF assms(1,2)] by (auto simp: ends_def bind_eq_Some_conv)

lemma flow_meta:
  assumes "ends m (\<lambda>_. meta_step {} w)" "writing u i o' off H w" "\<And>r w'. writing u i o' off H w' \<Longrightarrow> ends (f r w') Q"
  shows "ends (Option.bind m (\<lambda>(r, w). f r w)) Q"
  using assms(3) writing_meta [OF assms(2) endsD [OF assms(1)]] by (auto simp: ends_def bind_eq_Some_conv)

text \<open>The stream with no handle, or with one that stands at the offset.\<close>

definition ready :: "world \<Rightarrow> nat \<Rightarrow> u64 \<Rightarrow> u64 \<Rightarrow> world \<Rightarrow> bool" where
  "ready u i o' off w \<longleftrightarrow> (\<exists>H. writing u i o' off H w \<and> (\<forall>h n. H = Some (h, n) \<longrightarrow> n = unat off))"

lemma ready_None: "writing u i o' off None w \<Longrightarrow> ready u i o' off w"
  by (auto simp: ready_def)

lemma ready_Some: "writing u i o' off (Some (h, unat off)) w \<Longrightarrow> ready u i o' off w"
  by (auto simp: ready_def)

lemma ready_ended: "ready u i o' off w \<Longrightarrow> ended u w"
  by (auto simp: ready_def writing_ended)

lemma abort_obj_ready: "writing u i o' off H w \<Longrightarrow> ready u i o' off (abort_obj h w)"
  unfolding abort_obj_def
  by (rule ready_None, rule writing_drop, rule writing_status [OF _ _ prod.collapse [symmetric]]) auto

lemma ready_set_errno: "ready u i o' off w \<Longrightarrow> ready u i o' off (set_errno e w)"
  unfolding ready_def using writing_set_errno by blast

definition hdr_of :: "world \<Rightarrow> nat" where
  "hdr_of u = unat (ds_recoveryheaderlen (the (w_stream u)))"

lemma write_header_spec:
  assumes "writing u i o' off (Some (h, 0)) w" "hdr_of u \<le> obj_size u"
  shows "ends (write_header h w) (\<lambda>ok w'. ready u i o' off w' \<and> (ok \<longrightarrow> (\<exists>h. writing u i o' off (Some (h, unat off)) w')))"
proof -
  obtain s where s: "w_stream w = Some s" using assms(1) by (auto simp: writing_def)
  have hdr: "unat (ds_recoveryheaderlen s) = hdr_of u" "ds_offset s = off"
    using writing_stream [OF assms(1) s] by (simp_all add: hdr_of_def same_file_def)
  show ?thesis
  proof (cases "ds_offset s = ds_recoveryheaderlen s")
    case False
    then show ?thesis using abort_obj_ready [OF assms(1)] by (simp add: write_header_def s ends_def)
  next
    case True
    obtain ok w1 where m: "malloc w = (ok, w1)" by (cases "malloc w")
    have w1: "writing u i o' off (Some (h, 0)) w1" using writing_malloc [OF assms(1) m] .
    let ?hd = "recovery_headertostr (Some \<lparr>rh_major = 0, rh_minor = 1, rh_ctag = ds_ctag s, rh_streamid = ds_streamid s\<rparr>) True
      (unat (ds_recoveryheaderlen s) + 1)"
    obtain n tx where hd: "?hd = (n, tx)" by (cases ?hd)
    obtain r w2 where wr: "ne_write h tx w1 = (r, w2)" by (cases "ne_write h tx w1")
    have len: "length tx \<le> unat (ds_recoveryheaderlen s)"
      using hd by (auto simp: recovery_headertostr_def Let_def print_result_def snprintf_buf_def split: option.splits if_splits)
    then have w2: "writing u i o' off (Some (h, nat r)) w2" using writing_write [OF w1 _ wr] assms(2) hdr by simp
    show ?thesis
      using True m hd wr abort_obj_ready [OF w1] abort_obj_ready [OF w2] ready_set_errno [OF abort_obj_ready [OF w1]] w2
      by (auto simp: write_header_def s ends_def hdr ready_Some Let_def split: if_splits)
  qed
qed

lemma core_set_state: "core (sf_ftag (set_state st f)) = core (sf_ftag f)"
  by (simp add: core_def set_state_def)

lemma core_names [simp]: "ft_ctag (core tag) = ft_ctag tag" "ft_streamid (core tag) = ft_streamid tag"
  by (simp_all add: core_def)

lemma obj_of_core:
  assumes "core a = core b"
  shows "obj_of a x = obj_of b x"
  using arg_cong [OF assms, of ft_ctag] arg_cong [OF assms, of ft_streamid] by (simp add: obj_of_def object_name_def)

lemma open_current_obj_spec:
  assumes "writing u i o' off None w" "\<And>s. w_stream u = Some s \<Longrightarrow> creates (ds_type s)" "hdr_of u \<le> obj_size u"
  shows "ends (open_current_obj w) (\<lambda>ok w'. ready u i o' off w' \<and> (ok \<longrightarrow> (\<exists>h. writing u i o' off (Some (h, unat off)) w')))"
proof -
  obtain s t where s: "w_stream u = Some s" and t: "w_stream w = Some t" "same_file s t" "ds_curfile t = i" "ds_objno t = o'"
    using assms(1) by (auto simp: writing_def)
  have ty: "creates (ds_type t)" "ds_type t \<noteq> READ_STREAM" using assms(2) [OF s] t(2) by (auto simp: same_file_def creates_def)
  have nm: "nm = obj_of (sf_ftag (cur_file (the (w_stream u)))) o'"
    if "lift_c (datastream_objtarget m (Some ((sf_ftag f)\<lparr>ft_objno := ds_objno t, ft_offset := x\<rparr>)) (Some d)) w0 = Some (Some (nm, er, loc), w1)"
      "file_at (ds_curfile t) t = Some f" for m f d nm er loc w0 w1 x
  proof -
    have "nm = object_name ((sf_ftag f)\<lparr>ft_objno := ds_objno t, ft_offset := x\<rparr>)"
      using that(1) by (auto simp: lift_c_def intro: objtarget_name split: sum.splits c_error.splits)
    moreover have "core (sf_ftag f) = core (sf_ftag (cur_file s))"
      using that(2) t(2) by (auto simp: file_at_def same_file_def cur_file_def split: if_splits)
    ultimately show ?thesis using obj_of_core [of "sf_ftag f" "sf_ftag (cur_file s)" o'] t(4) s by (simp add: obj_of_def object_name_def)
  qed
  have fin: "ends (case x of (g, v) \<Rightarrow> let v = upd_stream (\<lambda>s. s\<lparr>ds_datahandle := g\<rparr>) v in
      (case g of None \<Rightarrow> Some (False, v) | Some h \<Rightarrow> write_header h v))
      (\<lambda>ok w'. ready u i o' off w' \<and> (ok \<longrightarrow> (\<exists>h. writing u i o' off (Some (h, unat off)) w')))"
    if "x = handle_call (Ne_open nm loc er True) v" "writing u i o' off None v"
      "nm = obj_of (sf_ftag (cur_file (the (w_stream u)))) o'" for x nm loc er v
  proof -
    obtain g v' where x: "x = (g, v')" by (cases x)
    have "writing u i o' off (map_option (\<lambda>h. (h, 0)) g) (upd_stream (\<lambda>s. s\<lparr>ds_datahandle := g\<rparr>) v')"
      by (rule writing_open [OF that(2,3)]) (use that(1) x in simp)
    then show ?thesis
      using x write_header_spec [OF _ assms(3)] by (cases g) (auto intro: ready_None simp: ends_def)
  qed
  have type: "creates (ds_type t) = True" "(ds_type t = READ_STREAM) = False" using ty by simp_all
  show ?thesis
    unfolding open_current_obj_def t(1) Option.bind.bind_lunit type if_True if_False not_False_eq_True t(3)
    apply (rule ends_get(2), rule ends_let, rule flow_malloc [OF assms(1)], erule flow_lift_c, rule ends_case_option(1))
     apply (auto intro!: ends_return ready_None) [1]
    apply (rule ends_case_prod, rule ends_case_prod, rule ends_bind_nested(3), erule flow_upd_file, rule core_set_state)
    apply (erule flow_meta [OF putftag_meta], rule ends_if(1))
     apply (auto intro!: ends_return ready_None) [1]
    apply (rule ends_let, rule fin, rule refl, assumption)
    apply (simp only: prod.case, erule nm, simp only: t(3))
    done
qed


lemma writing_upd_stream:
  assumes "writing u i o' off H w" "\<And>t. same_file t (f t) \<and> ds_curfile (f t) = ds_curfile t \<and> length (ds_files (f t)) = length (ds_files t) \<and>
      ds_objno (f t) = ds_objno t \<and> ds_offset (f t) = ds_offset t \<and> ds_datahandle (f t) = ds_datahandle t"
  shows "writing u i o' off H (upd_stream f w)"
  by (rule writing_quiet [OF assms(1), where cs = "[]"]) (auto simp: upd_stream_def assms(2))

lemma writing_offset:
  "writing u i o' off H w \<Longrightarrow> writing u i o' (off + x) H (upd_stream (\<lambda>s. s\<lparr>ds_offset := ds_offset s + x\<rparr>) w)"
  unfolding writing_def
  by (auto simp: upd_stream_def same_file_def cur_file_def handle_at_def ended_def later_def)

lemma writing_creates:
  assumes "writing u i o' off H w" "\<And>s. w_stream u = Some s \<Longrightarrow> creates (ds_type s)" "w_stream w = Some t"
  shows "creates (ds_type t)"
  using assms by (auto simp: writing_def same_file_def)

lemma writing_handle:
  "writing u i o' off (Some (h, n)) w \<Longrightarrow> w_stream w = Some s \<Longrightarrow> ds_datahandle s = Some x \<Longrightarrow> writing u i o' off (Some (x, n)) w"
  using writing_stream by fastforce

definition rec_of :: "world \<Rightarrow> nat" where
  "rec_of u = unat (ft_recoverybytes (sf_ftag (cur_file (the (w_stream u)))))"

lemma obj_size_lt: "obj_size u < 2 ^ 64"
  unfolding obj_size_def using unsigned_less [of "ft_objsize (sf_ftag (cur_file (the (w_stream u))))", where ?'a = nat] by simp

lemma put_chunk_spec:
  assumes "ready u i o' off w" "\<And>s. w_stream u = Some s \<Longrightarrow> creates (ds_type s)" "hdr_of u \<le> obj_size u"
    and "unat off + length chunk \<le> obj_size u"
  shows "ends (put_chunk i chunk k w) (\<lambda>r w'. case r of
      Inl x \<Rightarrow> x = partial_result k \<and> ready u i o' off w'
    | Inr (n, j) \<Rightarrow> j = i \<and> n \<le> length chunk \<and> ready u i o' (off + of_nat n) w' \<and>
        (\<forall>m < n. stored (w_env w') (w_trace w') (obj_of (sf_ftag (cur_file (the (w_stream u)))) o') (unat off + m) (chunk ! m)))"
    (is "ends _ ?Q")
proof -
  have chunk: "ends (case ne_write h chunk v of (r, v) \<Rightarrow>
         if r \<le> 0 then Some (Inl (partial_result k), v)
         else do {
           let v = upd_stream (\<lambda>s. s\<lparr>ds_offset := ds_offset s + of_nat (nat r)\<rparr>) v;
           v \<leftarrow> (if creates (ds_type s) then upd_file i (grow_file (nat r)) v else Some v);
           Some (Inr (nat r, i), v)
         }) ?Q" if v: "writing u i o' off (Some (h, unat off)) v" "w_stream v = Some s" for h v s
  proof -
    obtain r v1 where r: "ne_write h chunk v = (r, v1)" by (cases "ne_write h chunk v")
    note wr = writing_write [OF v(1) assms(4) r]
    let ?v2 = "upd_stream (\<lambda>s. s\<lparr>ds_offset := ds_offset s + of_nat (nat r)\<rparr>) v1"
    have le: "unat off + nat r \<le> obj_size u" using wr assms(4) by linarith
    then have u: "unat (off + of_nat (nat r)) = unat off + nat r"
      using obj_size_lt [of u] by (simp add: unat_word_ariths unat_of_nat)
    have w2: "writing u i o' (off + of_nat (nat r)) (Some (h, unat off + nat r)) ?v2"
      by (rule writing_offset) (use wr in blast)
    show ?thesis
    proof (cases "r \<le> 0")
      case True
      then show ?thesis using r wr by (auto simp: ends_def ready_Some)
    next
      case False
      have "?Q (Inr (nat r, i)) v3" if "upd_file i (grow_file (nat r)) ?v2 = Some v3" for v3
      proof -
        have "writing u i o' (off + of_nat (nat r)) (Some (h, unat off + nat r)) v3"
          by (rule writing_upd_file [OF w2 _ that]) (simp add: core_def grow_file_def)
        moreover have "w_env v3 = w_env v1 \<and> w_trace v3 = w_trace v1"
          using that by (auto simp: upd_file_def upd_stream_def bind_eq_Some_conv)
        ultimately show ?thesis using wr u by (auto simp: ready_Some)
      qed
      then show ?thesis using r False writing_creates [OF v(1) assms(2) v(2)]
        by (auto simp: ends_def bind_eq_Some_conv Let_def)
    qed
  qed
  obtain H where H: "writing u i o' off H w" "\<And>h n. H = Some (h, n) \<Longrightarrow> n = unat off" using assms(1) by (auto simp: ready_def)
  obtain s where s: "w_stream w = Some s" "ds_datahandle s = map_option fst H" using H(1) by (auto simp: writing_def)
  show ?thesis
  proof (cases H)
    case None
    have "ends (open_current_obj w) (\<lambda>ok w'. ends (if \<not> ok then Some (Inl (partial_result k), w') else do {
         s \<leftarrow> w_stream w'; h \<leftarrow> ds_datahandle s; let (r, v) = ne_write h chunk w';
         if r \<le> 0 then Some (Inl (partial_result k), v)
         else do {
           let v = upd_stream (\<lambda>s. s\<lparr>ds_offset := ds_offset s + of_nat (nat r)\<rparr>) v;
           v \<leftarrow> (if creates (ds_type s) then upd_file i (grow_file (nat r)) v else Some v);
           Some (Inr (nat r, i), v)
         } }) ?Q)"
      by (rule ends_mono [OF open_current_obj_spec [OF H(1) [unfolded None] assms(2,3)]])
        (auto intro!: flow(1-9) ends_return chunk elim: writing_handle)
    then show ?thesis using s None by (auto simp: put_chunk_def intro: ends_bind)
  next
    case (Some hn)
    then have "writing u i o' off (Some (fst hn, unat off)) w" using H by (cases hn) auto
    from chunk [OF this s(1)] show ?thesis using s Some by (simp add: put_chunk_def)
  qed
qed


section \<open>Leaving a full object\<close>

lemma flow_may_malloc:
  "writing u i o' off H w \<Longrightarrow> (\<And>r w'. writing u i o' off H w' \<Longrightarrow> ends (f r w') Q) \<Longrightarrow>
     ends (case (if b then malloc w else (True, w)) of (r, w') \<Rightarrow> f r w') Q"
  using flow_malloc [of u i o' off H w f Q] by simp

lemma putfinfo_spec:
  assumes "writing u i o' off (Some (h, unat off)) w" "\<And>s. w_stream u = Some s \<Longrightarrow> creates (ds_type s)"
    and "unat off + rec_of u \<le> obj_size u"
  shows "ends (putfinfo w) (\<lambda>_ w'. \<exists>off' H. writing u i o' off' H w')"
proof -
  obtain s t where s: "w_stream u = Some s" and t: "w_stream w = Some t" "same_file s t" "ds_curfile t = i"
    "i < length (ds_files t)" "ds_datahandle t = Some h"
    using assms(1) by (auto simp: writing_def)
  have n: "unat (ft_recoverybytes (sf_ftag (ds_files t ! i))) = rec_of u"
  proof -
    have "ft_recoverybytes (core a) = ft_recoverybytes a" for a by (simp add: core_def)
    then show ?thesis using t(2,3) s unfolding same_file_def rec_of_def cur_file_def by (metis option.sel)
  qed
  have wr: "\<exists>off' H. writing u i o' off' H (if r \<noteq> int (rec_of u) then v2 else
        upd_stream (\<lambda>s. s\<lparr>ds_offset := ds_offset s + of_nat (rec_of u)\<rparr>) v2)"
    if "writing u i o' off (Some (h, unat off)) v1" "length b \<le> rec_of u" "ne_write h b v1 = (r, v2)" for b v1 r v2
  proof -
    have "writing u i o' off (Some (h, unat off + nat r)) v2" using writing_write [OF that(1) _ that(3)] that(2) assms(3) by simp
    then show ?thesis using writing_offset [of u i o' off "Some (h, unat off + nat r)" v2 "of_nat (rec_of u)"] by auto
  qed
  have tail: "ends (case p of (g, tx) \<Rightarrow>
      if rec_of u < g then Some (False, set_errno E_NAMETOOLONG v)
      else (case ne_write h (take g tx @ replicate (rec_of u - g) NUL) v of (r, v) \<Rightarrow>
        if r \<noteq> int (rec_of u) then Some (False, v)
        else Some (True, upd_stream (\<lambda>s. s\<lparr>ds_offset := ds_offset s + of_nat (rec_of u)\<rparr>) v)))
      (\<lambda>_ w'. \<exists>off' H. writing u i o' off' H w')"
    if v: "writing u i o' off (Some (h, unat off)) v" for p v
  proof -
    obtain g tx where p: "p = (g, tx)" by (cases p)
    let ?b = "take g tx @ replicate (rec_of u - g) NUL"
    obtain r v2 where r: "ne_write h ?b v = (r, v2)" by (cases "ne_write h ?b v")
    show ?thesis
    proof (cases "rec_of u < g")
      case True
      then show ?thesis using p writing_set_errno [OF v] by (auto simp: ends_def)
    next
      case False
      then have "length ?b \<le> rec_of u" by simp
      from wr [OF v this r] show ?thesis using p r False by (cases "r = int (rec_of u)") (simp_all add: ends_def)
    qed
  qed
  have f: "file_at i t = Some (ds_files t ! i)" using t(4) by (simp add: file_at_def)
  show ?thesis
    unfolding putfinfo_def t(1) Option.bind.bind_lunit t(3,5) f n
    apply (rule ends_let, rule ends_let, rule flow_may_malloc [OF assms(1)])
    apply (rule ends_if(1)) subgoal by (auto intro!: ends_return)
    apply (rule ends_let, rule flow_lift_c, erule writing_upd_stream)
     subgoal by (simp add: same_file_def cur_file_def)
    apply (rule ends_case_option(1)) subgoal by (auto intro!: ends_return)
    apply (rule ends_let, rule ends_let, rule ends_let, rule tail, erule writing_upd_stream)
    apply (simp add: same_file_def cur_file_def)
    done
qed

lemma writing_drops:
  assumes "writing u i o' off H w" "step quiet drops_handle w w'"
  shows "\<exists>H'. writing u i o' off H' w'" "w_stream w' = Some t' \<Longrightarrow> ds_datahandle t' = None \<Longrightarrow> writing u i o' off None w'"
proof -
  obtain s where s: "w_stream w = Some s" using assms(1) by (auto simp: writing_def)
  obtain cs t where cs: "w_env w' = w_env w" "w_trace w' = cs @ w_trace w" "\<forall>c \<in> set cs. quiet c"
    and t: "w_stream w' = Some t" "t = s \<or> t = s\<lparr>ds_datahandle := None\<rparr>"
    using assms(2) s by (auto simp: step_def stream_rel_Some drops_handle_def)
  have eq: "writing u i o' off H (w'\<lparr>w_stream := Some s\<rparr>)"
    by (rule writing_quiet [OF assms(1), where cs = cs]) (use cs s in auto)
  have none: "writing u i o' off None (w'\<lparr>w_stream := Some (s\<lparr>ds_datahandle := None\<rparr>)\<rparr>)"
    using writing_drop [OF eq] by (simp add: upd_stream_def)
  have w: "w' = w'\<lparr>w_stream := Some t\<rparr>" using t(1) by simp
  show "\<exists>H'. writing u i o' off H' w'" using t(2) eq none w by metis
  show "writing u i o' off None w'" if "w_stream w' = Some t'" "ds_datahandle t' = None"
  proof -
    have "t = s\<lparr>ds_datahandle := None\<rparr>" using t that by auto
    then show ?thesis using none w by simp
  qed
qed

lemma close_spec:
  assumes "writing u i o' off H w"
  shows "ends (close_current_obj tag co w) (\<lambda>ok w'. if ok then writing u i o' off None w' else ended u w')"
proof -
  obtain s where s: "w_stream w = Some s" using assms by (auto simp: writing_def)
  show ?thesis
  proof (rule ends_mono [OF close_current_obj_step [OF s]])
    fix ok w' assume a: "step quiet drops_handle w w' \<and> (ok \<longrightarrow> w_stream w' = Some (s\<lparr>ds_datahandle := None\<rparr>))"
    show "if ok then writing u i o' off None w' else ended u w'"
      using writing_drops(1) [OF assms] writing_drops(2) [OF assms] writing_ended a by (cases ok) fastforce+
  qed (simp_all add: meta_quiet)
qed

text \<open>The failures that destroy the stream.\<close>

lemma ended_status: "ended u w \<Longrightarrow> quiet c \<Longrightarrow> ended u (snd (status_call c w))"
  by (rule ended_quiet [where w = w and cs = "[c]"]) (auto simp: status_call_def issue_def Let_def)

lemma ended_close_handles: "ended u w \<Longrightarrow> ended u (close_handles fs w)"
  by (induction fs w rule: close_handles.induct) (simp_all add: ended_status)

lemma ended_simps [simp]:
  "ended u (w\<lparr>w_stream := x\<rparr>) \<longleftrightarrow> ended u w" "ended u (set_errno e w) \<longleftrightarrow> ended u w" "w_stream (set_errno e w) = w_stream w"
  by (simp_all add: ended_def later_def set_errno_def)

lemma ended_fatal: "ended u w \<Longrightarrow> ends_w (fatal w) (\<lambda>w'. ended u w' \<and> w_stream w' = None)"
  unfolding fatal_def freestream_def ends_w_def
  by (auto simp: bind_eq_Some_conv Let_def ended_close_handles ended_status split: option.splits if_splits)


definition gone :: "world \<Rightarrow> world \<Rightarrow> bool" where
  "gone u w \<longleftrightarrow> ended u w \<and> w_stream w = None"

lemma fatal_gone: "ended u w \<Longrightarrow> fatal w = Some w' \<Longrightarrow> gone u w'"
  using ended_fatal [of u w] by (simp add: ends_w_def gone_def)

lemma ends_fatal:
  "ended u w \<Longrightarrow> (\<And>w'. gone u w' \<Longrightarrow> Q x w') \<Longrightarrow> ends (Option.bind (fatal w) (\<lambda>w. Some (x, w))) Q"
  using ended_fatal [of u w] by (auto simp: ends_def ends_w_def bind_eq_Some_conv gone_def)

lemma settle_files_spec:
  assumes "writing u i o' off None w"
  shows "ends (settle_files i w) (\<lambda>r w'. case r of None \<Rightarrow> gone u w' | Some j \<Rightarrow> writing u j o' off None w')"
proof -
  obtain s t where s: "w_stream u = Some s" and t: "w_stream w = Some t" "same_file s t" "ds_curfile t = i" "i < length (ds_files t)"
    "ds_objno t = o'" "ds_offset t = off" "ds_datahandle t = None"
    using assms by (auto simp: writing_def)
  show ?thesis
  proof (cases "complete_previous i w")
    case None
    then show ?thesis by (simp add: settle_files_def t ends_def)
  next
    case (Some x)
    obtain ok w2 where c: "complete_previous i w = Some (ok, w2)" using Some by (cases x) auto
    note cp = complete_previous_stream [OF c t(1)]
    then obtain cs t2 where cs: "w_env w2 = w_env w" "w_trace w2 = cs @ w_trace w" "\<forall>c \<in> set cs. quiet c"
      and t2: "w_stream w2 = Some t2" "keeps {..<i} (t\<lparr>ds_curfile := (if i = 0 then ds_curfile t else 0)\<rparr>) t2"
      using meta_quiet t(3) by auto
    have e: "ended u w2" by (rule ended_quiet [OF writing_ended [OF assms] cs])
    have f: "length (ds_files t2) = length (ds_files t)" "ds_files t2 ! i = ds_files t ! i" "ds_curfile t2 = 0" "ds_objno t2 = o'"
      "ds_offset t2 = off" "ds_datahandle t2 = None" "ds_type t2 = ds_type t" "ds_recoveryheaderlen t2 = ds_recoveryheaderlen t"
      using t2(2) t by (auto simp: keeps_def)
    have z: "(ds_files t2)[0 := x] ! 0 = x" for x by (rule nth_list_update_eq) (use f(1) t(4) in linarith)
    have moved: "writing u 0 o' off None (upd_stream (set_file 0 (ds_files t2 ! i)) w2)"
      unfolding writing_def
      using s t2(1) f t e z by (auto simp: upd_stream_def set_file_def same_file_def cur_file_def handle_at_def)
    have same: "upd_stream (set_file 0 (ds_files t2 ! i)) w2 = w2" if "i = 0"
    proof -
      have "(ds_files t2)[0 := ds_files t2 ! i] = ds_files t2" using that by (simp add: list_update_id)
      then show ?thesis using t2(1) by (simp add: upd_stream_def set_file_def)
    qed
    show ?thesis
    proof (cases ok)
      case False
      then show ?thesis using c t e by (simp add: settle_files_def) (rule ends_fatal; simp)
    next
      case True
      then show ?thesis using c t t2(1) f moved same
        by (cases "i = 0") (simp_all add: settle_files_def ends_def upd_file_def file_at_def)
    qed
  qed
qed

lemma next_object_spec:
  assumes "writing u i o' off None w"
  shows "writing u i (o' + 1) (ds_recoveryheaderlen (the (w_stream u))) None (next_object w)"
  using assms unfolding writing_def next_object_def
  by (auto simp: upd_stream_def same_file_def cur_file_def handle_at_def ended_def later_def)

lemma advance_write_spec:
  assumes "ready u i o' off w" "\<And>s. w_stream u = Some s \<Longrightarrow> creates (ds_type s)" "unat off + rec_of u \<le> obj_size u"
  shows "ends (advance_write i w) (\<lambda>r w'. case r of
      None \<Rightarrow> gone u w'
    | Some j \<Rightarrow> writing u j (o' + 1) (ds_recoveryheaderlen (the (w_stream u))) None w')" (is "ends _ ?Q")
proof -
  have rest: "ends (Option.bind (w_stream v) (\<lambda>s. Option.bind (file_at i s) (\<lambda>f.
      Option.bind (close_current_obj (at_object s (sf_ftag f)) None v) (\<lambda>(ok, w).
        if \<not> ok then Option.bind (fatal w) (\<lambda>w. Some (None, w))
        else Option.bind (if creates (ds_type s) then settle_files i w else Some (Some i, w))
          (\<lambda>(r, w). Some (r, if r = None then w else next_object w)))))) ?Q"
    if "writing u i o' off' H v" for off' H v
  proof (rule ends_get(1), rule ends_get(2), rule ends_bind)
    fix s f assume s: "w_stream v = Some s"
    have c: "creates (ds_type s)" by (rule writing_creates [OF that assms(2) s])
    show "ends (close_current_obj (at_object s (sf_ftag f)) None v) (\<lambda>ok w. ends (
        if \<not> ok then Option.bind (fatal w) (\<lambda>w. Some (None, w))
        else Option.bind (if creates (ds_type s) then settle_files i w else Some (Some i, w))
          (\<lambda>(r, w). Some (r, if r = None then w else next_object w))) ?Q)"
    proof (rule ends_mono [OF close_spec [OF that]])
      fix ok w assume a: "if ok then writing u i o' off' None w else ended u w"
      show "ends (if \<not> ok then Option.bind (fatal w) (\<lambda>w. Some (None, w))
        else Option.bind (if creates (ds_type s) then settle_files i w else Some (Some i, w))
          (\<lambda>(r, w). Some (r, if r = None then w else next_object w))) ?Q"
      proof (cases ok)
        case False
        then show ?thesis using a by simp (rule ends_fatal; simp)
      next
        case True
        have "ends (settle_files i w) (\<lambda>r w. ends (Some (r, if r = None then w else next_object w)) ?Q)"
          by (rule ends_mono [OF settle_files_spec [of u i o' off' w]])
            (use a True next_object_spec in \<open>auto simp: ends_def split: option.splits\<close>)
        then show ?thesis using True c by (auto intro: ends_bind)
      qed
    qed
  qed
  obtain H where H: "writing u i o' off H w" "\<And>h n. H = Some (h, n) \<Longrightarrow> n = unat off" using assms(1) by (auto simp: ready_def)
  obtain s where s: "w_stream w = Some s" "ds_datahandle s = map_option fst H" using H(1) by (auto simp: writing_def)
  show ?thesis
  proof (cases H)
    case None
    then show ?thesis using s rest [OF H(1)] by (simp add: advance_write_def)
  next
    case (Some hn)
    then have hw: "writing u i o' off (Some (fst hn, unat off)) w" using H by (cases hn) auto
    have "ends (putfinfo w) (\<lambda>ok w. ends (if \<not> ok then Option.bind (fatal w) (\<lambda>w. Some (None, w))
       else Option.bind (w_stream w) (\<lambda>s. Option.bind (file_at i s) (\<lambda>f.
      Option.bind (close_current_obj (at_object s (sf_ftag f)) None w) (\<lambda>(ok, w).
        if \<not> ok then Option.bind (fatal w) (\<lambda>w. Some (None, w))
        else Option.bind (if creates (ds_type s) then settle_files i w else Some (Some i, w))
          (\<lambda>(r, w). Some (r, if r = None then w else next_object w)))))) ?Q)"
      by (rule ends_mono [OF putfinfo_spec [OF hw assms(2,3)]])
        (auto intro!: rest ends_fatal ends_if(1) dest: writing_ended)
    then show ?thesis using s Some by (auto simp: advance_write_def intro: ends_bind)
  qed
qed


section \<open>The loop\<close>

text \<open>The stream's file and its geometry, which all rounds share.\<close>

definition geo :: "ftag \<Rightarrow> u64 \<Rightarrow> world \<Rightarrow> bool" where
  "geo T hw w \<longleftrightarrow> (\<exists>s. w_stream w = Some s \<and> creates (ds_type s) \<and> core (sf_ftag (cur_file s)) = core T \<and>
     ds_recoveryheaderlen s = hw)"

definition fits :: "ftag \<Rightarrow> u64 \<Rightarrow> bool" where
  "fits T hw \<longleftrightarrow> unat (ft_recoverybytes T) + unat hw < unat (ft_objsize T)"

lemma core_sizes [simp]:
  "ft_objsize (core tag) = ft_objsize tag" "ft_recoverybytes (core tag) = ft_recoverybytes tag"
  by (simp_all add: core_def)

lemma geo_sizes:
  assumes "geo T hw u"
  shows "obj_size u = unat (ft_objsize T)" "rec_of u = unat (ft_recoverybytes T)" "hdr_of u = unat hw"
    "ds_recoveryheaderlen (the (w_stream u)) = hw" "obj_of (sf_ftag (cur_file (the (w_stream u)))) x = obj_of T x"
    "\<And>s. w_stream u = Some s \<Longrightarrow> creates (ds_type s)"
proof -
  obtain s where s: "w_stream u = Some s" "creates (ds_type s)" "core (sf_ftag (cur_file s)) = core T" "ds_recoveryheaderlen s = hw"
    using assms by (auto simp: geo_def)
  show "obj_size u = unat (ft_objsize T)" "rec_of u = unat (ft_recoverybytes T)"
    using arg_cong [OF s(3), of ft_objsize] arg_cong [OF s(3), of ft_recoverybytes] s(1) by (simp_all add: obj_size_def rec_of_def)
  show "obj_of (sf_ftag (cur_file (the (w_stream u)))) x = obj_of T x" using obj_of_core [OF s(3)] s(1) by simp
qed (use assms in \<open>auto simp: geo_def hdr_of_def\<close>)

lemma rebase:
  assumes "ready u i o' off w" "geo T hw u"
  shows "ready w i o' off w \<and> geo T hw w \<and> later u w"
proof -
  obtain H where H: "writing u i o' off H w" "\<And>h n. H = Some (h, n) \<Longrightarrow> n = unat off" using assms(1) by (auto simp: ready_def)
  obtain s t where s: "w_stream u = Some s" "w_stream w = Some t" "same_file s t" using H(1) by (auto simp: writing_def)
  have g: "geo T hw w" using assms(2) s by (auto simp: geo_def same_file_def)
  have "writing w i o' off H w"
    using H(1) s geo_sizes [OF assms(2)] geo_sizes [OF g] by (auto simp: writing_def handle_at_def ended_def later_def)
  moreover have "later u w" using writing_ended [OF H(1)] by (simp add: ended_def)
  ultimately show ?thesis using H(2) g by (auto simp: ready_def)
qed

text \<open>
  The cursor stands behind \<open>x\<close> bytes, counted from the start of the data in object \<open>b\<close>; a byte in the
  \<open>x\<close>-th place.
\<close>

definition at_byte :: "ftag \<Rightarrow> u64 \<Rightarrow> u64 \<Rightarrow> nat \<Rightarrow> u64 \<Rightarrow> u64 \<Rightarrow> bool" where
  "at_byte T hw b x o' off \<longleftrightarrow>
     (\<exists>d r. o' = b + of_nat d \<and> unat off = unat hw + r \<and> r \<le> per_obj T hw \<and> x = d * per_obj T hw + r)"

definition stored_at :: "ftag \<Rightarrow> u64 \<Rightarrow> u64 \<Rightarrow> world \<Rightarrow> nat \<Rightarrow> char \<Rightarrow> bool" where
  "stored_at T hw b w x c \<longleftrightarrow>
     stored (w_env w) (w_trace w) (obj_of T (b + of_nat (x div per_obj T hw))) (unat hw + x mod per_obj T hw) c"

lemma stored_at_later: "later u w \<Longrightarrow> stored_at T hw b u x c \<Longrightarrow> stored_at T hw b w x c"
  by (auto simp: stored_at_def later_def stored_later)

lemma later_trans: "later u v \<Longrightarrow> later v w \<Longrightarrow> later u w"
  by (auto simp: later_def)

text \<open>A world in which a write to the file can go on: the cursor stands behind \<open>x\<close> bytes.\<close>

definition goes_on :: "ftag \<Rightarrow> u64 \<Rightarrow> u64 \<Rightarrow> nat \<Rightarrow> nat \<Rightarrow> world \<Rightarrow> bool" where
  "goes_on T hw b i x w \<longleftrightarrow> (\<exists>o' off. ready w i o' off w \<and> geo T hw w \<and> at_byte T hw b x o' off)"

definition step_post :: "ftag \<Rightarrow> u64 \<Rightarrow> u64 \<Rightarrow> nat \<Rightarrow> nat \<Rightarrow> string \<Rightarrow> world \<Rightarrow> int + nat \<times> nat \<Rightarrow> world \<Rightarrow> bool" where
  "step_post T hw b x k buf u r w \<longleftrightarrow> later u w \<and>
     (case r of
        Inl y \<Rightarrow> y = - 1 \<and> gone u w \<or> y = partial_result k \<and> (\<exists>j. goes_on T hw b j x w)
      | Inr (n, j) \<Rightarrow> n \<le> length buf \<and> goes_on T hw b j (x + n) w \<and> (\<forall>m < n. stored_at T hw b w (x + m) (buf ! m)))"

lemma row_div:
  fixes P :: nat
  assumes "y < P"
  shows "(d * P + y) div P = d" "(d * P + y) mod P = y"
  using assms by simp_all

lemma put_chunk_at:
  assumes "ready u i o' off w" "geo T hw u" "fits T hw" "o' = b + of_nat d" "unat off = unat hw + r" "r < per_obj T hw"
    and "x = d * per_obj T hw + r"
  shows "ends (put_chunk i (take (per_obj T hw - r) buf) k w) (step_post T hw b x k buf u)"
proof (rule ends_mono [OF put_chunk_spec [OF assms(1)]])
  note g = geo_sizes [OF assms(2)]
  show "creates (ds_type s)" if "w_stream u = Some s" for s using g(6) that .
  show "hdr_of u \<le> obj_size u" using g assms(3) by (simp add: fits_def)
  show "unat off + length (take (per_obj T hw - r) buf) \<le> obj_size u"
  proof -
    have "length (take (per_obj T hw - r) buf) \<le> per_obj T hw - r" by simp
    moreover have "unat off + (per_obj T hw - r) \<le> obj_size u"
      using assms(3,5,6) unfolding g(1) by (simp add: fits_def per_obj_def)
    ultimately show ?thesis by (rule order_trans [OF add_left_mono])
  qed
  fix res w'
  assume a: "case res of Inl x \<Rightarrow> x = partial_result k \<and> ready u i o' off w'
    | Inr (n, j) \<Rightarrow> j = i \<and> n \<le> length (take (per_obj T hw - r) buf) \<and> ready u i o' (off + of_nat n) w' \<and>
        (\<forall>m < n. stored (w_env w') (w_trace w') (obj_of (sf_ftag (cur_file (the (w_stream u)))) o') (unat off + m)
          (take (per_obj T hw - r) buf ! m))"
  show "step_post T hw b x k buf u res w'"
  proof (cases res)
    case (Inl y)
    then have "ready u i o' off w'" "y = partial_result k" using a by simp_all
    moreover have "at_byte T hw b x o' off" unfolding at_byte_def
      by (rule exI [of _ d], rule exI [of _ r]) (use assms in simp)
    ultimately show ?thesis
      using rebase [of u i o' off w' T hw] assms(2) Inl unfolding step_post_def goes_on_def by (simp, blast)
  next
    case (Inr nj)
    obtain n j where nj: "nj = (n, j)" by (cases nj)
    have n: "j = i" "n \<le> per_obj T hw - r" "n \<le> length buf" and rd: "ready u i o' (off + of_nat n) w'"
      and st: "\<And>m. m < n \<Longrightarrow> stored (w_env w') (w_trace w') (obj_of T o') (unat off + m) (buf ! m)"
      using a Inr nj g(5) by auto
    have "unat off + n < 2 ^ 64"
    proof -
      have "unat off + n \<le> obj_size u" using n(2) assms(3,5,6) unfolding g(1) fits_def per_obj_def by linarith
      then show ?thesis using obj_size_lt [of u] by (rule le_less_trans)
    qed
    then have "unat (off + of_nat n) = unat hw + (r + n)" using assms(5) by (simp add: unat_word_ariths unat_of_nat)
    then have "at_byte T hw b (x + n) o' (off + of_nat n)" unfolding at_byte_def
      by (intro exI [of _ d] exI [of _ "r + n"]) (use assms(4,6,7) n(2) in simp)
    moreover have "stored_at T hw b w' (x + m) (buf ! m)" if "m < n" for m
    proof -
      have "(x + m) div per_obj T hw = d" "(x + m) mod per_obj T hw = r + m"
        using that n(2) assms(6) unfolding assms(7) add.assoc by (intro row_div; linarith)+
      then show ?thesis using st [OF that] assms(4,5) by (simp add: stored_at_def add.assoc)
    qed
    ultimately show ?thesis
      using rebase [OF rd assms(2)] n Inr nj unfolding step_post_def goes_on_def by auto
  qed
qed


lemma word_room:
  assumes "fits T hw" "unat off = unat hw + r" "r \<le> per_obj T hw"
  defines "dpo \<equiv> ft_objsize T - (ft_recoverybytes T + hw)"
  shows "unat dpo = per_obj T hw" "unat (dpo - (off - hw)) = per_obj T hw - r" "0 < per_obj T hw"
proof -
  show d: "unat dpo = per_obj T hw" unfolding dpo_def per_obj_def
    by (rule word_minus_add) (use assms(1) in \<open>simp add: fits_def\<close>)
  have "unat (off - hw) = r" using assms(2) by (simp add: unat_sub word_le_nat_alt)
  then show "unat (dpo - (off - hw)) = per_obj T hw - r" using d assms(3) by (simp add: unat_sub word_le_nat_alt)
  show "0 < per_obj T hw" using assms(1) by (simp add: fits_def per_obj_def)
qed

lemma write_step_spec:
  assumes "goes_on T hw b i x w" "fits T hw"
  shows "ends (write_step (ft_objsize T - (ft_recoverybytes T + hw)) i buf k w) (step_post T hw b x k buf w)"
proof -
  obtain o' off d r where c: "ready w i o' off w" "geo T hw w" "o' = b + of_nat d" "unat off = unat hw + r" "r \<le> per_obj T hw"
    "x = d * per_obj T hw + r"
    using assms(1) by (auto simp: goes_on_def at_byte_def)
  obtain s where s: "w_stream w = Some s" "ds_offset s = off" "ds_recoveryheaderlen s = hw"
    using c(1,2) by (auto simp: ready_def writing_def geo_def)
  define dpo where "dpo = ft_objsize T - (ft_recoverybytes T + hw)"
  define room where "room = dpo - (off - hw)"
  note wr = word_room [OF assms(2) c(4,5), folded dpo_def, folded room_def]
  have step: "write_step dpo i buf k w = Option.bind (if room = 0 then advance_write i w else Some (Some i, w)) (\<lambda>(r, w).
      case r of None \<Rightarrow> Some (Inl (- 1), w) | Some i \<Rightarrow> put_chunk i (take (unat (if room = 0 then dpo else room)) buf) k w)"
    unfolding write_step_def Let_def s Option.bind.bind_lunit room_def ..
  note g = geo_sizes [OF c(2)]
  show ?thesis
  proof (cases "r = per_obj T hw")
    case False
    then have "0 < unat room" using wr(2) c(5) by simp
    then have nz: "room \<noteq> 0" by auto
    have "ends (put_chunk i (take (per_obj T hw - r) buf) k w) (step_post T hw b x k buf w)"
      by (rule put_chunk_at [OF c(1,2) assms(2) c(3,4) _ c(6)]) (use False c(5) in simp)
    then show ?thesis unfolding dpo_def [symmetric] step using nz wr(2) by simp
  next
    case True
    then have z: "room = 0" using wr(2) by (simp add: unat_eq_0)
    have full: "unat off + rec_of w \<le> obj_size w" using g(1,2) c(4) True assms(2) by (simp add: fits_def per_obj_def)
    have "ends (advance_write i w) (\<lambda>q w'. ends (case q of None \<Rightarrow> Some (Inl (- 1), w')
        | Some i \<Rightarrow> put_chunk i (take (per_obj T hw) buf) k w') (step_post T hw b x k buf w))"
    proof (rule ends_mono [OF advance_write_spec [OF c(1) g(6) full]])
      fix q w' assume a: "case q of None \<Rightarrow> gone w w'
        | Some j \<Rightarrow> writing w j (o' + 1) (ds_recoveryheaderlen (the (w_stream w))) None w'"
      show "ends (case q of None \<Rightarrow> Some (Inl (- 1), w') | Some i \<Rightarrow> put_chunk i (take (per_obj T hw) buf) k w')
        (step_post T hw b x k buf w)"
      proof (cases q)
        case None
        then show ?thesis using a by (simp add: ends_def step_post_def gone_def ended_def)
      next
        case (Some j)
        then have "ready w j (o' + 1) hw w'" using a g(4) by (auto intro: ready_None)
        from put_chunk_at [OF this c(2) assms(2), where r = 0 and d = "Suc d" and b = b and x = x and buf = buf and k = k]
        show ?thesis using Some c(3,6) True wr(3) by (simp add: add.commute)
      qed
    qed
    have eq: "unat (if room = 0 then dpo else room) = per_obj T hw" using z wr(1) by simp
    then show ?thesis using \<open>ends (advance_write i w) _\<close> unfolding dpo_def [symmetric] step eq using z by simp (rule ends_bind)
  qed
qed

text \<open>\<open>k\<close> bytes were written before; \<open>n\<close> are written by the rest of the loop.\<close>

definition loop_post :: "ftag \<Rightarrow> u64 \<Rightarrow> u64 \<Rightarrow> nat \<Rightarrow> nat \<Rightarrow> string \<Rightarrow> world \<Rightarrow> int \<times> nat option \<Rightarrow> world \<Rightarrow> bool" where
  "loop_post T hw b x k buf u r w \<longleftrightarrow> later u w \<and>
     (r = (- 1, None) \<and> gone u w \<or>
      (\<exists>n j. n \<le> length buf \<and> goes_on T hw b j (x + n) w \<and> (\<forall>m < n. stored_at T hw b w (x + m) (buf ! m)) \<and>
         (r = (int (k + n), Some j) \<and> n = length buf \<or> r = (partial_result (k + n), None))))"

lemma gone_rebase: "later u v \<Longrightarrow> gone v w \<Longrightarrow> obj_size v = obj_size u \<Longrightarrow> gone u w"
  by (auto simp: gone_def ended_def later_def)

lemma goes_on_size: "goes_on T hw b i x w \<Longrightarrow> obj_size w = unat (ft_objsize T)"
  using geo_sizes(1) by (auto simp: goes_on_def)

lemma write_loop_spec:
  assumes "fits T hw" "goes_on T hw b i x w"
  shows "ends (write_loop (ft_objsize T - (ft_recoverybytes T + hw)) i buf k w) (loop_post T hw b x k buf w)"
  using assms(2)
proof (induction "length buf" arbitrary: i x buf k w rule: less_induct)
  case less
  let ?dpo = "ft_objsize T - (ft_recoverybytes T + hw)"
  have self: "later w w" by (simp add: later_def)
  show ?case
  proof (cases "buf = []")
    case True
    then show ?thesis using less.prems self
      by (subst write_loop.simps) (auto simp: ends_def loop_post_def)
  next
    case False
    show ?thesis
    proof (cases "write_step ?dpo i buf k w")
      case None
      then show ?thesis using False by (subst write_loop.simps) (simp add: ends_def)
    next
      case (Some rw)
      obtain r w1 where st: "write_step ?dpo i buf k w = Some (r, w1)" using Some by (cases rw) auto
      have post: "step_post T hw b x k buf w r w1" using endsD [OF write_step_spec [OF less.prems assms(1)] st] .
      show ?thesis
      proof (cases r)
        case (Inl y)
        have "loop_post T hw b x k buf w (y, None) w1"
        proof (cases "y = - 1 \<and> gone w w1")
          case True
          then show ?thesis using post by (simp add: step_post_def loop_post_def)
        next
          case False
          then obtain j where "y = partial_result k" "goes_on T hw b j x w1" "later w w1" using post Inl by (auto simp: step_post_def)
          then show ?thesis unfolding loop_post_def by (intro conjI disjI2 exI [of _ 0] exI [of _ j]) auto
        qed
        then show ?thesis using False st Inl by (subst write_loop.simps) (simp add: ends_def)
      next
        case (Inr nj)
        obtain n j where r: "r = Inr (n, j)" using Inr by (cases nj) auto
        have n: "n \<le> length buf" "goes_on T hw b j (x + n) w1" "later w w1"
          and sto: "\<And>m. m < n \<Longrightarrow> stored_at T hw b w1 (x + m) (buf ! m)"
          using post r by (auto simp: step_post_def)
        have "0 < n \<and> n \<le> length buf" using write_step_progress [of ?dpo i buf k w n j w1] st r by simp
        then have lt: "length (drop n buf) < length buf" unfolding length_drop by linarith
        have "ends (write_loop ?dpo j (drop n buf) (k + n) w1) (loop_post T hw b x k buf w)"
        proof (rule ends_mono [OF less.hyps [OF lt n(2)]])
          fix q w2 assume q: "loop_post T hw b (x + n) (k + n) (drop n buf) w1 q w2"
          then have l: "later w1 w2" by (simp add: loop_post_def)
          have sto2: "stored_at T hw b w2 (x + m) (buf ! m)"
            if "m < n + n2" "\<forall>m < n2. stored_at T hw b w2 (x + n + m) (drop n buf ! m)" "n2 \<le> length buf - n" for m n2
          proof (cases "m < n")
            case True
            then show ?thesis using sto stored_at_later [OF l] by blast
          next
            case False
            then obtain m2 where m2: "m = n + m2" using le_Suc_ex not_less by blast
            have "stored_at T hw b w2 (x + n + m2) (drop n buf ! m2)" using that(1,2) m2 by simp
            then show ?thesis using that m2 n(1) by (simp add: add.assoc)
          qed
          show "loop_post T hw b x k buf w q w2"
          proof (cases "q = (- 1, None) \<and> gone w1 w2")
            case True
            then show ?thesis
              using later_trans [OF n(3) l] gone_rebase [OF n(3)] goes_on_size [OF n(2)] goes_on_size [OF less.prems]
              by (simp add: loop_post_def)
          next
            case False
            then obtain n2 j2 where c: "n2 \<le> length buf - n" "goes_on T hw b j2 (x + n + n2) w2"
              "\<forall>m < n2. stored_at T hw b w2 (x + n + m) (drop n buf ! m)"
              "q = (int (k + n + n2), Some j2) \<and> n2 = length buf - n \<or> q = (partial_result (k + n + n2), None)"
              using q False unfolding loop_post_def length_drop by blast
            have "n + n2 \<le> length buf" "n2 = length buf - n \<longrightarrow> n + n2 = length buf" using c(1) n(1) by simp_all
            moreover have "\<forall>m < n + n2. stored_at T hw b w2 (x + m) (buf ! m)" using sto2 [OF _ c(3,1)] by blast
            moreover have "q = (int (k + (n + n2)), Some j2) \<and> n + n2 = length buf \<or> q = (partial_result (k + (n + n2)), None)"
              using c(4) \<open>n2 = _ \<longrightarrow> _\<close> unfolding add.assoc by blast
            moreover have "goes_on T hw b j2 (x + (n + n2)) w2" using c(2) unfolding add.assoc .
            ultimately show ?thesis using later_trans [OF n(3) l] unfolding loop_post_def by blast
          qed
        qed
        then show ?thesis using False st r by (subst write_loop.simps) simp
      qed
    qed
  qed
qed


section \<open>The call\<close>

text \<open>
  A stream that is fit for writing: its current file leaves room for data in an object, the offset lies in that
  room, and when an object is open, it is the current one and holds as many bytes as the offset says. No object of
  the trace exceeds the object size.
\<close>

definition writer :: "world \<Rightarrow> bool" where
  "writer w \<longleftrightarrow>
     (case w_stream w of
        None \<Rightarrow> False
      | Some s \<Rightarrow>
          let tag = sf_ftag (cur_file s); hw = ds_recoveryheaderlen s; off = unat (ds_offset s) in
          creates (ds_type s) \<and> ds_curfile s < length (ds_files s) \<and> fits tag hw \<and>
          unat hw \<le> off \<and> off \<le> unat hw + per_obj tag hw \<and>
          (case ds_datahandle s of
             None \<Rightarrow> True
           | Some h \<Rightarrow> opened (w_trace w) h (obj_of tag (ds_objno s)) \<and> length (object_data (w_env w) h (w_trace w)) = off) \<and>
          within (w_env w) (w_trace w) (unat (ft_objsize tag)))"

lemma core_core [simp]: "core (core tag) = core tag"
  by (simp add: core_def)

lemma core_cong:
  assumes "core a = core b"
  shows "fits a hw = fits b hw" "per_obj a hw = per_obj b hw" "ft_objsize a = ft_objsize b"
  using arg_cong [OF assms, of ft_objsize] arg_cong [OF assms, of ft_recoverybytes] by (simp_all add: fits_def per_obj_def)

lemma writer_goes_on:
  assumes "writer w" "w_stream w = Some s"
  defines "T \<equiv> sf_ftag (cur_file s)" and "hw \<equiv> ds_recoveryheaderlen s"
  shows "goes_on T hw (ds_objno s) (ds_curfile s) (unat (ds_offset s) - unat hw) w" "fits T hw"
proof -
  have c: "creates (ds_type s)" "ds_curfile s < length (ds_files s)" "fits T hw"
    "unat hw \<le> unat (ds_offset s)" "unat (ds_offset s) \<le> unat hw + per_obj T hw"
    "\<And>h. ds_datahandle s = Some h \<Longrightarrow> opened (w_trace w) h (obj_of T (ds_objno s)) \<and>
       length (object_data (w_env w) h (w_trace w)) = unat (ds_offset s)"
    "within (w_env w) (w_trace w) (unat (ft_objsize T))"
    using assms by (auto simp: writer_def Let_def)
  show "fits T hw" by (rule c(3))
  let ?H = "map_option (\<lambda>h. (h, unat (ds_offset s))) (ds_datahandle s)"
  have "writing w (ds_curfile s) (ds_objno s) (ds_offset s) ?H w"
    using c assms(2) unfolding writing_def handle_at_def ended_def later_def obj_size_def T_def
    by (auto simp: option.map_comp comp_def option.map_ident)
  then have "ready w (ds_curfile s) (ds_objno s) (ds_offset s) w" unfolding ready_def by (intro exI [of _ ?H] conjI) auto
  moreover have "geo T hw w" using c(1) assms(2) by (simp add: geo_def T_def hw_def)
  moreover have "at_byte T hw (ds_objno s) (unat (ds_offset s) - unat hw) (ds_objno s) (ds_offset s)"
    unfolding at_byte_def by (intro exI [of _ 0] exI [of _ "unat (ds_offset s) - unat hw"]) (use c(4,5) in auto)
  ultimately show "goes_on T hw (ds_objno s) (ds_curfile s) (unat (ds_offset s) - unat hw) w"
    unfolding goes_on_def by blast
qed

lemma goes_on_writer:
  assumes "goes_on T hw b i x w" "fits T hw"
  shows "writer w" "\<exists>s. w_stream w = Some s \<and> at_byte T hw b x (ds_objno s) (ds_offset s)"
proof -
  obtain o' off H where r: "writing w i o' off H w" "\<And>h n. H = Some (h, n) \<Longrightarrow> n = unat off" "geo T hw w" "at_byte T hw b x o' off"
    using assms(1) by (auto simp: goes_on_def ready_def)
  obtain s where s: "w_stream w = Some s" "creates (ds_type s)" "core (sf_ftag (cur_file s)) = core T" "ds_recoveryheaderlen s = hw"
    using r(3) by (auto simp: geo_def)
  have st: "ds_curfile s < length (ds_files s)" "ds_objno s = o'" "ds_offset s = off" "ds_datahandle s = map_option fst H"
    using writing_stream [OF r(1) s(1)] by auto
  show "\<exists>s. w_stream w = Some s \<and> at_byte T hw b x (ds_objno s) (ds_offset s)" using s(1) st r(4) by auto
  have "within (w_env w) (w_trace w) (unat (ft_objsize (sf_ftag (cur_file s))))"
    using writing_ended [OF r(1)] s(1) by (simp add: ended_def obj_size_def)
  moreover have "opened (w_trace w) h (obj_of (sf_ftag (cur_file s)) o') \<and> length (object_data (w_env w) h (w_trace w)) = unat off"
    if "ds_datahandle s = Some h" for h
    using that st(4) r(1,2) s(1) by (cases H) (auto simp: writing_def handle_at_def)
  moreover have "unat hw \<le> unat off \<and> unat off \<le> unat hw + per_obj T hw" using r(4) by (auto simp: at_byte_def)
  ultimately show "writer w"
    using s st assms(2) core_cong [OF s(3)] unfolding writer_def Let_def by (auto split: option.split)
qed

lemma goes_on_lift:
  assumes "goes_on T hw b i x w" "lift_c y w = Some (p, v)"
  shows "goes_on T hw b i x v" "later w v"
proof -
  obtain o' off where r: "ready w i o' off w" "geo T hw w" "at_byte T hw b x o' off" using assms(1) by (auto simp: goes_on_def)
  have "ready w i o' off v" using r(1) writing_lift_c [OF _ assms(2)] unfolding ready_def by blast
  from rebase [OF this r(2)] show "goes_on T hw b i x v" "later w v" using r(3) by (auto simp: goes_on_def)
qed

lemma gettargets_per_obj:
  "gettargets s off wh = Inr p \<Longrightarrow>
     dp_dataperobj p = ft_objsize (sf_ftag (cur_file s)) - (ft_recoverybytes (sf_ftag (cur_file s)) + ds_recoveryheaderlen s)"
  by (auto simp: gettargets_def Let_def split: if_splits)

text \<open>What every write does: \<open>n\<close> bytes are stored, or the stream is gone.\<close>

definition write_post :: "ftag \<Rightarrow> u64 \<Rightarrow> u64 \<Rightarrow> nat \<Rightarrow> string \<Rightarrow> world \<Rightarrow> int \<Rightarrow> world \<Rightarrow> bool" where
  "write_post T hw b x buf u r w \<longleftrightarrow> later u w \<and>
     (r = - 1 \<and> gone u w \<or>
      (nat r \<le> length buf \<and> (\<exists>j. goes_on T hw b j (x + nat r) w) \<and> (\<forall>m < nat r. stored_at T hw b w (x + m) (buf ! m))))"

lemma loop_write_post:
  assumes "loop_post T hw b x 0 buf u (r, j) w"
  shows "write_post T hw b x buf u r w"
  using assms unfolding loop_post_def write_post_def partial_result_def by (auto split: if_splits)

lemma goes_on_errno: "goes_on T hw b i x w \<Longrightarrow> goes_on T hw b i x (set_errno e w)"
proof -
  assume g: "goes_on T hw b i x w"
  obtain o' off where r: "ready w i o' off w" "geo T hw w" "at_byte T hw b x o' off" using g by (auto simp: goes_on_def)
  from rebase [OF ready_set_errno [OF r(1)] r(2)] show ?thesis using r(3) by (auto simp: goes_on_def)
qed

lemma later_errno: "later w (set_errno e w)"
  by (simp add: later_def set_errno_def)

lemma write_post_nothing: "goes_on T hw b i x w \<Longrightarrow> later u w \<Longrightarrow> write_post T hw b x buf u (- 1) w"
  by (auto simp: write_post_def)

lemma datastream_write_spec:
  assumes "writer w" "w_stream w = Some s" "datastream_write buf w = Some (r, w')"
  shows "write_post (sf_ftag (cur_file s)) (ds_recoveryheaderlen s) (ds_objno s)
    (unat (ds_offset s) - unat (ds_recoveryheaderlen s)) buf w r w'"
proof -
  let ?T = "sf_ftag (cur_file s)" and ?hw = "ds_recoveryheaderlen s" and ?b = "ds_objno s"
  let ?x = "unat (ds_offset s) - unat ?hw"
  note g = writer_goes_on [OF assms(1,2)]
  have refused: "write_post ?T ?hw ?b ?x buf w r w'" if "einval w = Some (r, w')"
    using that write_post_nothing [OF goes_on_errno [OF g(1)] later_errno] by (auto simp: einval_def)
  have c: "creates (ds_type s)" "ds_curfile s < length (ds_files s)" using assms(1,2) by (auto simp: writer_def Let_def)
  have ty: "ds_type s \<noteq> READ_STREAM" "ds_type s \<noteq> EDIT_STREAM" using c(1) by (auto simp: creates_def)
  have f: "file_at (ds_curfile s) s = Some (ds_files s ! ds_curfile s)" using c(2) by (simp add: file_at_def)
  show ?thesis
  proof (cases "length buf > unat SSIZE_MAX \<or> write_refused (ds_type s) (ft_state (sf_ftag (ds_files s ! ds_curfile s)))")
    case True
    then show ?thesis using refused assms(2,3) f ty by (auto simp: datastream_write_def Let_def split: if_splits)
  next
    case False
    then obtain p v where p: "lift_c (gettargets s 0 SEEK_CUR) w = Some (p, v)"
      using assms(2,3) f ty by (auto simp: datastream_write_def bind_eq_Some_conv Let_def)
    note gv = goes_on_lift [OF g(1) p]
    show ?thesis
    proof (cases p)
      case None
      then show ?thesis using False p assms(2,3) f ty write_post_nothing [OF gv] by (auto simp: datastream_write_def Let_def)
    next
      case (Some q)
      then have "gettargets s 0 SEEK_CUR = Inr q" using p by (auto simp: lift_c_def split: sum.splits c_error.splits)
      then have dpo: "dp_dataperobj q = ft_objsize ?T - (ft_recoverybytes ?T + ?hw)" by (rule gettargets_per_obj)
      obtain r2 j w2 where l: "write_loop (dp_dataperobj q) (ds_curfile s) buf 0 v = Some ((r2, j), w2)"
        using False p Some assms(2,3) f ty by (auto simp: datastream_write_def bind_eq_Some_conv Let_def)
      have lp: "loop_post ?T ?hw ?b ?x 0 buf v (r2, j) w2"
        using endsD [OF write_loop_spec [OF g(2) gv(1)] l [unfolded dpo]] .
      have res: "r = r2" "w' = w2"
      proof -
        have "ds_type t \<noteq> EDIT_STREAM" if live: "w_stream w2 = Some t" "j = Some k" for t k
        proof -
          obtain n k2 where "goes_on ?T ?hw ?b k2 (?x + n) w2" using lp live(2) unfolding loop_post_def by auto
          then show ?thesis using live(1) by (auto simp: goes_on_def geo_def creates_def)
        qed
        then show "r = r2" "w' = w2"
          using False p Some assms(2,3) f ty l
          by (auto simp: datastream_write_def bind_eq_Some_conv Let_def split: option.splits if_splits)
      qed
      have "write_post ?T ?hw ?b ?x buf v r w'" using loop_write_post [OF lp] res by simp
      moreover have "obj_size v = obj_size w" using goes_on_size [OF g(1)] goes_on_size [OF gv(1)] by simp
      ultimately show ?thesis
        using later_trans [OF gv(2), of w'] gone_rebase [OF gv(2), of w'] unfolding write_post_def by blast
    qed
  qed
qed


section \<open>The properties\<close>

text \<open>
  C30. What a write stores. Whatever the erasure layer and the metadata calls answer, when \<open>datastream_write\<close> on a
  stream that creates a file and is fit for writing (\<open>writer\<close>: its objects have room for data, the offset lies in
  that room and is what the open object holds) reports \<open>r\<close> bytes, then these are the first \<open>r\<close> bytes of the buffer, and each one was
  accepted by an object of the stream, opened for writing under the name for its number, at the place the geometry
  gives: behind the recovery header, in a row, \<open>per_obj\<close> bytes an object.\<close>

theorem write_stores:
  assumes "writer w" "w_stream w = Some s" "datastream_write buf w = Some (r, w')" "m < nat r"
  shows "nat r \<le> length buf \<and>
    (let tag = sf_ftag (cur_file s); hw = ds_recoveryheaderlen s; x = unat (ds_offset s) - unat hw + m
     in stored (w_env w) (w_trace w') (object_name (tag\<lparr>ft_objno := ds_objno s + of_nat (x div per_obj tag hw)\<rparr>))
          (unat hw + x mod per_obj tag hw) (buf ! m))"
  using datastream_write_spec [OF assms(1-3)] assms(4)
  by (auto simp: write_post_def stored_at_def obj_of_def later_def Let_def)

text \<open>
  C31. Writing keeps the order of a stream. After any write to a stream that creates a file and is fit for writing,
  whatever was answered,
  either the stream was destroyed and the result is -1, or it is fit for the next write: it stands exactly as many
  bytes further as were reported, over the objects in a row, and the open object holds as many bytes as its offset
  says. In both cases no object was written beyond the size that the file's name space gives its objects.\<close>

theorem write_keeps_order:
  assumes "writer w" "w_stream w = Some s" "datastream_write buf w = Some (r, w')"
  shows "within (w_env w') (w_trace w') (unat (ft_objsize (sf_ftag (cur_file s)))) \<and>
    (r = - 1 \<and> w_stream w' = None \<or>
     writer w' \<and> (\<exists>s'. w_stream w' = Some s' \<and>
       at_byte (sf_ftag (cur_file s)) (ds_recoveryheaderlen s) (ds_objno s)
         (unat (ds_offset s) - unat (ds_recoveryheaderlen s) + nat r) (ds_objno s') (ds_offset s')))"
proof -
  note post = datastream_write_spec [OF assms]
  note g = writer_goes_on [OF assms(1,2)]
  show ?thesis
  proof (cases "r = - 1 \<and> gone w w'")
    case True
    then show ?thesis using goes_on_size [OF g(1)] by (simp add: gone_def ended_def)
  next
    case False
    then obtain j where j: "goes_on (sf_ftag (cur_file s)) (ds_recoveryheaderlen s) (ds_objno s) j
        (unat (ds_offset s) - unat (ds_recoveryheaderlen s) + nat r) w'"
      using post unfolding write_post_def by blast
    have "within (w_env w') (w_trace w') (obj_size w')"
      using j writing_ended unfolding goes_on_def ready_def ended_def by blast
    then show ?thesis using goes_on_writer [OF j g(2)] goes_on_size [OF j] by simp
  qed
qed

section \<open>Examples\<close>

definition calm :: "call list \<Rightarrow> call \<Rightarrow> answer" where
  "calm tr c = \<lparr>a_ret = (case c of Ne_write h b \<Rightarrow> int (length b) | _ \<Rightarrow> 0), a_errno = E_OK, a_data = [],
     a_stat = \<lparr>st_ino = 1, st_mode = 420, st_uid = 0, st_gid = 0, st_size = 0, st_atim = (0, 0), st_mtim = (0, 0), st_ctime = 0\<rparr>,
     a_state = zero_state, a_time = (0, 0), a_names = ([], [])\<rparr>"

definition write_tag :: ftag where
  "write_tag = tgt_example_tag\<lparr>ft_objsize := 146\<rparr>"

text \<open>A stream with an open object, which holds the recovery header; four bytes fit an object.\<close>

definition write_world :: world where
  "write_world =
     \<lparr>w_stream = Some \<lparr>ds_type = CREATE_STREAM, ds_ctag = ''c'', ds_streamid = ''s'', ds_ns = tgt_example_ns,
        ds_recoveryheaderlen = 42, ds_fileno = 1, ds_objno = 0, ds_offset = 42, ds_excessoffset = 0, ds_datahandle = Some 0,
        ds_files = [\<lparr>sf_metahandle = Some 0, sf_ftag = write_tag, sf_times = ((0, 0), (0, 0)), sf_dotimes = False\<rparr>],
        ds_curfile = 0, ds_filealloc = 1, ds_finfo = recov_example_finfo 0 ''p'', ds_ftagstr = [], ds_ftagstrsize = 512,
        ds_finfostrlen = 512\<rparr>,
      w_env = calm,
      w_trace = [Ne_write 0 (header_text \<lparr>rh_major = 0, rh_minor = 1, rh_ctag = ''c'', rh_streamid = ''s''\<rparr>),
        Ne_open ''c|s|0'' \<lparr>loc_pod = 0, loc_cap = 1, loc_scatter = 1\<rparr> \<lparr>er_N = 10, er_E = 2, er_O = 5, er_partsz = 1024\<rparr> True],
      w_mem = all_mem, w_allocs = 0, w_errno = E_OK\<rparr>"

lemma write_example: "(case datastream_write ''abc'' write_world of None \<Rightarrow> False | Some (r, w) \<Rightarrow> r = 3)"
  by code_simp

lemma write_world_data:
  "length (object_data calm 0 (w_trace write_world)) = 42" "opened (w_trace write_world) 0 ''c|s|0''"
  by code_simp+

lemma write_world_writer: "writer write_world"
proof -
  obtain c1 c2 where t: "w_trace write_world = [c1, c2]" by (simp add: write_world_def)
  have "length (object_data calm (Suc 0) (w_trace write_world)) = 0" by (simp add: t)
  then have "within calm (w_trace write_world) 146"
    using write_world_data(1) t by (auto simp: within_def less_Suc_eq)
  moreover have "obj_of write_tag 0 = ''c|s|0''" by code_simp
  ultimately show ?thesis
    using write_world_data
    by (simp add: writer_def write_world_def Let_def creates_def cur_file_def fits_def per_obj_def write_tag_def tgt_example_tag_def)
qed


theorem write_stores_witness:
  "\<exists>w'. datastream_write ''abc'' write_world = Some (3, w') \<and> stored calm (w_trace w') ''c|s|0'' 44 (CHR ''c'')"
proof -
  obtain w' where w': "datastream_write ''abc'' write_world = Some (3, w')"
    using write_example by (auto split: option.splits prod.splits)
  obtain s where s: "w_stream write_world = Some s" "ds_recoveryheaderlen s = 42" "ds_offset s = 42" "ds_objno s = 0"
    "sf_ftag (cur_file s) = write_tag"
    by (simp add: write_world_def cur_file_def)
  have p: "per_obj write_tag 42 = 4" by (simp add: per_obj_def write_tag_def tgt_example_tag_def)
  have n: "object_name (write_tag\<lparr>ft_objno := 0\<rparr>) = ''c|s|0''" by code_simp
  have e: "w_env write_world = calm" by (simp add: write_world_def)
  from write_stores [OF write_world_writer s(1) w', of 2] show ?thesis
    using w' by (simp add: s p n e Let_def)
qed

theorem write_keeps_order_witness:
  "\<exists>w' s'. datastream_write ''abc'' write_world = Some (3, w') \<and> writer w' \<and> w_stream w' = Some s' \<and>
     at_byte write_tag 42 0 3 (ds_objno s') (ds_offset s')"
proof -
  obtain w' where w': "datastream_write ''abc'' write_world = Some (3, w')"
    using write_example by (auto split: option.splits prod.splits)
  obtain s where s: "w_stream write_world = Some s" "ds_recoveryheaderlen s = 42" "ds_offset s = 42" "ds_objno s = 0"
    "sf_ftag (cur_file s) = write_tag"
    by (simp add: write_world_def cur_file_def)
  from write_keeps_order [OF write_world_writer s(1) w'] show ?thesis
    using w' by (simp add: s)
qed

end
