(* ===== verification/Spec2Isabelle.thy ===== *)
theory Spec2Isabelle
  imports Ftag Hash Gctag Rtag TQRuns Recovery BlockIO StreamWrite
begin

text \<open>
  A verification library for MarFS, a file system that keeps metadata in a POSIX tree and data in erasure-coded
  objects. All paths below are under \<^verbatim>\<open>src/src/\<close> of the repository.

  \<^bold>\<open>The program.\<close> A user's file becomes part of a data stream (\<^verbatim>\<open>datastream/datastream.c\<close>): its metadata
  is a reference file whose path comes from a hash table (\<^verbatim>\<open>hash/hash.c\<close>) and which carries a file tag as an
  extended attribute (\<^verbatim>\<open>tagging/tagging.c\<close>); its data goes to a row of objects, each with a recovery header in
  front and a recovery message behind the data of each file (\<^verbatim>\<open>recovery/recovery.c\<close>). The erasure layer
  (\<^verbatim>\<open>ne/ne.c\<close>) cuts an object into blocks; each block has a thread (\<^verbatim>\<open>io/iothreads.c\<close>) that is run by a
  thread queue (\<^verbatim>\<open>thread_queue/thread_queue.c\<close>), gets its data through a ring of buffers
  (\<^verbatim>\<open>io/ioqueue.c\<close>) and stores it through a data abstraction (\<^verbatim>\<open>dal/dal.h\<close>, \<^verbatim>\<open>dal/posix_dal.c\<close>)
  together with the metadata of the block (\<^verbatim>\<open>dal/metainfo.c\<close>).

  \<^bold>\<open>The theories.\<close>
  \<^item> \<^theory_text>\<open>Prelude\<close>: C integer types as words, error values, C strings, printing and parsing of numbers,
    \<^verbatim>\<open>snprintf\<close> into a bounded buffer, and the lemmas on them. \<^theory_text>\<open>Codec\<close>: the contract of a printer and
    a parser, a locale that the tags and the recovery messages interpret. \<^theory_text>\<open>General\<close>: the inline helpers of
    \<^verbatim>\<open>general_include\<close>.
  \<^item> \<^theory_text>\<open>Ftag\<close>, \<^theory_text>\<open>Rtag\<close>, \<^theory_text>\<open>Gctag\<close>: the tags of \<^verbatim>\<open>tagging.c\<close> as records, their
    printers and parsers statement by statement, and the names that are made of a file tag. Lemmas: round trips in
    both directions, bounds of the writes, classification and injectivity of the names, the defects of the parser.
  \<^item> \<^theory_text>\<open>Hash\<close>: MurmurHash3 on bytes, the ring of virtual nodes, lookup and iteration. Lemmas: order of the ring
    and number of nodes, correctness of the lookup within bounds, the locale \<^theory_text>\<open>name_table\<close> for direct tables.
  \<^item> \<^theory_text>\<open>ThreadQueue\<close>: the queue, the sections of the two thread bodies between points where the lock is
    released, all calls of a master; the ring as an instance of the locale \<^theory_text>\<open>bounded_fifo\<close>.
    \<^theory_text>\<open>TQThreads\<close>: the system, a step relation in which sections and calls interleave, with the logs of the
    packages that were handed over and received and the set of threads that broadcasts woke; its invariant.
    \<^theory_text>\<open>TQCalls\<close>: the calls that wait for all threads, as instances of the locale \<^theory_text>\<open>thread_loop\<close>.
    \<^theory_text>\<open>TQWake\<close>: the broadcasts at the end of the work. \<^theory_text>\<open>TQRuns\<close>: the properties with concrete runs.
  \<^item> \<^theory_text>\<open>Recovery\<close>: headers and messages, the backward search for the last file of an object, the iterator.
  \<^item> \<^theory_text>\<open>Metainfo\<close>: the text form of a block's metadata. \<^theory_text>\<open>Dal\<close>: the table of operations and its contract,
    the locales \<^theory_text>\<open>block_dal\<close> and \<^theory_text>\<open>exact_dal\<close>. \<^theory_text>\<open>PosixFs\<close>: the part of POSIX that the
    storage code calls, in which any call may fail. \<^theory_text>\<open>PosixDal\<close>: the POSIX abstraction, which interprets the
    contract under arbitrary failures.
  \<^item> \<^theory_text>\<open>IOQueue\<close>: the ring of buffers. \<^theory_text>\<open>IOThreads\<close>: the callbacks of the threads of a block.
    \<^theory_text>\<open>BlockReader\<close>: the invariant of a reader. \<^theory_text>\<open>BlockIO\<close>: from the writer of a block to its reader.
  \<^item> \<^theory_text>\<open>StreamTgt\<close>: paths, names and locations. \<^theory_text>\<open>StreamPos\<close>: the arithmetic of positions.
    \<^theory_text>\<open>StreamWorld\<close>: the stream structure and the calls it issues. \<^theory_text>\<open>StreamFile\<close>,
    \<^theory_text>\<open>StreamObj\<close>, \<^theory_text>\<open>StreamOps\<close>, \<^theory_text>\<open>StreamLife\<close>: all operations of \<^verbatim>\<open>datastream.c\<close> but
    one, on files, on objects, within a file, and on whole streams. \<^theory_text>\<open>StreamFrame\<close>: what these functions leave
    alone. \<^theory_text>\<open>StreamWrite\<close>: what a write stores, and that the stream stays fit for the next one.

  \<^bold>\<open>Conventions.\<close> A struct is a record, with the names of the source behind a prefix; a NULL pointer is \<open>None\<close>.
  Integers are words of their width (LP64) or natural numbers with the wrap-around written out. A failure return is a
  value; \<open>UB\<close> in \<^theory_text>\<open>c_error\<close>, and \<open>None\<close> in the theories of the stream, is undefined behaviour, so that a
  theorem that a function yields a value also says that it stays within its arrays. The parameter \<open>mem\<close>, or the field
  \<open>w_mem\<close>, says which allocations succeed. Log output is left out.

  In the stream theories the metadata and erasure layers are not assumed to do anything: a call gets an arbitrary
  answer that may depend on all calls before, and is noted in a trace, the latest first; a handle is the number of the
  call that returned it. The \<^verbatim>\<open>umask\<close> and the references of the configuration are not part of the world. The
  reference argument \<^verbatim>\<open>stream == NULL\<close> is not modelled.

  \<^bold>\<open>Bounds and fuel.\<close> Loops are recursive functions with a measure where the source bounds them. Two take fuel:
  \<open>read_all\<close>, the loop of a reader's client, for which one round more than the length of the data is proved to be
  enough, and \<open>zero_fill\<close>, the loop of a forward seek in a new stream, which need not end. The options of a thread
  queue are limited to less than 2 ^ 31 slots and less than 2 ^ 31 - 1 threads, lengths of printed texts to \<^verbatim>\<open>INT_MAX\<close>.

  \<^bold>\<open>Assumptions on other code.\<close> The checksum of ISA-L, the data abstraction under the threads and the outcomes of
  locks and thread creation are arguments. Of the data abstraction only the contract of \<^theory_text>\<open>block_dal\<close> is used,
  which \<^theory_text>\<open>PosixDal\<close> proves for the POSIX one.

  \<^bold>\<open>Not modelled.\<close> \<^verbatim>\<open>datastream_repack_cleanup\<close>, the striping of \<^verbatim>\<open>ne.c\<close> over ISA-L, the XML
  configuration, the system calls of the metadata abstraction, the other data abstractions, migration and verification
  of blocks, the interface \<^verbatim>\<open>api/marfs.c\<close> and its FUSE front end, the resource manager, command line tools. Of the
  thread queue, a consumer body that runs on a queue without a consumer pool, as a failed creation of a producer can
  start it, uses a NULL pointer; the model of the bodies presupposes their pool.
\<close>

end
